(* ===== verification/Prelude.thy ===== *)
theory Prelude
  imports Main "HOL-Library.Word"
begin

text \<open>
  Shared vocabulary of the development: the names of the model's basic types, the C idioms
  every component uses (NUL-terminated strings, decimal digits, bounded copies), the lemma
  collections the component proofs rewrite with, and the generic facts on lists and
  characters they share.

  A C string is a \<open>char list\<close> holding the bytes before the terminating NUL. Text that
  comes from a file or from the GUI is a \<open>char list\<close> as well and may contain NUL bytes;
  \<open>cstr\<close> is what a C string function sees of such a buffer.
\<close>

unbundle bit_operations_syntax

named_theorems pd_defs "definitions of the model unfolded by the component proofs"

type_synonym u8 = "8 word"
type_synonym u16 = "16 word"
type_synonym u32 = "32 word"

section \<open>Characters and C strings\<close>

abbreviation NUL :: char where "NUL \<equiv> CHR 0x00"
abbreviation NL :: char where "NL \<equiv> CHR 0x0A"
abbreviation CR :: char where "CR \<equiv> CHR 0x0D"
abbreviation TAB :: char where "TAB \<equiv> CHR 0x09"

definition code :: "char \<Rightarrow> nat" where
  "code c = of_char c"

definition cdigit :: "char \<Rightarrow> bool" where
  "cdigit c \<longleftrightarrow> 48 \<le> code c \<and> code c \<le> 57"

definition digit_char :: "nat \<Rightarrow> char" where
  "digit_char d = char_of (48 + d)"

definition digit_val :: "char \<Rightarrow> nat" where
  "digit_val c = code c - 48"

definition cstr :: "char list \<Rightarrow> char list" where
  "cstr s = takeWhile (\<lambda>c. c \<noteq> NUL) s"

definition cnth :: "char list \<Rightarrow> nat \<Rightarrow> char" where
  "cnth s i = (if i < length s then s ! i else NUL)"

lemma digit_char_cdigit [simp]: "d < 10 \<Longrightarrow> cdigit (digit_char d)"
  by (simp add: cdigit_def digit_char_def code_def)

lemma digit_val_char [simp]: "d < 10 \<Longrightarrow> digit_val (digit_char d) = d"
  by (simp add: digit_val_def digit_char_def code_def)

lemma cdigit_nonspecial:
  assumes "cdigit c"
  shows "c \<noteq> NUL" "c \<noteq> CHR '' ''" "c \<noteq> NL" "c \<noteq> CR" "c \<noteq> TAB" "c \<noteq> CHR '';''" "c \<noteq> CHR '',''"
    "c \<noteq> CHR 0x5C" "c \<noteq> CHR ''$''" "c \<noteq> CHR ''@''" "c \<noteq> CHR ''.''" "c \<noteq> CHR ''-''"
    "c \<noteq> CHR ''+''" "c \<noteq> CHR ''e''" "c \<noteq> CHR ''E''"
  using assms by (auto simp: cdigit_def code_def)

lemma cstr_id [simp]: "NUL \<notin> set s \<Longrightarrow> cstr s = s"
  by (simp add: cstr_def takeWhile_eq_all_conv) metis

lemma cstr_Nil [simp]: "cstr [] = []"
  by (simp add: cstr_def)

lemma cstr_no_nul [simp]: "NUL \<notin> set (cstr s)"
  by (auto simp: cstr_def dest: set_takeWhileD)

section \<open>Lists\<close>

lemma nth_append_length_Cons [simp]: "(xs @ y # ys) ! length xs = y"
  by (simp add: nth_append)

lemma drop_length_append [simp]: "drop (length xs) (xs @ ys) = ys"
  by simp

lemma list_all_takeWhile_eq: "list_all P xs \<Longrightarrow> takeWhile P (xs @ ys) = xs @ takeWhile P ys"
  by (induction xs) auto

lemma list_all_dropWhile_eq: "list_all P xs \<Longrightarrow> dropWhile P (xs @ ys) = dropWhile P ys"
  by (induction xs) auto

lemma dropWhile_Cons_length: "dropWhile P xs = c # t \<Longrightarrow> length t < length xs"
  using length_dropWhile_le [of P xs] by simp

section \<open>Bytes\<close>

lemma or_high_nat: 
  fixes x y :: nat assumes "x < 2 ^ k" shows "x OR (y * 2 ^ k) = x + y * 2 ^ k"
proof -
  have x: "x = take_bit k x" using assms by (simp add: take_bit_nat_eq_self)
  have "x AND push_bit k y = 0"
    by (subst x) (auto simp: bit_eq_iff bit_simps)
  then show ?thesis by (simp add: disjunctive_add_eq_or push_bit_eq_mult)
qed

lemma unat_lead_byte:
  fixes c :: "'a::len word"
  assumes "unat c < 2 ^ k" "m = y * 2 ^ k" "m + 2 ^ k \<le> 256" "8 \<le> LENGTH('a)"
  shows "unat (ucast (c OR of_nat m) :: u8) = unat c + m"
proof -
  have "(0::nat) < 2 ^ k" by simp
  with assms(3) have mm: "m < 256" by linarith
  have "(256::nat) \<le> 2 ^ LENGTH('a)" using assms(4) power_increasing[of 8 "LENGTH('a)" "2::nat"] by simp
  then have m: "unat (of_nat m :: 'a word) = m" using mm
    using assms(4) by (simp add: unsigned_of_nat take_bit_nat_eq_self)
  have "unat (c OR of_nat m) = unat c + m"
    using or_high_nat[OF assms(1), of y] assms(2) m by (simp add: unsigned_or_eq)
  then have "unat (ucast (c OR of_nat m) :: u8) = take_bit 8 (unat c + m)"
    by (simp add: unsigned_ucast_eq)
  also have "\<dots> = unat c + m" using assms by (simp add: take_bit_nat_eq_self)
  finally show ?thesis .
qed

lemma unat_and_3F: "unat ((c::'a::len word) AND 0x3F) = unat c mod 64" if "8 \<le> LENGTH('a)"
proof -
  have "c AND 0x3F = take_bit 6 c"
    by (simp add: take_bit_eq_mask mask_eq_exp_minus_1)
  then have "unat (c AND 0x3F) = unat (take_bit 6 c)" by (simp only:)
  also have "\<dots> = take_bit 6 (unat c)" using that by (simp only: unsigned_take_bit_eq)
  finally show ?thesis by (simp add: take_bit_eq_mod)
qed

lemma unat_cont_byte:
  assumes "8 \<le> LENGTH('a)"
  shows "unat (ucast (((c::'a::len word) AND 0x3F) OR 0x80) :: u8) = unat c mod 64 + 128"
  using unat_lead_byte [of "c AND 0x3F" 6 128 2] assms by (simp add: unat_and_3F)

lemma and_high_nat: "(x :: nat) AND push_bit k (mask n) = push_bit k (take_bit n (drop_bit k x))"
  by (auto simp: bit_eq_iff bit_simps)

lemma byte_and_80: "(b :: u8) AND 0x80 = 0 \<longleftrightarrow> unat b < 128"
proof -
  have "unat (b AND 0x80) = push_bit 7 (take_bit 1 (drop_bit 7 (unat b)))"
    using and_high_nat [of "unat b" 7 1] by (simp add: unsigned_and_eq mask_eq_exp_minus_1)
  also have "\<dots> = 128 * (unat b div 128)"
    using unsigned_less [of b, where 'a=nat] by (simp add: push_bit_eq_mult take_bit_eq_mod drop_bit_eq_div)
  finally show ?thesis by (auto simp: word_unat_eq_iff)
qed

lemma word_nat_div: "k < LENGTH('a) \<Longrightarrow> unat (drop_bit k (c::'a::len word)) = unat c div 2 ^ k"
  using unat_drop_bit_eq [of k c] by (simp only: drop_bit_eq_div)

lemma sextets:
  fixes n :: nat
  shows "4096 * (n div 4096) + (n div 64 mod 64 * 64 + n mod 64) = n"
    "262144 * (n div 262144) + (4096 * (n div 4096 mod 64) + (n div 64 mod 64 * 64 + n mod 64)) = n"
proof -
  define q r where "q = n div 64" and "r = n div 4096"
  have "64 * q + n mod 64 = n" "64 * r + q mod 64 = q" "64 * (n div 262144) + r mod 64 = r"
    using div_mult2_eq [of n 64 64] div_mult2_eq [of n 4096 64]
    by (simp_all add: q_def r_def)
  then show "4096 * (n div 4096) + (n div 64 mod 64 * 64 + n mod 64) = n"
    "262144 * (n div 262144) + (4096 * (n div 4096 mod 64) + (n div 64 mod 64 * 64 + n mod 64)) = n"
    unfolding q_def [symmetric] r_def [symmetric] by linarith+
qed

lemma foldl_Suc: "foldl (\<lambda>n _. Suc n) n xs = n + length xs"
  by (induction xs arbitrary: n) auto

end
