(* ===== verification/Codec.thy ===== *)
theory Codec
  imports Prelude
begin

text \<open>
  The interface between an item encoder and the routine that reads the next item out of a
  byte buffer at an index: \<open>enc\<close> writes an item, \<open>next_item\<close> reads the item that starts at
  an index and returns the index after it. An item is only recognised when what follows it is
  a \<open>boundary\<close> (the start of another item or a terminator), as in the UTF-8 routines, which
  look at the byte after a sequence to find its end. The client loops over a buffer
  (\<open>u8_strlen\<close>, \<open>u8_utf8toucs2\<close>) are proved from \<open>scan\<close>, once for every such codec.
\<close>

locale codec =
  fixes enc :: "'a \<Rightarrow> u8 list"
    and next_item :: "u8 list \<Rightarrow> nat \<Rightarrow> ('a \<times> nat) option"
    and good :: "'a \<Rightarrow> bool"
    and boundary :: "u8 list \<Rightarrow> bool"
  assumes next_enc: "good a \<Longrightarrow> boundary r \<Longrightarrow>
      next_item (p @ enc a @ r) (length p) = Some (a, length p + length (enc a))"
    and boundary_enc: "good a \<Longrightarrow> boundary (enc a @ r)"
    and enc_nonempty: "good a \<Longrightarrow> enc a \<noteq> []"
begin

lemma boundary_concat:
  "list_all good as \<Longrightarrow> boundary r \<Longrightarrow> boundary (concat (map enc as) @ r)"
  by (cases as) (auto simp: boundary_enc)

lemma next_concat:
  assumes "list_all good (a # as)" "boundary r"
  shows "next_item (p @ concat (map enc (a # as)) @ r) (length p) = Some (a, length p + length (enc a))"
  using next_enc [of a "concat (map enc as) @ r" p] boundary_concat [of as r] assms by simp

text \<open>
  A loop over the buffer that consumes one item per iteration runs through a sequence of
  encoded items and ends, at the boundary, with its accumulator folded over them.
\<close>

lemma scan:
  assumes "list_all good as" "boundary r"
    and step: "\<And>i j a acc. a \<in> set as \<Longrightarrow> next_item (p @ concat (map enc as) @ r) i = Some (a, j) \<Longrightarrow>
      i < length p + length (concat (map enc as)) \<Longrightarrow>
      j \<le> length p + length (concat (map enc as)) \<Longrightarrow> L i acc = L j (f acc a)"
  shows "L (length p) acc = L (length p + length (concat (map enc as))) (foldl f acc as)"
  using assms
proof (induction as arbitrary: p acc)
  case Nil
  then show ?case by simp
next
  case (Cons a as)
  have nx: "next_item (p @ concat (map enc (a # as)) @ r) (length p) = Some (a, length p + length (enc a))"
    using Cons.prems(1,2) by (rule next_concat)
  have ne: "enc a \<noteq> []"
    using Cons.prems(1) by (simp add: enc_nonempty)
  have st: "L i acc' = L j (f acc' b)"
    if "b \<in> set as" "next_item ((p @ enc a) @ concat (map enc as) @ r) i = Some (b, j)"
      "i < length (p @ enc a) + length (concat (map enc as))"
      "j \<le> length (p @ enc a) + length (concat (map enc as))" for i j b acc'
    using Cons.prems(3) [of b i j acc'] that by simp
  have "L (length (p @ enc a)) (f acc a) =
      L (length (p @ enc a) + length (concat (map enc as))) (foldl f (f acc a) as)"
    using Cons.prems(1,2) st by (intro Cons.IH) auto
  moreover have "L (length p) acc = L (length p + length (enc a)) (f acc a)"
    using Cons.prems(1) Cons.prems(3) [OF _ nx] ne by auto
  ultimately show ?case by (simp add: add.assoc)
qed

end

end
