(* ===== verification/Utf8.thy ===== *)
theory Utf8
  imports Codec "HOL-Library.Monad_Syntax"
begin

text \<open>
  \<open>src/pd/src/s_utf8.c\<close>: the UTF-8 routines behind the text of object boxes. A \<open>char *\<close> is
  the byte list it points into together with an index; every read goes through \<open>rd\<close>, which is
  \<open>None\<close> outside the object, so a result \<open>Some _\<close> also says that no byte outside the buffer
  was read. Code points are 32-bit words (\<open>uint32_t\<close>), UCS-2 units 16-bit words.
\<close>

section \<open>Tables and single characters\<close>

definition rd :: "'a list \<Rightarrow> nat \<Rightarrow> 'a option" where
  "rd m i = (if i < length m then Some (m ! i) else None)"

definition isutf :: "u8 \<Rightarrow> bool" where
  "isutf c \<longleftrightarrow> c AND 0xC0 \<noteq> 0x80"

definition offsetsFromUTF8 :: "u32 list" where
  "offsetsFromUTF8 = [0x00000000, 0x00003080, 0x000E2080, 0x03C82080, 0xFA082080, 0x82082080]"

definition trailingBytesForUTF8 :: "u8 \<Rightarrow> nat" where
  "trailingBytesForUTF8 b =
     (if b < 192 then 0 else if b < 224 then 1 else if b < 240 then 2
      else if b < 248 then 3 else if b < 252 then 4 else 5)"

definition u8_seqlen :: "u8 list \<Rightarrow> nat option" where
  "u8_seqlen s = map_option (\<lambda>b. trailingBytesForUTF8 b + 1) (rd s 0)"

definition u8_wc_nbytes :: "u32 \<Rightarrow> nat" where
  "u8_wc_nbytes ch =
     (if ch < 0x80 then 1 else if ch < 0x800 then 2 else if ch < 0x10000 then 3
      else if ch < 0x200000 then 4 else 0)"

text \<open>The bytes written to \<open>dest\<close>; the function returns their number.\<close>

definition u8_wc_toutf8 :: "u32 \<Rightarrow> u8 list" where
  "u8_wc_toutf8 ch =
     (if ch < 0x80 then [ucast ch]
      else if ch < 0x800 then
        [ucast (drop_bit 6 ch OR 0xC0), ucast ((ch AND 0x3F) OR 0x80)]
      else if ch < 0x10000 then
        [ucast (drop_bit 12 ch OR 0xE0), ucast ((drop_bit 6 ch AND 0x3F) OR 0x80),
         ucast ((ch AND 0x3F) OR 0x80)]
      else if ch < 0x110000 then
        [ucast (drop_bit 18 ch OR 0xF0), ucast ((drop_bit 12 ch AND 0x3F) OR 0x80),
         ucast ((drop_bit 6 ch AND 0x3F) OR 0x80), ucast ((ch AND 0x3F) OR 0x80)]
      else [])"

definition u8_wc_toutf8_nul :: "u32 \<Rightarrow> u8 list" where
  "u8_wc_toutf8_nul ch = u8_wc_toutf8 ch @ [0]"

section \<open>Reading a buffer\<close>

text \<open>
  The do-while of \<open>u8_nextchar\<close>: it consumes a byte, then continues while the next byte is
  neither NUL nor the start of a sequence. More than six bytes index past the offset table.
\<close>

function nextchar_loop :: "u8 list \<Rightarrow> nat \<Rightarrow> nat \<Rightarrow> u32 \<Rightarrow> (u32 \<times> nat) option" where
  "nextchar_loop s i sz ch =
     (if Suc i < length s then
        let ch' = push_bit 6 ch + ucast (s ! i) in
        if s ! Suc i \<noteq> 0 \<and> \<not> isutf (s ! Suc i) then nextchar_loop s (Suc i) (Suc sz) ch'
        else if sz < length offsetsFromUTF8 then Some (ch' - offsetsFromUTF8 ! sz, Suc i)
        else None
      else None)"
  by pat_completeness auto
termination
  by (relation "measure (\<lambda>(s, i, _). length s - i)") auto

declare nextchar_loop.simps [simp del]

definition u8_nextchar :: "u8 list \<Rightarrow> nat \<Rightarrow> (u32 \<times> nat) option" where
  "u8_nextchar s i = nextchar_loop s i 0 0"

lemma nextchar_loop_index: "nextchar_loop s i sz ch = Some (c, j) \<Longrightarrow> i < j \<and> j < length s"
proof (induction s i sz ch rule: nextchar_loop.induct)
  case (1 s i sz ch)
  then show ?case
    by (subst (asm) (2) nextchar_loop.simps) (auto simp: Let_def split: if_splits)
qed

lemma u8_nextchar_index: "u8_nextchar s i = Some (c, j) \<Longrightarrow> i < j \<and> j < length s"
  unfolding u8_nextchar_def by (rule nextchar_loop_index)

function strlen_loop :: "u8 list \<Rightarrow> nat \<Rightarrow> nat \<Rightarrow> nat option" where
  "strlen_loop s i count =
     (case u8_nextchar s i of
        None \<Rightarrow> None
      | Some (c, j) \<Rightarrow> if c \<noteq> 0 then strlen_loop s j (Suc count) else Some count)"
  by pat_completeness auto
termination
proof (relation "measure (\<lambda>(s, i, _). length s - i)", goal_cases)
  case (2 s i count x c j)
  then show ?case using u8_nextchar_index [of s i c j] by (auto intro: diff_less_mono2)
qed simp

declare strlen_loop.simps [simp del]

definition u8_strlen :: "u8 list \<Rightarrow> nat option" where
  "u8_strlen s = strlen_loop s 0 0"

definition u8_inc :: "u8 list \<Rightarrow> nat \<Rightarrow> nat option" where
  "u8_inc s i =
     do { b \<leftarrow> rd s i;
          if b AND 0x80 = 0 then Some (i + 1)
          else do { b1 \<leftarrow> rd s (i + 1);
            if isutf b1 then Some (i + 1)
            else do { b2 \<leftarrow> rd s (i + 2);
              if isutf b2 then Some (i + 2)
              else do { b3 \<leftarrow> rd s (i + 3);
                Some (if isutf b3 then i + 3 else i + 4) } } } }"

definition rdi :: "'a list \<Rightarrow> int \<Rightarrow> 'a option" where
  "rdi m i = (if 0 \<le> i then rd m (nat i) else None)"

definition u8_dec :: "u8 list \<Rightarrow> int \<Rightarrow> int option" where
  "u8_dec s i =
     do { b1 \<leftarrow> rdi s (i - 1);
          if isutf b1 then Some (i - 1)
          else do { b2 \<leftarrow> rdi s (i - 2);
            if isutf b2 then Some (i - 2)
            else do { b3 \<leftarrow> rdi s (i - 3);
              Some (if isutf b3 then i - 3 else i - 4) } } }"

section \<open>Character numbers and byte offsets\<close>

text \<open>\<open>u8_offset\<close>: the loop over \<open>offs\<close>; \<open>k\<close> counts the bytes left before \<open>bufsize\<close>.\<close>

fun offset_loop :: "u8 list \<Rightarrow> int \<Rightarrow> nat \<Rightarrow> nat \<Rightarrow> nat option" where
  "offset_loop s charnum offs 0 = Some offs"
| "offset_loop s charnum offs (Suc k) =
     (case rd s offs of
        None \<Rightarrow> None
      | Some b \<Rightarrow>
          if isutf b then
            (if charnum \<le> 0 then Some offs else offset_loop s (charnum - 1) (Suc offs) k)
          else offset_loop s charnum (Suc offs) k)"

definition u8_offset :: "u8 list \<Rightarrow> int \<Rightarrow> nat \<Rightarrow> nat option" where
  "u8_offset s charnum bufsize =
     do { b \<leftarrow> rd s 0;
          if isutf b then offset_loop s charnum 0 bufsize else Some 0 }"

fun charnum_loop :: "u8 list \<Rightarrow> nat \<Rightarrow> nat \<Rightarrow> nat \<Rightarrow> nat option" where
  "charnum_loop s charnum i 0 = Some charnum"
| "charnum_loop s charnum i (Suc k) =
     (case rd s i of
        None \<Rightarrow> None
      | Some b \<Rightarrow> charnum_loop s (if isutf b then charnum + 1 else charnum) (Suc i) k)"

definition u8_charnum :: "u8 list \<Rightarrow> nat \<Rightarrow> nat option" where
  "u8_charnum s offset = charnum_loop s 0 0 offset"

section \<open>Conversion from and to UCS-2\<close>

text \<open>
  The body of the loop of \<open>u8_utf8toucs2\<close>: the switch falls through from the case of the
  number of trailing bytes; with four or five trailing bytes no case applies and \<open>src\<close> does
  not move. \<open>uint16_t\<close> arithmetic wraps at 16 bits.
\<close>

definition ucs2_step :: "u8 list \<Rightarrow> nat \<Rightarrow> (u16 \<times> nat) option" where
  "ucs2_step s i =
     do { b \<leftarrow> rd s i;
          let nb = trailingBytesForUTF8 b;
          let off = (ucast (offsetsFromUTF8 ! nb) :: u16);
          if nb = 0 then Some (ucast b - off, i + 1)
          else if nb = 1 then do { b1 \<leftarrow> rd s (i + 1);
            Some (push_bit 6 (ucast b) + ucast b1 - off, i + 2) }
          else if nb = 2 then do { b1 \<leftarrow> rd s (i + 1); b2 \<leftarrow> rd s (i + 2);
            Some (push_bit 6 (push_bit 6 (ucast b) + ucast b1) + ucast b2 - off, i + 3) }
          else if nb = 3 then do { b1 \<leftarrow> rd s (i + 1); b2 \<leftarrow> rd s (i + 2); b3 \<leftarrow> rd s (i + 3);
            Some (push_bit 6 (push_bit 6 (push_bit 6 (ucast b) + ucast b1) + ucast b2) + ucast b3 - off, i + 4) }
          else Some (0 - off, i) }"

text \<open>\<open>k\<close> is \<open>sz - 1 - i\<close>, the room left in \<open>dest\<close>; \<open>srcsz\<close> is \<open>-1\<close> for a NUL-terminated source.\<close>

fun utf8toucs2_loop :: "u8 list \<Rightarrow> int \<Rightarrow> nat \<Rightarrow> nat \<Rightarrow> u16 list \<Rightarrow> u16 list option" where
  "utf8toucs2_loop s srcsz 0 src dest = Some dest"
| "utf8toucs2_loop s srcsz (Suc k) src dest =
     (case rd s src of
        None \<Rightarrow> None
      | Some b \<Rightarrow>
          if (if srcsz = -1 then b = 0 else int src + int (trailingBytesForUTF8 b) \<ge> srcsz)
          then Some dest
          else (case ucs2_step s src of
                  None \<Rightarrow> None
                | Some (ch, src') \<Rightarrow> utf8toucs2_loop s srcsz k src' (dest @ [ch])))"

text \<open>The units written, without the terminating 0; the function returns their number.\<close>

definition u8_utf8toucs2 :: "int \<Rightarrow> u8 list \<Rightarrow> int \<Rightarrow> u16 list option" where
  "u8_utf8toucs2 sz s srcsz = utf8toucs2_loop s srcsz (nat (sz - 1)) 0 []"

definition ucs2_bytes :: "u16 \<Rightarrow> u8 list" where
  "ucs2_bytes ch =
     (if ch < 0x80 then [ucast ch]
      else if ch < 0x800 then
        [ucast (drop_bit 6 ch OR 0xC0), ucast ((ch AND 0x3F) OR 0x80)]
      else
        [ucast (drop_bit 12 ch OR 0xE0), ucast ((drop_bit 6 ch AND 0x3F) OR 0x80),
         ucast ((ch AND 0x3F) OR 0x80)])"

text \<open>
  \<open>u8_ucs2toutf8\<close>: the bytes written to a destination of \<open>sz\<close> bytes (with the NUL when it is
  written) and the number of characters converted. Each character is written only when the
  destination has room for all of its bytes.
\<close>

function ucs2toutf8_loop :: "nat \<Rightarrow> u16 list \<Rightarrow> int \<Rightarrow> nat \<Rightarrow> u8 list \<Rightarrow> (u8 list \<times> nat) option" where
  "ucs2toutf8_loop sz src srcsz i dest =
     (if srcsz \<ge> 0 \<and> \<not> int i < srcsz then
        Some (if length dest < sz then dest @ [0] else dest, i)
      else if i < length src then
        (if srcsz < 0 \<and> src ! i = 0 then
           Some (if length dest < sz then dest @ [0] else dest, i)
         else if length dest + length (ucs2_bytes (src ! i)) > sz then Some (dest, i)
         else ucs2toutf8_loop sz src srcsz (Suc i) (dest @ ucs2_bytes (src ! i)))
      else None)"
  by pat_completeness auto
termination
  by (relation "measure (\<lambda>(sz, src, srcsz, i, dest). length src - i)") auto

declare ucs2toutf8_loop.simps [simp del]

definition u8_ucs2toutf8 :: "nat \<Rightarrow> u16 list \<Rightarrow> int \<Rightarrow> (u8 list \<times> nat) option" where
  "u8_ucs2toutf8 sz src srcsz = ucs2toutf8_loop sz src srcsz 0 []"

section \<open>Well-formed sequences\<close>

lemma isutf_unat: "isutf b \<longleftrightarrow> unat b div 64 \<noteq> 2"
proof -
  have "unat (b AND 0xC0) = push_bit 6 (take_bit 2 (drop_bit 6 (unat b)))"
    using and_high_nat [of "unat b" 6 2] by (simp add: unsigned_and_eq mask_eq_exp_minus_1)
  also have "\<dots> = 64 * (unat b div 64)"
    using unsigned_less [of b, where 'a=nat] by (simp add: push_bit_eq_mult take_bit_eq_mod drop_bit_eq_div)
  finally have "unat (b AND 0xC0) = 64 * (unat b div 64)" .
  then show ?thesis by (auto simp: isutf_def word_unat_eq_iff)
qed

definition u8_cont :: "u8 \<Rightarrow> bool" where
  "u8_cont b \<longleftrightarrow> b \<noteq> 0 \<and> \<not> isutf b"

definition u8_boundary :: "u8 list \<Rightarrow> bool" where
  "u8_boundary r \<longleftrightarrow> (case r of [] \<Rightarrow> False | b # _ \<Rightarrow> \<not> u8_cont b)"

lemma u8_cont_unat: "u8_cont b \<longleftrightarrow> unat b div 64 = 2"
  by (auto simp: u8_cont_def isutf_unat word_unat_eq_iff)

lemma cont_byte [simp]: "8 \<le> LENGTH('a) \<Longrightarrow> u8_cont (ucast (((c::'a::len word) AND 0x3F) OR 0x80))"
  by (simp add: u8_cont_unat unat_cont_byte)

lemma ucast_nat: "(ucast (b::u8) :: 'a::len word) = of_nat (unat b)"
  by simp

lemma nextchar_loop_conts:
  assumes "list_all u8_cont bs" "u8_boundary r"
  shows "nextchar_loop (p @ b # bs @ r) (length p) sz ch =
    (if sz + length bs < 6 then
       Some (foldl (\<lambda>ch b. push_bit 6 ch + ucast b) ch (b # bs) - offsetsFromUTF8 ! (sz + length bs),
         length p + Suc (length bs))
     else None)"
  using assms
proof (induction bs arbitrary: p b sz ch)
  case Nil
  then obtain x r' where "r = x # r'" "\<not> u8_cont x" by (auto simp: u8_boundary_def split: list.splits)
  then show ?case
    by (subst nextchar_loop.simps) (auto simp: nth_append Let_def u8_cont_def offsetsFromUTF8_def)
next
  case (Cons b' bs)
  have "nextchar_loop (p @ b # (b' # bs) @ r) (length p) sz ch =
      nextchar_loop ((p @ [b]) @ b' # bs @ r) (length (p @ [b])) (Suc sz) (push_bit 6 ch + ucast b)"
    using Cons.prems by (subst nextchar_loop.simps) (simp add: nth_append Let_def u8_cont_def)
  also have "\<dots> = (if Suc sz + length bs < 6 then
       Some (foldl (\<lambda>ch b. push_bit 6 ch + ucast b) (push_bit 6 ch + ucast b) (b' # bs)
          - offsetsFromUTF8 ! (Suc sz + length bs), length (p @ [b]) + Suc (length bs)) else None)"
    using Cons.prems by (intro Cons.IH) auto
  finally show ?case by simp
qed

lemma foldl_bytes:
  "foldl (\<lambda>ch b. push_bit 6 ch + ucast b) (of_nat n) bs =
    (of_nat (foldl (\<lambda>n b. n * 64 + unat b) n bs) :: 'a::len word)"
proof (induction bs arbitrary: n)
  case (Cons b bs)
  have "push_bit 6 (of_nat n) + ucast b = (of_nat (n * 64 + unat b) :: 'a word)"
    by (simp add: push_bit_eq_mult)
  with Cons.IH show ?case by (simp only: foldl_Cons)
qed simp

lemma u8_wc_toutf8_shape:
  assumes "c < 0x110000"
  obtains b bs where "u8_wc_toutf8 c = b # bs" "isutf b" "list_all u8_cont bs" "length bs < 4"
    "foldl (\<lambda>n b. n * 64 + unat b) 0 (b # bs) = unat c + unat (offsetsFromUTF8 ! length bs)"
    "unat b < 128 \<longleftrightarrow> bs = []"
proof -
  consider "c < 0x80" | "\<not> c < 0x80" "c < 0x800" | "\<not> c < 0x80" "\<not> c < 0x800" "c < 0x10000"
    | "\<not> c < 0x80" "\<not> c < 0x800" "\<not> c < 0x10000" using assms by blast
  then show ?thesis
  proof cases
    case 1
    then have "unat c < 128" by (simp add: word_less_nat_alt)
    then have "unat (ucast c :: u8) = unat c" by (simp add: unsigned_ucast_eq take_bit_nat_eq_self)
    with 1 \<open>unat c < 128\<close> show ?thesis
      by (intro that [of "ucast c" "[]"]) (simp_all add: u8_wc_toutf8_def offsetsFromUTF8_def isutf_unat)
  next
    case 2
    then have c: "unat c < 2048" by (simp add: word_less_nat_alt)
    define b where "b = (ucast (drop_bit 6 c OR 0xC0) :: u8)"
    have b: "unat b = unat c div 64 + 192" 
      using unat_lead_byte [of "drop_bit 6 c" 5 192 6] c by (simp add: b_def word_nat_div del: drop_bit_eq_div)
    show ?thesis using 2 c 
      by (intro that [of b "[ucast ((c AND 0x3F) OR 0x80)]"])
       (simp_all add: u8_wc_toutf8_def b_def[symmetric] offsetsFromUTF8_def isutf_unat b unat_cont_byte)
  next
    case 3
    then have c: "unat c < 65536" by (simp add: word_less_nat_alt)
    define b where "b = (ucast (drop_bit 12 c OR 0xE0) :: u8)"
    have b: "unat b = unat c div 4096 + 224" 
      using unat_lead_byte [of "drop_bit 12 c" 4 224 14] c by (simp add: b_def word_nat_div del: drop_bit_eq_div)
    show ?thesis using 3 c 
      by (intro that [of b "[ucast ((drop_bit 6 c AND 0x3F) OR 0x80), ucast ((c AND 0x3F) OR 0x80)]"])
       (simp_all add: u8_wc_toutf8_def b_def[symmetric] offsetsFromUTF8_def isutf_unat b unat_cont_byte word_nat_div sextets del: drop_bit_eq_div)
  next
    case 4
    then have c: "unat c < 1114112" using assms by (simp add: word_less_nat_alt)
    define b where "b = (ucast (drop_bit 18 c OR 0xF0) :: u8)"
    have b: "unat b = unat c div 262144 + 240" 
      using unat_lead_byte [of "drop_bit 18 c" 3 240 30] c by (simp add: b_def word_nat_div del: drop_bit_eq_div)
    show ?thesis using 4 c assms
      by (intro that [of b "[ucast ((drop_bit 12 c AND 0x3F) OR 0x80), ucast ((drop_bit 6 c AND 0x3F) OR 0x80), ucast ((c AND 0x3F) OR 0x80)]"])
       (simp_all add: u8_wc_toutf8_def b_def[symmetric] offsetsFromUTF8_def isutf_unat b unat_cont_byte word_nat_div sextets del: drop_bit_eq_div)
  qed
qed

abbreviation u8_char :: "u32 \<Rightarrow> bool" where
  "u8_char c \<equiv> c < 0x110000"

lemma nextchar_toutf8:
  assumes "u8_char c" "u8_boundary r"
  shows "u8_nextchar (p @ u8_wc_toutf8 c @ r) (length p) = Some (c, length p + length (u8_wc_toutf8 c))"
proof -
  obtain b bs where sh: "u8_wc_toutf8 c = b # bs" "list_all u8_cont bs" "length bs < 4"
    "foldl (\<lambda>n b. n * 64 + unat b) 0 (b # bs) = unat c + unat (offsetsFromUTF8 ! length bs)"
    using assms(1) by (rule u8_wc_toutf8_shape)
  have "foldl (\<lambda>ch b. push_bit 6 ch + ucast b) 0 (b # bs) = c + offsetsFromUTF8 ! length bs"
    using foldl_bytes [of 0 "b # bs", where 'a=32] unfolding sh(4) by simp
  then show ?thesis
    using nextchar_loop_conts [OF sh(2) assms(2), of p b 0 0] sh(1,3) by (simp add: u8_nextchar_def)
qed

lemma toutf8_boundary:
  assumes "u8_char c" shows "u8_boundary (u8_wc_toutf8 c @ r)"
  using u8_wc_toutf8_shape [OF assms] by (metis append_Cons list.simps(5) u8_boundary_def u8_cont_def)

lemma toutf8_nonempty: "u8_char c \<Longrightarrow> u8_wc_toutf8 c \<noteq> []"
  by (metis list.distinct(1) u8_wc_toutf8_shape)

interpretation u8: codec u8_wc_toutf8 u8_nextchar u8_char u8_boundary
  by unfold_locales (auto simp: nextchar_toutf8 toutf8_boundary toutf8_nonempty)

abbreviation u8_encode :: "u32 list \<Rightarrow> u8 list" where
  "u8_encode cs \<equiv> concat (map u8_wc_toutf8 cs)"

lemma strlen_scan:
  assumes "list_all (\<lambda>c. u8_char c \<and> c \<noteq> 0) cs"
  shows "u8_strlen (u8_encode cs @ 0 # r) = strlen_loop (u8_encode cs @ 0 # r) (length (u8_encode cs)) (length cs)"
proof -
  have b: "u8_boundary (0 # r)" by (simp add: u8_boundary_def u8_cont_def)
  have "strlen_loop (u8_encode cs @ 0 # r) (length ([] :: u8 list)) 0 =
      strlen_loop (u8_encode cs @ 0 # r) (length ([] :: u8 list) + length (u8_encode cs)) (foldl (\<lambda>n _. Suc n) 0 cs)"
    by (rule u8.scan [where p = "[]" and r = "0 # r" and f = "\<lambda>n _. Suc n"
          and L = "strlen_loop (u8_encode cs @ 0 # r)", OF _ b])
       (use assms in \<open>auto simp: list_all_iff strlen_loop.simps\<close>)
  then show ?thesis by (simp add: u8_strlen_def foldl_Suc)
qed

lemma strlen_encode:
  assumes "list_all (\<lambda>c. u8_char c \<and> c \<noteq> 0) cs" "\<not> u8_cont b"
  shows "u8_strlen (u8_encode cs @ 0 # b # r) = Some (length cs)"
proof -
  have "u8_nextchar (u8_encode cs @ u8_wc_toutf8 0 @ b # r) (length (u8_encode cs)) = Some (0, length (u8_encode cs) + 1)"
    using nextchar_toutf8 [of 0 "b # r" "u8_encode cs"] assms(2) by (simp add: u8_boundary_def u8_wc_toutf8_def)
  then show ?thesis
    using strlen_scan [OF assms(1), of "b # r"] by (simp add: strlen_loop.simps u8_wc_toutf8_def)
qed

lemma strlen_reads_past_nul:
  assumes "list_all (\<lambda>c. u8_char c \<and> c \<noteq> 0) cs"
  shows "u8_strlen (u8_encode cs @ [0]) = None"
  using strlen_scan [OF assms, of "[]"]
  by (simp add: strlen_loop.simps u8_nextchar_def nextchar_loop.simps)

lemma inc_toutf8:
  assumes "u8_char c" "u8_boundary r"
  shows "u8_inc (p @ u8_wc_toutf8 c @ r) (length p) = Some (length p + length (u8_wc_toutf8 c))"
proof -
  obtain b bs where sh: "u8_wc_toutf8 c = b # bs" "list_all u8_cont bs" "length bs < 4"
    "unat b < 128 \<longleftrightarrow> bs = []"
    using assms(1) by (rule u8_wc_toutf8_shape)
  obtain x r' where r: "r = x # r'" "x = 0 \<or> isutf x" using assms(2) by (auto simp: u8_boundary_def u8_cont_def split: list.splits)
  then have x: "isutf x" by (auto simp: isutf_def)
  consider "bs = []" | b1 where "bs = [b1]" | b1 b2 where "bs = [b1, b2]" | b1 b2 b3 where "bs = [b1, b2, b3]"
    using sh(3) by (auto simp: numeral_eq_Suc less_Suc_eq_le le_Suc_eq length_Suc_conv)
  then show ?thesis
    using sh(2,4) x
    by cases (auto simp: sh(1) r(1) u8_inc_def rd_def byte_and_80 nth_append u8_cont_def)
qed

lemma dec_toutf8:
  assumes "u8_char c"
  shows "u8_dec (p @ u8_wc_toutf8 c @ r) (int (length p + length (u8_wc_toutf8 c))) = Some (int (length p))"
proof -
  obtain b bs where sh: "u8_wc_toutf8 c = b # bs" "isutf b" "list_all u8_cont bs" "length bs < 4"
    using assms(1) by (rule u8_wc_toutf8_shape)
  consider "bs = []" | b1 where "bs = [b1]" | b1 b2 where "bs = [b1, b2]" | b1 b2 b3 where "bs = [b1, b2, b3]"
    using sh(4) by (auto simp: numeral_eq_Suc less_Suc_eq_le le_Suc_eq length_Suc_conv)
  then show ?thesis
    using sh(2,3)
    by cases (auto simp: sh(1) u8_dec_def rdi_def rd_def nth_append u8_cont_def nat_add_distrib nat_diff_distrib)
qed

section \<open>Offsets and UCS-2\<close>

definition u8_starts :: "u8 list \<Rightarrow> nat" where
  "u8_starts s = length (filter isutf s)"

lemma charnum_loop_count:
  "i + k \<le> length s \<Longrightarrow> charnum_loop s n i k = Some (n + u8_starts (take k (drop i s)))"
proof (induction s n i k rule: charnum_loop.induct)
  case (2 s n i k)
  then show ?case by (auto simp: rd_def u8_starts_def take_Suc_conv_app_nth[symmetric] Cons_nth_drop_Suc[symmetric])
qed (simp add: u8_starts_def)

lemma charnum_count: "n \<le> length s \<Longrightarrow> u8_charnum s n = Some (u8_starts (take n s))"
  by (simp add: u8_charnum_def charnum_loop_count)

lemma offset_loop_count:
  assumes "i + k \<le> length s"
  shows "\<exists>j. offset_loop s c i k = Some (i + j) \<and> j \<le> k \<and> (j = k \<or> isutf (s ! (i + j))) \<and>
    u8_starts (take j (drop i s)) = min (nat c) (u8_starts (take k (drop i s)))"
  using assms
proof (induction s c i k rule: offset_loop.induct)
  case (2 s c i k)
  have dr: "drop i s = s ! i # drop (Suc i) s" using 2(3) by (simp add: Cons_nth_drop_Suc)
  show ?case
  proof (cases "isutf (s ! i) \<and> c \<le> 0")
    case True
    then show ?thesis using 2(3) by (intro exI [of _ 0]) (simp add: rd_def u8_starts_def)
  next
    case False
    define c' where "c' = (if isutf (s ! i) then c - 1 else c)"
    have "\<exists>j. offset_loop s c' (Suc i) k = Some (Suc i + j) \<and> j \<le> k \<and>
        (j = k \<or> isutf (s ! (Suc i + j))) \<and>
        u8_starts (take j (drop (Suc i) s)) = min (nat c') (u8_starts (take k (drop (Suc i) s)))"
      using 2 False by (auto simp: c'_def rd_def)
    then obtain j where j: "offset_loop s c' (Suc i) k = Some (Suc i + j)" "j \<le> k"
        "j = k \<or> isutf (s ! (Suc i + j))"
        "u8_starts (take j (drop (Suc i) s)) = min (nat c') (u8_starts (take k (drop (Suc i) s)))"
      by blast
    then show ?thesis using 2(3) False
      by (intro exI [of _ "Suc j"]) (auto simp: rd_def u8_starts_def dr c'_def nat_diff_distrib)
  qed
qed (simp add: u8_starts_def)

lemma offset_charnum:
  assumes "n \<le> length s" "s \<noteq> []" "isutf (hd s)"
  shows "\<exists>j. u8_offset s k n = Some j \<and> j \<le> n \<and> (j = n \<or> isutf (s ! j)) \<and>
    u8_charnum s j = Some (min (nat k) (u8_starts (take n s)))"
  using offset_loop_count [of 0 n s k] assms
  by (auto simp: u8_offset_def rd_def hd_conv_nth charnum_count)

lemma ucs2_step_bytes: "ucs2_step (p @ ucs2_bytes c @ r) (length p) = Some (c, length p + length (ucs2_bytes c))"
proof -
  consider "c < 0x80" | "\<not> c < 0x80" "c < 0x800" | "\<not> c < 0x80" "\<not> c < 0x800" by blast
  then show ?thesis
  proof cases
    case 1
    then have c: "unat c < 128" by (simp add: word_less_nat_alt)
    then have u: "unat (ucast c :: u8) = unat c" by (simp add: unsigned_ucast_eq take_bit_nat_eq_self)
    have "(ucast (ucast c :: u8) :: u16) = of_nat (unat (ucast c :: u8))" by simp
    also have "\<dots> = c" by (simp only: u of_nat_unat ucast_id)
    finally show ?thesis using 1 c u
      by (simp add: ucs2_step_def ucs2_bytes_def rd_def nth_append trailingBytesForUTF8_def word_less_nat_alt offsetsFromUTF8_def)
  next
    case 2
    then have c: "unat c < 2048" by (simp add: word_less_nat_alt)
    define b where "b = (ucast (drop_bit 6 c OR 0xC0) :: u8)"
    define b1 where "b1 = (ucast ((c AND 0x3F) OR 0x80) :: u8)"
    have b: "unat b = unat c div 64 + 192" 
      using unat_lead_byte [of "drop_bit 6 c" 5 192 6] c by (simp add: b_def word_nat_div del: drop_bit_eq_div)
    have b1: "unat b1 = unat c mod 64 + 128" by (simp add: b1_def unat_cont_byte)
    have "push_bit 6 (ucast b) + ucast b1 = (of_nat (unat b * 64 + unat b1) :: u16)"
      by (simp add: push_bit_eq_mult)
    also have "unat b * 64 + unat b1 = unat c + 12416" by (simp add: b b1)
    finally have "push_bit 6 (ucast b) + ucast b1 = c + 12416" by simp
    moreover have "unat c div 64 < 32" using c by (simp add: less_mult_imp_div_less)
    ultimately show ?thesis using 2 c b
      by (simp add: ucs2_step_def ucs2_bytes_def b_def[symmetric] b1_def[symmetric] rd_def nth_append
          trailingBytesForUTF8_def word_less_nat_alt offsetsFromUTF8_def)
  next
    case 3
    have c: "unat c < 65536" using unsigned_less [of c, where 'a=nat] by simp
    define b where "b = (ucast (drop_bit 12 c OR 0xE0) :: u8)"
    define b1 where "b1 = (ucast ((drop_bit 6 c AND 0x3F) OR 0x80) :: u8)"
    define b2 where "b2 = (ucast ((c AND 0x3F) OR 0x80) :: u8)"
    have b: "unat b = unat c div 4096 + 224" 
      using unat_lead_byte [of "drop_bit 12 c" 4 224 14] c by (simp add: b_def word_nat_div del: drop_bit_eq_div)
    have b1: "unat b1 = unat c div 64 mod 64 + 128" by (simp add: b1_def unat_cont_byte word_nat_div del: drop_bit_eq_div)
    have b2: "unat b2 = unat c mod 64 + 128" by (simp add: b2_def unat_cont_byte)
    have "push_bit 6 (push_bit 6 (ucast b) + ucast b1) + ucast b2 = (of_nat ((unat b * 64 + unat b1) * 64 + unat b2) :: u16)"
      by (simp add: push_bit_eq_mult)
    also have "(unat b * 64 + unat b1) * 64 + unat b2 = unat c + 925824"
      using sextets(1) [of "unat c"] by (simp add: b b1 b2)
    finally have "push_bit 6 (push_bit 6 (ucast b) + ucast b1) + ucast b2 = c + 925824" by simp
    moreover have "unat c div 4096 < 16" using c by (simp add: less_mult_imp_div_less)
    ultimately show ?thesis using 3 c b
      by (simp add: ucs2_step_def ucs2_bytes_def b_def[symmetric] b1_def[symmetric] b2_def[symmetric] rd_def nth_append
          trailingBytesForUTF8_def word_less_nat_alt offsetsFromUTF8_def)
  qed
qed

lemma ucs2_bytes_nonempty [simp]: "ucs2_bytes c \<noteq> []"
  by (simp add: ucs2_bytes_def)

interpretation ucs2: codec ucs2_bytes ucs2_step "\<lambda>_. True" "\<lambda>_. True"
  by unfold_locales (auto simp: ucs2_step_bytes)


abbreviation ucs2_encode :: "u16 list \<Rightarrow> u8 list" where
  "ucs2_encode us \<equiv> concat (map ucs2_bytes us)"

lemma ucs2_bytes_hd: "c \<noteq> 0 \<Longrightarrow> hd (ucs2_bytes c) \<noteq> 0"
proof -
  assume nz: "c \<noteq> 0"
  have c: "unat c < 65536" using unsigned_less [of c, where 'a=nat] by simp
  consider "unat c < 128" | "128 \<le> unat c" "unat c < 2048" | "2048 \<le> unat c" by linarith
  then show ?thesis
  proof cases
    case 1
    then have "unat (ucast c :: u8) = unat c" by (simp add: unsigned_ucast_eq take_bit_nat_eq_self)
    with 1 nz show ?thesis by (simp add: ucs2_bytes_def word_less_nat_alt word_unat_eq_iff)
  next
    case 2
    then have "unat (ucast (drop_bit 6 c OR 0xC0) :: u8) = unat c div 64 + 192"
      using unat_lead_byte [of "drop_bit 6 c" 5 192 6] by (simp add: word_nat_div del: drop_bit_eq_div)
    with 2 show ?thesis by (simp add: ucs2_bytes_def word_less_nat_alt word_unat_eq_iff del: drop_bit_eq_div)
  next
    case 3
    then have "unat (ucast (drop_bit 12 c OR 0xE0) :: u8) = unat c div 4096 + 224"
      using unat_lead_byte [of "drop_bit 12 c" 4 224 14] c by (simp add: word_nat_div del: drop_bit_eq_div)
    with 3 show ?thesis by (simp add: ucs2_bytes_def word_less_nat_alt word_unat_eq_iff del: drop_bit_eq_div)
  qed
qed

lemma utf8toucs2_loop_encode:
  assumes "list_all (\<lambda>c. c \<noteq> 0) us" "length us \<le> k"
  shows "utf8toucs2_loop (p @ ucs2_encode us @ r) (-1) k (length p) d =
    utf8toucs2_loop (p @ ucs2_encode us @ r) (-1) (k - length us) (length p + length (ucs2_encode us)) (d @ us)"
  using assms
proof (induction us arbitrary: p k d)
  case (Cons c us)
  then obtain k' where k: "k = Suc k'" by (cases k) auto
  obtain b bs where cb: "ucs2_bytes c = b # bs" by (cases "ucs2_bytes c") auto
  have b: "b \<noteq> 0" using ucs2_bytes_hd [of c] cb Cons.prems(1) by simp
  have "ucs2_step (p @ ucs2_encode (c # us) @ r) (length p) = Some (c, length p + length (ucs2_bytes c))"
    using ucs2.next_concat [where a = c and as = us and r = r and p = p] by (simp add: list_all_iff)
  then have "utf8toucs2_loop (p @ ucs2_encode (c # us) @ r) (-1) k (length p) d =
      utf8toucs2_loop ((p @ ucs2_bytes c) @ ucs2_encode us @ r) (-1) k' (length (p @ ucs2_bytes c)) (d @ [c])"
    using b by (simp add: k cb rd_def nth_append)
  also have "\<dots> = utf8toucs2_loop ((p @ ucs2_bytes c) @ ucs2_encode us @ r) (-1) (k' - length us)
      (length (p @ ucs2_bytes c) + length (ucs2_encode us)) ((d @ [c]) @ us)"
    using Cons.prems by (intro Cons.IH) (auto simp: k)
  finally show ?case by (simp add: k add.assoc)
qed simp

lemma utf8toucs2_encode:
  assumes "list_all (\<lambda>c. c \<noteq> 0) us" "int (length us) < sz"
  shows "u8_utf8toucs2 sz (ucs2_encode us @ 0 # r) (-1) = Some us"
proof -
  have "length us \<le> nat (sz - 1)" using assms(2) by linarith
  then have "u8_utf8toucs2 sz (ucs2_encode us @ 0 # r) (-1) =
      utf8toucs2_loop (ucs2_encode us @ 0 # r) (-1) (nat (sz - 1) - length us) (length (ucs2_encode us)) us"
    using utf8toucs2_loop_encode [OF assms(1), of "nat (sz - 1)" "[]" "0 # r" "[]"] by (simp add: u8_utf8toucs2_def)
  also have "\<dots> = Some us"
    by (cases "nat (sz - 1) - length us") (simp_all add: rd_def)
  finally show ?thesis .
qed

lemma ucs2toutf8_loop_spec:
  assumes "ucs2toutf8_loop sz src srcsz i d = Some (d', n)" "length d \<le> sz" "d = ucs2_encode (take i src)" "i \<le> length src"
  shows "length d' \<le> sz \<and> i \<le> n \<and> n \<le> length src \<and>
    (d' = ucs2_encode (take n src) \<or> d' = ucs2_encode (take n src) @ [0])"
  using assms
proof (induction sz src srcsz i d rule: ucs2toutf8_loop.induct)
  case (1 sz src srcsz i d)
  let ?stop = "(srcsz \<ge> 0 \<and> \<not> int i < srcsz) \<or> (srcsz < 0 \<and> i < length src \<and> src ! i = 0)"
  have eq: "ucs2toutf8_loop sz src srcsz i d = Some (d', n)" by (rule "1.prems"(1))
  consider (stop) "?stop" "Some (if length d < sz then d @ [0] else d, i) = Some (d', n)"
    | (full) "d' = d" "n = i"
    | (step) "\<not> (srcsz \<ge> 0 \<and> \<not> int i < srcsz)" "i < length src" "\<not> (srcsz < 0 \<and> src ! i = 0)"
        "\<not> length d + length (ucs2_bytes (src ! i)) > sz"
        "ucs2toutf8_loop sz src srcsz (Suc i) (d @ ucs2_bytes (src ! i)) = Some (d', n)"
    using eq unfolding ucs2toutf8_loop.simps [of sz src srcsz i d] by (simp split: if_splits)
  then show ?case
  proof cases
    case stop
    then show ?thesis using "1.prems"(2-4) by (auto split: if_splits)
  next
    case full
    then show ?thesis using "1.prems"(2-4) by simp
  next
    case step
    have "length d' \<le> sz \<and> Suc i \<le> n \<and> n \<le> length src \<and>
        (d' = ucs2_encode (take n src) \<or> d' = ucs2_encode (take n src) @ [0])"
      using step "1.prems"(3) by (intro "1.IH") (auto simp: take_Suc_conv_app_nth)
    then show ?thesis by simp
  qed
qed

lemma ucs2toutf8_all:
  assumes "list_all (\<lambda>c. c \<noteq> 0) (drop i us)" "i \<le> length us" "length (d @ ucs2_encode (drop i us)) < sz"
  shows "ucs2toutf8_loop sz (us @ 0 # r) (-1) i d = Some (d @ ucs2_encode (drop i us) @ [0], length us)"
  using assms
proof (induction "length us - i" arbitrary: i d)
  case 0
  then show ?case by (subst ucs2toutf8_loop.simps) (simp add: nth_append)
next
  case (Suc k)
  then have i: "i < length us" by simp
  have dr: "drop i us = us ! i # drop (Suc i) us" using i by (simp add: Cons_nth_drop_Suc)
  have "ucs2toutf8_loop sz (us @ 0 # r) (-1) i d = ucs2toutf8_loop sz (us @ 0 # r) (-1) (Suc i) (d @ ucs2_bytes (us ! i))"
    using Suc.prems i by (subst ucs2toutf8_loop.simps) (auto simp: nth_append dr)
  also have "\<dots> = Some ((d @ ucs2_bytes (us ! i)) @ ucs2_encode (drop (Suc i) us) @ [0], length us)"
    using Suc.prems Suc.hyps(2) i by (intro Suc.hyps(1)) (auto simp: dr)
  finally show ?case by (simp add: dr)
qed

section \<open>Properties\<close>

text \<open>C37: encoding a Unicode scalar value with \<open>u8_wc_toutf8\<close> and reading it back with
  \<open>u8_nextchar\<close> at that place, whatever stands before it and whatever sequence start or NUL
  follows it, gives the same code point and moves the index just past its bytes.\<close>

theorem u8_roundtrip:
  assumes "c < 0x110000" and "u8_boundary r"
  shows "u8_nextchar (p @ u8_wc_toutf8 c @ r) (length p) = Some (c, length p + length (u8_wc_toutf8 c))"
  using u8.next_enc assms by simp

theorem u8_roundtrip_witness:
  "u8_nextchar ([0x41] @ u8_wc_toutf8 0x20AC @ [0x42, 0]) 1 = Some (0x20AC, 1 + length (u8_wc_toutf8 0x20AC))"
  using u8_roundtrip [of "0x20AC" "[0x42, 0]" "[0x41]"]
  by (simp add: u8_boundary_def u8_cont_def isutf_def)

text \<open>\<open>u8_strlen\<close> of a string of encoded code points counts the code points, provided
  one more byte can be read after the terminating NUL and does not look like a continuation
  byte.\<close>

theorem u8_strlen_counts:
  assumes "list_all (\<lambda>c. c < 0x110000 \<and> c \<noteq> 0) cs" and "b = 0 \<or> isutf b"
  shows "u8_strlen (u8_encode cs @ 0 # b # r) = Some (length cs)"
  using strlen_encode [OF assms(1), of b r] assms(2) by (auto simp: u8_cont_def)

theorem u8_strlen_counts_witness:
  "u8_strlen (u8_encode [0x41, 0xE9, 0x20AC, 0x1F600] @ 0 # 0x20 # []) = Some 4"
  using u8_strlen_counts [of "[0x41, 0xE9, 0x20AC, 0x1F600]" "0x20" "[]"] by (simp add: isutf_def)

text \<open>On a string whose buffer ends with its terminating NUL, \<open>u8_strlen\<close> always reads
  outside the buffer: \<open>u8_nextchar\<close> looks at the byte after the NUL before it returns.\<close>

theorem u8_strlen_overreads:
  assumes "list_all (\<lambda>c. c < 0x110000 \<and> c \<noteq> 0) cs"
  shows "u8_strlen (u8_encode cs @ [0]) = None"
  using assms by (rule strlen_reads_past_nul)

theorem u8_strlen_overreads_witness: "u8_strlen (u8_encode [0x70, 0x64] @ [0]) = None"
  using u8_strlen_overreads [of "[0x70, 0x64]"] by simp

text \<open>\<open>u8_inc\<close> moves from the first byte of an encoded character to the byte after it, and
  \<open>u8_dec\<close> moves back.\<close>

theorem u8_inc_dec:
  assumes "c < 0x110000" and "u8_boundary r"
  shows "u8_inc (p @ u8_wc_toutf8 c @ r) (length p) = Some (length p + length (u8_wc_toutf8 c)) \<and>
    u8_dec (p @ u8_wc_toutf8 c @ r) (int (length p + length (u8_wc_toutf8 c))) = Some (int (length p))"
  using inc_toutf8 dec_toutf8 assms by blast

theorem u8_inc_dec_witness:
  "u8_inc ([0x41] @ u8_wc_toutf8 0xE9 @ [0]) 1 = Some (1 + length (u8_wc_toutf8 0xE9)) \<and>
   u8_dec ([0x41] @ u8_wc_toutf8 0xE9 @ [0]) (int (1 + length (u8_wc_toutf8 0xE9))) = Some 1"
  using u8_inc_dec [of "0xE9" "[0]" "[0x41]"] by (simp add: u8_boundary_def u8_cont_def)

text \<open>C38: \<open>u8_offset\<close> and \<open>u8_charnum\<close> agree on every buffer that starts a character, well
  formed or not: the byte offset of character \<open>k\<close> lies in the first \<open>n\<close> bytes, is \<open>n\<close> or
  starts a character, and has exactly \<open>k\<close> characters (or all there are) before it.\<close>

theorem u8_offset_charnum:
  assumes "n \<le> length s" and "s \<noteq> []" and "isutf (hd s)"
  shows "\<exists>j. u8_offset s k n = Some j \<and> j \<le> n \<and> (j = n \<or> isutf (s ! j)) \<and>
    u8_charnum s j = Some (min (nat k) (length (filter isutf (take n s))))"
  using offset_charnum [OF assms] by (simp add: u8_starts_def)

theorem u8_offset_charnum_witness:
  "\<exists>j. u8_offset [0x41, 0xC3, 0xA9, 0x42] 2 4 = Some j \<and> j \<le> 4 \<and> (j = 4 \<or> isutf ([0x41, 0xC3, 0xA9, 0x42] ! j)) \<and>
    u8_charnum [0x41, 0xC3, 0xA9, 0x42] j =
      Some (min (nat 2) (length (filter isutf (take 4 [0x41, 0xC3, 0xA9, 0x42]))))"
  by (rule u8_offset_charnum) (simp_all add: isutf_def)

text \<open>UCS-2 text survives the conversion to UTF-8 and back when both destinations are large
  enough, surrogates included (each is converted as a unit of its own).\<close>

theorem ucs2_utf8_roundtrip:
  assumes "list_all (\<lambda>c. c \<noteq> 0) us" and "length (ucs2_encode us) < n" and "int (length us) < sz"
  shows "\<exists>d. u8_ucs2toutf8 n (us @ 0 # r) (-1) = Some (d, length us) \<and> u8_utf8toucs2 sz d (-1) = Some us"
  using ucs2toutf8_all [of 0 us "[]" n r] utf8toucs2_encode [OF assms(1,3), of "[]"] assms(1,2)
  by (simp add: u8_ucs2toutf8_def)

theorem ucs2_utf8_roundtrip_witness:
  "\<exists>d. u8_ucs2toutf8 16 ([0x41, 0xE9, 0x20AC] @ 0 # []) (-1) = Some (d, 3) \<and>
     u8_utf8toucs2 8 d (-1) = Some [0x41, 0xE9, 0x20AC]"
  using ucs2_utf8_roundtrip [of "[0x41, 0xE9, 0x20AC]" 16 8 "[]"] by (simp add: ucs2_bytes_def numeral_3_eq_3)

text \<open>\<open>u8_ucs2toutf8\<close> never writes more than \<open>sz\<close> bytes, whatever the source; what it
  writes is the encoding of a whole number of source units (the number it returns), with or
  without the terminating NUL.\<close>

theorem ucs2toutf8_bounded:
  assumes "u8_ucs2toutf8 n src srcsz = Some (d, i)"
  shows "length d \<le> n \<and> i \<le> length src \<and>
    (d = ucs2_encode (take i src) \<or> d = ucs2_encode (take i src) @ [0])"
  using ucs2toutf8_loop_spec [of n src srcsz 0 "[]" d i] assms by (simp add: u8_ucs2toutf8_def)

theorem ucs2toutf8_bounded_witness:
  "u8_ucs2toutf8 3 [0x41, 0x20AC] 2 = Some ([0x41], 1) \<and> length [0x41 :: u8] \<le> 3"
proof -
  have "u8_ucs2toutf8 3 [0x41, 0x20AC] 2 = Some ([0x41], 1)"
    by (simp add: u8_ucs2toutf8_def ucs2toutf8_loop.simps ucs2_bytes_def)
  from this conjunct1 [OF ucs2toutf8_bounded [OF this]] show ?thesis by (rule conjI)
qed

end
