(* ===== verification/CFloat.thy ===== *)
theory CFloat
  imports Prelude Complex_Main
begin

text \<open>
  What the modelled code uses of C's floating point: \<open>t_float\<close> is an IEEE 754 single
  (\<open>PD_FLOATSIZE == 32\<close>, \<open>src/pd/src/m_pd.h\<close>), clock times are doubles. A finite value is its
  rational number; arithmetic is exact rational arithmetic followed by rounding to the nearest
  representable value, ties to even. The theory also holds the two conversions of the C library
  that the text format of patches rests on: \<open>atof\<close> on decimal numbers and \<open>printf\<close> with \<open>%g\<close>.
\<close>

section \<open>Values and rounding\<close>

datatype cfloat = FFin rat | FNegZero | FInf bool | FNaN

type_synonym t_float = cfloat

text \<open>\<open>ilog b n\<close> is the integer part of the logarithm of \<open>n\<close> to the base \<open>b\<close>.\<close>

function ilog :: "nat \<Rightarrow> nat \<Rightarrow> nat" where
  "ilog b n = (if b < 2 \<or> n < b then 0 else Suc (ilog b (n div b)))"
  by pat_completeness auto
termination
  by (relation "measure (\<lambda>(b, n). n)") auto

declare ilog.simps [simp del]

definition pow :: "nat \<Rightarrow> int \<Rightarrow> rat" where
  "pow b k = (if 0 \<le> k then of_nat b ^ nat k else 1 / of_nat b ^ nat (- k))"

text \<open>The \<open>k\<close> with \<open>b ^ k \<le> x < b ^ (k + 1)\<close>, for positive \<open>x\<close>.\<close>

definition floor_log :: "nat \<Rightarrow> rat \<Rightarrow> int" where
  "floor_log b x =
     (if 1 \<le> x then int (ilog b (nat \<lfloor>x\<rfloor>))
      else let q = nat \<lceil>1 / x\<rceil> in if q \<le> 1 then 0 else - int (Suc (ilog b (q - 1))))"

text \<open>Round to the nearest integer, ties to even.\<close>

definition rhe :: "rat \<Rightarrow> int" where
  "rhe x = (let f = \<lfloor>x\<rfloor>; r = x - of_int f in
     if r < 1 / 2 then f else if r > 1 / 2 then f + 1 else if even f then f else f + 1)"

text \<open>Rounding a non-negative rational to \<open>p\<close> significant bits with least exponent \<open>emin\<close>.\<close>

definition fround :: "nat \<Rightarrow> int \<Rightarrow> rat \<Rightarrow> rat" where
  "fround p emin x =
     (if x = 0 then 0
      else let e = max (floor_log 2 x - int p + 1) emin in of_int (rhe (x / pow 2 e)) * pow 2 e)"

definition to_fmt :: "nat \<Rightarrow> int \<Rightarrow> nat \<Rightarrow> bool \<Rightarrow> rat \<Rightarrow> cfloat" where
  "to_fmt p emin emax neg x =
     (let r = fround p emin x in
      if r \<ge> 2 ^ emax then FInf neg
      else if r = 0 then (if neg then FNegZero else FFin 0)
      else FFin (if neg then - r else r))"

definition to_single :: "bool \<Rightarrow> rat \<Rightarrow> cfloat" where
  "to_single = to_fmt 24 (-149) 128"

definition to_double :: "bool \<Rightarrow> rat \<Rightarrow> cfloat" where
  "to_double = to_fmt 53 (-1074) 1024"

text \<open>The conversions \<open>(float)d\<close>, \<open>(float)n\<close> and \<open>(int)f\<close>. A value outside the range of \<open>int\<close>
  (where C leaves the result undefined) gives \<open>INT_MIN\<close>, as the conversion instruction of x86-64 does.\<close>

definition single_of_double :: "cfloat \<Rightarrow> cfloat" where
  "single_of_double d = (case d of FFin x \<Rightarrow> to_single (x < 0) \<bar>x\<bar> | _ \<Rightarrow> d)"

definition float_of_int :: "int \<Rightarrow> cfloat" where
  "float_of_int n = to_single (n < 0) (of_int \<bar>n\<bar>)"

definition int_of_float :: "cfloat \<Rightarrow> int" where
  "int_of_float f =
     (case f of
        FFin x \<Rightarrow> (let t = (if 0 \<le> x then \<lfloor>x\<rfloor> else \<lceil>x\<rceil>) in
                    if - (2 ^ 31) \<le> t \<and> t < 2 ^ 31 then t else - (2 ^ 31))
      | FNegZero \<Rightarrow> 0
      | _ \<Rightarrow> - (2 ^ 31))"

definition float_neg :: "cfloat \<Rightarrow> bool" where
  "float_neg f = (case f of FFin x \<Rightarrow> x < 0 | FNegZero \<Rightarrow> False | FInf neg \<Rightarrow> neg | FNaN \<Rightarrow> False)"

section \<open>Comparison and arithmetic\<close>

definition fval :: "t_float \<Rightarrow> rat" where
  "fval f = (case f of FFin x \<Rightarrow> x | _ \<Rightarrow> 0)"

definition feq :: "t_float \<Rightarrow> t_float \<Rightarrow> bool" where
  "feq a b = (case (a, b) of
     (FNaN, _) \<Rightarrow> False | (_, FNaN) \<Rightarrow> False
   | (FInf s, FInf t) \<Rightarrow> s = t | (FInf _, _) \<Rightarrow> False | (_, FInf _) \<Rightarrow> False
   | _ \<Rightarrow> fval a = fval b)"

definition flt :: "t_float \<Rightarrow> t_float \<Rightarrow> bool" where
  "flt a b = (case (a, b) of
     (FNaN, _) \<Rightarrow> False | (_, FNaN) \<Rightarrow> False
   | (FInf s, FInf t) \<Rightarrow> s \<and> \<not> t | (FInf s, _) \<Rightarrow> s | (_, FInf t) \<Rightarrow> \<not> t
   | _ \<Rightarrow> fval a < fval b)"

definition fadd :: "t_float \<Rightarrow> t_float \<Rightarrow> t_float" where
  "fadd a b = (case (a, b) of
     (FNaN, _) \<Rightarrow> FNaN | (_, FNaN) \<Rightarrow> FNaN
   | (FInf s, FInf t) \<Rightarrow> if s = t then FInf s else FNaN | (FInf s, _) \<Rightarrow> FInf s | (_, FInf t) \<Rightarrow> FInf t
   | (FNegZero, FNegZero) \<Rightarrow> FNegZero
   | _ \<Rightarrow> to_single (fval a + fval b < 0) \<bar>fval a + fval b\<bar>)"

definition fsign :: "t_float \<Rightarrow> bool" where
  "fsign a = (case a of FFin x \<Rightarrow> x < 0 | FNegZero \<Rightarrow> True | FInf s \<Rightarrow> s | FNaN \<Rightarrow> False)"

definition is_inf :: "t_float \<Rightarrow> bool" where
  "is_inf a = (case a of FInf s \<Rightarrow> True | _ \<Rightarrow> False)"

definition is_zero :: "t_float \<Rightarrow> bool" where
  "is_zero a = (case a of FFin x \<Rightarrow> x = 0 | FNegZero \<Rightarrow> True | _ \<Rightarrow> False)"

definition fmul :: "t_float \<Rightarrow> t_float \<Rightarrow> t_float" where
  "fmul a b =
     (if a = FNaN \<or> b = FNaN \<or> is_inf a \<and> is_zero b \<or> is_zero a \<and> is_inf b then FNaN
      else if is_inf a \<or> is_inf b then FInf (fsign a \<noteq> fsign b)
      else to_single (fsign a \<noteq> fsign b) \<bar>fval a * fval b\<bar>)"

definition fdiv :: "t_float \<Rightarrow> t_float \<Rightarrow> t_float" where
  "fdiv a b =
     (if a = FNaN \<or> b = FNaN \<or> is_inf a \<and> is_inf b \<or> is_zero a \<and> is_zero b then FNaN
      else if is_inf a \<or> is_zero b then FInf (fsign a \<noteq> fsign b)
      else if is_inf b then to_single (fsign a \<noteq> fsign b) 0
      else to_single (fsign a \<noteq> fsign b) \<bar>fval a / fval b\<bar>)"

section \<open>Decimal output\<close>

fun dec_digits :: "nat \<Rightarrow> nat list" where
  "dec_digits n = (if n < 10 then [n] else dec_digits (n div 10) @ [n mod 10])"

declare dec_digits.simps [simp del]

definition show_nat :: "nat \<Rightarrow> string" where
  "show_nat n = map digit_char (dec_digits n)"

text \<open>\<open>printf\<close> with \<open>%d\<close>.\<close>

definition show_int :: "int \<Rightarrow> string" where
  "show_int n = (if n < 0 then CHR ''-'' # show_nat (nat (- n)) else show_nat (nat n))"

text \<open>The significand (\<open>P\<close> digits) and the decimal exponent of \<open>%e\<close> with precision \<open>P - 1\<close>.\<close>

definition sci :: "nat \<Rightarrow> rat \<Rightarrow> nat \<times> int" where
  "sci P x =
     (let X = floor_log 10 x; m = nat (rhe (x / pow 10 (X - int P + 1))) in
      if m = 10 ^ P then (10 ^ (P - 1), X + 1) else (m, X))"

definition frac_part :: "string \<Rightarrow> string" where
  "frac_part s =
     (case rev (dropWhile (\<lambda>c. c = CHR ''0'') (rev s)) of [] \<Rightarrow> [] | t \<Rightarrow> CHR ''.'' # t)"

definition fmt_g :: "nat \<Rightarrow> rat \<Rightarrow> string" where
  "fmt_g P x =
     (let (m, X) = sci P x; ds = show_nat m in
      if X < -4 \<or> X \<ge> int P then
        hd ds # frac_part (tl ds) @ CHR ''e'' # (if X < 0 then CHR ''-'' else CHR ''+'') #
          (if \<bar>X\<bar> < 10 then [CHR ''0''] else []) @ show_nat (nat \<bar>X\<bar>)
      else if 0 \<le> X then take (Suc (nat X)) ds @ frac_part (drop (Suc (nat X)) ds)
      else CHR ''0'' # frac_part (replicate (nat (- X - 1)) (CHR ''0'') @ ds))"

text \<open>\<open>printf\<close> with \<open>%.Pg\<close>; the sign of a NaN is not modelled.\<close>

definition print_g :: "nat \<Rightarrow> cfloat \<Rightarrow> string" where
  "print_g P f =
     (case f of
        FFin x \<Rightarrow> if x = 0 then ''0'' else if x < 0 then CHR ''-'' # fmt_g P (- x) else fmt_g P x
      | FNegZero \<Rightarrow> ''-0''
      | FInf neg \<Rightarrow> if neg then ''-inf'' else ''inf''
      | FNaN \<Rightarrow> ''nan'')"

section \<open>Decimal input\<close>

definition dec_val :: "string \<Rightarrow> nat" where
  "dec_val s = foldl (\<lambda>n c. 10 * n + digit_val c) 0 s"

definition isspace :: "char \<Rightarrow> bool" where
  "isspace c \<longleftrightarrow> c = CHR '' '' \<or> (9 \<le> code c \<and> code c \<le> 13)"

definition split_sign :: "string \<Rightarrow> bool \<times> string" where
  "split_sign s = (case s of [] \<Rightarrow> (False, []) | c # t \<Rightarrow>
     if c = CHR ''-'' then (True, t) else if c = CHR ''+'' then (False, t) else (False, s))"

definition exp_part :: "string \<Rightarrow> int" where
  "exp_part s = (case s of [] \<Rightarrow> 0 | c # t \<Rightarrow>
     if c = CHR ''e'' \<or> c = CHR ''E'' then
       (let (neg, u) = split_sign t; n = int (dec_val (takeWhile cdigit u)) in if neg then - n else n)
     else 0)"

text \<open>
  \<open>atof\<close> on the decimal forms (optional space and sign, digits, fraction, exponent); the
  hexadecimal, infinity and NaN forms of \<open>strtod\<close> never reach it from the tokeniser.
\<close>

definition atof :: "string \<Rightarrow> cfloat" where
  "atof s =
     (let (neg, s1) = split_sign (dropWhile isspace s);
          ip = takeWhile cdigit s1;
          r1 = dropWhile cdigit s1;
          fp = (case r1 of c # t \<Rightarrow> if c = CHR ''.'' then takeWhile cdigit t else [] | [] \<Rightarrow> []);
          r2 = (case r1 of c # t \<Rightarrow> if c = CHR ''.'' then dropWhile cdigit t else r1 | [] \<Rightarrow> [])
      in if ip = [] \<and> fp = [] then FFin 0
         else to_double neg (of_nat (dec_val (ip @ fp)) * pow 10 (exp_part r2 - int (length fp))))"

text \<open>\<open>SETFLOAT(ap, atof(buf))\<close>: the double is stored in a \<open>t_float\<close>.\<close>

definition float_atof :: "string \<Rightarrow> t_float" where
  "float_atof s = single_of_double (atof s)"

text \<open>\<open>strtol\<close> in base 10: the value and the number of characters consumed (0 when there is no number).\<close>

definition strtol :: "string \<Rightarrow> int \<times> nat" where
  "strtol s =
     (let sp = takeWhile isspace s; (neg, t) = split_sign (dropWhile isspace s);
          ds = takeWhile cdigit t; n = int (dec_val ds)
      in if ds = [] then (0, 0)
         else (max (- (2 ^ 63)) (min (2 ^ 63 - 1) (if neg then - n else n)),
               length s - length (dropWhile cdigit t)))"

text \<open>The conversion of a \<open>long\<close> to an \<open>int\<close>, and \<open>atoi\<close>, which is \<open>(int)strtol(s, 0, 10)\<close>.\<close>

definition int_cast :: "int \<Rightarrow> int" where
  "int_cast n = (n + 2 ^ 31) mod 2 ^ 32 - 2 ^ 31"

definition atoi :: "string \<Rightarrow> int" where
  "atoi s = int_cast (fst (strtol s))"

lemma int_cast_small: "0 \<le> n \<Longrightarrow> n < 2 ^ 31 \<Longrightarrow> int_cast n = n"
  by (simp add: int_cast_def)

section \<open>Integers are represented exactly\<close>

lemma ilog_bounds:
  assumes "2 \<le> b" "1 \<le> n"
  shows "b ^ ilog b n \<le> n \<and> n < b ^ Suc (ilog b n)"
  using assms
proof (induction b n rule: ilog.induct)
  case (1 b n)
  show ?case
  proof (cases "n < b")
    case True
    with 1 show ?thesis by (simp add: ilog.simps [of b n])
  next
    case False
    with 1 have "b ^ ilog b (n div b) \<le> n div b" "n div b < b ^ Suc (ilog b (n div b))"
      by (auto simp: div_greater_zero_iff Suc_le_eq)
    with False 1(2) show ?thesis
      by (auto simp: ilog.simps [of b n] less_eq_div_iff_mult_less_eq div_less_iff_less_mult mult.commute)
  qed
qed

lemma ilog_less: "2 \<le> b \<Longrightarrow> 1 \<le> n \<Longrightarrow> n < b ^ k \<Longrightarrow> ilog b n < k"
  using ilog_bounds [of b n] by (meson le_less_trans nat_power_less_imp_less pos2 order_less_le_trans)

lemma floor_log_nat: "1 \<le> n \<Longrightarrow> floor_log b (of_nat n) = int (ilog b n)"
  by (simp add: floor_log_def)

lemma rhe_of_int [simp]: "rhe (of_int n) = n"
  by (simp add: rhe_def)

lemma fround_nat:
  assumes "n < 2 ^ p" "emin \<le> 0"
  shows "fround p emin (of_nat n) = of_nat n"
proof (cases "n = 0")
  case False
  define e where "e = max (floor_log 2 (of_nat n) - int p + 1) emin"
  have "ilog 2 n < p" using assms False by (intro ilog_less) auto
  then have e: "e \<le> 0" using False assms(2) by (simp add: e_def floor_log_nat)
  have "of_nat n / pow 2 e = (of_int (int n * 2 ^ nat (- e)) :: rat)"
    using e by (cases "e = 0") (auto simp: pow_def)
  then have "rhe (of_nat n / pow 2 e) = int n * 2 ^ nat (- e)" by (simp only: rhe_of_int)
  then show ?thesis using False e
    by (cases "e = 0") (auto simp: fround_def e_def [symmetric] Let_def pow_def)
qed (simp add: fround_def)

lemma to_fmt_nat:
  assumes "n < 2 ^ p" "emin \<le> 0" "p \<le> emax" "n \<noteq> 0 \<or> \<not> neg"
  shows "to_fmt p emin emax neg (of_nat n) = FFin (if neg then - of_nat n else of_nat n)"
proof -
  have "(of_nat n :: rat) < 2 ^ emax"
  proof -
    have "n < 2 ^ emax" using assms(1,3) by (meson less_le_trans one_le_numeral power_increasing)
    then have "(of_nat n :: rat) < of_nat (2 ^ emax)" by (simp only: of_nat_less_iff)
    then show ?thesis by simp
  qed
  then show ?thesis using assms by (auto simp: to_fmt_def fround_nat Let_def)
qed

lemma to_single_nat:
  "n < 2 ^ 24 \<Longrightarrow> n \<noteq> 0 \<or> \<not> neg \<Longrightarrow> to_single neg (of_nat n) = FFin (if neg then - of_nat n else of_nat n)"
  unfolding to_single_def by (rule to_fmt_nat) auto

lemma to_double_nat:
  assumes "n < 2 ^ 24" "n \<noteq> 0 \<or> \<not> neg"
  shows "to_double neg (of_nat n) = FFin (if neg then - of_nat n else of_nat n)"
proof -
  have "(2::nat) ^ 24 \<le> 2 ^ 53" by (rule power_increasing) auto
  then have "n < 2 ^ 53" using assms(1) by (rule less_le_trans [rotated])
  then show ?thesis unfolding to_double_def using assms(2) by (intro to_fmt_nat) auto
qed

lemma float_of_int_exact: "\<bar>n\<bar> < 2 ^ 24 \<Longrightarrow> float_of_int n = FFin (of_int n)"
  using to_single_nat [of "nat \<bar>n\<bar>" "n < 0"]
  by (cases "n < 0") (auto simp: float_of_int_def nat_less_iff)

lemma int_of_float_int: "- (2 ^ 31) \<le> n \<Longrightarrow> n < 2 ^ 31 \<Longrightarrow> int_of_float (FFin (of_int n)) = n"
  by (simp add: int_of_float_def)

section \<open>Decimal digits\<close>

lemma dec_digits_bound: "d \<in> set (dec_digits n) \<Longrightarrow> d < 10"
proof (induction n rule: dec_digits.induct)
  case (1 n)
  then show ?case by (subst (asm) (2) dec_digits.simps) (auto split: if_splits)
qed

lemma dec_digits_nonempty [simp]: "dec_digits n \<noteq> []"
  by (subst dec_digits.simps) simp

lemma length_dec_digits: "length (dec_digits n) = Suc (ilog 10 n)"
proof (induction n rule: dec_digits.induct)
  case (1 n)
  then show ?case by (simp add: dec_digits.simps [of n] ilog.simps [of 10 n])
qed

lemma digit_char_0 [simp]: "digit_char 0 = CHR ''0''"
  by code_simp

lemma dec_digits_times10: "0 < n \<Longrightarrow> dec_digits (n * 10 ^ j) = dec_digits n @ replicate j 0"
proof (induction j)
  case (Suc j)
  have "dec_digits (n * 10 ^ Suc j) = dec_digits (n * 10 ^ j) @ [0]"
    using Suc.prems by (subst dec_digits.simps) simp
  with Suc show ?case by (simp add: replicate_append_same)
qed simp

lemma show_nat_digits: "list_all cdigit (show_nat n)"
  by (auto simp: show_nat_def list_all_iff dec_digits_bound)

lemma show_nat_nonempty [simp]: "show_nat n \<noteq> []"
  by (simp add: show_nat_def)

lemma length_show_nat: "length (show_nat n) = Suc (ilog 10 n)"
  by (simp add: show_nat_def length_dec_digits)

lemma dec_digits_len: "n < 10 ^ k \<Longrightarrow> 1 \<le> k \<Longrightarrow> length (show_nat n) \<le> k"
proof (cases "n = 0")
  case False
  assume "n < 10 ^ k" "1 \<le> k"
  with False ilog_less [of 10 n k] show ?thesis by (simp add: length_show_nat)
qed (simp add: length_show_nat ilog.simps)

lemma dec_val_append: "dec_val (xs @ ys) = foldl (\<lambda>n c. 10 * n + digit_val c) (dec_val xs) ys"
  by (simp add: dec_val_def)

lemma dec_val_show [simp]: "dec_val (show_nat n) = n"
proof (induction n rule: dec_digits.induct)
  case (1 n)
  show ?case
  proof (cases "n < 10")
    case True
    then show ?thesis by (simp add: show_nat_def dec_digits.simps dec_val_def)
  next
    case False
    then have "show_nat n = show_nat (n div 10) @ [digit_char (n mod 10)]"
      by (simp add: show_nat_def dec_digits.simps [of n])
    with False 1 show ?thesis by (simp add: dec_val_append)
  qed
qed

lemma takeWhile_digits:
  "list_all cdigit xs \<Longrightarrow> takeWhile cdigit xs = xs" "list_all cdigit xs \<Longrightarrow> dropWhile cdigit xs = []"
  by (auto simp: list_all_iff)

lemma dropWhile_isspace_digit: "list_all cdigit xs \<Longrightarrow> dropWhile isspace xs = xs"
  by (cases xs) (auto simp: isspace_def cdigit_def code_def)

lemma split_sign_digits: "list_all cdigit xs \<Longrightarrow> split_sign xs = (False, xs)"
  by (cases xs) (auto simp: split_sign_def cdigit_nonspecial)

lemma cdigit_isspace: "cdigit c \<Longrightarrow> \<not> isspace c"
  by (auto simp: isspace_def cdigit_def code_def)

lemma atof_digits:
  assumes "list_all cdigit ds" "ds \<noteq> []" "dec_val ds < 2 ^ 24"
  shows "atof ds = FFin (of_nat (dec_val ds))"
  using assms to_double_nat [of "dec_val ds" False]
  by (simp add: atof_def dropWhile_isspace_digit split_sign_digits takeWhile_digits exp_part_def pow_def)

lemma atof_minus_digits:
  assumes "list_all cdigit ds" "ds \<noteq> []" "0 < dec_val ds" "dec_val ds < 2 ^ 24"
  shows "atof (CHR ''-'' # ds) = FFin (- of_nat (dec_val ds))"
  using assms to_double_nat [of "dec_val ds" True]
  by (simp add: atof_def isspace_def code_def split_sign_def takeWhile_digits exp_part_def pow_def)

lemma float_atof_show_int:
  assumes "\<bar>n\<bar> < 2 ^ 24"
  shows "float_atof (show_int n) = FFin (of_int n)"
proof (cases "n < 0")
  case True
  then have "atof (show_int n) = FFin (- of_nat (nat (- n)))"
    using atof_minus_digits [of "show_nat (nat (- n))"] assms
    by (simp add: show_int_def show_nat_digits nat_less_iff)
  then have "atof (show_int n) = FFin (of_int n)" using True by simp
  then show ?thesis using True assms to_single_nat [of "nat (- n)" True]
    by (simp add: float_atof_def single_of_double_def nat_less_iff)
next
  case False
  then have "atof (show_int n) = FFin (of_nat (nat n))"
    using atof_digits [of "show_nat (nat n)"] assms
    by (simp add: show_int_def show_nat_digits nat_less_iff)
  then show ?thesis using False assms to_single_nat [of "nat n" False]
    by (simp add: float_atof_def single_of_double_def nat_less_iff)
qed

section \<open>Printing integers\<close>

lemma frac_part_zeros [simp]: "frac_part (replicate j (CHR ''0'')) = []"
  by (simp add: frac_part_def)

lemma fmt_g_nat:
  assumes "0 < n" "n < 10 ^ 6"
  shows "fmt_g 6 (of_nat n) = show_nat n"
proof -
  define k where "k = ilog 10 n"
  have k: "k < 6" unfolding k_def using assms by (intro ilog_less) auto
  have lt: "n < 10 ^ Suc k" unfolding k_def using ilog_bounds [of 10 n] assms by simp
  have "of_nat n / pow 10 (int k - 6 + 1) = (of_int (int (n * 10 ^ (5 - k))) :: rat)"
    using k by (auto simp: pow_def nat_diff_distrib' of_nat_diff)
  then have m: "rhe (of_nat n / pow 10 (int k - 6 + 1)) = int (n * 10 ^ (5 - k))"
    by (simp only: rhe_of_int)
  have "n * 10 ^ (5 - k) < 10 ^ Suc k * 10 ^ (5 - k)" using lt by simp
  also have "\<dots> = (10 ^ 6 :: nat)" using k by (simp flip: power_add power_Suc)
  finally have small: "n * 10 ^ (5 - k) < 10 ^ 6" .
  have nn: "nat (int n * 10 ^ (5 - k)) = n * 10 ^ (5 - k)"
    by (simp add: nat_mult_distrib nat_power_eq)
  have s: "sci 6 (of_nat n) = (n * 10 ^ (5 - k), int k)"
    using assms(1) m small nn by (simp add: sci_def floor_log_nat k_def [symmetric] Let_def)
  have d: "show_nat (n * 10 ^ (5 - k)) = show_nat n @ replicate (5 - k) (CHR ''0'')"
    using assms(1) by (simp add: show_nat_def dec_digits_times10)
  have "length (show_nat n) = Suc k" by (simp add: length_show_nat k_def)
  then show ?thesis using k by (simp add: fmt_g_def s d)
qed

lemma print_g_int:
  assumes "\<bar>n\<bar> < 10 ^ 6"
  shows "print_g 6 (FFin (of_int n)) = show_int n"
proof -
  consider "n = 0" | "n < 0" | "0 < n" by linarith
  then show ?thesis
  proof cases
    case 1
    then show ?thesis by (simp add: print_g_def show_int_def show_nat_def dec_digits.simps)
  next
    case 2
    then show ?thesis using assms fmt_g_nat [of "nat (- n)"]
      by (simp add: print_g_def show_int_def nat_less_iff)
  next
    case 3
    then show ?thesis using assms fmt_g_nat [of "nat n"]
      by (simp add: print_g_def show_int_def nat_less_iff)
  qed
qed

section \<open>The lexical shape of printed floats\<close>

text \<open>Every finite value prints as a decimal number: a sign, digits, a fraction, an exponent.\<close>

definition decimal :: "string \<Rightarrow> bool" where
  "decimal s \<longleftrightarrow> (\<exists>sg ip fp ex. s = sg @ ip @ fp @ ex \<and> sg \<in> {[], ''-''} \<and>
     list_all cdigit ip \<and> ip \<noteq> [] \<and>
     (fp = [] \<or> (\<exists>ds. fp = CHR ''.'' # ds \<and> list_all cdigit ds \<and> ds \<noteq> [])) \<and>
     (ex = [] \<or> (\<exists>c ds. ex = CHR ''e'' # c # ds \<and> c \<in> {CHR ''-'', CHR ''+''} \<and> list_all cdigit ds \<and> ds \<noteq> [])))"

lemma frac_part_shape:
  "list_all cdigit s \<Longrightarrow> frac_part s = [] \<or> (\<exists>ds. frac_part s = CHR ''.'' # ds \<and> list_all cdigit ds \<and> ds \<noteq> [])"
proof -
  assume s: "list_all cdigit s"
  define t where "t = rev (dropWhile (\<lambda>c. c = CHR ''0'') (rev s))"
  have "list_all cdigit t" using s by (auto simp: t_def list_all_iff dest: set_dropWhileD)
  then show ?thesis unfolding frac_part_def t_def [symmetric] by (cases t) auto
qed

lemma cdigit_0 [simp]: "cdigit (CHR ''0'')"
  by (simp add: cdigit_def code_def)

lemma fmt_g_decimal: "\<exists>ip fp ex. fmt_g P x = ip @ fp @ ex \<and>
     list_all cdigit ip \<and> ip \<noteq> [] \<and>
     (fp = [] \<or> (\<exists>ds. fp = CHR ''.'' # ds \<and> list_all cdigit ds \<and> ds \<noteq> [])) \<and>
     (ex = [] \<or> (\<exists>c ds. ex = CHR ''e'' # c # ds \<and> c \<in> {CHR ''-'', CHR ''+''} \<and> list_all cdigit ds \<and> ds \<noteq> []))"
proof -
  obtain m X where sc: "sci P x = (m, X)" by fastforce
  define ds where "ds = show_nat m"
  have ds: "list_all cdigit ds" "ds \<noteq> []" by (simp_all add: ds_def show_nat_digits)
  have hdtl: "list_all cdigit [hd ds]" "list_all cdigit (tl ds)" using ds by (cases ds; simp)+
  consider (e) "X < -4 \<or> X \<ge> int P" | (f) "\<not> (X < -4 \<or> X \<ge> int P)" "0 \<le> X" | (z) "\<not> (X < -4 \<or> X \<ge> int P)" "\<not> 0 \<le> X"
    by blast
  then show ?thesis
  proof cases
    case e
    show ?thesis
      by (rule exI [of _ "[hd ds]"], rule exI [of _ "frac_part (tl ds)"],
          rule exI [of _ "CHR ''e'' # (if X < 0 then CHR ''-'' else CHR ''+'') #
          (if \<bar>X\<bar> < 10 then [CHR ''0''] else []) @ show_nat (nat \<bar>X\<bar>)"])
         (use e hdtl frac_part_shape [OF hdtl(2)] in \<open>auto simp: fmt_g_def sc ds_def [symmetric] show_nat_digits\<close>)
  next
    case f
    show ?thesis
      by (rule exI [of _ "take (Suc (nat X)) ds"], rule exI [of _ "frac_part (drop (Suc (nat X)) ds)"], rule exI [of _ "[]"])
         (use f ds frac_part_shape [of "drop (Suc (nat X)) ds"] in
           \<open>auto simp: fmt_g_def sc ds_def [symmetric] list_all_iff dest: in_set_takeD in_set_dropD\<close>)
  next
    case z
    have "list_all cdigit (replicate (nat (- X - 1)) (CHR ''0'') @ ds)"
      using ds by (auto simp: list_all_iff)
    note fp = frac_part_shape [OF this]
    show ?thesis
      by (rule exI [of _ "''0''"], rule exI [of _ "frac_part (replicate (nat (- X - 1)) (CHR ''0'') @ ds)"], rule exI [of _ "[]"])
         (use z fp in \<open>auto simp: fmt_g_def sc ds_def [symmetric]\<close>)
  qed
qed

lemma decimal_fmt_g: "decimal (fmt_g P x)" "decimal (CHR ''-'' # fmt_g P x)"
proof -
  obtain ip fp ex where s: "fmt_g P x = ip @ fp @ ex" "list_all cdigit ip" "ip \<noteq> []"
    "fp = [] \<or> (\<exists>ds. fp = CHR ''.'' # ds \<and> list_all cdigit ds \<and> ds \<noteq> [])"
    "ex = [] \<or> (\<exists>c ds. ex = CHR ''e'' # c # ds \<and> c \<in> {CHR ''-'', CHR ''+''} \<and> list_all cdigit ds \<and> ds \<noteq> [])"
    using fmt_g_decimal [of P x] by blast
  show "decimal (fmt_g P x)" unfolding decimal_def
    by (rule exI [of _ "[]"], rule exI [of _ ip], rule exI [of _ fp], rule exI [of _ ex]) (use s in simp)
  show "decimal (CHR ''-'' # fmt_g P x)" unfolding decimal_def
    by (rule exI [of _ "''-''"], rule exI [of _ ip], rule exI [of _ fp], rule exI [of _ ex]) (use s in simp)
qed

lemma decimal_0: "decimal ''0''" "decimal ''-0''"
  unfolding decimal_def
  by (rule exI [of _ "[]"], rule exI [of _ "''0''"], simp,
      rule exI [of _ "''-''"], rule exI [of _ "''0''"], simp)

lemma print_g_decimal: "f = FNegZero \<or> (\<exists>x. f = FFin x) \<Longrightarrow> decimal (print_g P f)"
  by (auto simp: print_g_def decimal_fmt_g decimal_0)

end
