(* ===== verification/Atom.thy ===== *)
theory Atom
  imports CFloat
begin

text \<open>
  Atoms, \<open>src/pd/src/m_pd.h\<close> and \<open>src/pd/src/m_atom.c\<close>: the tagged values messages and patches
  are made of, and their conversion to text. A symbol is interned, so a \<open>t_symbol *\<close> is modelled
  by its name; graphical pointers, blobs and process data are opaque references. An atom of type
  \<open>A_DOLLAR\<close> keeps its index, the others that carry no data keep nothing.
\<close>

type_synonym symbol = string

datatype atom =
    A_NULL
  | A_FLOAT t_float
  | A_SYMBOL symbol
  | A_POINTER nat
  | A_SEMI
  | A_COMMA
  | A_DEFFLOAT
  | A_DEFSYM
  | A_DOLLAR int
  | A_DOLLSYM symbol
  | A_GIMME
  | A_CANT
  | A_BLOB nat

abbreviation DOLLARALL :: int where "DOLLARALL \<equiv> - 0x7fffffff"
abbreviation ALIST_DELIM :: char where "ALIST_DELIM \<equiv> CHR 0x7F"
abbreviation MAXPDSTRING :: nat where "MAXPDSTRING \<equiv> 1000"
abbreviation BSL :: char where "BSL \<equiv> CHR 0x5C"

section \<open>Reading atoms\<close>

definition atom_getfloat :: "atom \<Rightarrow> t_float" where
  "atom_getfloat a = (case a of A_FLOAT f \<Rightarrow> f | _ \<Rightarrow> FFin 0)"

text \<open>\<open>t_int\<close> is a 64-bit integer: the conversion of a float outside its range gives its least value.\<close>

definition atom_getint :: "atom \<Rightarrow> int" where
  "atom_getint a =
     (case atom_getfloat a of
        FFin x \<Rightarrow> (let t = (if 0 \<le> x then \<lfloor>x\<rfloor> else \<lceil>x\<rceil>) in
                    if - (2 ^ 63) \<le> t \<and> t < 2 ^ 63 then t else - (2 ^ 63))
      | FNegZero \<Rightarrow> 0
      | _ \<Rightarrow> - (2 ^ 63))"

text \<open>\<open>atom_getsymbol\<close> answers \<open>s_float\<close> for an atom that is no symbol, \<open>atom_getsymbolarg\<close> the empty symbol.\<close>

definition atom_getsymbol :: "atom \<Rightarrow> symbol" where
  "atom_getsymbol a = (case a of A_SYMBOL s \<Rightarrow> s | _ \<Rightarrow> ''float'')"

definition atom_gensym :: "atom \<Rightarrow> symbol" where
  "atom_gensym a = (case a of A_SYMBOL s \<Rightarrow> s | A_FLOAT f \<Rightarrow> print_g 6 f | _ \<Rightarrow> ''???'')"

definition atom_getfloatarg :: "nat \<Rightarrow> atom list \<Rightarrow> t_float" where
  "atom_getfloatarg which argv =
     (if length argv \<le> which then FFin 0
      else case argv ! which of A_FLOAT f \<Rightarrow> f | _ \<Rightarrow> FFin 0)"

definition atom_getintarg :: "nat \<Rightarrow> atom list \<Rightarrow> int" where
  "atom_getintarg which argv = atom_getint (A_FLOAT (atom_getfloatarg which argv))"

definition atom_getsymbolarg :: "nat \<Rightarrow> atom list \<Rightarrow> symbol" where
  "atom_getsymbolarg which argv =
     (if length argv \<le> which then []
      else case argv ! which of A_SYMBOL s \<Rightarrow> s | _ \<Rightarrow> [])"

section \<open>Atoms as text\<close>

text \<open>Whether a character of a symbol asks for quoting; \<open>rest\<close> is what follows it.\<close>

fun needs_quote :: "bool \<Rightarrow> string \<Rightarrow> bool" where
  "needs_quote a_sym [] \<longleftrightarrow> False"
| "needs_quote a_sym (c # rest) \<longleftrightarrow>
     c = CHR '';'' \<or> c = CHR '','' \<or> c = BSL \<or> c = CHR '' '' \<or>
     (a_sym \<and> c = ALIST_DELIM) \<or>
     (a_sym \<and> c = CHR ''$'' \<and> cdigit (cnth rest 0)) \<or>
     needs_quote a_sym rest"

definition quote_char :: "bool \<Rightarrow> char \<Rightarrow> string \<Rightarrow> string" where
  "quote_char a_sym c rest =
     (if c = CHR '';'' \<or> c = CHR '','' \<or> c = BSL \<or> c = CHR '' '' \<or>
         (a_sym \<and> c = CHR ''$'' \<and> (cdigit (cnth rest 0) \<or> cnth rest 0 = CHR ''@''))
      then [BSL] else []) @ [if a_sym \<and> c = ALIST_DELIM then CHR '' '' else c]"

text \<open>
  The quoting loop of \<open>atom_string\<close>: \<open>n\<close> is the number of characters written, \<open>ep\<close> is
  \<open>ep - buf\<close>. It stops when \<open>bp\<close> reaches \<open>ep\<close>; a symbol cut short is marked with a star.
\<close>

fun quote_loop :: "bool \<Rightarrow> nat \<Rightarrow> nat \<Rightarrow> string \<Rightarrow> string" where
  "quote_loop a_sym ep n [] = []"
| "quote_loop a_sym ep n (c # rest) =
     (if n < ep then
        quote_char a_sym c rest @ quote_loop a_sym ep (n + length (quote_char a_sym c rest)) rest
      else ''*'')"

definition sym_string :: "bool \<Rightarrow> symbol \<Rightarrow> nat \<Rightarrow> string" where
  "sym_string a_sym s bufsize =
     (if (a_sym \<and> s = ''$@'') \<or> needs_quote a_sym s then quote_loop a_sym (bufsize - 2) 0 s
      else if length s < bufsize - 1 then s
      else take (bufsize - 2) s @ ''*'')"

definition float_string :: "t_float \<Rightarrow> nat \<Rightarrow> string option" where
  "float_string f bufsize =
     (let tbuf = print_g 6 f in
      if length tbuf < bufsize - 1 then Some tbuf
      else if float_neg f then Some ''-'' else None)"

definition dollar_string :: "int \<Rightarrow> string" where
  "dollar_string i = (if i = DOLLARALL then ''$@'' else CHR ''$'' # show_int i)"

text \<open>
  The string \<open>atom_string\<close> leaves in \<open>buf\<close>. \<open>None\<close>: the buffer is not (wholly) written, for an
  atom type the function reports as a bug and for a float that does not fit, where a plus sign is
  appended to whatever the buffer held.
\<close>

definition atom_string :: "atom \<Rightarrow> nat \<Rightarrow> string option" where
  "atom_string a bufsize =
     (case a of
        A_SEMI \<Rightarrow> Some '';''
      | A_COMMA \<Rightarrow> Some '',''
      | A_POINTER _ \<Rightarrow> Some ''(pointer)''
      | A_FLOAT f \<Rightarrow> float_string f bufsize
      | A_SYMBOL s \<Rightarrow> Some (sym_string True s bufsize)
      | A_DOLLSYM s \<Rightarrow> Some (sym_string False s bufsize)
      | A_DOLLAR i \<Rightarrow> Some (dollar_string i)
      | _ \<Rightarrow> None)"

definition atom_string_s :: "atom \<Rightarrow> nat \<Rightarrow> string option" where
  "atom_string_s a bufsize =
     (case a of
        A_SEMI \<Rightarrow> Some '';''
      | A_COMMA \<Rightarrow> Some '',''
      | A_POINTER _ \<Rightarrow> Some ''(pointer)''
      | A_FLOAT f \<Rightarrow> float_string f bufsize
      | A_SYMBOL s \<Rightarrow>
          Some (if length s < bufsize - 1 then s else take (bufsize - 2) s @ ''*'')
      | A_DOLLSYM s \<Rightarrow>
          Some (if length s < bufsize - 1 then s else take (bufsize - 2) s @ ''*'')
      | A_DOLLAR i \<Rightarrow> Some (dollar_string i)
      | _ \<Rightarrow> None)"

section \<open>Quoting\<close>

text \<open>Quoting without a limit, and the characters that survive it.\<close>

fun quote_all :: "bool \<Rightarrow> string \<Rightarrow> string" where
  "quote_all a_sym [] = []"
| "quote_all a_sym (c # rest) = quote_char a_sym c rest @ quote_all a_sym rest"

lemma quote_char_length: "0 < length (quote_char a c r)" "length (quote_char a c r) \<le> 2"
  by (auto simp: quote_char_def)

lemma quote_loop_eq:
  "n + length (quote_all a s) \<le> ep \<Longrightarrow> quote_loop a ep n s = quote_all a s"
proof (induction s arbitrary: n)
  case (Cons c s)
  have "n < ep" using Cons.prems quote_char_length(1) [of a c s] unfolding quote_all.simps length_append by linarith
  then show ?case using Cons by (simp add: add.assoc)
qed simp

lemma quote_loop_bound: "n \<le> ep + 1 \<Longrightarrow> n + length (quote_loop a ep n s) \<le> ep + 2"
proof (induction s arbitrary: n)
  case (Cons c s)
  show ?case
  proof (cases "n < ep")
    case True
    then have "n + length (quote_char a c s) \<le> ep + 1" using quote_char_length(2) [of a c s] by simp
    from Cons.IH [OF this] True show ?thesis by simp
  qed (use Cons.prems in simp)
qed simp

lemma quote_all_id:
  assumes "\<not> needs_quote a s" "\<not> a \<or> (\<forall>i. Suc i < length s \<longrightarrow> s ! i = CHR ''$'' \<longrightarrow> s ! Suc i \<noteq> CHR ''@'')"
  shows "quote_all a s = s"
  using assms
proof (induction s)
  case (Cons c s)
  have "\<not> a \<or> (\<forall>i. Suc i < length s \<longrightarrow> s ! i = CHR ''$'' \<longrightarrow> s ! Suc i \<noteq> CHR ''@'')"
    using Cons.prems(2) by (metis Suc_less_eq length_Cons nth_Cons_Suc)
  moreover have "\<not> a \<or> c \<noteq> CHR ''$'' \<or> cnth s 0 \<noteq> CHR ''@''"
    using Cons.prems(2) by (cases s) (auto simp: cnth_def)
  ultimately show ?case using Cons by (auto simp: quote_char_def)
qed simp

section \<open>The size of the buffer\<close>

lemma print_size: "length (sym_string a s bufsize) \<le> bufsize" if "2 \<le> bufsize"
  using quote_loop_bound [of 0 "bufsize - 2" a s] that by (auto simp: sym_string_def)

lemma quote_loop_plain:
  assumes "list_all (\<lambda>c. \<not> needs_quote a [c] \<and> c \<noteq> CHR ''$'') p" "n + length p \<le> ep"
  shows "quote_loop a ep n (p @ r) = p @ quote_loop a ep (n + length p) r"
  using assms
proof (induction p arbitrary: n)
  case (Cons c p)
  then have "quote_char a c (p @ r) = [c]" by (auto simp: quote_char_def)
  with Cons show ?case by simp
qed simp

lemma needs_quote_append: "needs_quote a r \<Longrightarrow> needs_quote a (p @ r)"
  by (induction p) auto

text \<open>Quoting is not bounded by the buffer: a symbol whose special character falls on the last
  free position of a buffer of any size, with more to come, yields as many characters as the
  buffer has bytes, and the terminating NUL is written one byte behind it.
\<close>

theorem quote_overflow:
  assumes "4 \<le> bufsize"
  shows "\<exists>s t. atom_string (A_SYMBOL s) bufsize = Some t \<and> length t = bufsize"
proof -
  define s where "s = replicate (bufsize - 3) (CHR ''a'') @ '';;''"
  have "needs_quote True s" unfolding s_def by (rule needs_quote_append) simp
  moreover have "quote_loop True (bufsize - 2) 0 s = replicate (bufsize - 3) (CHR ''a'') @ [BSL, CHR '';'', CHR ''*'']"
    unfolding s_def using assms by (subst quote_loop_plain) (auto simp: list_all_iff quote_char_def)
  ultimately have "atom_string (A_SYMBOL s) bufsize = Some (replicate (bufsize - 3) (CHR ''a'') @ [BSL, CHR '';'', CHR ''*''])"
    by (simp add: atom_string_def sym_string_def)
  with assms show ?thesis by (intro exI [of _ s] exI conjI) auto
qed

theorem quote_overflow_witness:
  "\<exists>s t. atom_string (A_SYMBOL s) 4 = Some t \<and> length t = 4"
  using quote_overflow [of 4] by simp

text \<open>That one byte is the most: no atom prints longer than the buffer, provided it holds the
  fixed texts (\<open>(pointer)\<close> and the index of a dollar argument).\<close>

theorem atom_string_bounded:
  assumes "atom_string a bufsize = Some t" "12 \<le> bufsize" "\<And>i. a = A_DOLLAR i \<Longrightarrow> - (2 ^ 31) \<le> i \<and> i < 2 ^ 31"
  shows "length t \<le> bufsize"
proof (cases a)
  case (A_DOLLAR i)
  have "\<bar>i\<bar> < 10 ^ 10" using assms(3) [OF A_DOLLAR] by (simp add: abs_less_iff)
  then have "length (show_nat (nat \<bar>i\<bar>)) \<le> 10" by (intro dec_digits_len) (simp_all add: nat_less_iff)
  then have "length (dollar_string i) \<le> 12"
    by (cases "i < 0") (auto simp: dollar_string_def show_int_def)
  with assms A_DOLLAR show ?thesis by (auto simp: atom_string_def)
qed (use assms print_size in \<open>auto simp: atom_string_def float_string_def Let_def split: if_splits\<close>)

theorem atom_string_bounded_witness: "length ''$12'' \<le> (1000::nat)"
proof -
  have "atom_string (A_DOLLAR 12) 1000 = Some ''$12''" by code_simp
  from atom_string_bounded [OF this] show ?thesis by simp
qed

end
