(* ===== verification/Binbuf.thy ===== *)
theory Binbuf
  imports Atom
begin

text \<open>
  Binbufs, \<open>src/pd/src/m_binbuf.c\<close>: the parser that turns the text of a patch or a message box
  into a list of atoms (\<open>binbuf_text\<close>), the printer (\<open>binbuf_gettext\<close>), and the escaping used when
  a patch is saved as messages and loaded back (\<open>binbuf_addbinbuf\<close>, \<open>binbuf_restore\<close>). A
  \<open>t_binbuf\<close> is its list of atoms; \<open>b_n\<close> is the length, and the doubling of the vector while
  parsing only manages memory.
\<close>

type_synonym binbuf = "atom list"

section \<open>Parsing text\<close>

definition text_space :: "char \<Rightarrow> bool" where
  "text_space c \<longleftrightarrow> c = CHR '' '' \<or> c = NL \<or> c = CR \<or> c = TAB"

definition text_delim :: "char \<Rightarrow> bool" where
  "text_delim c \<longleftrightarrow> text_space c \<or> c = CHR '','' \<or> c = CHR '';''"

text \<open>The state machine over \<open>floatstate\<close>: states 2, 4, 5 and 8 accept a number, -1 rejects for good.\<close>

definition float_step :: "int \<Rightarrow> char \<Rightarrow> int" where
  "float_step st c =
     (let digit = cdigit c; dot = (c = CHR ''.''); minus = (c = CHR ''-'');
          plusminus = (minus \<or> c = CHR ''+''); expon = (c = CHR ''e'' \<or> c = CHR ''E'') in
      if st < 0 then st
      else if st = 0 then (if minus then 1 else if digit then 2 else if dot then 3 else -1)
      else if st = 1 then (if digit then 2 else if dot then 3 else -1)
      else if st = 2 then (if dot then 4 else if expon then 6 else if \<not> digit then -1 else 2)
      else if st = 3 then (if digit then 5 else -1)
      else if st = 4 then (if digit then 5 else if expon then 6 else -1)
      else if st = 5 then (if expon then 6 else if \<not> digit then -1 else 5)
      else if st = 6 then (if plusminus then 7 else if digit then 8 else -1)
      else if st = 7 then (if digit then 8 else -1)
      else if st = 8 then (if \<not> digit then -1 else 8)
      else st)"

definition float_accept :: "int \<Rightarrow> bool" where
  "float_accept st \<longleftrightarrow> st = 2 \<or> st = 4 \<or> st = 5 \<or> st = 8"

definition dollar_start :: "bool \<Rightarrow> char \<Rightarrow> string \<Rightarrow> bool" where
  "dollar_start lastslash c inp \<longleftrightarrow>
     \<not> lastslash \<and> c = CHR ''$'' \<and> inp \<noteq> [] \<and> (cdigit (hd inp) \<or> hd inp = CHR ''@'')"

text \<open>
  The do-while loop that collects one atom. \<open>buf\<close> is what stands before \<open>bufp\<close>; the result is the
  final \<open>floatstate\<close>, \<open>dollar\<close>, the collected characters and the text from \<open>textp\<close> on. A
  backslash is stored only when it follows an unpaired one.
\<close>

fun lex_atom :: "int \<Rightarrow> bool \<Rightarrow> bool \<Rightarrow> string \<Rightarrow> string \<Rightarrow> int \<times> bool \<times> string \<times> string" where
  "lex_atom st slash dollar buf [] = (st, dollar, buf, [])"
| "lex_atom st lastslash dollar buf (c # inp) =
     (let st' = float_step st c;
          dollar' = (dollar \<or> dollar_start lastslash c inp);
          keep = (c \<noteq> BSL \<or> lastslash);
          buf' = (if keep then buf @ [c] else buf);
          slash' = (c = BSL \<and> \<not> lastslash) in
      if inp \<noteq> [] \<and> length buf' \<noteq> MAXPDSTRING \<and> (slash' \<or> \<not> text_delim (hd inp))
      then lex_atom st' slash' dollar' buf' inp
      else (st', dollar', buf', inp))"

text \<open>What the collected characters become.\<close>

definition token_atom :: "int \<Rightarrow> bool \<Rightarrow> string \<Rightarrow> atom" where
  "token_atom st dollar buf =
     (if float_accept st then A_FLOAT (float_atof (cstr buf))
      else if dollar then
        (if cnth buf 1 = CHR ''@'' then
           (if cnth buf 2 = NUL then A_DOLLAR DOLLARALL else A_SYMBOL (cstr buf))
         else if cnth buf 0 = CHR ''$'' \<and> list_all cdigit (cstr (drop 1 buf))
         then A_DOLLAR (atoi (cstr (drop 1 buf)))
         else A_DOLLSYM (cstr buf))
      else A_SYMBOL (cstr buf))"

lemma lex_atom_rest:
  "lex_atom st sl dl buf inp = (st', dl', buf', rest) \<Longrightarrow> inp \<noteq> [] \<Longrightarrow> length rest < length inp"
proof (induction st sl dl buf inp rule: lex_atom.induct)
  case (2 st sl dl buf c inp)
  then show ?case by (auto simp: Let_def split: if_splits intro: less_SucI)
qed simp

function binbuf_text :: "string \<Rightarrow> binbuf" where
  "binbuf_text inp =
     (case dropWhile text_space inp of
        [] \<Rightarrow> []
      | c # t \<Rightarrow>
          if c = CHR '';'' then A_SEMI # binbuf_text t
          else if c = CHR '','' then A_COMMA # binbuf_text t
          else let (st, dollar, buf, rest) = lex_atom 0 False False [] (c # t) in
               token_atom st dollar buf # binbuf_text rest)"
  by pat_completeness auto
termination
proof (relation "measure length", goal_cases)
  case (4 inp c t x st y dl z buf rest)
  have "length rest < length (c # t)"
    using lex_atom_rest [of 0 False False "[]" "c # t" st dl buf rest] 4(4-7) by simp
  with dropWhile_Cons_length [OF 4(1)] show ?case by simp
qed (auto dest: dropWhile_Cons_length)

declare binbuf_text.simps [simp del]

section \<open>Printing\<close>

text \<open>The loop of \<open>binbuf_gettext\<close>; \<open>buf\<close> is the text so far.\<close>

fun gettext_loop :: "binbuf \<Rightarrow> string \<Rightarrow> string option" where
  "gettext_loop [] buf = Some buf"
| "gettext_loop (a # as) buf =
     (let buf1 = (if (a = A_SEMI \<or> a = A_COMMA) \<and> buf \<noteq> [] \<and> last buf = CHR '' ''
                  then butlast buf else buf) in
      case atom_string a MAXPDSTRING of
        None \<Rightarrow> None
      | Some s \<Rightarrow> gettext_loop as (buf1 @ s @ [if a = A_SEMI then NL else CHR '' '']))"

definition strip_last :: "char \<Rightarrow> string \<Rightarrow> string" where
  "strip_last d buf = (if buf \<noteq> [] \<and> last buf = d then butlast buf else buf)"

definition binbuf_gettext :: "binbuf \<Rightarrow> string option" where
  "binbuf_gettext x = map_option (strip_last (CHR '' '')) (gettext_loop x [])"

section \<open>The list-box variants\<close>

fun lex_atom_s :: "int \<Rightarrow> string \<Rightarrow> string \<Rightarrow> int \<times> string \<times> string" where
  "lex_atom_s st buf [] = (st, buf, [])"
| "lex_atom_s st buf (c # inp) =
     (if inp \<noteq> [] \<and> length (buf @ [c]) \<noteq> MAXPDSTRING \<and> hd inp \<noteq> ALIST_DELIM
      then lex_atom_s (float_step st c) (buf @ [c]) inp
      else (float_step st c, buf @ [c], inp))"

lemma lex_atom_s_rest: "inp \<noteq> [] \<Longrightarrow> length (snd (snd (lex_atom_s st buf inp))) < length inp"
  by (induction st buf inp rule: lex_atom_s.induct) (auto intro: less_SucI)

function binbuf_text_s :: "string \<Rightarrow> binbuf" where
  "binbuf_text_s inp =
     (case dropWhile (\<lambda>c. c = ALIST_DELIM) inp of
        [] \<Rightarrow> []
      | c # t \<Rightarrow>
          let (st, buf, rest) = lex_atom_s 0 [] (c # t) in
          (if float_accept st then A_FLOAT (float_atof (cstr buf)) else A_SYMBOL (cstr buf))
            # binbuf_text_s rest)"
  by pat_completeness auto
termination
proof (relation "measure length", goal_cases)
  case (2 inp c t x st y buf rest)
  have "length rest < length (c # t)"
    using lex_atom_s_rest [of "c # t" 0 "[]"] 2(2-4) by (metis list.discI snd_conv)
  with dropWhile_Cons_length [OF 2(1)] show ?case by simp
qed simp

declare binbuf_text_s.simps [simp del]

fun gettext_s_loop :: "binbuf \<Rightarrow> string \<Rightarrow> string option" where
  "gettext_s_loop [] buf = Some buf"
| "gettext_s_loop (a # as) buf =
     (case atom_string_s a MAXPDSTRING of
        None \<Rightarrow> None
      | Some s \<Rightarrow> gettext_s_loop as (buf @ s @ [ALIST_DELIM]))"

definition binbuf_gettext_s :: "binbuf \<Rightarrow> string option" where
  "binbuf_gettext_s x = map_option (strip_last ALIST_DELIM) (gettext_s_loop x [])"

end
