(* ===== verification/BinbufText.thy ===== *)
theory BinbufText
  imports Binbuf
begin

text \<open>
  What \<open>binbuf_gettext\<close> prints, \<open>binbuf_text\<close> reads back. The first section follows the lexer
  through the quoted text of a symbol, the second the number automaton through printed floats;
  \<open>prints\<close> then relates a list of atoms to every spacing of its text, and both the printer of
  message boxes and the writer of patch files are shown to produce such a text.
\<close>


section \<open>Lexing what was printed\<close>

text \<open>Whether the parser sees an unescaped dollar sign that starts an argument.\<close>

fun has_dollar :: "string \<Rightarrow> bool" where
  "has_dollar [] \<longleftrightarrow> False"
| "has_dollar (c # r) \<longleftrightarrow> c = CHR ''$'' \<and> (cdigit (cnth r 0) \<or> cnth r 0 = CHR ''@'') \<or> has_dollar r"

definition sym_char :: "bool \<Rightarrow> char \<Rightarrow> bool" where
  "sym_char a c \<longleftrightarrow> c \<noteq> NUL \<and> c \<noteq> NL \<and> c \<noteq> CR \<and> c \<noteq> TAB \<and> \<not> (a \<and> c = ALIST_DELIM)"

definition delimited :: "string \<Rightarrow> bool" where
  "delimited r \<longleftrightarrow> r = [] \<or> text_delim (hd r)"

lemma quote_all_hd:
  "list_all (sym_char a) s \<Longrightarrow> s \<noteq> [] \<Longrightarrow> \<exists>c t. quote_all a s = c # t \<and> \<not> text_delim c"
  by (cases s) (auto simp: quote_char_def sym_char_def text_delim_def text_space_def)

lemma delimited_cnth: "delimited r \<Longrightarrow> r \<noteq> [] \<Longrightarrow> \<not> cdigit (hd r) \<and> hd r \<noteq> CHR ''@''"
  by (auto simp: delimited_def text_delim_def text_space_def dest: cdigit_nonspecial)

lemma quote_next:
  assumes "delimited r" "s \<noteq> []"
  shows "(\<exists>t. quote_all a s @ r = BSL # t) \<or> (\<exists>t. quote_all a s @ r = (if a \<and> hd s = ALIST_DELIM then CHR '' '' else hd s) # t)"
  using assms(2) by (cases s) (auto simp: quote_char_def)

lemma NUL_not_cdigit [simp]: "\<not> cdigit NUL"
  by (simp add: cdigit_def code_def)

lemma quote_char_hd:
  assumes "sym_char a d"
  shows "hd (quote_char a d t) = d \<or> hd (quote_char a d t) = BSL \<and> \<not> cdigit d \<and> d \<noteq> CHR ''@''"
proof (cases "quote_char a d t = [d]")
  case False
  then have "hd (quote_char a d t) = BSL" "d \<in> {CHR '';'', CHR '','', BSL, CHR '' '', CHR ''$''}"
    using assms by (auto simp: quote_char_def sym_char_def split: if_splits)
  then show ?thesis by (auto dest: cdigit_nonspecial)
qed simp

lemma dollar_start_quoted:
  assumes "delimited r" "list_all (sym_char a) s" "quote_char a c s = [c]"
  shows "dollar_start False c (quote_all a s @ r) \<longleftrightarrow>
    \<not> a \<and> c = CHR ''$'' \<and> (cdigit (cnth s 0) \<or> cnth s 0 = CHR ''@'')"
proof (cases s)
  case Nil
  with delimited_cnth [OF assms(1)] show ?thesis by (auto simp: dollar_start_def cnth_def)
next
  case (Cons d t)
  have ne: "quote_all a s @ r \<noteq> []" and hd: "hd (quote_all a s @ r) = hd (quote_char a d t)"
    using quote_char_length(1) [of a d t] by (simp_all add: Cons)
  have n: "cnth s 0 = d" by (simp add: Cons cnth_def)
  have q: "\<not> (a \<and> c = CHR ''$'' \<and> (cdigit d \<or> d = CHR ''@''))"
    using assms(3) unfolding quote_char_def n by (auto split: if_splits)
  have b: "\<not> cdigit BSL" by (simp add: cdigit_def code_def)
  have "cdigit (hd (quote_char a d t)) \<or> hd (quote_char a d t) = CHR ''@'' \<longleftrightarrow> cdigit d \<or> d = CHR ''@''"
    using quote_char_hd [of a d t] assms(2) b unfolding Cons by auto
  with q show ?thesis unfolding dollar_start_def hd n using ne by blast
qed

lemma lex_step_keep:
  "c \<noteq> BSL \<Longrightarrow> lex_atom st False dl buf (c # w) =
    (if w \<noteq> [] \<and> length buf \<noteq> 999 \<and> \<not> text_delim (hd w)
     then lex_atom (float_step st c) False (dl \<or> dollar_start False c w) (buf @ [c]) w
     else (float_step st c, dl \<or> dollar_start False c w, buf @ [c], w))"
  by (simp add: Let_def)

lemma lex_step_escaped:
  "length buf \<noteq> 1000 \<Longrightarrow> lex_atom st False dl buf (BSL # c # w) =
    (if w \<noteq> [] \<and> length buf \<noteq> 999 \<and> \<not> text_delim (hd w)
     then lex_atom (float_step (float_step st BSL) c) False dl (buf @ [c]) w
     else (float_step (float_step st BSL) c, dl, buf @ [c], w))"
  by (simp add: Let_def dollar_start_def)

lemma lex_quoted:
  assumes "list_all (sym_char a) s" "s \<noteq> []" "length buf + length s < MAXPDSTRING" "delimited r"
  shows "lex_atom st False dl buf (quote_all a s @ r) =
    (foldl float_step st (quote_all a s), dl \<or> \<not> a \<and> has_dollar s, buf @ s, r)"
  using assms
proof (induction s arbitrary: st dl buf)
  case (Cons c s)
  define w where "w = quote_all a s @ r"
  have ss: "list_all (sym_char a) s" using Cons.prems by auto
  have len: "length buf \<noteq> 1000" "s \<noteq> [] \<Longrightarrow> length buf \<noteq> 999" using Cons.prems(3) by (cases s; auto)+
  have IH: "s \<noteq> [] \<Longrightarrow> lex_atom st' False dl' (buf @ [c]) w =
      (foldl float_step st' (quote_all a s), dl' \<or> \<not> a \<and> has_dollar s, buf @ [c] @ s, r)" for st' dl'
    using Cons.IH [of "buf @ [c]" st' dl'] Cons.prems(3,4) ss by (simp add: w_def)
  have cont: "w \<noteq> [] \<and> length buf \<noteq> 999 \<and> \<not> text_delim (hd w) \<longleftrightarrow> s \<noteq> []"
  proof (cases "s = []")
    case True
    with Cons.prems(4) show ?thesis by (auto simp: w_def delimited_def)
  next
    case False
    then obtain d t where "w = d # t" "\<not> text_delim d"
      using quote_all_hd [OF ss] by (auto simp: w_def)
    with False len(2) show ?thesis by simp
  qed
  have last: "s = [] \<Longrightarrow> w = r" by (simp add: w_def)
  have qw: "quote_all a (c # s) @ r = quote_char a c s @ w" by (simp add: w_def)
  show ?case
  proof (cases "quote_char a c s = [c]")
    case True
    then have nb: "c \<noteq> BSL" by (auto simp: quote_char_def split: if_splits)
    note ds = dollar_start_quoted [OF Cons.prems(4) ss True, folded w_def]
    show ?thesis unfolding qw True append_Cons append_Nil lex_step_keep [OF nb] ds cont
      using True IH last by (cases "s = []") (simp_all only: if_True if_False not_True_eq_False not_False_eq_True
        quote_all.simps has_dollar.simps append_Cons append_Nil append_Nil2 foldl_Cons foldl_Nil simp_thms disj_assoc conj_disj_distribL)
  next
    case False
    then have q: "quote_char a c s = [BSL, c]" using Cons.prems(1)
      by (auto simp: quote_char_def sym_char_def split: if_splits)
    have "\<not> (\<not> a \<and> c = CHR ''$'')" using q by (auto simp: quote_char_def split: if_splits)
    then have nd: "\<not> a \<and> has_dollar (c # s) \<longleftrightarrow> \<not> a \<and> has_dollar s" by auto
    show ?thesis unfolding qw q append_Cons append_Nil lex_step_escaped [OF len(1)] cont nd
      using q IH last by (cases "s = []") (simp_all only: if_True if_False not_True_eq_False not_False_eq_True
        quote_all.simps has_dollar.simps(1) append_Cons append_Nil append_Nil2 foldl_Cons foldl_Nil simp_thms disj_assoc conj_disj_distribL)
  qed
qed simp

section \<open>Which numbers the parser accepts\<close>

lemma float_step_digits:
  "list_all cdigit ds \<Longrightarrow> foldl float_step 2 ds = 2"
  "list_all cdigit ds \<Longrightarrow> foldl float_step 5 ds = 5"
  "list_all cdigit ds \<Longrightarrow> foldl float_step 8 ds = 8"
  by (induction ds) (auto simp: float_step_def cdigit_nonspecial Let_def)

lemma float_step_first:
  "cdigit c \<Longrightarrow> float_step 0 c = 2" "cdigit c \<Longrightarrow> float_step 1 c = 2"
  "cdigit c \<Longrightarrow> float_step 4 c = 5" "cdigit c \<Longrightarrow> float_step 7 c = 8"
  "float_step 0 CHR ''-'' = 1" "float_step 2 CHR ''.'' = 4"
  "float_step 2 CHR ''e'' = 6" "float_step 5 CHR ''e'' = 6"
  "float_step 6 CHR ''-'' = 7" "float_step 6 CHR ''+'' = 7"
  by (auto simp: float_step_def cdigit_nonspecial Let_def)

lemma float_accept_decimal: "decimal s \<Longrightarrow> float_accept (foldl float_step 0 s)"
proof -
  assume "decimal s"
  then obtain sg ip fp ex where s: "s = sg @ ip @ fp @ ex" "sg \<in> {[], ''-''}" "list_all cdigit ip" "ip \<noteq> []"
    "fp = [] \<or> (\<exists>ds. fp = CHR ''.'' # ds \<and> list_all cdigit ds \<and> ds \<noteq> [])"
    "ex = [] \<or> (\<exists>c ds. ex = CHR ''e'' # c # ds \<and> c \<in> {CHR ''-'', CHR ''+''} \<and> list_all cdigit ds \<and> ds \<noteq> [])"
    unfolding decimal_def by blast
  have 1: "foldl float_step 0 (sg @ ip) = 2"
    using s(2-4) by (cases ip) (auto simp: float_step_first float_step_digits)
  have 2: "foldl float_step 2 fp \<in> {2, 5}"
    using s(5) by (auto simp: float_step_first neq_Nil_conv float_step_digits)
  have "float_accept (foldl float_step st ex)" if "st \<in> {2, 5}" for st
    using s(6) that by (auto simp: float_accept_def float_step_first neq_Nil_conv float_step_digits)
  with 1 2 show ?thesis by (simp add: s(1) foldl_append del: foldl_append) (metis foldl_append)
qed

lemma float_step_le8: "st \<le> 8 \<Longrightarrow> float_step st c \<le> 8"
  by (auto simp: float_step_def Let_def)

lemma float_step_neg: "st < 0 \<Longrightarrow> foldl float_step st s = st"
  by (induction s) (auto simp: float_step_def)

lemma float_reject_dollar: "st \<le> 8 \<Longrightarrow> CHR ''$'' \<in> set s \<Longrightarrow> foldl float_step st s < 0"
proof (induction s arbitrary: st)
  case (Cons c s)
  show ?case
  proof (cases "c = CHR ''$''")
    case True
    have "\<not> cdigit CHR ''$''" by (simp add: cdigit_def code_def)
    then have "float_step st CHR ''$'' < 0" using Cons.prems(1)
      by (auto simp: float_step_def Let_def)
    then show ?thesis by (simp add: True float_step_neg)
  next
    case False
    with Cons show ?thesis by (simp add: float_step_le8)
  qed
qed simp

lemma has_dollar_set: "has_dollar s \<Longrightarrow> CHR ''$'' \<in> set s"
  by (induction s) auto

lemma decimal_chars: "decimal s \<Longrightarrow> c \<in> set s \<Longrightarrow> cdigit c \<or> c \<in> {CHR ''-'', CHR ''.'', CHR ''e'', CHR ''+''}"
  by (auto simp: decimal_def list_all_iff)

lemma decimal_plain:
  assumes "decimal s"
  shows "list_all (sym_char False) s" "quote_all False s = s" "\<not> has_dollar s" "s \<noteq> []" "cstr s = s"
proof -
  have ch: "\<not> text_delim c \<and> c \<noteq> NUL \<and> c \<noteq> BSL \<and> c \<noteq> CHR ''$''" if "c \<in> set s" for c
    using decimal_chars [OF assms that] by (auto simp: text_delim_def text_space_def dest: cdigit_nonspecial)
  then show "list_all (sym_char False) s"
    by (auto simp: list_all_iff sym_char_def text_delim_def text_space_def)
  have "needs_quote False t \<Longrightarrow> \<exists>c\<in>set t. text_delim c \<or> c = BSL" for t
    by (induction t) (auto simp: text_delim_def text_space_def)
  with ch show "quote_all False s = s" by (intro quote_all_id) auto
  show "\<not> has_dollar s" using ch has_dollar_set [of s] by auto
  show "s \<noteq> []" using assms by (auto simp: decimal_def)
  show "cstr s = s" using ch by (intro cstr_id) auto
qed


section \<open>The text round trip\<close>

text \<open>
  The atoms whose text the parser reads back: the quoting has no escape for control characters,
  a symbol must not look like a number, and the argument forms must be ones the parser builds.
  \<open>tok\<close> is the token an atom prints as: its characters, and whether they are quoted as a symbol.
\<close>

fun tok :: "atom \<Rightarrow> bool \<times> string" where
  "tok (A_FLOAT f) = (False, print_g 6 f)"
| "tok (A_SYMBOL s) = (True, s)"
| "tok (A_DOLLSYM s) = (False, s)"
| "tok (A_DOLLAR i) = (False, dollar_string i)"
| "tok _ = (False, [])"

fun savable :: "atom \<Rightarrow> bool" where
  "savable A_SEMI \<longleftrightarrow> True"
| "savable A_COMMA \<longleftrightarrow> True"
| "savable (A_FLOAT f) \<longleftrightarrow> (case f of FFin _ \<Rightarrow> True | FNegZero \<Rightarrow> True | _ \<Rightarrow> False) \<and> length (print_g 6 f) < 30"
| "savable (A_SYMBOL s) \<longleftrightarrow> s \<noteq> [] \<and> list_all (sym_char True) s \<and> length (quote_all True s) < MAXPDSTRING - 1 \<and>
     \<not> float_accept (foldl float_step 0 (quote_all True s)) \<and>
     (s = ''$@'' \<or> needs_quote True s \<or> quote_all True s = s)"
| "savable (A_DOLLSYM s) \<longleftrightarrow> list_all (sym_char False) s \<and> length (quote_all False s) < MAXPDSTRING - 1 \<and>
     has_dollar s \<and> cnth s 1 \<noteq> CHR ''@'' \<and> \<not> (hd s = CHR ''$'' \<and> list_all cdigit (tl s))"
| "savable (A_DOLLAR i) \<longleftrightarrow> i = DOLLARALL \<or> 0 \<le> i \<and> i < 2 ^ 31"
| "savable _ \<longleftrightarrow> False"

text \<open>A float comes back as the value of its six-digit decimal form; everything else is unchanged.\<close>

fun reread :: "atom \<Rightarrow> atom" where
  "reread (A_FLOAT f) = A_FLOAT (float_atof (print_g 6 f))"
| "reread a = a"

definition punct :: "atom \<Rightarrow> bool" where
  "punct a \<longleftrightarrow> a = A_SEMI \<or> a = A_COMMA"

lemma quote_all_longer: "length s \<le> length (quote_all a s)"
proof (induction s)
  case (Cons c s)
  then show ?case using quote_char_length(1) [of a c s] by (simp del: length_greater_0_conv)
qed simp

lemma quote_all_False_id: "\<not> needs_quote False s \<Longrightarrow> quote_all False s = s"
  by (rule quote_all_id) auto

lemma sym_string_quote:
  assumes "length (quote_all a s) < MAXPDSTRING - 1"
    and "(a \<and> s = ''$@'') \<or> needs_quote a s \<or> quote_all a s = s"
  shows "sym_string a s MAXPDSTRING = quote_all a s"
  using assms quote_loop_eq [of 0 a s 998] quote_all_longer [of s a]
  by (auto simp: sym_string_def)

lemma atoi_show_nat:
  assumes "n < 2 ^ 31"
  shows "atoi (show_nat n) = int n"
proof -
  have d: "list_all cdigit (show_nat n)" by (rule show_nat_digits)
  have "strtol (show_nat n) = (int n, length (show_nat n))"
    using assms d by (simp add: strtol_def Let_def dropWhile_isspace_digit split_sign_digits takeWhile_digits)
  then show ?thesis using assms by (simp add: atoi_def int_cast_def)
qed

lemma dollar_tok:
  assumes "i = DOLLARALL \<or> 0 \<le> i \<and> i < 2 ^ 31"
  shows "list_all (sym_char False) (dollar_string i)" "quote_all False (dollar_string i) = dollar_string i"
    "has_dollar (dollar_string i)" "length (dollar_string i) < 12" "hd (dollar_string i) = CHR ''$''"
    "token_atom (-1) True (dollar_string i) = A_DOLLAR i"
proof -
  consider (all) "i = DOLLARALL" | (n) n where "i = int n" "n < 2 ^ 31"
  proof (cases "i = DOLLARALL")
    case False
    with assms that(2) [of "nat i"] show ?thesis by (simp add: nat_less_iff)
  qed simp
  then have "list_all (sym_char False) (dollar_string i) \<and> quote_all False (dollar_string i) = dollar_string i \<and>
    has_dollar (dollar_string i) \<and> length (dollar_string i) < 12 \<and> hd (dollar_string i) = CHR ''$'' \<and>
    token_atom (-1) True (dollar_string i) = A_DOLLAR i"
  proof cases
    case all
    then show ?thesis
      by (simp add: dollar_string_def sym_char_def quote_char_def cnth_def token_atom_def float_accept_def)
  next
    case n
    obtain c t where ct: "show_nat n = c # t" using show_nat_nonempty [of n] by (cases "show_nat n") auto
    have dg: "list_all cdigit (c # t)" using show_nat_digits [of n] by (simp add: ct)
    have ds: "dollar_string i = CHR ''$'' # c # t" using n ct by (simp add: dollar_string_def show_int_def)
    have len: "length (c # t) \<le> 10" using dec_digits_len [of n 10] n(2) ct by simp
    have sc: "list_all (sym_char False) (c # t)" using dg
      by (auto simp: list_all_iff sym_char_def dest: cdigit_nonspecial)
    have nq: "\<not> needs_quote False u" if "list_all cdigit u" for u
      using that by (induction u) (auto dest: cdigit_nonspecial)
    have "cstr (c # t) = c # t" using dg by (intro cstr_id) (auto simp: list_all_iff dest: cdigit_nonspecial)
    then have "token_atom (-1) True (CHR ''$'' # c # t) = A_DOLLAR i"
      using dg atoi_show_nat [of n] n ct cdigit_nonspecial(10) [of c]
      by (simp add: token_atom_def float_accept_def cnth_def)
    with sc nq [OF dg] len dg show ?thesis unfolding ds
      by (simp add: quote_all_False_id sym_char_def cnth_def quote_char_def)
  qed
  then show "list_all (sym_char False) (dollar_string i)" "quote_all False (dollar_string i) = dollar_string i"
    "has_dollar (dollar_string i)" "length (dollar_string i) < 12" "hd (dollar_string i) = CHR ''$''"
    "token_atom (-1) True (dollar_string i) = A_DOLLAR i" by simp_all
qed

lemma token_reject:
  "st < 0 \<Longrightarrow> token_atom st dl buf = token_atom (-1) dl buf"
  by (simp add: token_atom_def float_accept_def)

text \<open>What an atom other than a semicolon or comma prints as, and what the parser makes of it.\<close>

lemma atom_string_tok:
  assumes "savable a" "\<not> punct a" "tok a = (q, s)"
  shows "atom_string a MAXPDSTRING = Some (quote_all q s)"
    "list_all (sym_char q) s" "s \<noteq> []" "length s < MAXPDSTRING"
    "token_atom (foldl float_step 0 (quote_all q s)) (\<not> q \<and> has_dollar s) s = reread a"
proof -
  have "atom_string a MAXPDSTRING = Some (quote_all q s) \<and> list_all (sym_char q) s \<and> s \<noteq> [] \<and>
    length s < MAXPDSTRING \<and> token_atom (foldl float_step 0 (quote_all q s)) (\<not> q \<and> has_dollar s) s = reread a"
  proof (cases a)
    case (A_FLOAT f)
    with assms have s: "s = print_g 6 f" "\<not> q" and d: "decimal s" and l: "length s < 30"
      using print_g_decimal [of f 6] by (auto split: cfloat.splits)
    with A_FLOAT decimal_plain [OF d] float_accept_decimal [OF d] show ?thesis
      by (simp add: atom_string_def float_string_def token_atom_def)
  next
    case (A_SYMBOL y)
    with assms have s: "s = y" "q" by auto
    have l: "length y < MAXPDSTRING" using quote_all_longer [of y True] assms(1) A_SYMBOL by simp
    have "cstr y = y" using assms(1) A_SYMBOL by (intro cstr_id) (auto simp: list_all_iff sym_char_def)
    with l A_SYMBOL assms s sym_string_quote [of True y] show ?thesis
      by (simp add: atom_string_def token_atom_def)
  next
    case (A_DOLLSYM y)
    with assms have s: "s = y" "\<not> q" by auto
    have l: "length y < MAXPDSTRING" using quote_all_longer [of y False] assms(1) A_DOLLSYM by simp
    have "list_all (sym_char False) y" "has_dollar y" "y \<noteq> []" using assms(1) A_DOLLSYM by auto
    then have c: "cstr y = y" "cstr (tl y) = tl y" by (auto intro!: cstr_id simp: list_all_iff sym_char_def dest: list.set_sel(2))
    have "CHR ''$'' \<in> set (quote_all False y)" using has_dollar_set [OF \<open>has_dollar y\<close>]
      by (induction y) (auto simp: quote_char_def)
    from float_reject_dollar [of 0, OF _ this] have rej: "foldl float_step 0 (quote_all False y) < 0" by simp
    have y0: "cnth y 0 = hd y" "drop 1 y = tl y" using \<open>y \<noteq> []\<close> by (simp_all add: cnth_def hd_conv_nth drop_Suc)
    have "sym_string False y MAXPDSTRING = quote_all False y"
      using assms(1) A_DOLLSYM quote_all_False_id [of y] by (intro sym_string_quote) auto
    moreover have "token_atom (-1) True y = A_DOLLSYM y"
      using assms(1) A_DOLLSYM y0 c by (simp add: token_atom_def float_accept_def)
    ultimately show ?thesis using l A_DOLLSYM assms(1) s \<open>y \<noteq> []\<close> token_reject [OF rej]
      by (simp add: atom_string_def)
  next
    case (A_DOLLAR i)
    with assms have s: "s = dollar_string i" "\<not> q" by auto
    have i: "i = DOLLARALL \<or> 0 \<le> i \<and> i < 2 ^ 31" using assms(1) A_DOLLAR by simp
    note d = dollar_tok [OF i]
    have rej: "foldl float_step 0 (dollar_string i) < 0"
      by (rule float_reject_dollar [OF _ has_dollar_set [OF d(3)]]) simp
    have ne: "dollar_string i \<noteq> []" using d(3) by (cases "dollar_string i") simp_all
    have q: "q = False" "s = dollar_string i" using s by simp_all
    have len: "length (dollar_string i) < 1000" using d(4) by linarith
    show ?thesis unfolding A_DOLLAR q d(2) token_reject [OF rej] using d(1,3,6) ne len
      by (simp only: atom_string_def atom.case reread.simps simp_thms not_False_eq_True)
  qed (use assms in \<open>auto simp: punct_def\<close>)
  then show "atom_string a MAXPDSTRING = Some (quote_all q s)"
    "list_all (sym_char q) s" "s \<noteq> []" "length s < MAXPDSTRING"
    "token_atom (foldl float_step 0 (quote_all q s)) (\<not> q \<and> has_dollar s) s = reread a" by simp_all
qed

lemma binbuf_text_token:
  assumes "savable a" "\<not> punct a" "tok a = (q, s)" "delimited r"
  shows "binbuf_text (quote_all q s @ r) = reread a # binbuf_text r"
proof -
  note t = atom_string_tok [OF assms(1-3)]
  obtain c u where cu: "quote_all q s = c # u" "\<not> text_delim c" using quote_all_hd [OF t(2,3)] by blast
  have sp: "dropWhile text_space (c # u @ r) = c # u @ r" "c \<noteq> CHR '';''" "c \<noteq> CHR '',''"
    using cu(2) by (auto simp: text_delim_def)
  have "lex_atom 0 False False [] (c # u @ r) =
      (foldl float_step 0 (quote_all q s), \<not> q \<and> has_dollar s, s, r)"
    using lex_quoted [of q s "[]" r 0 False] t assms(4) cu(1) by simp
  then show ?thesis using sp t(5)
    by (subst binbuf_text.simps) (simp add: cu(1))
qed

text \<open>
  The texts that spell a list of atoms, however they are spaced: an atom's text is followed by a
  delimiter unless it is itself a semicolon or a comma.
\<close>

definition atom_text :: "atom \<Rightarrow> string" where
  "atom_text a = the (atom_string a MAXPDSTRING)"

inductive prints :: "binbuf \<Rightarrow> string \<Rightarrow> bool" where
  prints_Nil: "prints [] []"
| prints_space: "text_space c \<Longrightarrow> prints xs t \<Longrightarrow> prints xs (c # t)"
| prints_atom: "savable a \<Longrightarrow> punct a \<or> delimited r \<Longrightarrow> prints xs r \<Longrightarrow> prints (a # xs) (atom_text a @ r)"

lemma atom_text_punct [simp]: "atom_text A_SEMI = '';''" "atom_text A_COMMA = '',''"
  by (simp_all add: atom_text_def atom_string_def)

lemma atom_string_text: "savable a \<Longrightarrow> atom_string a MAXPDSTRING = Some (atom_text a)"
proof (cases "punct a")
  case True
  then show ?thesis by (auto simp: punct_def atom_text_def atom_string_def)
next
  case False
  assume "savable a"
  moreover obtain q s where "tok a = (q, s)" by fastforce
  ultimately show ?thesis using atom_string_tok(1) [OF _ False] by (simp add: atom_text_def)
qed

lemma binbuf_text_space: "text_space c \<Longrightarrow> binbuf_text (c # r) = binbuf_text r"
  by (subst (1 2) binbuf_text.simps) simp

lemma binbuf_text_atom:
  assumes "savable a" "punct a \<or> delimited r"
  shows "binbuf_text (atom_text a @ r) = reread a # binbuf_text r"
proof (cases "punct a")
  case True
  then show ?thesis
    by (subst binbuf_text.simps) (auto simp: punct_def text_space_def)
next
  case False
  obtain q s where "tok a = (q, s)" by fastforce
  with binbuf_text_token [OF assms(1) False this] assms(2) False atom_string_tok(1) [OF assms(1) False this]
  show ?thesis by (simp add: atom_text_def)
qed

lemma binbuf_text_prints: "prints xs t \<Longrightarrow> binbuf_text t = map reread xs"
proof (induction rule: prints.induct)
  case prints_Nil
  show ?case by (simp add: binbuf_text.simps)
qed (simp_all add: binbuf_text_space binbuf_text_atom)

text \<open>A text after which any spelling may follow; a last blank may be taken back before a delimiter.\<close>

definition open_text :: "binbuf \<Rightarrow> string \<Rightarrow> bool" where
  "open_text xs t \<longleftrightarrow>
     (\<forall>ys u. prints ys u \<longrightarrow> prints (xs @ ys) (t @ u)) \<and>
     (\<forall>t0 ys u. t = t0 @ '' '' \<longrightarrow> prints ys u \<longrightarrow> delimited u \<longrightarrow> prints (xs @ ys) (t0 @ u))"

lemma open_text_Nil: "open_text [] []"
  by (simp add: open_text_def)

lemma open_text_snocI:
  assumes "\<And>ys u. prints ys u \<Longrightarrow> prints (xs @ a # ys) (t @ w @ q # u)"
    and "\<And>ys u. prints ys u \<Longrightarrow> delimited u \<Longrightarrow> prints (xs @ a # ys) (t @ w @ u)"
  shows "open_text (xs @ [a]) (t @ w @ [q])"
proof -
  have t0: "t0 = t @ w" if "t @ w @ [q] = t0 @ '' ''" for t0
  proof -
    have "(t @ w) @ [q] = t0 @ '' ''" using that by simp
    then show ?thesis by (simp only: append1_eq_conv)
  qed
  show ?thesis unfolding open_text_def
  proof (intro conjI allI impI)
    fix t0 ys u assume a: "t @ w @ [q] = t0 @ '' ''" "prints ys u" "delimited u"
    from assms(2) [OF a(2,3)] show "prints ((xs @ [a]) @ ys) (t0 @ u)" by (simp add: t0 [OF a(1)])
  qed (use assms(1) in simp)
qed

lemma open_text_atom:
  assumes "open_text xs t" "savable a" "text_space q"
  shows "open_text (xs @ [a]) (t @ atom_text a @ [q])"
proof -
  have "prints (xs @ a # ys) (t @ atom_text a @ q # u)" if "prints ys u" for ys u
  proof -
    have "delimited (q # u)" using assms(3) by (simp add: delimited_def text_delim_def)
    with that assms have "prints (a # ys) (atom_text a @ q # u)" by (intro prints_atom prints_space) simp_all
    with assms(1) show ?thesis unfolding open_text_def by blast
  qed
  moreover have "prints (xs @ a # ys) (t @ atom_text a @ u)" if "prints ys u" "delimited u" for ys u
  proof -
    from that assms have "prints (a # ys) (atom_text a @ u)" by (intro prints_atom) simp_all
    with assms(1) show ?thesis unfolding open_text_def by blast
  qed
  ultimately show ?thesis by (rule open_text_snocI)
qed

lemma open_text_strip:
  assumes "open_text xs (t @ '' '')" "punct a" "text_space q"
  shows "open_text (xs @ [a]) (t @ atom_text a @ [q])"
proof -
  have sv: "savable a" "delimited (atom_text a @ v)" for v
    using assms(2) by (auto simp: punct_def delimited_def text_delim_def)
  have "prints (xs @ a # ys) (t @ atom_text a @ q # u)" if "prints ys u" for ys u
    using assms sv prints_atom [OF sv(1) _ prints_space [OF assms(3) that]]
    unfolding open_text_def by blast
  moreover have "prints (xs @ a # ys) (t @ atom_text a @ u)" if "prints ys u" "delimited u" for ys u
    using assms sv prints_atom [OF sv(1) _ that(1)] unfolding open_text_def by blast
  ultimately show ?thesis by (rule open_text_snocI)
qed

lemma open_text_prints: "open_text xs t \<Longrightarrow> prints xs t" "open_text xs t \<Longrightarrow> prints xs (strip_last (CHR '' '') t)"
proof -
  assume o: "open_text xs t"
  have n: "prints [] []" "delimited []" by (auto simp: prints_Nil delimited_def)
  from o n show p: "prints xs t" unfolding open_text_def by fastforce
  show "prints xs (strip_last (CHR '' '') t)"
  proof (cases "t \<noteq> [] \<and> last t = CHR '' ''")
    case True
    then have "t = butlast t @ '' ''" by (metis append_butlast_last_id)
    with o n have "prints (xs @ []) (butlast t @ [])" unfolding open_text_def by blast
    with True show ?thesis by (simp add: strip_last_def)
  qed (use p in \<open>auto simp: strip_last_def\<close>)
qed

lemma gettext_loop_prints:
  assumes "list_all savable ys" "open_text xs buf"
  shows "\<exists>t. gettext_loop ys buf = Some t \<and> open_text (xs @ ys) t"
  using assms
proof (induction ys arbitrary: xs buf)
  case (Cons a ys)
  define q where "q = (if a = A_SEMI then NL else CHR '' '')"
  define buf1 where "buf1 = (if (a = A_SEMI \<or> a = A_COMMA) \<and> buf \<noteq> [] \<and> last buf = CHR '' ''
      then butlast buf else buf)"
  have q: "text_space q" by (simp add: q_def text_space_def)
  have "open_text (xs @ [a]) (buf1 @ atom_text a @ [q])"
  proof (cases "punct a \<and> buf \<noteq> [] \<and> last buf = CHR '' ''")
    case True
    then have "buf = buf1 @ '' ''" by (auto simp: buf1_def punct_def) (metis append_butlast_last_id)+
    with open_text_strip [of xs buf1 a q] Cons.prems True q show ?thesis by simp
  next
    case False
    then have "buf1 = buf" by (auto simp: buf1_def punct_def)
    with open_text_atom [of xs buf a q] Cons.prems q show ?thesis by simp
  qed
  from Cons.IH [OF _ this] Cons.prems show ?case
    using atom_string_text [of a] unfolding gettext_loop.simps buf1_def [symmetric] Let_def by (simp add: q_def)
qed simp

lemma gettext_prints:
  assumes "list_all savable xs"
  shows "\<exists>t. binbuf_gettext xs = Some t \<and> prints xs t"
  using gettext_loop_prints [OF assms open_text_Nil] open_text_prints(2)
  by (auto simp: binbuf_gettext_def)

section \<open>The list-box variants\<close>

text \<open>There the delimiter is the character 0x7F, nothing is quoted and blanks belong to symbols.\<close>

fun list_savable :: "atom \<Rightarrow> bool" where
  "list_savable (A_FLOAT f) \<longleftrightarrow> savable (A_FLOAT f)"
| "list_savable (A_SYMBOL s) \<longleftrightarrow> s \<noteq> [] \<and> list_all (\<lambda>c. c \<noteq> NUL \<and> c \<noteq> ALIST_DELIM) s \<and>
     length s < MAXPDSTRING - 1 \<and> \<not> float_accept (foldl float_step 0 s)"
| "list_savable _ \<longleftrightarrow> False"

lemma lex_s_plain:
  assumes "list_all (\<lambda>c. c \<noteq> ALIST_DELIM) s" "s \<noteq> []" "length buf + length s < MAXPDSTRING" "r = [] \<or> hd r = ALIST_DELIM"
  shows "lex_atom_s st buf (s @ r) = (foldl float_step st s, buf @ s, r)"
  using assms
proof (induction s arbitrary: st buf)
  case (Cons c s)
  show ?case
  proof (cases s)
    case Nil
    with Cons.prems show ?thesis by auto
  next
    case (Cons d u)
    with Cons.IH [of "buf @ [c]" "float_step st c"] Cons.prems show ?thesis by simp
  qed
qed simp

lemma decimal_no_delim: "decimal s \<Longrightarrow> c \<in> set s \<Longrightarrow> c \<noteq> ALIST_DELIM"
  using decimal_chars [of s c] by (auto simp: cdigit_def code_def)

lemma list_token:
  assumes "list_savable a"
  shows "\<exists>s. atom_string_s a MAXPDSTRING = Some s \<and> list_all (\<lambda>c. c \<noteq> ALIST_DELIM) s \<and> s \<noteq> [] \<and>
    length s < MAXPDSTRING \<and>
    reread a = (if float_accept (foldl float_step 0 s) then A_FLOAT (float_atof (cstr s)) else A_SYMBOL (cstr s))"
proof (cases a)
  case (A_FLOAT f)
  with assms have d: "decimal (print_g 6 f)" and l: "length (print_g 6 f) < 30"
    using print_g_decimal [of f 6] by (auto split: cfloat.splits)
  with A_FLOAT decimal_plain [OF d] float_accept_decimal [OF d] decimal_no_delim [OF d] show ?thesis
    by (auto simp: atom_string_s_def float_string_def list_all_iff)
next
  case (A_SYMBOL s)
  with assms have "cstr s = s" by (intro cstr_id) (auto simp: list_all_iff)
  with A_SYMBOL assms show ?thesis by (auto simp: atom_string_s_def list_all_iff)
qed (use assms in auto)

lemma binbuf_text_s_token:
  assumes "list_all (\<lambda>c. c \<noteq> ALIST_DELIM) s" "s \<noteq> []" "length s < MAXPDSTRING" "r = [] \<or> hd r = ALIST_DELIM"
  shows "binbuf_text_s (s @ r) =
    (if float_accept (foldl float_step 0 s) then A_FLOAT (float_atof (cstr s)) else A_SYMBOL (cstr s)) # binbuf_text_s r"
proof -
  obtain c u where s: "s = c # u" "c \<noteq> ALIST_DELIM" using assms(1,2) by (cases s) auto
  have "lex_atom_s 0 [] (c # u @ r) = (foldl float_step 0 s, s, r)"
    using lex_s_plain [of s "[]" r 0] assms s by simp
  with s show ?thesis by (subst binbuf_text_s.simps) simp
qed

fun spell_s :: "binbuf \<Rightarrow> string" where
  "spell_s [] = []"
| "spell_s (a # as) = ALIST_DELIM # the (atom_string_s a MAXPDSTRING) @ spell_s as"

lemma text_s_delim: "binbuf_text_s (ALIST_DELIM # r) = binbuf_text_s r"
  by (subst (1 2) binbuf_text_s.simps) simp

lemma spell_s_hd: "spell_s as = [] \<or> hd (spell_s as) = ALIST_DELIM"
  by (cases as) auto

lemma binbuf_text_s_spell: "list_all list_savable xs \<Longrightarrow> binbuf_text_s (spell_s xs) = map reread xs"
proof (induction xs)
  case (Cons a xs)
  from list_token [of a] Cons.prems obtain s where
    "atom_string_s a MAXPDSTRING = Some s" "list_all (\<lambda>c. c \<noteq> ALIST_DELIM) s" "s \<noteq> []" "length s < MAXPDSTRING"
    "reread a = (if float_accept (foldl float_step 0 s) then A_FLOAT (float_atof (cstr s)) else A_SYMBOL (cstr s))"
    by auto
  with binbuf_text_s_token [of s "spell_s xs"] spell_s_hd [of xs] Cons show ?case
    by (simp add: text_s_delim)
qed (simp add: binbuf_text_s.simps)

lemma gettext_s_loop_spell:
  "list_all list_savable xs \<Longrightarrow> map_option (strip_last ALIST_DELIM) (gettext_s_loop xs (buf @ [ALIST_DELIM])) = Some (buf @ spell_s xs)"
proof (induction xs arbitrary: buf)
  case (Cons a xs)
  from list_token [of a] Cons.prems obtain s where "atom_string_s a MAXPDSTRING = Some s" by auto
  with Cons.IH [of "buf @ ALIST_DELIM # s"] Cons.prems show ?case by simp
qed (simp add: strip_last_def)

lemma gettext_s_text_s:
  assumes "list_all list_savable xs"
  shows "map_option binbuf_text_s (binbuf_gettext_s xs) = Some (map reread xs)"
proof (cases xs)
  case Nil
  then show ?thesis by (simp add: binbuf_gettext_s_def strip_last_def binbuf_text_s.simps)
next
  case (Cons a as)
  from list_token [of a] assms Cons obtain s where s: "atom_string_s a MAXPDSTRING = Some s" by auto
  then have "binbuf_gettext_s xs = Some (s @ spell_s as)"
    using gettext_s_loop_spell [of as s] assms Cons by (simp add: binbuf_gettext_s_def)
  moreover have "binbuf_text_s (s @ spell_s as) = map reread xs"
    using binbuf_text_s_spell [OF assms] s Cons by (simp add: text_s_delim)
  ultimately show ?thesis by simp
qed

section \<open>Numbers\<close>

lemma reread_int: "\<bar>n\<bar> < 10 ^ 6 \<Longrightarrow> reread (A_FLOAT (float_of_int n)) = A_FLOAT (float_of_int n)"
  using print_g_int [of n] float_atof_show_int [of n] float_of_int_exact [of n] by simp

section \<open>Properties\<close>

text \<open>C2: the text \<open>binbuf_gettext\<close> produces for a list of atoms is read back by \<open>binbuf_text\<close>
  atom for atom, with symbols unquoted and arguments recognised; a float comes back as the value
  of its six-digit decimal form.\<close>

theorem text_roundtrip:
  assumes "list_all savable xs"
  shows "map_option binbuf_text (binbuf_gettext xs) = Some (map reread xs)"
  using gettext_prints [OF assms] binbuf_text_prints by auto

theorem text_roundtrip_witness:
  "map_option binbuf_text (binbuf_gettext [A_SYMBOL ''a b'', A_DOLLAR 1, A_COMMA, A_DOLLSYM ''$1-x'', A_SEMI, A_SYMBOL ''$2'']) =
     Some [A_SYMBOL ''a b'', A_DOLLAR 1, A_COMMA, A_DOLLSYM ''$1-x'', A_SEMI, A_SYMBOL ''$2'']"
  by (subst text_roundtrip)
     (simp_all add: sym_char_def quote_char_def cnth_def cdigit_def code_def float_accept_def float_step_def Let_def)

text \<open>Integers of up to six digits survive the text format exactly.\<close>

theorem int_roundtrip:
  assumes "\<bar>n\<bar> < 10 ^ 6"
  shows "map_option binbuf_text (binbuf_gettext [A_FLOAT (float_of_int n)]) = Some [A_FLOAT (float_of_int n)]"
proof -
  have f: "float_of_int n = FFin (of_int n)" using assms float_of_int_exact [of n] by simp
  have "nat \<bar>n\<bar> < 10 ^ 6" using assms by (simp add: nat_less_iff)
  from dec_digits_len [OF this] have "length (show_int n) < 30"
    by (cases "n < 0") (auto simp: show_int_def)
  with print_g_int [OF assms] f have "savable (A_FLOAT (float_of_int n))" by simp
  with gettext_prints [of "[A_FLOAT (float_of_int n)]"] binbuf_text_prints reread_int [OF assms] show ?thesis by auto
qed

theorem int_roundtrip_witness:
  "map_option binbuf_text (binbuf_gettext [A_FLOAT (float_of_int (-440))]) = Some [A_FLOAT (float_of_int (-440))]"
  by (rule int_roundtrip) simp

text \<open>The same for the list-box format, where symbols may hold any character but the delimiter.\<close>

theorem listbox_roundtrip:
  assumes "list_all list_savable xs"
  shows "map_option binbuf_text_s (binbuf_gettext_s xs) = Some (map reread xs)"
  using assms by (rule gettext_s_text_s)

theorem listbox_roundtrip_witness:
  "map_option binbuf_text_s (binbuf_gettext_s [A_SYMBOL ''a b;'', A_SYMBOL ''$1'']) = Some [A_SYMBOL ''a b;'', A_SYMBOL ''$1'']"
  by (subst listbox_roundtrip)
     (simp_all add: cdigit_def code_def float_accept_def float_step_def Let_def)

text \<open>A word whose second character is an at sign loses its arguments: \<open>binbuf_text\<close> makes a
  plain symbol of it (the code tests \<open>buf[1]\<close> without testing that \<open>buf[0]\<close> is a dollar sign).\<close>

theorem dollsym_at_lost:
  assumes "sym_char False c" "\<not> text_delim c" "c \<noteq> BSL" "c \<noteq> CHR ''$''" "n < 2 ^ 31"
  shows "binbuf_text (c # ''@$'' @ show_nat n) = [A_SYMBOL (c # ''@$'' @ show_nat n)]"
proof -
  define s where "s = c # ''@$'' @ show_nat n"
  note d = dollar_tok [of "int n"]
  have ds: "dollar_string (int n) = CHR ''$'' # show_nat n"
    by (simp add: dollar_string_def show_int_def)
  then have t: "list_all (sym_char False) s" "has_dollar s" "length s < 20" "quote_all False s = s"
    using d assms by (auto simp: s_def sym_char_def quote_char_def text_delim_def text_space_def)
  have ne: "s \<noteq> []" by (simp add: s_def)
  have rej: "foldl float_step 0 s < 0" by (rule float_reject_dollar) (auto simp: s_def)
  have "lex_atom 0 False False [] s = (foldl float_step 0 s, True, s, [])"
    using lex_quoted [of False s "[]" "[]" 0 False] t ne by (simp add: delimited_def)
  moreover have "cstr s = s" using t(1) by (intro cstr_id) (auto simp: list_all_iff sym_char_def)
  ultimately show ?thesis using assms(2) rej token_reject [OF rej, of True s]
    unfolding s_def [symmetric]
    by (subst binbuf_text.simps) (auto simp: s_def text_delim_def token_atom_def cnth_def float_accept_def binbuf_text.simps)
qed

theorem dollsym_at_lost_witness: "binbuf_text ''a@$1'' = [A_SYMBOL ''a@$1'']"
proof -
  have "show_nat 1 = ''1''" by code_simp
  with dollsym_at_lost [of "CHR ''a''" 1] show ?thesis
    by (simp add: sym_char_def text_delim_def text_space_def)
qed

end
