(* ===== verification/BinbufSave.thy ===== *)
theory BinbufSave
  imports BinbufText
begin

text \<open>
  Building and saving binbufs, \<open>src/pd/src/m_binbuf.c\<close>: \<open>binbuf_add\<close> and its variants, the
  escaping of a patch's atoms into symbols when it is saved as messages (\<open>binbuf_addbinbuf\<close>) and
  back (\<open>binbuf_restore\<close>), and the writer and reader of patch files.
\<close>

section \<open>Appending\<close>

definition binbuf_add :: "binbuf \<Rightarrow> atom list \<Rightarrow> binbuf" where
  "binbuf_add x argv = x @ argv"

definition binbuf_addsemi :: "binbuf \<Rightarrow> binbuf" where
  "binbuf_addsemi x = binbuf_add x [A_SEMI]"

text \<open>\<open>binbuf_addv\<close>: an argument that does not match the format is undefined behaviour, \<open>None\<close>.\<close>

datatype vararg = V_INT int | V_DOUBLE cfloat | V_SYMBOL symbol

abbreviation MAXADDMESSV :: nat where "MAXADDMESSV \<equiv> 100"

text \<open>The atom a format character asks for: \<open>None\<close> ends the list.\<close>

definition addv_arg :: "char \<Rightarrow> vararg list \<Rightarrow> (atom \<times> vararg list) option option" where
  "addv_arg c va =
     (if c = CHR ''i'' then
        Some (case va of V_INT n # va' \<Rightarrow> Some (A_FLOAT (float_of_int n), va') | _ \<Rightarrow> None)
      else if c = CHR ''f'' then
        Some (case va of V_DOUBLE d # va' \<Rightarrow> Some (A_FLOAT (single_of_double d), va') | _ \<Rightarrow> None)
      else if c = CHR ''s'' then
        Some (case va of V_SYMBOL s # va' \<Rightarrow> Some (A_SYMBOL s, va') | _ \<Rightarrow> None)
      else if c = CHR '';'' then Some (Some (A_SEMI, va))
      else if c = CHR '','' then Some (Some (A_COMMA, va))
      else None)"

fun addv_loop :: "string \<Rightarrow> vararg list \<Rightarrow> atom list \<Rightarrow> atom list option" where
  "addv_loop [] va arg = Some arg"
| "addv_loop (c # fp) va arg =
     (if length arg \<ge> MAXADDMESSV then Some arg
      else case addv_arg c va of
        None \<Rightarrow> Some arg
      | Some None \<Rightarrow> None
      | Some (Some (a, va')) \<Rightarrow> addv_loop fp va' (arg @ [a]))"

definition binbuf_addv :: "binbuf \<Rightarrow> string \<Rightarrow> vararg list \<Rightarrow> binbuf option" where
  "binbuf_addv x fmt va = map_option (binbuf_add x) (addv_loop fmt va [])"

section \<open>Escaping atoms into symbols\<close>

definition fixit :: "symbol \<Rightarrow> bool" where
  "fixit s \<longleftrightarrow> list_ex (\<lambda>c. c = CHR '';'' \<or> c = CHR '','' \<or> c = CHR ''$'' \<or> c = BSL) s"

text \<open>An atom of any other type is reported as a bug and left as it is.\<close>

definition save_atom :: "atom \<Rightarrow> atom" where
  "save_atom a =
     (case a of
        A_SEMI \<Rightarrow> A_SYMBOL '';''
      | A_COMMA \<Rightarrow> A_SYMBOL '',''
      | A_DOLLAR i \<Rightarrow> A_SYMBOL (if i = DOLLARALL then ''$@'' else CHR ''$'' # show_int i)
      | A_DOLLSYM s \<Rightarrow> A_SYMBOL (sym_string False s MAXPDSTRING)
      | A_SYMBOL s \<Rightarrow> A_SYMBOL (if fixit s then sym_string True s MAXPDSTRING else s)
      | _ \<Rightarrow> a)"

definition binbuf_addbinbuf :: "binbuf \<Rightarrow> binbuf \<Rightarrow> binbuf" where
  "binbuf_addbinbuf x y = binbuf_add x (map save_atom y)"

text \<open>
  The loop of \<open>binbuf_restore\<close> that strips backslashes: \<open>n\<close> is \<open>sp1 - buf\<close>. The result is the
  text of \<open>buf\<close> and the flag \<open>dollar\<close>.
\<close>

fun unslash :: "nat \<Rightarrow> bool \<Rightarrow> string \<Rightarrow> string \<times> bool" where
  "unslash n slashed [] = ([], False)"
| "unslash n slashed (c # rest) =
     (if \<not> n < MAXPDSTRING - 1 then ([], False)
      else if slashed then (let (b, d) = unslash (Suc n) False rest in (c # b, d))
      else if c = BSL then unslash n True rest
      else (let (b, d) = unslash (Suc n) False rest in
            (c # b, c = CHR ''$'' \<and> cdigit (cnth rest 0) \<or> d)))"

text \<open>\<open>strchr(usestr, '$')\<close> finds a dollar sign that a digit follows.\<close>

definition first_dollar_arg :: "string \<Rightarrow> bool" where
  "first_dollar_arg s \<longleftrightarrow>
     (let r = dropWhile (\<lambda>c. c \<noteq> CHR ''$'') s in r \<noteq> [] \<and> cdigit (cnth r 1))"

definition restore_symbol :: "symbol \<Rightarrow> atom" where
  "restore_symbol str =
     (if str = '';'' then A_SEMI
      else if str = '','' then A_COMMA
      else if str = ''$@'' then A_DOLLAR DOLLARALL
      else
        let slashes = (BSL \<in> set str);
            (buf, dollar) = (if slashes then unslash 0 False str else ([], False));
            usestr = (if slashes then buf else str) in
        if dollar \<or> \<not> slashes \<and> first_dollar_arg usestr then
          (if cnth usestr 0 \<noteq> CHR ''$'' \<or> \<not> list_all cdigit (tl usestr) then A_DOLLSYM usestr
           else A_DOLLAR (atoi (tl usestr)))
        else A_SYMBOL usestr)"

definition restore_atom :: "atom \<Rightarrow> atom" where
  "restore_atom a = (case a of A_SYMBOL s \<Rightarrow> restore_symbol s | _ \<Rightarrow> a)"

definition binbuf_restore :: "binbuf \<Rightarrow> atom list \<Rightarrow> binbuf" where
  "binbuf_restore x argv = x @ map restore_atom argv"

section \<open>Patch files\<close>

text \<open>
  The loop of \<open>binbuf_write\<close>: \<open>out\<close> is what was passed to \<open>fwrite\<close>, \<open>sb\<close> the characters of \<open>sbuf\<close>
  before \<open>bp\<close>, \<open>ncol\<close> is \<open>ncolumn\<close>. Writes are assumed to succeed, but \<open>fwrite\<close> of an item of
  size 0 returns 0, which the code takes for a failure: the flag of the result says whether that
  happened. \<open>None\<close>: an atom that \<open>atom_string\<close> does not print.
\<close>

abbreviation WBUFSIZE :: nat where "WBUFSIZE \<equiv> 4096"

definition write_room :: "atom \<Rightarrow> nat" where
  "write_room a =
     (case a of A_SYMBOL s \<Rightarrow> 80 + length s | A_DOLLSYM s \<Rightarrow> 80 + length s | _ \<Rightarrow> 40)"

fun write_loop :: "bool \<Rightarrow> binbuf \<Rightarrow> string \<Rightarrow> string \<Rightarrow> nat \<Rightarrow> (string \<times> bool) option" where
  "write_loop crflag [] out sb ncol = Some (out @ sb, sb \<noteq> [])"
| "write_loop crflag (a # as) out sb ncol =
     (let full = (WBUFSIZE - length sb < write_room a);
          out = (if full then out @ sb else out);
          sb1 = (if full then [] else sb);
          sb2 = (if (a = A_SEMI \<or> a = A_COMMA) \<and> sb1 \<noteq> [] \<and> last sb1 = CHR '' ''
                 then butlast sb1 else sb1) in
      if full \<and> sb = [] then Some (out, False)
      else case (if \<not> crflag \<or> a \<noteq> A_SEMI then atom_string a (WBUFSIZE - length sb2 - 2) else Some []) of
        None \<Rightarrow> None
      | Some s \<Rightarrow>
          let newline = (a = A_SEMI \<or> \<not> crflag \<and> ncol + length s > 65) in
          write_loop crflag as out (sb2 @ s @ [if newline then NL else CHR '' ''])
            (if newline then 0 else ncol + length s + 1))"

text \<open>The contents of the file, and the return value.\<close>

definition binbuf_write :: "bool \<Rightarrow> binbuf \<Rightarrow> (string \<times> int) option" where
  "binbuf_write crflag x =
     map_option (\<lambda>(out, ok). (out, if ok then 0 else 1)) (write_loop crflag x [] [] 0)"

text \<open>\<open>binbuf_read\<close> of a file that opens and reads: the old contents of the binbuf are dropped.\<close>

definition binbuf_read :: "bool \<Rightarrow> string \<Rightarrow> binbuf" where
  "binbuf_read crflag contents =
     binbuf_text (if crflag then map (\<lambda>c. if c = NL then CHR '';'' else c) contents else contents)"

section \<open>Restoring what was escaped\<close>

fun dollar_arg :: "string \<Rightarrow> bool" where
  "dollar_arg [] \<longleftrightarrow> False"
| "dollar_arg (c # r) \<longleftrightarrow> c = CHR ''$'' \<and> cdigit (cnth r 0) \<or> dollar_arg r"

text \<open>
  The atoms that survive being saved as messages. An escaped symbol must fit the buffer; where the
  text of a \<open>A_DOLLSYM\<close> needs no escape, only its first dollar sign is looked at.
\<close>

fun restorable :: "atom \<Rightarrow> bool" where
  "restorable A_SEMI \<longleftrightarrow> True"
| "restorable A_COMMA \<longleftrightarrow> True"
| "restorable (A_FLOAT f) \<longleftrightarrow> True"
| "restorable (A_SYMBOL s) \<longleftrightarrow> fixit s \<longrightarrow> ALIST_DELIM \<notin> set s \<and> length (quote_all True s) < MAXPDSTRING - 1"
| "restorable (A_DOLLSYM s) \<longleftrightarrow> length (quote_all False s) < MAXPDSTRING - 1 \<and>
     (if needs_quote False s then dollar_arg s else first_dollar_arg s) \<and>
     \<not> (hd s = CHR ''$'' \<and> list_all cdigit (tl s))"
| "restorable (A_DOLLAR i) \<longleftrightarrow> i = DOLLARALL \<or> 0 \<le> i \<and> i < 2 ^ 31"
| "restorable _ \<longleftrightarrow> False"

lemma BSL_not_cdigit [simp]: "\<not> cdigit BSL"
  by (simp add: cdigit_def code_def)

lemma quote_char_cases:
  assumes "\<not> (a \<and> c = ALIST_DELIM)"
  shows "quote_char a c r = [c] \<and> c \<noteq> BSL \<or> quote_char a c r = [BSL, c] \<and> \<not> cdigit c \<and> (c = CHR ''$'' \<longrightarrow> a)"
proof (cases "quote_char a c r = [c]")
  case True
  then show ?thesis by (auto simp: quote_char_def split: if_splits)
next
  case False
  then have "quote_char a c r = [BSL, c]" "c \<in> {CHR '';'', CHR '','', BSL, CHR '' '', CHR ''$''}" "c = CHR ''$'' \<longrightarrow> a"
    using assms by (auto simp: quote_char_def split: if_splits)
  then show ?thesis by (auto dest: cdigit_nonspecial)
qed

lemma quote_all_digit:
  assumes "\<not> (a \<and> ALIST_DELIM \<in> set s)"
  shows "cdigit (cnth (quote_all a s) 0) \<longleftrightarrow> cdigit (cnth s 0)"
proof (cases s)
  case (Cons c t)
  then have "\<not> (a \<and> c = ALIST_DELIM)" using assms by auto
  from quote_char_cases [OF this, of t] show ?thesis by (auto simp: Cons cnth_def)
qed simp

lemma unslash_quote_all:
  assumes "\<not> (a \<and> ALIST_DELIM \<in> set s)" "n + length s \<le> MAXPDSTRING - 1"
  shows "unslash n False (quote_all a s) = (s, \<not> a \<and> dollar_arg s)"
  using assms
proof (induction s arbitrary: n)
  case (Cons c s)
  have del: "\<not> (a \<and> c = ALIST_DELIM)" "\<not> (a \<and> ALIST_DELIM \<in> set s)" using Cons.prems(1) by auto
  have IH: "unslash (Suc n) False (quote_all a s) = (s, \<not> a \<and> dollar_arg s)"
    using Cons.prems del by (intro Cons.IH) auto
  have n: "n < 999" using Cons.prems(2) by simp
  note dig = quote_all_digit [OF del(2)]
  consider (plain) "quote_char a c s = [c]" "c \<noteq> BSL" | (esc) "quote_char a c s = [BSL, c]" "c = CHR ''$'' \<longrightarrow> a"
    using quote_char_cases [OF del(1), of s] by blast
  then show ?case
  proof cases
    case plain
    have "a \<Longrightarrow> \<not> (c = CHR ''$'' \<and> cdigit (cnth s 0))"
      using plain(1) by (auto simp: quote_char_def split: if_splits)
    with plain IH n dig show ?thesis by auto
  next
    case esc
    with IH n show ?thesis by auto
  qed
qed simp

lemma quote_all_escapes: "needs_quote a s \<Longrightarrow> \<not> (a \<and> ALIST_DELIM \<in> set s) \<Longrightarrow> BSL \<in> set (quote_all a s)"
  by (induction s) (auto simp: quote_char_def)

lemma first_dollar_needs_quote: "first_dollar_arg s \<Longrightarrow> needs_quote True s"
proof (induction s)
  case (Cons c s)
  then show ?case by (cases "c = CHR ''$''") (auto simp: first_dollar_arg_def cnth_def Let_def split: if_splits)
qed (simp add: first_dollar_arg_def)

lemma needs_quote_plain: "\<not> needs_quote a s \<Longrightarrow> BSL \<notin> set s \<and> CHR '';'' \<notin> set s \<and> CHR '','' \<notin> set s"
  by (induction s) auto

lemma restore_slashed:
  assumes "BSL \<in> set (quote_all a s)" "\<not> (a \<and> ALIST_DELIM \<in> set s)" "length (quote_all a s) < MAXPDSTRING - 1"
  shows "restore_symbol (quote_all a s) =
    (if \<not> a \<and> dollar_arg s then
       if cnth s 0 \<noteq> CHR ''$'' \<or> \<not> list_all cdigit (tl s) then A_DOLLSYM s else A_DOLLAR (atoi (tl s))
     else A_SYMBOL s)"
proof -
  have "length s < 999" using quote_all_longer [of s a] assms(3) by simp
  then have "unslash 0 False (quote_all a s) = (s, \<not> a \<and> dollar_arg s)"
    using assms(2) by (intro unslash_quote_all) auto
  moreover have "quote_all a s \<noteq> '';''" "quote_all a s \<noteq> '',''" "quote_all a s \<noteq> ''$@''"
    using assms(1) by auto
  ultimately show ?thesis using assms(1) by (simp add: restore_symbol_def)
qed

lemma restore_plain:
  assumes "BSL \<notin> set s" "s \<noteq> '';''" "s \<noteq> '',''" "s \<noteq> ''$@''"
  shows "restore_symbol s =
    (if first_dollar_arg s then
       if cnth s 0 \<noteq> CHR ''$'' \<or> \<not> list_all cdigit (tl s) then A_DOLLSYM s else A_DOLLAR (atoi (tl s))
     else A_SYMBOL s)"
  using assms by (simp add: restore_symbol_def)

lemma restore_save_atom: "restorable a \<Longrightarrow> restore_atom (save_atom a) = a"
proof (cases a)
  case (A_SYMBOL s)
  assume r: "restorable a"
  show ?thesis
  proof (cases "fixit s")
    case False
    then have "BSL \<notin> set s" "CHR ''$'' \<notin> set s" "CHR '';'' \<notin> set s" "CHR '','' \<notin> set s"
      by (auto simp: fixit_def list_ex_iff)
    moreover from this have "\<not> first_dollar_arg s"
      by (auto simp: first_dollar_arg_def Let_def)
    ultimately have "restore_symbol s = A_SYMBOL s" by (subst restore_plain) auto
    with False show ?thesis by (simp add: A_SYMBOL save_atom_def restore_atom_def)
  next
    case True
    with r A_SYMBOL have del: "\<not> (True \<and> ALIST_DELIM \<in> set s)" and len: "length (quote_all True s) < MAXPDSTRING - 1" by auto
    show ?thesis
    proof (cases "s = ''$@'' \<or> needs_quote True s")
      case True
      then have "BSL \<in> set (quote_all True s)"
        using quote_all_escapes [of True s] del by (auto simp: quote_char_def cnth_def)
      moreover have "sym_string True s MAXPDSTRING = quote_all True s"
        using True by (intro sym_string_quote [OF len]) auto
      ultimately show ?thesis using restore_slashed [OF _ del len] \<open>fixit s\<close>
        by (simp add: A_SYMBOL save_atom_def restore_atom_def)
    next
      case False
      then have "restore_symbol s = A_SYMBOL s"
        using needs_quote_plain [of True s] first_dollar_needs_quote [of s] by (subst restore_plain) auto
      with False len quote_all_longer [of s True] \<open>fixit s\<close> show ?thesis
        by (simp add: A_SYMBOL save_atom_def restore_atom_def sym_string_def)
    qed
  qed
next
  case (A_DOLLSYM s)
  assume r: "restorable a"
  then have len: "length (quote_all False s) < MAXPDSTRING - 1"
    and nd: "cnth s 0 \<noteq> CHR ''$'' \<or> \<not> list_all cdigit (tl s)"
    using A_DOLLSYM by (auto simp: cnth_def hd_conv_nth split: if_splits)
  show ?thesis
  proof (cases "needs_quote False s")
    case True
    with restore_slashed [OF quote_all_escapes [OF True] _ len] sym_string_quote [OF len] r nd A_DOLLSYM show ?thesis
      by (simp add: save_atom_def restore_atom_def)
  next
    case False
    with r A_DOLLSYM have fd: "first_dollar_arg s" by simp
    then have "s \<noteq> '';''" "s \<noteq> '',''" "s \<noteq> ''$@''" by (auto simp: first_dollar_arg_def cnth_def cdigit_def code_def)
    with False fd nd needs_quote_plain [OF False] have "restore_symbol s = A_DOLLSYM s"
      by (subst restore_plain) auto
    moreover have "sym_string False s MAXPDSTRING = s"
      using sym_string_quote [OF len] quote_all_False_id [OF False] by simp
    ultimately show ?thesis by (simp add: A_DOLLSYM save_atom_def restore_atom_def)
  qed
next
  case (A_DOLLAR i)
  assume r: "restorable a"
  show ?thesis
  proof (cases "i = DOLLARALL")
    case True
    then show ?thesis by (simp add: A_DOLLAR save_atom_def restore_atom_def restore_symbol_def)
  next
    case False
    with r A_DOLLAR have i: "0 \<le> i" "i < 2 ^ 31" by auto
    obtain c t where ct: "show_nat (nat i) = c # t" using show_nat_nonempty [of "nat i"] by (cases "show_nat (nat i)") auto
    have dg: "list_all cdigit (c # t)" using show_nat_digits [of "nat i"] by (simp add: ct)
    have "c \<noteq> CHR ''@''" "BSL \<notin> set (c # t)" using dg by (auto simp: list_all_iff dest: cdigit_nonspecial)
    then have "restore_symbol (CHR ''$'' # c # t) = A_DOLLAR (atoi (c # t))"
      using dg by (subst restore_plain) (auto simp: first_dollar_arg_def cnth_def)
    moreover have "atoi (c # t) = i" using atoi_show_nat [of "nat i"] i by (simp add: ct nat_less_iff)
    ultimately show ?thesis using False i ct by (simp add: A_DOLLAR save_atom_def restore_atom_def show_int_def)
  qed
qed (auto simp: save_atom_def restore_atom_def restore_symbol_def)

section \<open>Patch files\<close>

text \<open>The writer estimates the room a symbol needs: at most 76 characters may need an escape.\<close>

fun writable :: "atom \<Rightarrow> bool" where
  "writable (A_SYMBOL s) \<longleftrightarrow> savable (A_SYMBOL s) \<and> length (quote_all True s) \<le> length s + 76"
| "writable (A_DOLLSYM s) \<longleftrightarrow> savable (A_DOLLSYM s) \<and> length (quote_all False s) \<le> length s + 76"
| "writable a \<longleftrightarrow> savable a"

lemma writable_savable: "writable a \<Longrightarrow> savable a"
  by (cases a) auto

lemma sym_string_room:
  assumes "length (quote_all a s) \<le> n - 2" "(a \<and> s = ''$@'') \<or> needs_quote a s \<or> quote_all a s = s" "2 < n"
  shows "sym_string a s n = quote_all a s"
  using assms quote_loop_eq [of 0 a s "n - 2"] quote_all_longer [of s a]
  by (auto simp: sym_string_def)

lemma atom_string_room:
  assumes "writable a" "write_room a - 2 \<le> n"
  shows "atom_string a n = Some (atom_text a)"
proof (cases a)
  case (A_SYMBOL s)
  with assms have "savable a" "sym_string True s n = quote_all True s"
    by (auto intro!: sym_string_room simp: write_room_def)
  with A_SYMBOL atom_string_text [of a] sym_string_quote [of True s] show ?thesis
    by (auto simp: atom_string_def)
next
  case (A_DOLLSYM s)
  with assms have sv: "savable a" and len: "length (quote_all False s) < MAXPDSTRING - 1" by auto
  have d: "(False \<and> s = ''$@'') \<or> needs_quote False s \<or> quote_all False s = s"
    using quote_all_False_id [of s] by blast
  have "sym_string False s n = quote_all False s"
    using assms A_DOLLSYM by (intro sym_string_room d) (auto simp: write_room_def)
  with A_DOLLSYM atom_string_text [OF sv] sym_string_quote [OF len d] show ?thesis
    by (simp add: atom_string_def)
next
  case (A_FLOAT f)
  with assms atom_string_text [of a] show ?thesis
    by (auto simp: atom_string_def float_string_def write_room_def Let_def)
qed (use assms atom_string_text [of a] in \<open>auto simp: atom_string_def\<close>)

lemma savable_no_NL: "savable a \<Longrightarrow> NL \<notin> set (atom_text a)"
proof (cases "punct a")
  case True
  then show ?thesis by (auto simp: punct_def)
next
  case False
  assume sv: "savable a"
  obtain q s where t: "tok a = (q, s)" by fastforce
  note a = atom_string_tok [OF sv False t]
  have "NL \<notin> set (quote_all q u)" if "list_all (sym_char q) u" for u
    using that by (induction u) (auto simp: quote_char_def sym_char_def)
  with a(1,2) show ?thesis by (simp add: atom_text_def)
qed


text \<open>A semicolon or comma ends a text by itself, after a blank or in its place.\<close>

lemma open_text_punct:
  assumes "open_text xs t \<or> open_text xs (t @ '' '')" "punct a"
  shows "open_text (xs @ [a]) (t @ atom_text a)"
proof -
  have sv: "savable a" "delimited (atom_text a @ v)" for v
    using assms(2) by (auto simp: punct_def delimited_def text_delim_def)
  have "prints (xs @ a # ys) (t @ atom_text a @ u)" if "prints ys u" for ys u
    using assms sv prints_atom [OF sv(1) _ that] unfolding open_text_def by blast
  moreover have "t @ atom_text a \<noteq> t0 @ '' ''" for t0
    using assms(2) by (auto simp: punct_def)
  ultimately show ?thesis unfolding open_text_def by simp
qed

definition cr_read :: "bool \<Rightarrow> char \<Rightarrow> char" where
  "cr_read crflag c = (if crflag \<and> c = NL then CHR '';'' else c)"

lemma map_cr_read: "NL \<notin> set s \<or> \<not> b \<Longrightarrow> map (cr_read b) s = s"
  by (induction s) (auto simp: cr_read_def)

lemma write_loop_prints:
  assumes "list_all writable ys" "open_text xs (map (cr_read crflag) (out @ sb))" "sb \<noteq> [] \<or> xs = []" "ys \<noteq> [] \<or> sb \<noteq> []"
  shows "\<exists>t. write_loop crflag ys out sb ncol = Some (t, True) \<and> open_text (xs @ ys) (map (cr_read crflag) t)"
  using assms
proof (induction ys arbitrary: xs out sb ncol)
  case (Cons a ys)
  have wa: "writable a" and sv: "savable a" using Cons.prems(1) writable_savable by auto
  have room: "write_room a \<le> WBUFSIZE"
  proof (cases a)
    case (A_SYMBOL s)
    with wa quote_all_longer [of s True] show ?thesis by (simp add: write_room_def)
  next
    case (A_DOLLSYM s)
    with wa quote_all_longer [of s False] show ?thesis by (simp add: write_room_def)
  qed (auto simp: write_room_def)
  define full where "full \<longleftrightarrow> WBUFSIZE - length sb < write_room a"
  define out1 where "out1 = (if full then out @ sb else out)"
  define sb1 where "sb1 = (if full then [] else sb)"
  define strip where "strip \<longleftrightarrow> punct a \<and> sb1 \<noteq> [] \<and> last sb1 = CHR '' ''"
  define sb2 where "sb2 = (if strip then butlast sb1 else sb1)"
  define s where "s = (if \<not> crflag \<or> a \<noteq> A_SEMI then atom_text a else [])"
  define nl where "nl \<longleftrightarrow> a = A_SEMI \<or> \<not> crflag \<and> ncol + length s > 65"
  define q where "q = (if nl then NL else CHR '' '')"
  have ne: "\<not> (full \<and> sb = [])" using room by (auto simp: full_def)
  have total: "out1 @ sb1 = out @ sb" by (simp add: out1_def sb1_def)
  have str: "strip \<Longrightarrow> out1 @ sb1 = (out1 @ sb2) @ '' ''"
    by (auto simp: strip_def sb2_def) (metis append_butlast_last_id)
  have "length sb2 \<le> length sb1" "WBUFSIZE - length sb1 \<ge> write_room a"
    using room by (auto simp: sb2_def sb1_def full_def)
  then have "write_room a - 2 \<le> WBUFSIZE - length sb2 - 2" by linarith
  then have "atom_string a (WBUFSIZE - length sb2 - 2) = Some (atom_text a)"
    by (rule atom_string_room [OF wa])
  then have as: "(if \<not> crflag \<or> a \<noteq> A_SEMI then atom_string a (WBUFSIZE - length sb2 - 2) else Some []) = Some s"
    by (simp add: s_def)
  have pu: "((a = A_SEMI \<or> a = A_COMMA) \<and> sb1 \<noteq> [] \<and> last sb1 = CHR '' '') = strip"
    by (simp add: strip_def punct_def)
  define t where "t = map (cr_read crflag) (out1 @ sb2)"
  have ot: "if strip then open_text xs (t @ '' '') else open_text xs t"
  proof (cases strip)
    case True
    have "map (cr_read crflag) (out @ sb) = t @ '' ''"
      unfolding total [symmetric] str [OF True] by (simp add: t_def cr_read_def)
    with True Cons.prems(2) show ?thesis by simp
  next
    case False
    with Cons.prems(2) show ?thesis by (simp add: t_def sb2_def total)
  qed
  have "open_text (xs @ [a]) (map (cr_read crflag) (out1 @ sb2 @ s @ [q]))"
  proof (cases "crflag \<and> a = A_SEMI")
    case True
    then have "map (cr_read crflag) (out1 @ sb2 @ s @ [q]) = t @ atom_text a"
      by (simp add: t_def s_def q_def nl_def cr_read_def)
    with open_text_punct [of xs t a] ot True show ?thesis by (auto simp: punct_def split: if_splits)
  next
    case False
    then have q: "cr_read crflag q = q" "text_space q" by (auto simp: q_def nl_def cr_read_def text_space_def)
    then have m: "map (cr_read crflag) (out1 @ sb2 @ s @ [q]) = t @ atom_text a @ [q]"
      using False savable_no_NL [OF sv] by (simp add: t_def s_def map_cr_read)
    show ?thesis unfolding m
      using open_text_strip [of xs t a q] open_text_atom [of xs t a q] ot q sv
      by (cases strip) (simp_all add: strip_def)
  qed
  then have "\<exists>r. write_loop crflag ys out1 (sb2 @ s @ [q]) (if nl then 0 else ncol + length s + 1) = Some (r, True) \<and>
      open_text ((xs @ [a]) @ ys) (map (cr_read crflag) r)"
    using Cons.prems(1) by (intro Cons.IH) auto
  then show ?case
    unfolding write_loop.simps Let_def full_def [symmetric] out1_def [symmetric] sb1_def [symmetric] pu
      sb2_def [symmetric] as option.case nl_def [symmetric] q_def [symmetric] using ne by simp
qed simp

lemma write_read:
  assumes "list_all writable xs" "xs \<noteq> []"
  shows "\<exists>t. binbuf_write crflag xs = Some (t, 0) \<and> binbuf_read crflag t = map reread xs"
proof -
  obtain t where t: "write_loop crflag xs [] [] 0 = Some (t, True)" "open_text xs (map (cr_read crflag) t)"
    using write_loop_prints [of xs "[]" crflag "[]" "[]" 0] assms open_text_Nil by auto
  have "binbuf_read crflag t = binbuf_text (map (cr_read crflag) t)"
    by (cases crflag) (simp_all add: binbuf_read_def map_cr_read cr_read_def cong: map_cong)
  with t binbuf_text_prints [OF open_text_prints(1) [OF t(2)]] show ?thesis
    by (simp add: binbuf_write_def)
qed

section \<open>Properties\<close>

text \<open>C4: what \<open>binbuf_addbinbuf\<close> escapes for saving, \<open>binbuf_restore\<close> turns back into the same
  atoms: semicolons and commas, arguments, and symbols that hold those characters.\<close>

theorem restore_addbinbuf:
  assumes "list_all restorable ys"
  shows "binbuf_restore x (binbuf_addbinbuf [] ys) = x @ ys"
  using assms by (induction ys) (auto simp: binbuf_restore_def binbuf_addbinbuf_def binbuf_add_def restore_save_atom)

theorem restore_addbinbuf_witness:
  "binbuf_restore [] (binbuf_addbinbuf [] [A_SYMBOL ''a;$1'', A_SEMI, A_DOLLSYM ''$1-x'', A_DOLLAR DOLLARALL]) =
     [A_SYMBOL ''a;$1'', A_SEMI, A_DOLLSYM ''$1-x'', A_DOLLAR DOLLARALL]"
  by (subst restore_addbinbuf)
     (simp_all add: fixit_def quote_char_def first_dollar_arg_def cnth_def cdigit_def code_def)



text \<open>C1: the whole way of an object's text into a patch file and back: the atoms are escaped
  into the message that creates the object, written to the file, parsed and restored.\<close>

theorem patch_text_roundtrip:
  assumes "list_all restorable xs" "list_all (\<lambda>a. writable (save_atom a)) xs" "xs \<noteq> []"
  shows "\<exists>t. binbuf_write False (binbuf_addbinbuf [] xs) = Some (t, 0) \<and>
    binbuf_restore [] (binbuf_read False t) = map reread xs"
proof -
  have re: "restore_atom (reread (save_atom a)) = reread a" if "restorable a" for a
    using restore_save_atom [OF that] that by (cases a) (auto simp: save_atom_def restore_atom_def)
  have "list_all writable (map save_atom xs)" using assms(2) by (simp add: list_all_iff)
  with write_read [of "map save_atom xs" False] assms(3) obtain t where
    "binbuf_write False (map save_atom xs) = Some (t, 0)" "binbuf_read False t = map reread (map save_atom xs)"
    by auto
  moreover have "map restore_atom (map reread (map save_atom xs)) = map reread xs"
    using assms(1) re by (auto simp: list_all_iff)
  ultimately show ?thesis by (simp add: binbuf_addbinbuf_def binbuf_add_def binbuf_restore_def)
qed

theorem patch_text_roundtrip_witness:
  "\<exists>t. binbuf_write False (binbuf_addbinbuf [] [A_SYMBOL ''a;$1'', A_SEMI, A_DOLLSYM ''$1-x'', A_DOLLAR 1]) = Some (t, 0) \<and>
    binbuf_restore [] (binbuf_read False t) = map reread [A_SYMBOL ''a;$1'', A_SEMI, A_DOLLSYM ''$1-x'', A_DOLLAR 1]"
proof -
  have "show_int 1 = ''1''" by code_simp
  then show ?thesis
    by (intro patch_text_roundtrip)
       (simp_all add: save_atom_def sym_string_def fixit_def quote_char_def first_dollar_arg_def cnth_def
         cdigit_def code_def sym_char_def float_accept_def float_step_def Let_def)
qed

end
