(* ===== verification/BinbufEval.thy ===== *)
theory BinbufEval
  imports BinbufSave
begin

text \<open>
  Evaluating a binbuf, \<open>binbuf_eval\<close> of \<open>src/pd/src/m_binbuf.c\<close>: the interpreter of message boxes
  and of patch files, which splits a list of atoms into messages, expands their arguments and
  sends them. The evaluator is modelled with its memory: the index \<open>pos\<close> (the code's \<open>at\<close>) into \<open>b_vec\<close>, the counter
  \<open>ac\<close> and the capacity of the message stack; a read or a write outside them is \<open>None\<close>. What it
  calls is an environment: the receiver a symbol is bound to (\<open>s_thing\<close>), the dispatch of a
  message to a receiver (\<open>typedmess\<close>, \<open>pd_float\<close>, \<open>pd_list\<close>, ...), \<open>canvas_getdollarzero\<close> and the
  error log, over a world they may change.
\<close>

section \<open>Dollar symbols\<close>

text \<open>The text an argument contributes: the end of \<open>binbuf_expanddollsym\<close>.\<close>

definition arg_text :: "atom \<Rightarrow> string" where
  "arg_text dollarvalue =
     (case dollarvalue of
        A_SYMBOL y \<Rightarrow> take (MAXPDSTRING div 2 - 2) y
      | _ \<Rightarrow> (case atom_string dollarvalue (MAXPDSTRING div 2 - 1) of Some t \<Rightarrow> t | None \<Rightarrow> []))"

text \<open>\<open>binbuf_expanddollsym\<close>: \<open>s\<close> follows the dollar sign; the result is the return value and \<open>buf\<close>.\<close>

definition binbuf_expanddollsym :: "string \<Rightarrow> atom \<Rightarrow> atom list \<Rightarrow> bool \<Rightarrow> nat \<times> string" where
  "binbuf_expanddollsym s dollar0 av tonew =
     (let (v, n) = strtol s; argno = int_cast v in
      if n = 0 then (0, ''$'')
      else if argno < 0 \<or> argno > int (length av) then
        (if tonew then (n, CHR ''$'' # show_int argno) else (0, []))
      else (n, arg_text (if argno = 0 then dollar0 else av ! nat (argno - 1))))"

definition strncat :: "string \<Rightarrow> string \<Rightarrow> string" where
  "strncat buf2 s = buf2 @ take (MAXPDSTRING - length buf2 - 1) s"

text \<open>The loop of \<open>binbuf_dorealizedollsym\<close>: \<open>str\<close> follows a dollar sign, \<open>buf2\<close> is the result so far.\<close>

function realize_loop :: "atom \<Rightarrow> atom list \<Rightarrow> bool \<Rightarrow> string \<Rightarrow> string \<Rightarrow> symbol option" where
  "realize_loop dollar0 av tonew buf2 str =
     (let (nxt, buf) = binbuf_expanddollsym str dollar0 av tonew in
      if \<not> tonew \<and> nxt = 0 \<and> buf = [] then None
      else
        let buf2' = strncat buf2 buf;
            str' = drop nxt str in
        case dropWhile (\<lambda>c. c \<noteq> CHR ''$'') str' of
          [] \<Rightarrow> Some (strncat buf2' str')
        | _ # rest \<Rightarrow> realize_loop dollar0 av tonew (strncat buf2' (takeWhile (\<lambda>c. c \<noteq> CHR ''$'') str')) rest)"
  by pat_completeness auto
termination
proof (relation "measure (\<lambda>(_, _, _, _, str). length str)", goal_cases)
  case (2 dollar0 av tonew buf2 str x nxt buf buf2' str' c rest)
  then have "length rest < length str'" by (intro dropWhile_Cons_length)
  then show ?case using 2 by simp
qed simp

declare realize_loop.simps [simp del]

definition binbuf_dorealizedollsym :: "int \<Rightarrow> symbol \<Rightarrow> atom list \<Rightarrow> bool \<Rightarrow> symbol option" where
  "binbuf_dorealizedollsym dzero s av tonew =
     (let pre = takeWhile (\<lambda>c. c \<noteq> CHR ''$'') s in
      case drop (length pre) s of
        [] \<Rightarrow> Some s
      | _ # str \<Rightarrow>
          if length pre \<ge> MAXPDSTRING then Some s
          else realize_loop (A_FLOAT (float_of_int dzero)) av tonew pre str)"

section \<open>Messages and their environment\<close>

datatype message =
    M_typed symbol "atom list"
  | M_float t_float
  | M_pointer nat
  | M_blob nat
  | M_list "atom list"

datatype eval_error =
    SymbolNeeded int
  | NotEnoughArguments int
  | DollsymArguments symbol
  | NoSuchObject symbol
  | ArgumentRange int
  | DollsymRange symbol
  | BadItem

record ('p, 'w) pd_env =
  thing :: "'w \<Rightarrow> symbol \<Rightarrow> 'p option"
  send :: "'p \<Rightarrow> message \<Rightarrow> 'w \<Rightarrow> 'w"
  getdollarzero :: "'w \<Rightarrow> int"
  report :: "eval_error \<Rightarrow> 'w \<Rightarrow> 'w"

definition dispatch :: "('p, 'w) pd_env \<Rightarrow> 'p \<Rightarrow> atom list \<Rightarrow> 'w \<Rightarrow> 'w" where
  "dispatch E p msg w =
     (case msg of
        [] \<Rightarrow> w
      | a # rest \<Rightarrow>
          (case a of
             A_SYMBOL s \<Rightarrow> send E p (M_typed s rest) w
           | A_FLOAT f \<Rightarrow> send E p (if rest = [] then M_float f else M_list msg) w
           | A_POINTER g \<Rightarrow> send E p (if rest = [] then M_pointer g else M_list msg) w
           | A_BLOB b \<Rightarrow> send E p (if rest = [] then M_blob b else M_list msg) w
           | _ \<Rightarrow> w))"

abbreviation DOLLAR_ALL :: atom where "DOLLAR_ALL \<equiv> A_DOLLAR DOLLARALL"

section \<open>The message stack\<close>

abbreviation SMALLMSG :: nat where "SMALLMSG \<equiv> 5"

text \<open>The count of arguments in the biggest message: \<open>j\<close> and \<open>maxnargs\<close> of the loop.\<close>

fun max_args :: "int \<Rightarrow> int \<Rightarrow> atom list \<Rightarrow> int" where
  "max_args j m [] = m"
| "max_args j m (a # as) =
     (if a = A_SEMI then max_args (-1) m as
      else if a = A_COMMA then max_args 0 m as
      else max_args (j + 1) (max m (j + 1)) as)"

text \<open>\<open>ac\<close> after the first loop of \<open>binbuf_eval\<close>: every \<open>$@\<close> adds \<open>argc\<close>.\<close>

definition eval_ac :: "atom list \<Rightarrow> nat \<Rightarrow> int" where
  "eval_ac x argc = int (length x) + int argc * int (count_list x DOLLAR_ALL)"

definition stack_size :: "atom list \<Rightarrow> nat \<Rightarrow> bool \<Rightarrow> bool \<Rightarrow> nat" where
  "stack_size x argc has_target to_maker =
     (let ac = eval_ac x argc;
          maxnargs = (if DOLLAR_ALL \<in> set x then ac else 0);
          maxnargs = (if to_maker then ac
                      else if maxnargs = 0 then max_args (if has_target then 0 else -1) 0 x
                      else maxnargs) in
      if ac \<le> int SMALLMSG then SMALLMSG else max SMALLMSG (nat maxnargs))"

section \<open>Finding the target\<close>

definition destination :: "int \<Rightarrow> atom list \<Rightarrow> atom \<Rightarrow> eval_error + symbol" where
  "destination dzero argv a =
     (case a of
        A_DOLLAR i \<Rightarrow>
          if i \<le> 0 \<or> i > int (length argv) then
            Inl (if i = 0 then SymbolNeeded i else NotEnoughArguments i)
          else (case argv ! nat (i - 1) of A_SYMBOL s \<Rightarrow> Inr s | _ \<Rightarrow> Inl (SymbolNeeded i))
      | A_DOLLSYM s \<Rightarrow>
          (case binbuf_dorealizedollsym dzero s argv False of
             None \<Rightarrow> Inl (DollsymArguments s) | Some t \<Rightarrow> Inr t)
      | _ \<Rightarrow> Inr (atom_getsymbol a))"

text \<open>The receiver a destination names, or the error.\<close>

definition resolve :: "('p, 'w) pd_env \<Rightarrow> atom list \<Rightarrow> atom \<Rightarrow> 'w \<Rightarrow> eval_error + 'p" where
  "resolve E argv a w =
     (case destination (getdollarzero E w) argv a of
        Inl e \<Rightarrow> Inl e
      | Inr s \<Rightarrow> (case thing E w s of None \<Rightarrow> Inl (NoSuchObject s) | Some p \<Rightarrow> Inr p))"

text \<open>The do-while loop after \<open>cleanup\<close>.\<close>

function cleanup :: "atom list \<Rightarrow> nat \<Rightarrow> int \<Rightarrow> (nat \<times> int) option" where
  "cleanup x pos ac =
     (if ac - 1 = 0 then Some (Suc pos, 0)
      else if length x \<le> Suc pos then None
      else if x ! Suc pos = A_SEMI then Some (Suc pos, ac - 1)
      else cleanup x (Suc pos) (ac - 1))"
  by pat_completeness auto
termination by (relation "measure (\<lambda>(x, pos, ac). length x - pos)") auto

declare cleanup.simps [simp del]

lemma cleanup_at: "cleanup x pos ac = Some (pos', ac') \<Longrightarrow> pos < pos'"
proof (induction x pos ac rule: cleanup.induct)
  case (1 x pos ac)
  then show ?case by (subst (asm) (2) cleanup.simps) (auto split: if_splits)
qed

text \<open>
  The loop \<open>while (!target)\<close>: \<open>Inl\<close> the world when \<open>ac\<close> runs out, \<open>Inr\<close> the target found.
\<close>

function find_target ::
  "('p, 'w) pd_env \<Rightarrow> atom list \<Rightarrow> atom list \<Rightarrow> nat \<Rightarrow> int \<Rightarrow> 'w \<Rightarrow> ('w + ('p \<times> nat \<times> int \<times> 'w)) option" where
  "find_target E argv x pos ac w =
     (if ac = 0 then Some (Inl w)
      else if length x \<le> pos then None
      else if x ! pos = A_SEMI \<or> x ! pos = A_COMMA then find_target E argv x (Suc pos) (ac - 1) w
      else case resolve E argv (x ! pos) w of
        Inr p \<Rightarrow> Some (Inr (p, Suc pos, ac - 1, w))
      | Inl e \<Rightarrow> (case cleanup x pos ac of
                    None \<Rightarrow> None
                  | Some (pos', ac') \<Rightarrow> find_target E argv x pos' ac' (report E e w)))"
  by pat_completeness auto
termination by (relation "measure (\<lambda>(E, argv, x, pos, ac, w). length x - pos)") (auto dest: cleanup_at)

declare find_target.simps [simp del]

section \<open>Building a message\<close>

text \<open>
  What one atom of a message becomes: the atoms pushed on the stack and the error reported, or
  \<open>None\<close> for an item no message can hold. \<open>maker\<close> says that the target is \<open>pd_objectmaker\<close>.
\<close>

definition expand_atom :: "int \<Rightarrow> atom list \<Rightarrow> bool \<Rightarrow> atom \<Rightarrow> (atom list \<times> eval_error option) option" where
  "expand_atom dzero argv maker a =
     (case a of
        A_SEMI \<Rightarrow> Some ([A_SYMBOL '';''], None)
      | A_COMMA \<Rightarrow> Some ([A_SYMBOL '',''], None)
      | A_FLOAT _ \<Rightarrow> Some ([a], None)
      | A_SYMBOL _ \<Rightarrow> Some ([a], None)
      | A_DOLLAR i \<Rightarrow>
          Some (if i = DOLLARALL then (argv, None)
                else if i > 0 \<and> i \<le> int (length argv) then ([argv ! nat (i - 1)], None)
                else if i = 0 then ([A_FLOAT (float_of_int dzero)], None)
                else ([A_FLOAT (FFin 0)], if maker then None else Some (ArgumentRange i)))
      | A_DOLLSYM s \<Rightarrow>
          Some (case binbuf_dorealizedollsym dzero s argv maker of
                  None \<Rightarrow> ([A_SYMBOL s], Some (DollsymRange s))
                | Some t \<Rightarrow> ([A_SYMBOL t], None))
      | _ \<Rightarrow> None)"

definition log_error :: "('p, 'w) pd_env \<Rightarrow> eval_error option \<Rightarrow> 'w \<Rightarrow> 'w" where
  "log_error E e w = (case e of None \<Rightarrow> w | Some x \<Rightarrow> report E x w)"

text \<open>
  The loop up to \<open>gotmess\<close>. The result holds the message, the position of the atom it stopped at,
  \<open>ac\<close>, whether a semicolon ended it, whether a bad item broke it off (\<open>goto broken\<close>), and the world.
\<close>

function build_message ::
  "('p, 'w) pd_env \<Rightarrow> atom list \<Rightarrow> atom list \<Rightarrow> bool \<Rightarrow> nat \<Rightarrow> nat \<Rightarrow> int \<Rightarrow> atom list \<Rightarrow> 'w \<Rightarrow>
     (atom list \<times> nat \<times> int \<times> bool \<times> bool \<times> 'w) option" where
  "build_message E argv x maker cap pos ac msg w =
     (if ac = 0 then Some (msg, pos, 0, False, False, w)
      else if length x \<le> pos then None
      else if \<not> maker \<and> (x ! pos = A_SEMI \<or> x ! pos = A_COMMA)
      then Some (msg, pos, ac, x ! pos = A_SEMI, False, w)
      else case expand_atom (getdollarzero E w) argv maker (x ! pos) of
        None \<Rightarrow> Some (msg, pos, ac, False, True, report E BadItem w)
      | Some (new, e) \<Rightarrow>
          if length msg + length new > cap then None
          else build_message E argv x maker cap (Suc pos)
                 (if x ! pos = DOLLAR_ALL then ac - int (length argv) - 1 else ac - 1)
                 (msg @ new) (log_error E e w))"
  by pat_completeness auto
termination by (relation "measure (\<lambda>(E, argv, x, maker, cap, pos, ac, msg, w). length x - pos)") auto

declare build_message.simps [simp del]

lemma build_message_pos:
  "build_message E argv x maker cap pos ac msg w = Some (msg', pos', ac', semi, broken, w') \<Longrightarrow>
    pos \<le> pos' \<and> (ac' \<noteq> 0 \<longrightarrow> pos' < length x)"
proof (induction E argv x maker cap pos ac msg w rule: build_message.induct)
  case (1 E argv x maker cap pos ac msg w)
  show ?case using 1(2) 1(1)
    by (subst (asm) build_message.simps) (fastforce split: if_splits option.splits prod.splits)
qed

lemma find_target_pos: "find_target E argv x pos ac w = Some (Inr (p, pos', ac', w')) \<Longrightarrow> pos < pos'"
proof (induction E argv x pos ac w rule: find_target.induct)
  case (1 E argv x pos ac w)
  show ?case using 1(3) 1(1,2)
    by (subst (asm) find_target.simps)
       (fastforce split: if_splits option.splits sum.splits prod.splits dest: cleanup_at)
qed

section \<open>The evaluator\<close>

text \<open>
  The outer loop: find a target unless there is one, build a message for it, send it, and go on
  after the semicolon or comma, with no target or with the same one. \<open>mk\<close> is \<open>pd_objectmaker\<close>.
\<close>

function eval_loop ::
  "('p, 'w) pd_env \<Rightarrow> 'p \<Rightarrow> atom list \<Rightarrow> atom list \<Rightarrow> nat \<Rightarrow> 'p option \<Rightarrow> nat \<Rightarrow> int \<Rightarrow> 'w \<Rightarrow> 'w option" where
  "eval_loop E mk argv x cap target pos ac w =
     (case (case target of Some p \<Rightarrow> Some (Inr (p, pos, ac, w)) | None \<Rightarrow> find_target E argv x pos ac w) of
        None \<Rightarrow> None
      | Some (Inl w') \<Rightarrow> Some w'
      | Some (Inr (p, pos1, ac1, w1)) \<Rightarrow>
          if ac1 = 0 then Some w1
          else case build_message E argv x (p = mk) cap pos1 ac1 [] w1 of
            None \<Rightarrow> None
          | Some (msg, pos2, ac2, semi, broken, w2) \<Rightarrow>
              if broken then Some w2
              else let w3 = dispatch E p msg w2 in
                if ac2 = 0 then Some w3
                else eval_loop E mk argv x cap (if semi then None else Some p) (Suc pos2) (ac2 - 1) w3)"
  by pat_completeness auto
termination
  by (relation "measure (\<lambda>(E, mk, argv, x, cap, target, pos, ac, w). length x - pos)")
     (auto split: option.splits dest!: build_message_pos find_target_pos)

declare eval_loop.simps [simp del]

definition binbuf_eval :: "('p, 'w) pd_env \<Rightarrow> 'p \<Rightarrow> atom list \<Rightarrow> 'p option \<Rightarrow> atom list \<Rightarrow> 'w \<Rightarrow> 'w option" where
  "binbuf_eval E mk x target argv w =
     eval_loop E mk argv x (stack_size x (length argv) (target \<noteq> None) (target = Some mk))
       target 0 (eval_ac x (length argv)) w"

end
