(* ===== verification/BinbufEvalSpec.thy ===== *)
theory BinbufEvalSpec
  imports BinbufEval
begin

text \<open>
  The evaluator against its specification. \<open>deliver\<close> says on the list of atoms alone which messages
  \<open>binbuf_eval\<close> sends; the locale \<open>pd_world\<close> is what the evaluator relies on in its environment,
  that no symbol is bound to the object maker. The proof follows the counter \<open>ac\<close>, which is the
  number of atoms left plus the arguments the remaining \<open>$@\<close> stand for, and the room the counting
  loop has left on the message stack.
\<close>

section \<open>What the evaluator is meant to do\<close>

text \<open>
  The specification works on the list alone: no index, no counter, no stack. A message is the atoms
  up to the next semicolon or comma (all of them for the object maker), each expanded in turn.
\<close>

fun expand_msg ::
  "('p, 'w) pd_env \<Rightarrow> atom list \<Rightarrow> bool \<Rightarrow> atom list \<Rightarrow> 'w \<Rightarrow> atom list \<times> bool \<times> 'w" where
  "expand_msg E argv maker [] w = ([], False, w)"
| "expand_msg E argv maker (a # as) w =
     (case expand_atom (getdollarzero E w) argv maker a of
        None \<Rightarrow> ([], True, report E BadItem w)
      | Some (new, e) \<Rightarrow>
          let (m, broken, w') = expand_msg E argv maker as (log_error E e w) in (new @ m, broken, w'))"

definition msg_atoms :: "bool \<Rightarrow> atom list \<Rightarrow> atom list" where
  "msg_atoms maker rest = (if maker then rest else takeWhile (\<lambda>a. \<not> punct a) rest)"

lemma msg_atoms_drop_length: "drop (length (msg_atoms mk rest)) rest = a # r \<Longrightarrow> length r < length rest"
  by (metis length_drop length_Cons less_add_Suc1 add_diff_cancel_left' diff_le_self le_less_trans lessI not_le order.strict_trans1)

function deliver ::
  "('p, 'w) pd_env \<Rightarrow> 'p \<Rightarrow> atom list \<Rightarrow> 'p option \<Rightarrow> atom list \<Rightarrow> 'w \<Rightarrow> 'w" where
  "deliver E mk argv None rest w =
     (case dropWhile punct rest of
        [] \<Rightarrow> w
      | a # r \<Rightarrow>
          (case resolve E argv a w of
             Inl e \<Rightarrow> deliver E mk argv None (dropWhile (\<lambda>a. a \<noteq> A_SEMI) r) (report E e w)
           | Inr p \<Rightarrow> deliver E mk argv (Some p) r w))"
| "deliver E mk argv (Some p) rest w =
     (if rest = [] then w
      else case expand_msg E argv (p = mk) (msg_atoms (p = mk) rest) w of
        (msg, broken, w1) \<Rightarrow>
          if broken then w1
          else case drop (length (msg_atoms (p = mk) rest)) rest of
            [] \<Rightarrow> dispatch E p msg w1
          | a # r \<Rightarrow> deliver E mk argv (if a = A_SEMI then None else Some p) r (dispatch E p msg w1))"
  by pat_completeness auto
termination
proof (relation "measure (\<lambda>(E, mk, argv, t, rest, w). length rest)", goal_cases)
  case (2 E mk argv rest w a r e)
  then have "length r < length rest" by (intro dropWhile_Cons_length) simp
  then show ?case using length_dropWhile_le [of "\<lambda>a. a \<noteq> A_SEMI" r] by simp
next
  case (3 E mk argv rest w a r p)
  then show ?case using dropWhile_Cons_length [of punct rest a r] by simp
qed (auto dest: msg_atoms_drop_length)

declare deliver.simps [simp del]

section \<open>The counter and the stack\<close>

lemma eval_ac_simps [simp]:
  "eval_ac [] n = 0"
  "eval_ac (a # as) n = eval_ac as n + (if a = DOLLAR_ALL then int n + 1 else 1)"
  "eval_ac (as @ bs) n = eval_ac as n + eval_ac bs n"
  by (simp_all add: eval_ac_def algebra_simps)

lemma eval_ac_nonneg: "0 \<le> eval_ac as n"
  by (simp add: eval_ac_def)

lemma eval_ac_pos: "as \<noteq> [] \<Longrightarrow> 0 < eval_ac as n"
  by (cases as) (auto intro: add_nonneg_pos eval_ac_nonneg)

lemma eval_ac_0 [simp]: "eval_ac as n = 0 \<longleftrightarrow> as = []"
  using eval_ac_pos [of as n] by (cases "as = []") auto

lemma eval_ac_plain: "DOLLAR_ALL \<notin> set as \<Longrightarrow> eval_ac as n = int (length as)"
  by (simp add: eval_ac_def)

lemma max_args_mono: "j \<le> j' \<Longrightarrow> m \<le> m' \<Longrightarrow> max_args j m xs \<le> max_args j' m' xs"
proof (induction xs arbitrary: j j' m m')
  case (Cons a xs)
  then show ?case by (auto intro!: Cons.IH max.mono)
qed simp

lemma max_args_ge: "m \<le> max_args j m xs"
proof (induction xs arbitrary: j m)
  case (Cons a xs)
  show ?case using Cons.IH [of m] Cons.IH [of "max m (j + 1)" "j + 1"] by auto
qed simp

lemma max_args_msg:
  "list_all (\<lambda>a. \<not> punct a) ys \<Longrightarrow> max_args (j + int (length ys)) m r \<le> max_args j m (ys @ r) \<and>
     (ys \<noteq> [] \<longrightarrow> j + int (length ys) \<le> max_args j m (ys @ r))"
proof (induction ys arbitrary: j m)
  case (Cons a ys)
  have "max_args (j + 1 + int (length ys)) m r \<le> max_args (j + 1 + int (length ys)) (max m (j + 1)) r"
    by (rule max_args_mono) auto
  moreover have "j + 1 \<le> max_args (j + 1) (max m (j + 1)) (ys @ r)"
    using max_args_ge [of "max m (j + 1)" "j + 1" "ys @ r"] by simp
  ultimately show ?case using Cons.IH [of "j + 1" "max m (j + 1)"] Cons.prems
    by (cases "ys = []") (auto simp: punct_def algebra_simps)
qed simp

text \<open>The stack has room for every message of \<open>rest\<close>.\<close>

definition room :: "nat \<Rightarrow> nat \<Rightarrow> bool \<Rightarrow> bool \<Rightarrow> atom list \<Rightarrow> bool" where
  "room cap argc has_target maker rest \<longleftrightarrow>
     eval_ac rest argc \<le> int cap \<or>
     \<not> maker \<and> DOLLAR_ALL \<notin> set rest \<and> (\<exists>m. max_args (if has_target then 0 else -1) m rest \<le> int cap)"

lemma room_stack_size: "room (stack_size x argc has_target maker) argc has_target maker x"
proof -
  define j where "j = (if has_target then 0 else - 1 :: int)"
  have le: "i \<le> int (max SMALLMSG (nat i))" for i by linarith
  have "eval_ac x argc \<noteq> 0 \<or> eval_ac x argc \<le> int SMALLMSG" by linarith
  then consider "eval_ac x argc \<le> int SMALLMSG" | "\<not> eval_ac x argc \<le> int SMALLMSG" "maker \<or> DOLLAR_ALL \<in> set x"
    | "\<not> eval_ac x argc \<le> int SMALLMSG" "\<not> maker" "DOLLAR_ALL \<notin> set x" by blast
  then show ?thesis
  proof cases
    case 1
    then show ?thesis by (simp add: room_def stack_size_def Let_def)
  next
    case 2
    then have "stack_size x argc has_target maker = max SMALLMSG (nat (eval_ac x argc))"
      unfolding stack_size_def Let_def by auto
    then show ?thesis using le [of "eval_ac x argc"] by (simp only: room_def simp_thms)
  next
    case 3
    then have "stack_size x argc has_target maker = max SMALLMSG (nat (max_args j 0 x))"
      unfolding stack_size_def Let_def j_def by simp
    then show ?thesis using 3 le [of "max_args j 0 x"] unfolding room_def j_def by metis
  qed
qed

lemma room_msg:
  assumes "room cap argc True maker rest"
  shows "eval_ac (msg_atoms maker rest) argc \<le> int cap"
proof -
  define ms where "ms = msg_atoms maker rest"
  obtain r where r: "rest = ms @ r" "maker \<or> list_all (\<lambda>a. \<not> punct a) ms"
  proof (cases maker)
    case True
    with that [of "[]"] show ?thesis by (simp add: ms_def msg_atoms_def)
  next
    case False
    with that [of "dropWhile (\<lambda>a. \<not> punct a) rest"] show ?thesis
      by (auto simp: ms_def msg_atoms_def list_all_iff dest: set_takeWhileD)
  qed
  from assms consider "eval_ac rest argc \<le> int cap"
    | m where "\<not> maker" "DOLLAR_ALL \<notin> set rest" "max_args 0 m rest \<le> int cap" unfolding room_def by auto
  then have "eval_ac ms argc \<le> int cap"
  proof cases
    case 1
    then show ?thesis using r eval_ac_nonneg [of r argc] by simp
  next
    case 2
    with r max_args_msg [of ms 0 m r] show ?thesis
      by (cases "ms = []") (auto simp: eval_ac_plain)
  qed
  then show ?thesis by (simp add: ms_def)
qed

lemma room_rest:
  assumes "room cap argc True maker rest" "drop (length (msg_atoms maker rest)) rest = a # r" "\<not> maker"
  shows "punct a" "room cap argc (a \<noteq> A_SEMI) maker r"
proof -
  define ms where "ms = msg_atoms maker rest"
  have ms: "ms = takeWhile (\<lambda>a. \<not> punct a) rest" using assms(3) by (simp add: ms_def msg_atoms_def)
  have dr: "dropWhile (\<lambda>a. \<not> punct a) rest = a # r" using assms(2) ms by (simp add: dropWhile_eq_drop ms_def)
  then show p: "punct a" using hd_dropWhile [of "\<lambda>a. \<not> punct a" rest] by simp
  have re: "rest = ms @ a # r" using ms dr by (metis takeWhile_dropWhile_id)
  have l: "list_all (\<lambda>a. \<not> punct a) ms" by (auto simp: ms list_all_iff dest: set_takeWhileD)
  from assms consider "eval_ac rest argc \<le> int cap"
    | m where "DOLLAR_ALL \<notin> set rest" "max_args 0 m rest \<le> int cap" unfolding room_def by auto
  then show "room cap argc (a \<noteq> A_SEMI) maker r"
  proof cases
    case 1
    then show ?thesis using re eval_ac_nonneg [of ms argc] by (auto simp: room_def split: if_splits)
  next
    case 2
    then have "max_args (int (length ms)) m (a # r) \<le> int cap"
      using max_args_msg [OF l, of 0 m "a # r"] re by auto
    with p have "max_args (if a \<noteq> A_SEMI then 0 else -1) m r \<le> int cap" by (auto simp: punct_def)
    with 2(1) re assms(3) show ?thesis unfolding room_def by auto
  qed
qed

lemma max_args_suffix: "- 1 \<le> j \<Longrightarrow> max_args (- 1) m r \<le> max_args j m (ys @ r)"
proof (induction ys arbitrary: j m)
  case Nil
  then show ?case by (simp add: max_args_mono)
next
  case (Cons a ys)
  have "max_args (-1) m r \<le> max_args (-1) (max m (j + 1)) r" by (rule max_args_mono) auto
  also have "\<dots> \<le> max_args (j + 1) (max m (j + 1)) (ys @ r)" using Cons by simp
  finally show ?case using Cons.IH [of "-1" m] Cons.IH [of 0 m] by auto
qed

lemma room_suffix: "room cap argc False False (ys @ r) \<Longrightarrow> room cap argc False False r"
  using eval_ac_nonneg [of ys argc] max_args_suffix [of "-1" _ r ys] unfolding room_def
  by (auto intro: order.trans)

lemma room_found: "room cap argc False False (a # r) \<Longrightarrow> \<not> punct a \<Longrightarrow> room cap argc True False r"
  unfolding room_def by (auto simp: punct_def split: if_splits)

section \<open>The evaluator does it\<close>

lemma cleanup_list:
  assumes "pos < length x" "DOLLAR_ALL \<notin> set (drop pos x)"
  shows "\<exists>pos'. cleanup x pos (eval_ac (drop pos x) argc) = Some (pos', eval_ac (drop pos' x) argc) \<and>
    pos' \<le> length x \<and> drop pos' x = dropWhile (\<lambda>a. a \<noteq> A_SEMI) (drop (Suc pos) x)"
  using assms
proof (induction "length x - pos" arbitrary: pos rule: less_induct)
  case less
  have d: "drop pos x = x ! pos # drop (Suc pos) x" using less.prems(1) by (simp add: Cons_nth_drop_Suc)
  with less.prems(2) have ac: "eval_ac (drop pos x) argc - 1 = eval_ac (drop (Suc pos) x) argc" by auto
  show ?case
  proof (cases "Suc pos < length x")
    case False
    with less.prems(1) ac show ?thesis
      by (subst cleanup.simps) (auto intro!: exI [of _ "Suc pos"])
  next
    case True
    have d2: "drop (Suc pos) x = x ! Suc pos # drop (Suc (Suc pos)) x" using True by (simp add: Cons_nth_drop_Suc)
    show ?thesis
    proof (cases "x ! Suc pos = A_SEMI")
      case semi: True
      then show ?thesis using True ac d2 eval_ac_nonneg [of "drop (Suc (Suc pos)) x" argc]
        by (subst cleanup.simps) (auto intro!: exI [of _ "Suc pos"])
    next
      case False
      have "DOLLAR_ALL \<notin> set (drop (Suc pos) x)" using less.prems(2) d by simp
      moreover have "length x - Suc pos < length x - pos" using less.prems(1) by simp
      ultimately obtain pos' where
        "cleanup x (Suc pos) (eval_ac (drop (Suc pos) x) argc) = Some (pos', eval_ac (drop pos' x) argc)"
        "pos' \<le> length x" "drop pos' x = dropWhile (\<lambda>a. a \<noteq> A_SEMI) (drop (Suc (Suc pos)) x)"
        using less.hyps [of "Suc pos"] True by blast
      then show ?thesis using True False ac d2 eval_ac_nonneg [of "drop (Suc (Suc pos)) x" argc]
        by (subst cleanup.simps) (auto intro!: exI [of _ pos'])
    qed
  qed
qed

locale pd_world =
  fixes E :: "('p, 'w) pd_env" and mk :: 'p
  assumes not_maker: "thing E w s \<noteq> Some mk"
begin

lemma resolve_not_maker: "resolve E argv a w \<noteq> Inr mk"
  using not_maker by (auto simp: resolve_def split: sum.splits option.splits)

lemma find_target_list:
  assumes "pos \<le> length x" "DOLLAR_ALL \<notin> set (drop pos x)" "room cap (length argv) False False (drop pos x)"
  shows "(\<exists>w'. find_target E argv x pos (eval_ac (drop pos x) (length argv)) w = Some (Inl w') \<and>
       deliver E mk argv None (drop pos x) w = w') \<or>
    (\<exists>p pos' w'. find_target E argv x pos (eval_ac (drop pos x) (length argv)) w =
         Some (Inr (p, pos', eval_ac (drop pos' x) (length argv), w')) \<and>
       pos < pos' \<and> pos' \<le> length x \<and> p \<noteq> mk \<and> DOLLAR_ALL \<notin> set (drop pos' x) \<and>
       room cap (length argv) True False (drop pos' x) \<and>
       deliver E mk argv None (drop pos x) w = deliver E mk argv (Some p) (drop pos' x) w')"
  using assms
proof (induction "length x - pos" arbitrary: pos w rule: less_induct)
  case less
  show ?case
  proof (cases "pos < length x")
    case False
    then show ?thesis using less.prems(1) by (simp add: find_target.simps deliver.simps)
  next
    case True
    define a r where "a = x ! pos" and "r = drop (Suc pos) x"
    have d: "drop pos x = a # r" using True by (simp add: Cons_nth_drop_Suc a_def r_def)
    then have da: "a \<noteq> DOLLAR_ALL" "DOLLAR_ALL \<notin> set r" using less.prems(2) by auto
    have ac: "eval_ac (drop pos x) (length argv) \<noteq> 0" "eval_ac (drop pos x) (length argv) - 1 = eval_ac r (length argv)"
      using d da eval_ac_nonneg [of r "length argv"] by auto
    consider (punct) "punct a" | (found) p where "\<not> punct a" "resolve E argv a w = Inr p"
      | (err) e where "\<not> punct a" "resolve E argv a w = Inl e"
      by (cases "resolve E argv a w") auto
    then show ?thesis
    proof cases
      case punct
      have "room cap (length argv) False False r" using less.prems(3) d room_suffix [of cap _ "[a]" r] by simp
      with less.hyps [of "Suc pos" w] True da(2) have IH: "(\<exists>w'. find_target E argv x (Suc pos) (eval_ac r (length argv)) w = Some (Inl w') \<and>
           deliver E mk argv None r w = w') \<or>
        (\<exists>p pos' w'. find_target E argv x (Suc pos) (eval_ac r (length argv)) w =
             Some (Inr (p, pos', eval_ac (drop pos' x) (length argv), w')) \<and>
           Suc pos < pos' \<and> pos' \<le> length x \<and> p \<noteq> mk \<and> DOLLAR_ALL \<notin> set (drop pos' x) \<and>
           room cap (length argv) True False (drop pos' x) \<and>
           deliver E mk argv None r w = deliver E mk argv (Some p) (drop pos' x) w')"
        by (simp add: r_def)
      have f: "find_target E argv x pos (eval_ac (drop pos x) (length argv)) w =
          find_target E argv x (Suc pos) (eval_ac r (length argv)) w"
        using ac True punct by (subst find_target.simps) (auto simp: a_def punct_def)
      have "deliver E mk argv None (drop pos x) w = deliver E mk argv None r w"
        using punct by (simp add: d deliver.simps)
      with IH f show ?thesis by (auto dest: Suc_lessD)
    next
      case found
      have "p \<noteq> mk" using found(2) resolve_not_maker by auto
      moreover have "find_target E argv x pos (eval_ac (drop pos x) (length argv)) w =
          Some (Inr (p, Suc pos, eval_ac r (length argv), w))"
        using ac True found by (subst find_target.simps) (auto simp: a_def punct_def)
      moreover have "deliver E mk argv None (drop pos x) w = deliver E mk argv (Some p) r w"
        using found by (subst deliver.simps) (simp add: d)
      moreover have "room cap (length argv) True False r" using room_found [of cap _ a r] less.prems(3) found(1) d by simp
      ultimately show ?thesis using da True by (auto simp: r_def intro!: exI [of _ "Suc pos"])
    next
      case err
      obtain pos' where c: "cleanup x pos (eval_ac (drop pos x) (length argv)) = Some (pos', eval_ac (drop pos' x) (length argv))"
        "pos' \<le> length x" "drop pos' x = dropWhile (\<lambda>a. a \<noteq> A_SEMI) r"
        using cleanup_list [OF True less.prems(2), of "length argv"] by (auto simp: r_def)
      have lt: "pos < pos'" using cleanup_at [OF c(1)] .
      obtain ys where ys: "drop pos x = ys @ drop pos' x"
        unfolding c(3) d by (metis append_Cons takeWhile_dropWhile_id)
      have f: "find_target E argv x pos (eval_ac (drop pos x) (length argv)) w =
          find_target E argv x pos' (eval_ac (drop pos' x) (length argv)) (report E e w)"
        using ac True err c(1) by (subst find_target.simps) (auto simp: a_def punct_def)
      have dl: "deliver E mk argv None (drop pos x) w = deliver E mk argv None (drop pos' x) (report E e w)"
        using err c(3) by (subst deliver.simps) (simp add: d)
      have "DOLLAR_ALL \<notin> set (drop pos' x)" "room cap (length argv) False False (drop pos' x)"
        using less.prems(2,3) room_suffix [of cap _ ys "drop pos' x"] ys by auto
      with less.hyps [of pos' "report E e w"] lt c(2) True show ?thesis unfolding f dl by (fastforce dest: less_trans)
    qed
  qed
qed

lemma build_message_list:
  assumes "pos \<le> length x" "int (length msg) + eval_ac (msg_atoms maker (drop pos x)) (length argv) \<le> int cap"
    and "expand_msg E argv maker (msg_atoms maker (drop pos x)) w = (m, broken, w')"
  shows "\<exists>pos' ac' semi. build_message E argv x maker cap pos (eval_ac (drop pos x) (length argv)) msg w =
      Some (msg @ m, pos', ac', semi, broken, w') \<and>
    (\<not> broken \<longrightarrow> pos' = pos + length (msg_atoms maker (drop pos x)) \<and>
      ac' = eval_ac (drop pos' x) (length argv) \<and> semi = (pos' < length x \<and> x ! pos' = A_SEMI))"
  using assms
proof (induction "length x - pos" arbitrary: pos msg w m rule: less_induct)
  case less
  show ?case
  proof (cases "pos < length x")
    case False
    then have "msg_atoms maker (drop pos x) = []" "eval_ac (drop pos x) (length argv) = 0"
      by (auto simp: msg_atoms_def)
    with False less.prems show ?thesis by (subst build_message.simps) auto
  next
    case True
    define a r where "a = x ! pos" and "r = drop (Suc pos) x"
    have d: "drop pos x = a # r" using True by (simp add: Cons_nth_drop_Suc a_def r_def)
    have ac: "eval_ac (drop pos x) (length argv) \<noteq> 0"
      "(if a = DOLLAR_ALL then eval_ac (drop pos x) (length argv) - int (length argv) - 1 else eval_ac (drop pos x) (length argv) - 1) =
       eval_ac r (length argv)"
      using d eval_ac_nonneg [of r "length argv"] by auto
    show ?thesis
    proof (cases "\<not> maker \<and> punct a")
      case stop: True
      then have ms: "msg_atoms maker (drop pos x) = []" by (simp add: d msg_atoms_def)
      have "build_message E argv x maker cap pos (eval_ac (drop pos x) (length argv)) msg w =
          Some (msg, pos, eval_ac (drop pos x) (length argv), a = A_SEMI, False, w)"
        using ac True stop by (subst build_message.simps) (auto simp: a_def punct_def)
      with ms less.prems(3) True show ?thesis by (auto simp: a_def)
    next
      case go: False
      define ms where "ms = msg_atoms maker r"
      have ms: "msg_atoms maker (drop pos x) = a # ms" using go by (auto simp: d ms_def msg_atoms_def)
      show ?thesis
      proof (cases "expand_atom (getdollarzero E w) argv maker a")
        case None
        have "build_message E argv x maker cap pos (eval_ac (drop pos x) (length argv)) msg w =
            Some (msg, pos, eval_ac (drop pos x) (length argv), False, True, report E BadItem w)"
          using ac True go None by (subst build_message.simps) (auto simp: a_def punct_def)
        with ms less.prems(3) None show ?thesis by auto
      next
        case (Some ne)
        obtain new e where ne: "ne = (new, e)" by fastforce
        obtain m' where m': "expand_msg E argv maker ms (log_error E e w) = (m', broken, w')" "m = new @ m'"
          using less.prems(3) Some ne ms by (auto split: prod.splits)
        have new: "int (length new) \<le> (if a = DOLLAR_ALL then int (length argv) + 1 else 1)"
          using Some ne by (auto simp: expand_atom_def split: atom.splits if_splits option.splits)
        have cap: "int (length (msg @ new)) + eval_ac ms (length argv) \<le> int cap"
          using less.prems(2) new unfolding ms by (auto split: if_splits)
        then have fits: "\<not> length msg + length new > cap" using eval_ac_nonneg [of ms "length argv"] by simp
        have lt: "length x - Suc pos < length x - pos" "Suc pos \<le> length x" using True by simp_all
        obtain pos' ac' semi where
          IH: "build_message E argv x maker cap (Suc pos) (eval_ac r (length argv)) (msg @ new) (log_error E e w) =
              Some ((msg @ new) @ m', pos', ac', semi, broken, w')"
            "\<not> broken \<longrightarrow> pos' = Suc pos + length ms \<and> ac' = eval_ac (drop pos' x) (length argv) \<and>
              semi = (pos' < length x \<and> x ! pos' = A_SEMI)"
          using less.hyps [OF lt cap [unfolded ms_def r_def] m'(1) [unfolded ms_def r_def]]
          unfolding ms_def r_def by blast
        have step: "build_message E argv x maker cap pos (eval_ac (drop pos x) (length argv)) msg w =
            build_message E argv x maker cap (Suc pos) (eval_ac r (length argv)) (msg @ new) (log_error E e w)"
          using ac True go Some ne fits
          by (subst build_message.simps) (auto simp: a_def punct_def)
        show ?thesis unfolding step ms using IH m'(2) by auto
      qed
    qed
  qed
qed

end

context pd_world begin

lemma eval_loop_list:
  assumes "pos \<le> length x" "target = None \<longrightarrow> DOLLAR_ALL \<notin> set (drop pos x)"
    and "DOLLAR_ALL \<notin> set (dropWhile (\<lambda>a. a \<noteq> A_SEMI) (drop pos x))"
    and "room cap (length argv) (target \<noteq> None) (target = Some mk) (drop pos x)"
  shows "eval_loop E mk argv x cap target pos (eval_ac (drop pos x) (length argv)) w =
    Some (deliver E mk argv target (drop pos x) w)"
  using assms
proof (induction "length x - pos" arbitrary: pos target w rule: less_induct)
  case less
  show ?case
  proof (cases target)
    case None
    with less.prems have da: "DOLLAR_ALL \<notin> set (drop pos x)"
      and rm: "room cap (length argv) False False (drop pos x)" by auto
    from find_target_list [OF less.prems(1) da rm, of w] show ?thesis
    proof (elim disjE exE conjE)
      fix w' assume "find_target E argv x pos (eval_ac (drop pos x) (length argv)) w = Some (Inl w')"
        "deliver E mk argv None (drop pos x) w = w'"
      with None show ?thesis by (subst eval_loop.simps) simp
    next
      fix p pos' w'
      assume f: "find_target E argv x pos (eval_ac (drop pos x) (length argv)) w =
          Some (Inr (p, pos', eval_ac (drop pos' x) (length argv), w'))"
        and pos: "pos < pos'" "pos' \<le> length x" "p \<noteq> mk" "DOLLAR_ALL \<notin> set (drop pos' x)"
        and rm': "room cap (length argv) True False (drop pos' x)"
        and d: "deliver E mk argv None (drop pos x) w = deliver E mk argv (Some p) (drop pos' x) w'"
      have "eval_loop E mk argv x cap None pos (eval_ac (drop pos x) (length argv)) w =
          eval_loop E mk argv x cap (Some p) pos' (eval_ac (drop pos' x) (length argv)) w'"
        by (subst (1 2) eval_loop.simps) (simp only: f option.case)
      also have "\<dots> = Some (deliver E mk argv (Some p) (drop pos' x) w')"
      proof (rule less.hyps)
        show "DOLLAR_ALL \<notin> set (dropWhile (\<lambda>a. a \<noteq> A_SEMI) (drop pos' x))"
          using pos(4) by (auto dest: set_dropWhileD)
      qed (use pos rm' in auto)
      finally show ?thesis using None d by simp
    qed
  next
    case (Some p)
    define rest where "rest = drop pos x"
    define ms where "ms = msg_atoms (p = mk) rest"
    have rm: "room cap (length argv) True (p = mk) rest" using less.prems(4) Some by (simp add: rest_def)
    show ?thesis
    proof (cases "rest = []")
      case True
      then show ?thesis unfolding Some rest_def [symmetric]
        by (subst eval_loop.simps, subst deliver.simps) simp
    next
      case False
      obtain m broken w2 where ex: "expand_msg E argv (p = mk) ms w = (m, broken, w2)" by (cases "expand_msg E argv (p = mk) ms w") auto
      have "int (length ([] :: atom list)) + eval_ac ms (length argv) \<le> int cap" using room_msg [OF rm] by (simp add: ms_def)
      from build_message_list [OF less.prems(1) this [unfolded ms_def rest_def] ex [unfolded ms_def rest_def]]
      obtain pos2 ac2 semi where
        b: "build_message E argv x (p = mk) cap pos (eval_ac rest (length argv)) [] w = Some (m, pos2, ac2, semi, broken, w2)"
        and nb: "\<not> broken \<Longrightarrow> pos2 = pos + length ms \<and> ac2 = eval_ac (drop pos2 x) (length argv) \<and>
          semi = (pos2 < length x \<and> x ! pos2 = A_SEMI)"
        unfolding rest_def [symmetric] ms_def [symmetric] by (auto simp: rest_def)
      have ne: "eval_ac rest (length argv) \<noteq> 0" using False by simp
      show ?thesis
      proof (cases broken)
        case True
        with Some b ex False ne show ?thesis
          unfolding Some rest_def [symmetric]
          by (subst eval_loop.simps, subst deliver.simps) (simp add: ms_def)
      next
        case ok: False
        define w3 where "w3 = dispatch E p m w2"
        have pos2: "pos2 = pos + length ms" "ac2 = eval_ac (drop (length ms) rest) (length argv)"
          "semi = (pos2 < length x \<and> x ! pos2 = A_SEMI)" "drop pos2 x = drop (length ms) rest"
          using nb [OF ok] by (auto simp: rest_def add.commute)
        have L: "eval_loop E mk argv x cap (Some p) pos (eval_ac rest (length argv)) w =
            (if ac2 = 0 then Some w3 else eval_loop E mk argv x cap (if semi then None else Some p) (Suc pos2) (ac2 - 1) w3)"
          using ne by (subst eval_loop.simps) (simp add: b ok w3_def)
        have R: "deliver E mk argv (Some p) rest w = (case drop (length ms) rest of [] \<Rightarrow> w3
            | a # r \<Rightarrow> deliver E mk argv (if a = A_SEMI then None else Some p) r w3)"
          using False ex ok unfolding w3_def by (subst deliver.simps) (simp add: ms_def)
        show ?thesis
        proof (cases "drop (length ms) rest")
          case Nil
          then show ?thesis unfolding Some rest_def [symmetric] L R by (simp add: pos2(2))
        next
          case (Cons a r)
          have nm: "p \<noteq> mk" using Cons by (auto simp: ms_def msg_atoms_def)
          note rr = room_rest [OF rm, folded ms_def, OF Cons]
          have dp: "drop pos2 x = a # r" using Cons pos2(4) by simp
          then have lt: "pos2 < length x" by (metis drop_eq_Nil leI list.distinct(1))
          then have a: "x ! pos2 = a" and r: "drop (Suc pos2) x = r"
            using dp Cons_nth_drop_Suc [OF lt] by simp_all
          have semi: "semi = (a = A_SEMI)" using pos2(3) lt a by simp
          have tw: "ms = takeWhile (\<lambda>a. \<not> punct a) rest" using nm by (simp add: ms_def msg_atoms_def)
          then have msp: "\<forall>b\<in>set ms. \<not> punct b" by (simp add: set_takeWhileD [where P = "\<lambda>a. \<not> punct a", of _ rest, THEN conjunct2])
          have "drop (length ms) rest = dropWhile (\<lambda>a. \<not> punct a) rest" unfolding tw by (rule dropWhile_eq_drop [symmetric])
          then have re: "rest = ms @ a # r" using Cons tw takeWhile_dropWhile_id [of "\<lambda>a. \<not> punct a" rest] by simp
          have dw: "dropWhile (\<lambda>a. a \<noteq> A_SEMI) rest = (if a = A_SEMI then a # r else dropWhile (\<lambda>a. a \<noteq> A_SEMI) r)"
            unfolding re using msp by (subst dropWhile_append2) (auto simp: punct_def)
          have da: "DOLLAR_ALL \<notin> set (dropWhile (\<lambda>a. a \<noteq> A_SEMI) r)" "a = A_SEMI \<Longrightarrow> DOLLAR_ALL \<notin> set r"
            using less.prems(3) dw unfolding rest_def [symmetric] by (auto split: if_splits dest: set_dropWhileD)
          have ac2: "ac2 \<noteq> 0" "ac2 - 1 = eval_ac r (length argv)"
            using pos2(2) Cons rr(1) nm eval_ac_nonneg [of r "length argv"] by (auto simp: punct_def)
          have IH: "eval_loop E mk argv x cap (if semi then None else Some p) (Suc pos2) (eval_ac (drop (Suc pos2) x) (length argv)) w3 =
              Some (deliver E mk argv (if semi then None else Some p) (drop (Suc pos2) x) w3)"
          proof (rule less.hyps)
            show "length x - Suc pos2 < length x - pos" using pos2(1) lt by simp
          qed (use lt rr(2) nm da in \<open>auto simp: r semi\<close>)
          show ?thesis unfolding Some rest_def [symmetric] L R Cons using ac2 IH by (simp add: r semi)
        qed
      qed
    qed
  qed
qed

lemma binbuf_eval_deliver:
  assumes "target = None \<longrightarrow> DOLLAR_ALL \<notin> set x" "DOLLAR_ALL \<notin> set (dropWhile (\<lambda>a. a \<noteq> A_SEMI) x)"
  shows "binbuf_eval E mk x target argv w = Some (deliver E mk argv target x w)"
  using eval_loop_list [of 0 x target "stack_size x (length argv) (target \<noteq> None) (target = Some mk)" argv w] assms
    room_stack_size [of x "length argv" "target \<noteq> None" "target = Some mk"]
  by (simp add: binbuf_eval_def)

end


section \<open>Expanding a dollar symbol\<close>

lemma strtol_digits:
  assumes "list_all cdigit ds" "ds \<noteq> []" "dec_val ds < 2 ^ 31" "post = [] \<or> \<not> cdigit (hd post)"
  shows "strtol (ds @ post) = (int (dec_val ds), length ds)"
proof -
  obtain c t where c: "ds = c # t" "cdigit c" using assms(1,2) by (cases ds) auto
  have "takeWhile cdigit post = []" "dropWhile cdigit post = post" using assms(4) by (cases post; simp)+
  then have "takeWhile cdigit (ds @ post) = ds" "dropWhile cdigit (ds @ post) = post"
    by (simp_all only: list_all_takeWhile_eq [OF assms(1)] list_all_dropWhile_eq [OF assms(1)] append_Nil2)
  moreover have "dropWhile isspace (ds @ post) = ds @ post" "split_sign (ds @ post) = (False, ds @ post)"
    using c cdigit_isspace [OF c(2)] cdigit_nonspecial [OF c(2)] by (simp_all add: split_sign_def)
  ultimately show ?thesis using assms(2,3) by (simp add: strtol_def Let_def)
qed

lemma expanddollsym_digits:
  assumes "list_all cdigit ds" "ds \<noteq> []" "dec_val ds < 2 ^ 31" "post = [] \<or> \<not> cdigit (hd post)"
  shows "binbuf_expanddollsym (ds @ post) dollar0 av tonew =
    (if dec_val ds > length av then (if tonew then (length ds, CHR ''$'' # show_nat (dec_val ds)) else (0, []))
     else (length ds, arg_text (if dec_val ds = 0 then dollar0 else av ! (dec_val ds - 1))))"
proof -
  have "nat (int (dec_val ds) - 1) = dec_val ds - 1" by simp
  with strtol_digits [OF assms] int_cast_small [of "int (dec_val ds)"] assms(2,3) show ?thesis
    unfolding binbuf_expanddollsym_def
    by (simp add: Let_def show_int_def)
qed

lemma dorealizedollsym_single:
  assumes "list_all cdigit ds" "ds \<noteq> []" "dec_val ds < 2 ^ 31" "post = [] \<or> \<not> cdigit (hd post)"
    and "CHR ''$'' \<notin> set pre" "CHR ''$'' \<notin> set post" "dec_val ds \<le> length av"
    and "length pre + length (arg_text v) + length post < MAXPDSTRING"
    and "v = (if dec_val ds = 0 then A_FLOAT (float_of_int dzero) else av ! (dec_val ds - 1))"
  shows "binbuf_dorealizedollsym dzero (pre @ CHR ''$'' # ds @ post) av tonew = Some (pre @ arg_text v @ post)"
proof -
  have tk: "takeWhile (\<lambda>c. c \<noteq> CHR ''$'') (pre @ CHR ''$'' # ds @ post) = pre"
    using assms(5) by (subst takeWhile_append2) auto
  have dw: "dropWhile (\<lambda>c. c \<noteq> CHR ''$'') post = []"
    using assms(6) by (simp add: dropWhile_eq_Nil_conv) metis
  have "realize_loop (A_FLOAT (float_of_int dzero)) av tonew pre (ds @ post) = Some (pre @ arg_text v @ post)"
    using expanddollsym_digits [OF assms(1-4), of "A_FLOAT (float_of_int dzero)" av tonew] assms(2,7,8)
    unfolding assms(9) [symmetric]
    by (subst realize_loop.simps) (simp add: strncat_def dw Let_def)
  then show ?thesis using assms(8) unfolding binbuf_dorealizedollsym_def tk by (simp add: Let_def)
qed

section \<open>The symbol table as the world\<close>

text \<open>
  The environment of the interpreter in a running system: receivers are bound to symbols in a
  table, sending a message is recorded, and so are errors; \<open>pd_objectmaker\<close> (receiver 0) is never
  bound to a symbol.
\<close>

record sym_world =
  bound :: "(symbol \<times> nat) list"
  sent :: "(nat \<times> message) list"
  errors :: "eval_error list"

definition sym_env :: "int \<Rightarrow> (nat, sym_world) pd_env" where
  "sym_env dz = \<lparr>thing = (\<lambda>w s. map_option Suc (map_of (bound w) s)),
     send = (\<lambda>p m w. w\<lparr>sent := sent w @ [(p, m)]\<rparr>),
     getdollarzero = (\<lambda>w. dz),
     report = (\<lambda>e w. w\<lparr>errors := errors w @ [e]\<rparr>)\<rparr>"

interpretation sw: pd_world "sym_env dz" 0
  by unfold_locales (simp add: sym_env_def)

lemma binbuf_eval_refines_aux:
  assumes "\<And>w s. thing E w s \<noteq> Some mk"
    and "target = None \<longrightarrow> DOLLAR_ALL \<notin> set x" "DOLLAR_ALL \<notin> set (dropWhile (\<lambda>a. a \<noteq> A_SEMI) x)"
  shows "binbuf_eval E mk x target argv w = Some (deliver E mk argv target x w)"
  using pd_world.binbuf_eval_deliver [OF pd_world.intro [OF assms(1)] assms(2,3)] .

section \<open>Properties\<close>



text \<open>A message box without semicolons or commas sends its target one message: its atoms with
  the arguments put in, \<open>$@\<close> by the whole list, dollar symbols realized.\<close>

theorem binbuf_eval_single:
  assumes "\<And>w s. thing E w s \<noteq> Some mk" "p \<noteq> mk" "list_all (\<lambda>a. \<not> punct a) x"
    and "expand_msg E argv False x w = (msg, False, w')"
  shows "binbuf_eval E mk x (Some p) argv w = Some (dispatch E p msg w')"
proof -
  have "takeWhile (\<lambda>a. \<not> punct a) x = x" "dropWhile (\<lambda>a. a \<noteq> A_SEMI) x = []"
    using assms(3) by (auto simp: list_all_iff punct_def dropWhile_eq_Nil_conv takeWhile_eq_all_conv)
  with assms binbuf_eval_refines_aux [OF assms(1), of "Some p" x argv w] show ?thesis
    by (cases "x = []") (simp_all add: deliver.simps msg_atoms_def dispatch_def)
qed

theorem binbuf_eval_single_witness:
  "binbuf_eval (sym_env 1000) 0 [A_SYMBOL ''list'', A_DOLLAR 2, DOLLAR_ALL] (Some 7) [A_FLOAT (FFin 3), A_SYMBOL ''x'']
      \<lparr>bound = [], sent = [], errors = []\<rparr> =
    Some \<lparr>bound = [], sent = [(7, M_typed ''list'' [A_SYMBOL ''x'', A_FLOAT (FFin 3), A_SYMBOL ''x''])], errors = []\<rparr>"
  by (subst binbuf_eval_single [where msg = "[A_SYMBOL ''list'', A_SYMBOL ''x'', A_FLOAT (FFin 3), A_SYMBOL ''x'']"])
     (auto simp: sym_env_def punct_def expand_atom_def log_error_def dispatch_def)

text \<open>\<open>$@\<close> where the destination of a message is expected makes the evaluator read past the
  end of the binbuf: every \<open>$@\<close> has added the number of arguments to the counter, but the error
  path that skips the message takes only one off.\<close>

theorem binbuf_eval_overread:
  assumes "argv \<noteq> []" "target \<noteq> Some mk" "A_SEMI \<notin> set rest"
  shows "binbuf_eval E mk (A_SEMI # DOLLAR_ALL # rest) target argv w = None"
proof -
  define x where "x = A_SEMI # DOLLAR_ALL # rest"
  have cl: "cleanup x pos ac = None" if "0 < pos" "int (length x) - int pos < ac" "pos < length x" for pos ac
    using that
  proof (induction "length x - pos" arbitrary: pos ac rule: less_induct)
    case less
    show ?case
    proof (cases "Suc pos < length x")
      case True
      have "x ! Suc pos \<noteq> A_SEMI"
        using True less.prems(1) assms(3) by (cases pos) (auto simp: x_def set_conv_nth)
      with True less.hyps [of "Suc pos" "ac - 1"] less.prems show ?thesis
        by (subst cleanup.simps) auto
    next
      case False
      with less.prems show ?thesis by (subst cleanup.simps) auto
    qed
  qed
  define ac where "ac = eval_ac x (length argv)"
  have ac: "int (length x) < ac" using assms(1) eval_ac_nonneg [of rest "length argv"]
    by (auto simp: ac_def x_def eval_ac_def)
  have "resolve E argv DOLLAR_ALL w' = Inl (NotEnoughArguments DOLLARALL)" for w'
    by (simp add: resolve_def destination_def)
  then have f1: "find_target E argv x 1 (ac - 1) w' = None" for w'
    using ac cl [of 1 "ac - 1"] by (subst find_target.simps) (auto simp: x_def)
  have f0: "find_target E argv x 0 ac w' = None" for w'
    using ac f1 [of w'] by (subst find_target.simps) (auto simp: x_def)
  show ?thesis
  proof (cases target)
    case None
    with f0 show ?thesis unfolding binbuf_eval_def x_def [symmetric] ac_def [symmetric]
      by (subst eval_loop.simps) simp
  next
    case (Some p)
    have b: "build_message E argv x (p = mk) cap 0 ac [] w' = Some ([], 0, ac, True, False, w')" for cap w'
      using ac assms(2) Some by (subst build_message.simps) (auto simp: x_def)
    have "eval_loop E mk argv x cap None 1 (ac - 1) w' = None" for cap w'
      using f1 by (subst eval_loop.simps) simp
    with ac Some b show ?thesis unfolding binbuf_eval_def x_def [symmetric] ac_def [symmetric]
      by (subst eval_loop.simps) (auto simp: dispatch_def)
  qed
qed

theorem binbuf_eval_overread_witness:
  "binbuf_eval (sym_env 1000) 0 [A_SEMI, DOLLAR_ALL, A_SYMBOL ''bang''] (Some 7) [A_FLOAT (FFin 3)]
    \<lparr>bound = [], sent = [], errors = []\<rparr> = None"
  by (rule binbuf_eval_overread) simp_all

text \<open>A dollar symbol is the text before the dollar sign, the text of the argument its digits
  name (\<open>$0\<close> the number of the canvas), and the text after the digits.\<close>

theorem dollsym_expansion:
  assumes "list_all cdigit ds" "ds \<noteq> []" "dec_val ds < 2 ^ 31" "post = [] \<or> \<not> cdigit (hd post)"
    and "CHR ''$'' \<notin> set pre" "CHR ''$'' \<notin> set post" "dec_val ds \<le> length av"
    and "length pre + length (arg_text v) + length post < MAXPDSTRING"
    and "v = (if dec_val ds = 0 then A_FLOAT (float_of_int dzero) else av ! (dec_val ds - 1))"
  shows "binbuf_dorealizedollsym dzero (pre @ CHR ''$'' # ds @ post) av tonew = Some (pre @ arg_text v @ post)"
  using assms by (rule dorealizedollsym_single)

theorem dollsym_expansion_witness:
  "binbuf_dorealizedollsym 1003 (''a'' @ CHR ''$'' # ''1'' @ ''-x'') [A_SYMBOL ''foo''] False = Some (''a'' @ arg_text (A_SYMBOL ''foo'') @ ''-x'')"
  by (rule dollsym_expansion) (simp_all add: cdigit_def code_def dec_val_def digit_val_def arg_text_def)

end
