(* ===== verification/Bindlist.thy ===== *)
theory Bindlist
  imports Atom
begin

text \<open>
  Symbol bindings, \<open>src/pd/src/m_pd.c\<close>: the receivers bound to a symbol (\<open>s_thing\<close>, a bindlist when
  there are several), binding and unbinding, the forwarding of a message to all of them while they
  may unbind themselves, and the stack that nests the bindings of \<open>#X\<close> while patches load.

  The bindlists a symbol has had are kept by number, since a list that is being traversed may no
  longer be the symbol's. \<open>change\<close> is \<open>change_bindlist_via_graph\<close>; an element is its receiver and
  \<open>e_delayed_free\<close>.
\<close>

datatype 'p thing = T_none | T_obj 'p | T_list nat

record 'p bindstate =
  s_thing :: "'p thing"
  lists :: "nat \<Rightarrow> ('p \<times> bool) list option"
  fresh :: nat
  change :: nat

section \<open>Binding and unbinding\<close>

definition pd_bind :: "'p \<Rightarrow> 'p bindstate \<Rightarrow> 'p bindstate" where
  "pd_bind x st =
     (case s_thing st of
        T_none \<Rightarrow> st\<lparr>s_thing := T_obj x\<rparr>
      | T_obj y \<Rightarrow>
          st\<lparr>s_thing := T_list (fresh st),
             lists := (lists st)(fresh st := Some [(x, False), (y, False)]),
             fresh := Suc (fresh st)\<rparr>
      | T_list l \<Rightarrow> st\<lparr>lists := (lists st)(l := map_option (\<lambda>es. (x, False) # es) (lists st l))\<rparr>)"

text \<open>The first element that holds \<open>x\<close> is removed, or marked when the list is being traversed.\<close>

fun unbind_elem :: "bool \<Rightarrow> 'p \<Rightarrow> ('p \<times> bool) list \<Rightarrow> ('p \<times> bool) list" where
  "unbind_elem busy x [] = []"
| "unbind_elem busy x ((w, d) # es) =
     (if w = x then (if busy then (w, True) # es else es) else (w, d) # unbind_elem busy x es)"

definition valid :: "('p \<times> bool) list \<Rightarrow> 'p list" where
  "valid es = map fst (filter (\<lambda>e. \<not> snd e) es)"

definition pd_unbind :: "'p \<Rightarrow> 'p bindstate \<Rightarrow> 'p bindstate" where
  "pd_unbind x st =
     (if s_thing st = T_obj x then st\<lparr>s_thing := T_none\<rparr>
      else case s_thing st of
        T_list l \<Rightarrow>
          (case lists st l of
             None \<Rightarrow> st
           | Some es \<Rightarrow>
               let busy = (change st \<noteq> 0);
                   es' = unbind_elem busy x es;
                   st1 = st\<lparr>lists := (lists st)(l := Some es'),
                            change := (if busy \<and> x \<in> fst ` set es then Suc (change st) else change st)\<rparr> in
               case valid es' of
                 [y] \<Rightarrow> st1\<lparr>s_thing := T_obj y,
                            lists := (if busy then lists st1 else (lists st1)(l := None))\<rparr>
               | _ \<Rightarrow> st1)
      | _ \<Rightarrow> st)"

section \<open>Forwarding\<close>

fun drop_delayed :: "('p \<times> bool) list \<Rightarrow> ('p \<times> bool) list" where
  "drop_delayed [] = []"
| "drop_delayed (e # es) = (if snd e then es else e # drop_delayed es)"

text \<open>\<open>bindlist_cleanup\<close>; \<open>None\<close>: the list has run empty and its head is dereferenced.\<close>

definition bindlist_cleanup :: "nat \<Rightarrow> 'p bindstate \<Rightarrow> 'p bindstate option" where
  "bindlist_cleanup l st =
     (case lists st l of
        None \<Rightarrow> None
      | Some [] \<Rightarrow> None
      | Some (e # es) \<Rightarrow>
          (case (if snd e then es else e # es) of
             [] \<Rightarrow> None
           | h # t \<Rightarrow>
               let t' = drop_delayed t in
               Some (st\<lparr>lists := (lists st)(l := (if t' = [] then None else Some (h # t')))\<rparr>)))"

text \<open>
  The six forwarding methods (\<open>bindlist_bang\<close>, \<open>bindlist_float\<close>, ...): \<open>recv\<close> is what a receiver
  does with the message. Elements bound meanwhile go to the front and are not reached.
\<close>

definition bindlist_forward ::
  "('p \<Rightarrow> 'p bindstate \<Rightarrow> 'p bindstate) \<Rightarrow> nat \<Rightarrow> 'p bindstate \<Rightarrow> 'p bindstate option" where
  "bindlist_forward recv l st =
     (case lists st l of
        None \<Rightarrow> None
      | Some es \<Rightarrow>
          let st1 = fold (\<lambda>e. recv (fst e)) es (st\<lparr>change := 1\<rparr>) in
          map_option (\<lambda>s. s\<lparr>change := change st\<rparr>)
            (if change st1 > 1 then bindlist_cleanup l st1 else Some st1))"

definition send_symbol ::
  "('p \<Rightarrow> 'p bindstate \<Rightarrow> 'p bindstate) \<Rightarrow> 'p bindstate \<Rightarrow> 'p bindstate option" where
  "send_symbol recv st =
     (case s_thing st of T_none \<Rightarrow> Some st | T_obj p \<Rightarrow> Some (recv p st) | T_list l \<Rightarrow> bindlist_forward recv l st)"

text \<open>\<open>pd_findbyclass\<close>: the last element of the class that is not about to be freed.\<close>

definition pd_findbyclass :: "('p \<Rightarrow> 'c) \<Rightarrow> 'c \<Rightarrow> 'p bindstate \<Rightarrow> 'p option" where
  "pd_findbyclass cls c st =
     (case s_thing st of
        T_none \<Rightarrow> None
      | T_obj p \<Rightarrow> if cls p = c then Some p else None
      | T_list l \<Rightarrow>
          fold (\<lambda>e x. if \<not> snd e \<and> cls (fst e) = c then Some (fst e) else x)
            (case lists st l of Some es \<Rightarrow> es | None \<Rightarrow> []) None)"

section \<open>The stack of the \<open>#X\<close> symbol\<close>

record 'p gstack =
  s_X :: "'p option"
  gframes :: "('p option \<times> symbol option) list"
  loadingabstraction :: "symbol option"
  lastpopped :: "'p option"

definition pd_setloadingabstraction :: "symbol \<Rightarrow> 'p gstack \<Rightarrow> bool \<times> 'p gstack" where
  "pd_setloadingabstraction nm g =
     (if list_ex (\<lambda>f. snd f = Some nm) (gframes g) then (True, g)
      else (False, g\<lparr>loadingabstraction := Some nm\<rparr>))"

definition pd_pushsym :: "'p \<Rightarrow> 'p gstack \<Rightarrow> 'p gstack" where
  "pd_pushsym x g =
     g\<lparr>gframes := (s_X g, loadingabstraction g) # gframes g, loadingabstraction := None, s_X := Some x\<rparr>"

text \<open>\<open>None\<close>: a pop that does not match, reported as a bug.\<close>

definition pd_popsym :: "'p \<Rightarrow> 'p gstack \<Rightarrow> 'p gstack option" where
  "pd_popsym x g =
     (case gframes g of
        [] \<Rightarrow> None
      | (what, _) # rest \<Rightarrow>
          if s_X g \<noteq> Some x then None
          else Some (g\<lparr>s_X := what, gframes := rest, lastpopped := Some x\<rparr>))"

section \<open>The receivers of a symbol\<close>

definition receivers :: "'p bindstate \<Rightarrow> 'p list" where
  "receivers st =
     (case s_thing st of
        T_none \<Rightarrow> []
      | T_obj p \<Rightarrow> [p]
      | T_list l \<Rightarrow> (case lists st l of Some es \<Rightarrow> valid es | None \<Rightarrow> []))"

text \<open>A bindlist has at least two receivers; \<open>idle\<close>: no element waits to be freed.\<close>

definition bind_inv :: "'p bindstate \<Rightarrow> bool" where
  "bind_inv st \<longleftrightarrow>
     (case s_thing st of
        T_list l \<Rightarrow> (case lists st l of Some es \<Rightarrow> 2 \<le> length (valid es) | None \<Rightarrow> False)
      | _ \<Rightarrow> True)"

definition idle :: "'p bindstate \<Rightarrow> bool" where
  "idle st \<longleftrightarrow> change st = 0 \<and>
     (case s_thing st of
        T_list l \<Rightarrow> (case lists st l of Some es \<Rightarrow> list_all (\<lambda>e. \<not> snd e) es | None \<Rightarrow> False)
      | _ \<Rightarrow> True)"

lemma valid_simps [simp]:
  "valid [] = []" "valid ((w, False) # es) = w # valid es" "valid ((w, True) # es) = valid es"
  by (simp_all add: valid_def)

lemma valid_unbind_elem:
  "(x, True) \<notin> set es \<Longrightarrow> valid (unbind_elem busy x es) = remove1 x (valid es)"
proof (induction es)
  case (Cons e es)
  then show ?case by (cases e; cases "snd e") (auto simp: valid_def)
qed simp

lemma valid_unbind_length: "length (valid es) - 1 \<le> length (valid (unbind_elem busy x es))"
proof (induction es)
  case (Cons e es)
  then show ?case by (cases e; cases "snd e") (auto simp: valid_def)
qed simp

lemma bind_receivers: "bind_inv st \<Longrightarrow> receivers (pd_bind x st) = x # receivers st"
  by (auto simp: receivers_def pd_bind_def bind_inv_def split: thing.splits option.splits)

lemma bind_bind_inv: "bind_inv st \<Longrightarrow> bind_inv (pd_bind x st)"
  by (auto simp: pd_bind_def bind_inv_def split: thing.splits option.splits)

lemma bind_idle: "idle st \<Longrightarrow> idle (pd_bind x st)"
  by (auto simp: pd_bind_def idle_def split: thing.splits option.splits)

lemma unbind_bind_inv:
  assumes "bind_inv st"
  shows "bind_inv (pd_unbind x st)"
proof (cases "s_thing st")
  case (T_list l)
  with assms obtain es where es: "lists st l = Some es" "2 \<le> length (valid es)"
    by (auto simp: bind_inv_def split: option.splits)
  let ?v = "valid (unbind_elem (change st \<noteq> 0) x es)"
  have "1 \<le> length ?v" using valid_unbind_length [of es "change st \<noteq> 0" x] es(2) by linarith
  then consider y where "?v = [y]" | a b v where "?v = a # b # v" by (cases ?v rule: remdups_adj.cases) auto
  then show ?thesis
    by cases (simp_all add: pd_unbind_def bind_inv_def T_list es(1) Let_def)
qed (auto simp: pd_unbind_def bind_inv_def)

text \<open>An element that waits to be freed hides a second one of the same receiver from \<open>pd_unbind\<close>.\<close>

definition delayed :: "'p bindstate \<Rightarrow> 'p set" where
  "delayed st =
     (case s_thing st of
        T_list l \<Rightarrow> (case lists st l of Some es \<Rightarrow> {x. (x, True) \<in> set es} | None \<Rightarrow> {})
      | _ \<Rightarrow> {})"

lemma unbind_receivers:
  assumes "bind_inv st" "x \<notin> delayed st"
  shows "receivers (pd_unbind x st) = remove1 x (receivers st)"
proof (cases "s_thing st")
  case (T_list l)
  with assms obtain es where es: "lists st l = Some es" "2 \<le> length (valid es)" "(x, True) \<notin> set es"
    by (auto simp: bind_inv_def delayed_def split: option.splits)
  let ?v = "valid (unbind_elem (change st \<noteq> 0) x es)"
  note v = valid_unbind_elem [OF es(3), of "change st \<noteq> 0"]
  have "1 \<le> length ?v" using valid_unbind_length [of es "change st \<noteq> 0" x] es(2) by linarith
  then consider y where "?v = [y]" | a b u where "?v = a # b # u" by (cases ?v rule: remdups_adj.cases) auto
  then have "receivers (pd_unbind x st) = ?v"
    by cases (simp_all add: pd_unbind_def receivers_def T_list es(1) Let_def)
  with v es(1) show ?thesis by (simp add: receivers_def T_list)
qed (auto simp: pd_unbind_def receivers_def)

lemma idle_not_delayed: "idle st \<Longrightarrow> delayed st = {}"
  by (auto simp: idle_def delayed_def list_all_iff split: thing.splits option.splits)

lemma unbind_elem_idle: "list_all (\<lambda>e. \<not> snd e) es \<Longrightarrow> list_all (\<lambda>e. \<not> snd e) (unbind_elem False x es)"
  by (induction es) auto

lemma unbind_idle:
  assumes "idle st"
  shows "idle (pd_unbind x st)"
proof (cases "s_thing st")
  case (T_list l)
  with assms obtain es where es: "lists st l = Some es" "list_all (\<lambda>e. \<not> snd e) es" "change st = 0"
    by (auto simp: idle_def split: option.splits)
  then show ?thesis using unbind_elem_idle [OF es(2), of x]
    by (auto simp: pd_unbind_def idle_def T_list Let_def split: list.splits)
qed (use assms in \<open>auto simp: pd_unbind_def idle_def\<close>)

section \<open>The interface of a set of receivers\<close>

text \<open>
  What the rest of the program relies on: binding adds a receiver, unbinding takes one away. The
  client lemma is about any sequence of the two, as objects come and go while no message is
  being forwarded.
\<close>

datatype 'p bind_op = Bind 'p | Unbind 'p

locale receiver_set =
  fixes bind unbind :: "'p \<Rightarrow> 's \<Rightarrow> 's"
    and recvs :: "'s \<Rightarrow> 'p list"
    and ok :: "'s \<Rightarrow> bool"
  assumes ok_bind: "ok s \<Longrightarrow> ok (bind x s)"
    and ok_unbind: "ok s \<Longrightarrow> ok (unbind x s)"
    and recvs_bind: "ok s \<Longrightarrow> recvs (bind x s) = x # recvs s"
    and recvs_unbind: "ok s \<Longrightarrow> recvs (unbind x s) = remove1 x (recvs s)"
begin

fun exec :: "'p bind_op list \<Rightarrow> 's \<Rightarrow> 's" where
  "exec [] s = s"
| "exec (Bind x # ops) s = exec ops (bind x s)"
| "exec (Unbind x # ops) s = exec ops (unbind x s)"

fun spec :: "'p bind_op list \<Rightarrow> 'p list \<Rightarrow> 'p list" where
  "spec [] r = r"
| "spec (Bind x # ops) r = spec ops (x # r)"
| "spec (Unbind x # ops) r = spec ops (remove1 x r)"

lemma exec_spec: "ok s \<Longrightarrow> ok (exec ops s) \<and> recvs (exec ops s) = spec ops (recvs s)"
  by (induction ops s rule: exec.induct) (auto simp: ok_bind ok_unbind recvs_bind recvs_unbind)

lemma unbind_bind: "ok s \<Longrightarrow> recvs (unbind x (bind x s)) = recvs s"
  by (simp add: recvs_bind recvs_unbind ok_bind)

end

interpretation bl: receiver_set pd_bind pd_unbind receivers "\<lambda>st. bind_inv st \<and> idle st"
  by unfold_locales
     (auto simp: bind_bind_inv bind_idle unbind_bind_inv unbind_idle bind_receivers unbind_receivers idle_not_delayed)

fun run_binds :: "'p bind_op list \<Rightarrow> 'p bindstate \<Rightarrow> 'p bindstate" where
  "run_binds [] st = st"
| "run_binds (Bind x # ops) st = run_binds ops (pd_bind x st)"
| "run_binds (Unbind x # ops) st = run_binds ops (pd_unbind x st)"

fun spec_binds :: "'p bind_op list \<Rightarrow> 'p list \<Rightarrow> 'p list" where
  "spec_binds [] r = r"
| "spec_binds (Bind x # ops) r = spec_binds ops (x # r)"
| "spec_binds (Unbind x # ops) r = spec_binds ops (remove1 x r)"

lemma run_binds_exec: "run_binds ops st = bl.exec ops st" "spec_binds ops r = bl.spec ops r"
proof -
  show "run_binds ops st = bl.exec ops st"
  proof (induction ops arbitrary: st)
    case (Cons x ops)
    then show ?case by (cases x) auto
  qed simp
  show "spec_binds ops r = bl.spec ops r"
  proof (induction ops arbitrary: r)
    case (Cons x ops)
    then show ?case by (cases x) auto
  qed simp
qed

definition no_binding :: "'p bindstate" where
  "no_binding = \<lparr>s_thing = T_none, lists = (\<lambda>_. None), fresh = 0, change = 0\<rparr>"

section \<open>Forwarding while receivers unbind themselves\<close>

definition self_unbind :: "'p set \<Rightarrow> 'p \<Rightarrow> 'p bindstate \<Rightarrow> 'p bindstate" where
  "self_unbind U p st = (if p \<in> U then pd_unbind p st else st)"

lemma valid_fresh: "valid (map (\<lambda>x. (x, False)) xs) = xs"
  by (induction xs) auto

lemma unbind_elem_mark:
  "x \<notin> set xs \<Longrightarrow> unbind_elem True x (map (\<lambda>x. (x, False)) xs @ (x, d) # es) = map (\<lambda>x. (x, False)) xs @ (x, True) # es"
  by (induction xs) auto

lemma fold_self_unbind_id: "\<forall>x\<in>set xs. x \<notin> U \<Longrightarrow> fold (\<lambda>e. self_unbind U (fst e)) (map (\<lambda>x. (x, d)) xs) st = st"
  by (induction xs arbitrary: st) (auto simp: self_unbind_def)

lemma drop_delayed_mark:
  "drop_delayed (map (\<lambda>x. (x, False)) xs @ (x, True) # es) = map (\<lambda>x. (x, False)) xs @ es"
  by (induction xs) auto

lemma pd_unbind_busy:
  assumes "s_thing st = T_list l" "lists st l = Some es" "change st \<noteq> 0" "x \<in> fst ` set es"
    and "2 \<le> length (valid (unbind_elem True x es))"
  shows "pd_unbind x st = st\<lparr>lists := (lists st)(l := Some (unbind_elem True x es)), change := Suc (change st)\<rparr>"
proof -
  obtain a b v where "valid (unbind_elem True x es) = a # b # v"
    using assms(5) by (cases "valid (unbind_elem True x es)" rule: remdups_adj.cases) auto
  then show ?thesis using assms(1-4) by (auto simp: pd_unbind_def Let_def)
qed

text \<open>A patch being loaded: the object it pushes, its name and the patches it loads.\<close>

datatype 'p load = Load 'p symbol "'p load list"

fun load_patch :: "'p load \<Rightarrow> 'p gstack \<Rightarrow> 'p gstack option"
  and load_all :: "'p load list \<Rightarrow> 'p gstack \<Rightarrow> 'p gstack option" where
  "load_patch (Load x nm subs) g =
     (case pd_setloadingabstraction nm g of (busy, g') \<Rightarrow>
        if busy then Some g' else Option.bind (load_all subs (pd_pushsym x g')) (pd_popsym x))"
| "load_all [] g = Some g"
| "load_all (l # ls) g = Option.bind (load_patch l g) (load_all ls)"

lemma load_all_nests:
  "\<exists>g'. load_patch l g = Some g' \<and> s_X g' = s_X g \<and> gframes g' = gframes g"
  "\<exists>g'. load_all ls g = Some g' \<and> s_X g' = s_X g \<and> gframes g' = gframes g"
proof (induction l g and ls g rule: load_patch_load_all.induct)
  case (1 x nm subs g)
  show ?case
  proof (cases "fst (pd_setloadingabstraction nm g)")
    case True
    then show ?thesis by (auto simp: pd_setloadingabstraction_def split: if_splits)
  next
    case False
    then have st: "pd_setloadingabstraction nm g = (False, g\<lparr>loadingabstraction := Some nm\<rparr>)"
      by (auto simp: pd_setloadingabstraction_def split: if_splits)
    from 1 [OF st [symmetric]] obtain g2 where
      "load_all subs (pd_pushsym x (g\<lparr>loadingabstraction := Some nm\<rparr>)) = Some g2"
      "s_X g2 = Some x" "gframes g2 = (s_X g, Some nm) # gframes g"
      by (auto simp: pd_pushsym_def)
    then show ?thesis by (simp add: st pd_popsym_def)
  qed
next
  case (3 l ls g)
  then show ?case by fastforce
qed simp

section \<open>Properties\<close>

text \<open>C6: whatever sequence of objects is bound to a symbol and unbound again, the symbol reaches
  exactly those that are bound, most recent first: none, one directly, or several through a
  bindlist, which never holds fewer than two.\<close>

theorem binds_refine:
  fixes ops :: "'a bind_op list"
  shows "receivers (run_binds ops no_binding) = spec_binds ops [] \<and> bind_inv (run_binds ops no_binding)"
proof -
  have "bind_inv (no_binding :: 'a bindstate) \<and> idle (no_binding :: 'a bindstate)" "receivers (no_binding :: 'a bindstate) = []"
    by (auto simp: no_binding_def bind_inv_def idle_def receivers_def)
  with bl.exec_spec [of "no_binding :: 'a bindstate" ops] show ?thesis by (simp add: run_binds_exec)
qed

text \<open>A receiver may unbind itself while a message is forwarded: the traversal still reaches
  the others, and the cleanup afterwards leaves the list without it.\<close>

theorem forward_self_unbind:
  assumes "s_thing st = T_list l" "lists st l = Some (map (\<lambda>x. (x, False)) (xs @ p # ys))" "change st = 0"
    and "distinct (xs @ p # ys)" "2 \<le> length (xs @ ys)"
  shows "\<exists>st'. send_symbol (self_unbind {p}) st = Some st' \<and> receivers st' = xs @ ys \<and> idle st' \<and> bind_inv st'"
proof -
  let ?F = "map (\<lambda>x. (x, False))"
  let ?st1 = "st\<lparr>change := 1\<rparr>"
  have ue: "unbind_elem True p (?F (xs @ p # ys)) = ?F xs @ (p, True) # ?F ys"
    using assms(4) unbind_elem_mark [of p xs False "?F ys"] by simp
  have va: "valid (?F xs @ (p, True) # ?F ys) = xs @ ys"
    by (simp add: valid_def filter_map o_def)
  have un: "pd_unbind p ?st1 = ?st1\<lparr>lists := (lists st)(l := Some (?F xs @ (p, True) # ?F ys)), change := 2\<rparr>"
    using assms ue va by (subst pd_unbind_busy [where es = "?F (xs @ p # ys)" and l = l]) auto
  have fd: "fold (\<lambda>e. self_unbind {p} (fst e)) (?F (xs @ p # ys)) ?st1 = pd_unbind p ?st1"
  proof -
    have i: "fold (\<lambda>e. self_unbind {p} (fst e)) (?F zs) s = s" if "p \<notin> set zs" for zs s
      using that by (intro fold_self_unbind_id) auto
    show ?thesis using assms(4) i by (simp add: self_unbind_def)
  qed
  define st2 where "st2 = st\<lparr>lists := (lists st)(l := Some (?F (xs @ ys))), change := 2\<rparr>"
  have cl: "bindlist_cleanup l (pd_unbind p ?st1) = Some st2"
  proof (cases xs)
    case Nil
    then obtain a b v where "ys = a # b # v" using assms(5) by (cases ys rule: remdups_adj.cases) auto
    moreover have "drop_delayed (?F zs) = ?F zs" for zs :: "'a list" by (induction zs) auto
    ultimately show ?thesis using Nil unfolding un st2_def by (simp add: bindlist_cleanup_def)
  next
    case (Cons a xs')
    then have "xs' @ ys \<noteq> []" using assms(5) by auto
    then show ?thesis unfolding un st2_def
      using drop_delayed_mark [of xs' p "?F ys"] by (auto simp: Cons bindlist_cleanup_def Let_def)
  qed
  have "send_symbol (self_unbind {p}) st = Some (st2\<lparr>change := 0\<rparr>)"
    unfolding send_symbol_def bindlist_forward_def assms(1-3) thing.case option.case Let_def fd cl
    using arg_cong [OF un, of change] by simp
  then show ?thesis using assms(1,5) valid_fresh [of "xs @ ys"]
    by (auto simp: st2_def receivers_def idle_def bind_inv_def list_all_iff)
qed

text \<open>Two receivers at the front of the list that unbind themselves during one message are too
  many for the cleanup, which looks at the head once: the second one stays in the list and is
  reached by the next message although it is no longer bound.\<close>

theorem forward_keeps_unbound:
  assumes "s_thing st = T_list l" "lists st l = Some (map (\<lambda>x. (x, False)) (p # q # ys))" "change st = 0"
    and "distinct (p # q # ys)" "2 \<le> length ys"
  shows "\<exists>st'. send_symbol (self_unbind {p, q}) st = Some st' \<and> receivers st' = ys \<and>
    s_thing st' = T_list l \<and> lists st' l = Some ((q, True) # map (\<lambda>x. (x, False)) ys)"
proof -
  let ?F = "map (\<lambda>x. (x, False))"
  let ?st1 = "st\<lparr>change := 1\<rparr>"
  have va: "valid (?F zs) = zs" for zs :: "'a list" by (rule valid_fresh)
  have u1: "pd_unbind p ?st1 = ?st1\<lparr>lists := (lists st)(l := Some ((p, True) # (q, False) # ?F ys)), change := 2\<rparr>"
    using assms va by (subst pd_unbind_busy [where es = "?F (p # q # ys)" and l = l]) auto
  have u2: "pd_unbind q (pd_unbind p ?st1) =
      ?st1\<lparr>lists := (lists st)(l := Some ((p, True) # (q, True) # ?F ys)), change := 3\<rparr>"
    unfolding u1 using assms va by (subst pd_unbind_busy [where es = "(p, True) # (q, False) # ?F ys" and l = l]) auto
  have fd: "fold (\<lambda>e. self_unbind {p, q} (fst e)) (?F (p # q # ys)) ?st1 = pd_unbind q (pd_unbind p ?st1)"
  proof -
    have i: "fold (\<lambda>e. self_unbind {p, q} (fst e)) (?F ys) s = s" for s
      using assms(4) by (intro fold_self_unbind_id) auto
    show ?thesis using assms(4) i by (simp add: self_unbind_def)
  qed
  have dd: "drop_delayed (?F zs) = ?F zs" for zs :: "'a list" by (induction zs) auto
  have cl: "bindlist_cleanup l (pd_unbind q (pd_unbind p ?st1)) =
      Some (st\<lparr>lists := (lists st)(l := Some ((q, True) # ?F ys)), change := 3\<rparr>)"
    unfolding u2 using assms(5) dd by (cases ys) (auto simp: bindlist_cleanup_def Let_def)
  have "send_symbol (self_unbind {p, q}) st = Some (st\<lparr>lists := (lists st)(l := Some ((q, True) # ?F ys)), change := 0\<rparr>)"
    unfolding send_symbol_def bindlist_forward_def assms(1-3) thing.case option.case Let_def fd cl
    using arg_cong [OF u2, of change] by simp
  then show ?thesis using assms(1) va [of ys] by (auto simp: receivers_def)
qed

theorem forward_self_unbind_witness:
  "\<exists>st'. send_symbol (self_unbind {2}) (run_binds [Bind 3, Bind 2, Bind (1 :: nat)] no_binding) = Some st' \<and>
    receivers st' = [1, 3] \<and> idle st' \<and> bind_inv st'"
  using forward_self_unbind [of "run_binds [Bind 3, Bind 2, Bind (1 :: nat)] no_binding" 0 "[1]" 2 "[3]"]
  by (simp add: no_binding_def pd_bind_def)

theorem forward_keeps_unbound_witness:
  "\<exists>st'. send_symbol (self_unbind {1, 2}) (run_binds [Bind 4, Bind 3, Bind 2, Bind (1 :: nat)] no_binding) = Some st' \<and>
    receivers st' = [3, 4] \<and> s_thing st' = T_list 0 \<and> lists st' 0 = Some ((2, True) # map (\<lambda>x. (x, False)) [3, 4])"
  using forward_keeps_unbound [of "run_binds [Bind 4, Bind 3, Bind 2, Bind (1 :: nat)] no_binding" 0 1 2 "[3, 4]"]
  by (simp add: no_binding_def pd_bind_def)

text \<open>Loading nests: a patch that pushes itself as \<open>#X\<close>, loads whatever balanced sequence of
  patches and pops restores the binding it found, and an abstraction that is already loading is
  recognised.\<close>

theorem load_nests: "\<exists>g'. load_patch l g = Some g' \<and> s_X g' = s_X g \<and> gframes g' = gframes g"
  by (rule load_all_nests)

end
