(* ===== verification/Undo.thy ===== *)
theory Undo
  imports Prelude
begin

text \<open>
  The undo history of a canvas, \<open>src/pd/src/g_undo.c\<close>: a list of actions with a current position
  (\<open>u_last\<close>), grouped by the markers of undo sequences. What an action does to the document is
  dispatched on its type by \<open>canvas_undo_doit\<close> and is a parameter; that an action's undo reverts
  its redo is the contract of the locale.

  The node \<open>UNDO_INIT\<close> at the head of the queue is implicit. \<open>past\<close> runs from \<open>u_last\<close> back to it,
  \<open>future\<close> from \<open>u_last->next\<close> on.
\<close>

datatype 'a undo_action = SEQUENCE_START | SEQUENCE_END | ACTION 'a

record ('a, 'd) undo_state =
  past :: "'a undo_action list"
  future :: "'a undo_action list"
  document :: 'd

record ('a, 'd) undo_methods =
  undo_fn :: "'a \<Rightarrow> 'd \<Rightarrow> 'd"
  redo_fn :: "'a \<Rightarrow> 'd \<Rightarrow> 'd"

definition canvas_undo_doit :: "('a, 'd) undo_methods \<Rightarrow> bool \<Rightarrow> 'a undo_action \<Rightarrow> 'd \<Rightarrow> 'd" where
  "canvas_undo_doit M undo u d =
     (case u of ACTION a \<Rightarrow> if undo then undo_fn M a d else redo_fn M a d | _ \<Rightarrow> d)"

text \<open>
  \<open>canvas_undo_add\<close> with \<open>canvas_undo_init\<close> and \<open>canvas_undo_rebranch\<close>: what could be redone is
  dropped, and an empty sequence is taken back.
\<close>

definition canvas_undo_add :: "'a undo_action \<Rightarrow> ('a, 'd) undo_state \<Rightarrow> ('a, 'd) undo_state" where
  "canvas_undo_add u st =
     (if u = SEQUENCE_END \<and> past st \<noteq> [] \<and> hd (past st) = SEQUENCE_START
      then st\<lparr>past := tl (past st), future := []\<rparr>
      else st\<lparr>past := u # past st, future := []\<rparr>)"

text \<open>
  The loop of \<open>canvas_undo_undo\<close> over a sequence: it stops on the start marker that closes it, or
  on \<open>UNDO_INIT\<close> (the empty \<open>past\<close>).
\<close>

fun undo_walk ::
  "('a, 'd) undo_methods \<Rightarrow> int \<Rightarrow> 'a undo_action list \<Rightarrow> 'a undo_action list \<Rightarrow> 'd \<Rightarrow>
     'a undo_action list \<times> 'a undo_action list \<times> 'd" where
  "undo_walk M n [] fut d = ([], fut, d)"
| "undo_walk M n (u # p) fut d =
     (let n' = (case u of SEQUENCE_START \<Rightarrow> n - 1 | SEQUENCE_END \<Rightarrow> n + 1 | ACTION _ \<Rightarrow> n);
          d' = canvas_undo_doit M True u d in
      if n' < 1 then (u # p, fut, d') else undo_walk M n' p (u # fut) d')"

definition canvas_undo_undo :: "('a, 'd) undo_methods \<Rightarrow> ('a, 'd) undo_state \<Rightarrow> ('a, 'd) undo_state" where
  "canvas_undo_undo M st =
     (case past st of
        [] \<Rightarrow> st
      | u # p \<Rightarrow>
          (case (if u = SEQUENCE_END then undo_walk M 1 p (u # future st) (document st)
                 else (u # p, future st, document st)) of
             ([], f, d) \<Rightarrow> st\<lparr>past := [], future := f, document := d\<rparr>
           | (v # q, f, d) \<Rightarrow> st\<lparr>past := q, future := v # f, document := canvas_undo_doit M True v d\<rparr>))"

text \<open>
  The loop of \<open>canvas_undo_redo\<close>: \<open>u\<close> is \<open>u_last\<close> (the head of \<open>past\<close> in the result).
\<close>

fun redo_walk ::
  "('a, 'd) undo_methods \<Rightarrow> int \<Rightarrow> 'a undo_action \<Rightarrow> 'a undo_action list \<Rightarrow> 'a undo_action list \<Rightarrow> 'd \<Rightarrow>
     'a undo_action \<times> 'a undo_action list \<times> 'a undo_action list \<times> 'd" where
  "redo_walk M n u p [] d = (u, p, [], d)"
| "redo_walk M n u p (v # fut) d =
     (let n' = (case v of SEQUENCE_END \<Rightarrow> n - 1 | SEQUENCE_START \<Rightarrow> n + 1 | ACTION _ \<Rightarrow> n);
          d' = canvas_undo_doit M False v d in
      if n' < 1 then (v, u # p, fut, d') else redo_walk M n' v (u # p) fut d')"

definition canvas_undo_redo :: "('a, 'd) undo_methods \<Rightarrow> ('a, 'd) undo_state \<Rightarrow> ('a, 'd) undo_state" where
  "canvas_undo_redo M st =
     (case future st of
        [] \<Rightarrow> st
      | u # f \<Rightarrow>
          (case (if u = SEQUENCE_START then redo_walk M 1 u (past st) f (document st)
                 else (u, past st, f, document st)) of
             (v, p, f', d) \<Rightarrow>
               st\<lparr>past := v # p, future := f', document := canvas_undo_doit M False v d\<rparr>))"

section \<open>Well-bracketed histories\<close>

text \<open>Newest action first: an end marker comes before its sequence.\<close>

inductive balanced :: "'a undo_action list \<Rightarrow> bool" where
  balanced_Nil: "balanced []"
| balanced_action: "balanced p \<Longrightarrow> balanced (ACTION a # p)"
| balanced_sequence: "balanced u \<Longrightarrow> balanced p \<Longrightarrow> balanced (SEQUENCE_END # u @ SEQUENCE_START # p)"

inductive_cases balanced_ConsE: "balanced (x # p)"
inductive_simps balanced_simps [simp]: "balanced []" "balanced (ACTION a # p)" "balanced (SEQUENCE_START # p)"

text \<open>The document after a list of actions, and the condition that each of them can be reverted.\<close>

fun replay :: "('a, 'd) undo_methods \<Rightarrow> 'a undo_action list \<Rightarrow> 'd \<Rightarrow> 'd" where
  "replay M [] d = d"
| "replay M (u # p) d = canvas_undo_doit M False u (replay M p d)"

fun revertible :: "('a, 'd) undo_methods \<Rightarrow> 'a undo_action list \<Rightarrow> 'd \<Rightarrow> bool" where
  "revertible M [] d \<longleftrightarrow> True"
| "revertible M (u # p) d \<longleftrightarrow>
     canvas_undo_doit M True u (replay M (u # p) d) = replay M p d \<and> revertible M p d"

lemma replay_append: "replay M (u @ p) d = replay M u (replay M p d)"
  by (induction u) auto

lemma revertible_append: "revertible M (u @ p) d \<longleftrightarrow> revertible M u (replay M p d) \<and> revertible M p d"
  by (induction u) (auto simp: replay_append)

lemma doit_marker [simp]:
  "canvas_undo_doit M b SEQUENCE_START d = d" "canvas_undo_doit M b SEQUENCE_END d = d"
  by (simp_all add: canvas_undo_doit_def)

lemma undo_walk_balanced:
  "balanced u \<Longrightarrow> 1 \<le> n \<Longrightarrow> revertible M u d \<Longrightarrow>
    undo_walk M n (u @ p) fut (replay M u d) = undo_walk M n p (rev u @ fut) d"
proof (induction u arbitrary: n p fut d rule: balanced.induct)
  case (balanced_action q a)
  then show ?case by simp
next
  case (balanced_sequence u q)
  have "undo_walk M (n + 1) (u @ SEQUENCE_START # q @ p) (SEQUENCE_END # fut) (replay M u (replay M q d)) =
      undo_walk M (n + 1) (SEQUENCE_START # q @ p) (rev u @ SEQUENCE_END # fut) (replay M q d)"
    using balanced_sequence by (intro balanced_sequence.IH(1)) (simp_all add: revertible_append replay_append)
  with balanced_sequence show ?case
    by (simp add: replay_append revertible_append)
qed simp

text \<open>The walk never depends on the node it starts from once it has moved.\<close>

lemma redo_walk_balanced:
  "balanced u \<Longrightarrow> 1 \<le> n \<Longrightarrow>
    redo_walk M n x p (rev u @ fut) d = redo_walk M n (hd (u @ [x])) (tl (u @ [x]) @ p) fut (replay M u d)"
proof (induction u arbitrary: n x p fut d rule: balanced.induct)
  case (balanced_action q a)
  have "redo_walk M n x p (rev q @ ACTION a # fut) d =
      redo_walk M n (hd (q @ [x])) (tl (q @ [x]) @ p) (ACTION a # fut) (replay M q d)"
    using balanced_action by simp
  then show ?case using balanced_action.prems by (cases "q @ [x]") (auto simp: Let_def)
next
  case (balanced_sequence u q)
  define x1 where "x1 = hd (q @ [x])"
  define p1 where "p1 = tl (q @ [x]) @ p"
  have xp: "x1 # p1 = q @ x # p" unfolding x1_def p1_def by (cases q) auto
  have "redo_walk M n x p (rev (SEQUENCE_END # u @ SEQUENCE_START # q) @ fut) d =
      redo_walk M n x1 p1 (SEQUENCE_START # rev u @ SEQUENCE_END # fut) (replay M q d)"
    using balanced_sequence.IH(2) [of n x p "SEQUENCE_START # rev u @ SEQUENCE_END # fut" d] balanced_sequence.prems
    by (simp add: x1_def p1_def)
  also have "\<dots> = redo_walk M (n + 1) SEQUENCE_START (x1 # p1) (rev u @ SEQUENCE_END # fut) (replay M q d)"
    using balanced_sequence.prems by simp
  also have "\<dots> = redo_walk M (n + 1) (hd (u @ [SEQUENCE_START])) (tl (u @ [SEQUENCE_START]) @ x1 # p1)
      (SEQUENCE_END # fut) (replay M u (replay M q d))"
    using balanced_sequence.IH(1) [of "n + 1" SEQUENCE_START "x1 # p1" "SEQUENCE_END # fut" "replay M q d"]
      balanced_sequence.prems by simp
  also have "\<dots> = redo_walk M n SEQUENCE_END (u @ SEQUENCE_START # q @ x # p) fut (replay M u (replay M q d))"
    using balanced_sequence.prems xp by (cases u) auto
  finally show ?case by (simp add: replay_append)
qed simp

section \<open>Undoing and redoing one unit\<close>

text \<open>What one undo takes back: a single action or a whole sequence.\<close>

definition undo_unit :: "'a undo_action list \<Rightarrow> bool" where
  "undo_unit u \<longleftrightarrow> (\<exists>a. u = [ACTION a]) \<or> (\<exists>v. balanced v \<and> u = SEQUENCE_END # v @ [SEQUENCE_START])"

text \<open>A history as it is kept: the document is what its actions made of \<open>d0\<close>, and they can be reverted.\<close>

definition consistent :: "('a, 'd) undo_methods \<Rightarrow> 'd \<Rightarrow> ('a, 'd) undo_state \<Rightarrow> bool" where
  "consistent M d0 st \<longleftrightarrow> document st = replay M (past st) d0 \<and> revertible M (past st) d0"

lemma undo_one:
  assumes "consistent M d0 st" "past st = u @ p" "undo_unit u"
  shows "canvas_undo_undo M st = st\<lparr>past := p, future := rev u @ future st, document := replay M p d0\<rparr>"
  using assms(3) unfolding undo_unit_def
proof (elim disjE exE conjE)
  fix a assume "u = [ACTION a]"
  with assms show ?thesis by (simp add: canvas_undo_undo_def consistent_def)
next
  fix v assume v: "balanced v" "u = SEQUENCE_END # v @ [SEQUENCE_START]"
  have "undo_walk M 1 (v @ SEQUENCE_START # p) (SEQUENCE_END # future st) (replay M v (replay M p d0)) =
      undo_walk M 1 (SEQUENCE_START # p) (rev v @ SEQUENCE_END # future st) (replay M p d0)"
    using assms v by (intro undo_walk_balanced) (auto simp: consistent_def revertible_append replay_append)
  with assms v show ?thesis
    by (simp add: canvas_undo_undo_def consistent_def replay_append revertible_append)
qed

lemma redo_one:
  assumes "future st = rev u @ f" "undo_unit u"
  shows "canvas_undo_redo M st = st\<lparr>past := u @ past st, future := f, document := replay M u (document st)\<rparr>"
  using assms(2) unfolding undo_unit_def
proof (elim disjE exE conjE)
  fix a assume "u = [ACTION a]"
  with assms show ?thesis by (simp add: canvas_undo_redo_def)
next
  fix v assume v: "balanced v" "u = SEQUENCE_END # v @ [SEQUENCE_START]"
  have "redo_walk M 1 SEQUENCE_START (past st) (rev v @ SEQUENCE_END # f) (document st) =
      redo_walk M 1 (hd (v @ [SEQUENCE_START])) (tl (v @ [SEQUENCE_START]) @ past st) (SEQUENCE_END # f) (replay M v (document st))"
    by (rule redo_walk_balanced [OF v(1)]) simp
  also have "\<dots> = (SEQUENCE_END, v @ SEQUENCE_START # past st, f, replay M v (document st))"
    by (cases v) auto
  finally show ?thesis using assms v by (simp add: canvas_undo_redo_def replay_append)
qed

lemma consistent_suffix: "consistent M d0 st \<Longrightarrow> past st = u @ p \<Longrightarrow>
    consistent M d0 (st\<lparr>past := p, future := f, document := replay M p d0\<rparr>)"
  by (simp add: consistent_def revertible_append)

definition undoes_to :: "('a, 'd) undo_methods \<Rightarrow> 'd \<Rightarrow> nat \<Rightarrow> ('a, 'd) undo_state \<Rightarrow> bool" where
  "undoes_to M d0 n st \<longleftrightarrow>
     (let st' = (canvas_undo_undo M ^^ n) st in
      past st' = [] \<and> document st' = d0 \<and> future st' = rev (past st) @ future st)"

lemma undoes_step:
  assumes "consistent M d0 st" "past st = u @ p" "undo_unit u"
    and IH: "\<And>st'. past st' = p \<Longrightarrow> consistent M d0 st' \<Longrightarrow> \<exists>n. undoes_to M d0 n st'"
  shows "\<exists>n. undoes_to M d0 n st"
proof -
  define st' where "st' = canvas_undo_undo M st"
  have st': "st' = st\<lparr>past := p, future := rev u @ future st, document := replay M p d0\<rparr>"
    unfolding st'_def by (rule undo_one [OF assms(1-3)])
  with consistent_suffix [OF assms(1,2)] IH [of st'] obtain n where "undoes_to M d0 n st'" by auto
  then have "undoes_to M d0 (Suc n) st"
    unfolding undoes_to_def Let_def funpow_Suc_right comp_def st'_def [symmetric] using assms(2) st' by simp
  then show ?thesis by blast
qed

lemma undo_to_start:
  "balanced p \<Longrightarrow> past st = p \<Longrightarrow> consistent M d0 st \<Longrightarrow> \<exists>n. undoes_to M d0 n st"
proof (induction p arbitrary: st rule: balanced.induct)
  case balanced_Nil
  then show ?case by (intro exI [of _ 0]) (simp add: consistent_def undoes_to_def)
next
  case (balanced_action p a)
  have "undo_unit [ACTION a]" by (simp add: undo_unit_def)
  with balanced_action show ?case by (intro undoes_step [of M d0 st "[ACTION a]" p]) auto
next
  case (balanced_sequence v p)
  have "undo_unit (SEQUENCE_END # v @ [SEQUENCE_START])" using balanced_sequence.hyps(1) by (auto simp: undo_unit_def)
  with balanced_sequence show ?case
    by (intro undoes_step [of M d0 st "SEQUENCE_END # v @ [SEQUENCE_START]" p]) auto
qed

section \<open>A document to undo on\<close>

text \<open>The contract of an action, and the histories built by performing actions.\<close>

locale undo_contract =
  fixes M :: "('a, 'd) undo_methods" and ok :: "'a \<Rightarrow> 'd \<Rightarrow> bool"
  assumes undo_redo: "ok a d \<Longrightarrow> undo_fn M a (redo_fn M a d) = d"
begin

fun performed :: "'a undo_action list \<Rightarrow> 'd \<Rightarrow> bool" where
  "performed [] d \<longleftrightarrow> True"
| "performed (u # p) d \<longleftrightarrow> (case u of ACTION a \<Rightarrow> ok a (replay M p d) | _ \<Rightarrow> True) \<and> performed p d"

lemma performed_revertible: "performed p d \<Longrightarrow> revertible M p d"
  by (induction p) (auto simp: canvas_undo_doit_def undo_redo split: undo_action.splits)

end

text \<open>
  The connect and disconnect actions of \<open>g_editor.c\<close>: each keeps the object numbers and the inlet
  and outlet of one cord, undoing a connection removes the cord and undoing a disconnection puts
  it back. The document is the set of cords.
\<close>

datatype cord_action = CONNECT nat nat nat nat | DISCONNECT nat nat nat nat

definition cord_methods :: "(cord_action, (nat \<times> nat \<times> nat \<times> nat) set) undo_methods" where
  "cord_methods = \<lparr>
     undo_fn = (\<lambda>a d. case a of CONNECT i o' j n \<Rightarrow> d - {(i, o', j, n)} | DISCONNECT i o' j n \<Rightarrow> insert (i, o', j, n) d),
     redo_fn = (\<lambda>a d. case a of CONNECT i o' j n \<Rightarrow> insert (i, o', j, n) d | DISCONNECT i o' j n \<Rightarrow> d - {(i, o', j, n)})\<rparr>"

definition cord_ok :: "cord_action \<Rightarrow> (nat \<times> nat \<times> nat \<times> nat) set \<Rightarrow> bool" where
  "cord_ok a d \<longleftrightarrow> (case a of CONNECT i o' j n \<Rightarrow> (i, o', j, n) \<notin> d | DISCONNECT i o' j n \<Rightarrow> (i, o', j, n) \<in> d)"

interpretation cords: undo_contract cord_methods cord_ok
  by unfold_locales (auto simp: cord_methods_def cord_ok_def split: cord_action.splits)

section \<open>Properties\<close>

text \<open>C7: undo takes back exactly the last action or the last whole sequence, nested sequences
  included, and a redo after it restores the history and the document.\<close>

theorem redo_undo:
  assumes "consistent M d0 st" "past st = u @ p" "undo_unit u"
  shows "canvas_undo_undo M st = st\<lparr>past := p, future := rev u @ future st, document := replay M p d0\<rparr> \<and>
    canvas_undo_redo M (canvas_undo_undo M st) = st"
proof -
  note u = undo_one [OF assms]
  have "canvas_undo_redo M (canvas_undo_undo M st) = st"
    using redo_one [of "st\<lparr>past := p, future := rev u @ future st, document := replay M p d0\<rparr>" u "future st" M]
      assms unfolding u by (simp add: consistent_def replay_append)
  with u show ?thesis by simp
qed

theorem redo_undo_witness:
  "canvas_undo_redo cord_methods (canvas_undo_undo cord_methods
     \<lparr>past = [SEQUENCE_END, ACTION (DISCONNECT 0 0 1 0), ACTION (CONNECT 0 0 2 0), SEQUENCE_START], future = [],
      document = {(0, 0, 2, 0)}\<rparr>) =
   \<lparr>past = [SEQUENCE_END, ACTION (DISCONNECT 0 0 1 0), ACTION (CONNECT 0 0 2 0), SEQUENCE_START], future = [],
      document = {(0, 0, 2, 0)}\<rparr>"
proof -
  let ?p = "[SEQUENCE_END, ACTION (DISCONNECT 0 0 1 0), ACTION (CONNECT 0 0 2 0), SEQUENCE_START]"
  have r: "replay cord_methods ?p {(0, 0, 1, 0)} = {(0, 0, 2, 0)}"
    by (auto simp: cord_methods_def canvas_undo_doit_def)
  have "cords.performed ?p {(0, 0, 1, 0)}"
    unfolding cords.performed.simps by (simp add: cord_ok_def cord_methods_def canvas_undo_doit_def)
  from cords.performed_revertible [OF this] r
  have "consistent cord_methods {(0, 0, 1, 0)} \<lparr>past = ?p, future = [], document = {(0, 0, 2, 0)}\<rparr>"
    by (simp add: consistent_def)
  moreover have "undo_unit ?p" by (auto simp: undo_unit_def)
  ultimately show ?thesis by (intro redo_undo [THEN conjunct2, of _ _ _ ?p "[]"]) simp_all
qed

text \<open>Undoing often enough brings back the document the canvas was opened with, and everything
  undone can be redone in order.\<close>

theorem undo_reaches_start:
  assumes "balanced (past st)" "consistent M d0 st"
  shows "\<exists>n. past ((canvas_undo_undo M ^^ n) st) = [] \<and> document ((canvas_undo_undo M ^^ n) st) = d0 \<and>
    future ((canvas_undo_undo M ^^ n) st) = rev (past st) @ future st"
  using undo_to_start [OF assms(1) refl assms(2)] unfolding undoes_to_def Let_def .

theorem undo_reaches_start_witness:
  "\<exists>n. past ((canvas_undo_undo cord_methods ^^ n) \<lparr>past = [ACTION (CONNECT 0 0 1 0)], future = [], document = {(0, 0, 1, 0)}\<rparr>) = [] \<and>
     document ((canvas_undo_undo cord_methods ^^ n) \<lparr>past = [ACTION (CONNECT 0 0 1 0)], future = [], document = {(0, 0, 1, 0)}\<rparr>) = {} \<and>
     future ((canvas_undo_undo cord_methods ^^ n) \<lparr>past = [ACTION (CONNECT 0 0 1 0)], future = [], document = {(0, 0, 1, 0)}\<rparr>) =
       [ACTION (CONNECT 0 0 1 0)]"
  using undo_reaches_start [of "\<lparr>past = [ACTION (CONNECT 0 0 1 0)], future = [], document = {(0, 0, 1, 0)}\<rparr>" cord_methods "{}"]
  by (simp add: consistent_def cord_methods_def canvas_undo_doit_def)

text \<open>Redoing a sequence that was never closed performs its last action twice: the loop stops
  on it for want of a next node, and the call after the loop, meant for the end marker, redoes it.\<close>

theorem redo_open_sequence:
  assumes "future st = SEQUENCE_START # map ACTION as @ [ACTION a]"
  shows "document (canvas_undo_redo M st) = redo_fn M a (redo_fn M a (fold (redo_fn M) as (document st)))"
proof -
  have w: "\<exists>q. redo_walk M 1 u p (map ACTION as @ [ACTION a]) d = (ACTION a, q, [], redo_fn M a (fold (redo_fn M) as d))" for u p d
    by (induction as arbitrary: u p d) (auto simp: canvas_undo_doit_def)
  from w [of SEQUENCE_START "past st" "document st"] assms show ?thesis
    by (auto simp: canvas_undo_redo_def canvas_undo_doit_def)
qed

theorem redo_open_sequence_witness:
  "document (canvas_undo_redo \<lparr>undo_fn = (\<lambda>a d. d - a), redo_fn = (\<lambda>a d. d + (a :: int))\<rparr>
     \<lparr>past = [], future = [SEQUENCE_START, ACTION 5], document = 0\<rparr>) = 10"
  using redo_open_sequence [of "\<lparr>past = [], future = [SEQUENCE_START, ACTION 5], document = 0\<rparr>" "[]" 5
    "\<lparr>undo_fn = (\<lambda>a d. d - a), redo_fn = (\<lambda>a d. d + (a :: int))\<rparr>"] by simp

end
