(* ===== verification/Clock.thy ===== *)
theory Clock
  imports CFloat
begin

text \<open>
  The scheduler, \<open>src/pd/src/m_sched.c\<close>: clocks set on the list \<open>pd_clock_setlist\<close> ordered by time,
  the tick that calls those that are due, and the records the audio loop keeps. Times are doubles:
  the finite rational they are, with the results of double arithmetic rounded by \<open>rd\<close> and those
  stored in a \<open>t_float\<close> by \<open>rs\<close> (overflow to infinity is not modelled). A clock is a number; the
  linked list through \<open>c_next\<close> is a list of them.
\<close>

definition rd :: "rat \<Rightarrow> rat" where
  "rd x = (if x < 0 then - fround 53 (-1074) (- x) else fround 53 (-1074) x)"

definition rs :: "rat \<Rightarrow> rat" where
  "rs x = (if x < 0 then - fround 24 (-149) (- x) else fround 24 (-149) x)"

definition TIMEUNITPERMSEC :: rat where "TIMEUNITPERMSEC = 32 * 441"
definition TIMEUNITPERSECOND :: rat where "TIMEUNITPERSECOND = 32 * 441 * 1000"

record clock =
  c_settime :: rat
  c_unit :: rat

record sched =
  clocks :: "nat \<Rightarrow> clock"
  setlist :: "nat list"
  systime :: rat
  dacsr :: rat

definition clock_new :: clock where
  "clock_new = \<lparr>c_settime = -1, c_unit = TIMEUNITPERMSEC\<rparr>"

definition settime :: "sched \<Rightarrow> nat \<Rightarrow> rat" where
  "settime s x = c_settime (clocks s x)"

definition put_settime :: "nat \<Rightarrow> rat \<Rightarrow> sched \<Rightarrow> sched" where
  "put_settime x t s = s\<lparr>clocks := (clocks s)(x := (clocks s x)\<lparr>c_settime := t\<rparr>)\<rparr>"

section \<open>Setting and unsetting\<close>

text \<open>\<open>None\<close>: the search for the clock before \<open>x\<close> runs off the end of the list.\<close>

fun unlink :: "nat \<Rightarrow> nat list \<Rightarrow> nat list option" where
  "unlink x [] = None"
| "unlink x (y # ys) = (if x = y then Some ys else map_option ((#) y) (unlink x ys))"

definition clock_unset :: "nat \<Rightarrow> sched \<Rightarrow> sched option" where
  "clock_unset x s =
     (if 0 \<le> settime s x then
        map_option (\<lambda>l. put_settime x (-1) (s\<lparr>setlist := l\<rparr>)) (unlink x (setlist s))
      else Some s)"

text \<open>
  The loop of \<open>clock_set\<close> over \<open>cbefore\<close> (the head) and \<open>cafter\<close>: the new clock goes behind those
  due at the same time.
\<close>

fun insert_after :: "(nat \<Rightarrow> rat) \<Rightarrow> rat \<Rightarrow> nat \<Rightarrow> nat list \<Rightarrow> nat list" where
  "insert_after tm t x [] = []"
| "insert_after tm t x [b] = [b, x]"
| "insert_after tm t x (b # a # r) =
     (if tm a > t then b # x # a # r else b # insert_after tm t x (a # r))"

definition clock_set :: "nat \<Rightarrow> rat \<Rightarrow> sched \<Rightarrow> sched option" where
  "clock_set x setticks s =
     (let t = (if setticks < systime s then systime s else setticks) in
      map_option
        (\<lambda>s1. let s2 = put_settime x t s1 in
               case setlist s2 of
                 [] \<Rightarrow> s2\<lparr>setlist := [x]\<rparr>
               | h # r \<Rightarrow> s2\<lparr>setlist :=
                   (if settime s2 h \<le> t then insert_after (settime s2) t x (h # r) else x # h # r)\<rparr>)
        (clock_unset x s))"

definition clock_delay :: "nat \<Rightarrow> rat \<Rightarrow> sched \<Rightarrow> sched option" where
  "clock_delay x delaytime s =
     (let u = c_unit (clocks s x) in
      clock_set x
        (if u > 0 then rd (systime s + rd (u * delaytime))
         else rd (systime s - rd (rd (u * rd (TIMEUNITPERSECOND / dacsr s)) * delaytime))) s)"

definition clock_setunit :: "nat \<Rightarrow> rat \<Rightarrow> bool \<Rightarrow> sched \<Rightarrow> sched option" where
  "clock_setunit x timeunit sampflag s =
     (let timeunit = (if timeunit \<le> 0 then 1 else timeunit);
          u = c_unit (clocks s x) in
      if (if sampflag then timeunit = - u else timeunit = rd (u * TIMEUNITPERMSEC)) then Some s
      else
        let timeleft = (if settime s x < 0 then -1
                        else rd (rd (settime s x - systime s) /
                             (if u > 0 then u else rd (u * rd (TIMEUNITPERSECOND / dacsr s)))));
            u' = (if sampflag then rs (- timeunit) else rs (rd (timeunit * TIMEUNITPERMSEC)));
            s' = s\<lparr>clocks := (clocks s)(x := (clocks s x)\<lparr>c_unit := u'\<rparr>)\<rparr> in
        if 0 \<le> timeleft then clock_delay x timeleft s' else Some s')"

definition clock_getlogicaltime :: "sched \<Rightarrow> rat" where
  "clock_getlogicaltime s = systime s"

definition clock_gettimesince :: "rat \<Rightarrow> sched \<Rightarrow> rat" where
  "clock_gettimesince prev s = rd (rd (systime s - prev) / TIMEUNITPERMSEC)"

definition clock_gettimesincewithunits :: "rat \<Rightarrow> rat \<Rightarrow> bool \<Rightarrow> sched \<Rightarrow> rat" where
  "clock_gettimesincewithunits prev units sampflag s =
     (if sampflag then rd (rd (systime s - prev) / rd (rd (TIMEUNITPERSECOND / dacsr s) * units))
      else rd (rd (systime s - prev) / rd (TIMEUNITPERMSEC * units)))"

definition clock_getsystimeafter :: "rat \<Rightarrow> sched \<Rightarrow> rat" where
  "clock_getsystimeafter delaytime s = rd (systime s + rd (TIMEUNITPERMSEC * delaytime))"

section \<open>The tick\<close>

text \<open>
  What a clock's method does to the scheduler: a sequence of settings of clocks. The method may
  depend on the time; the calls it makes elsewhere are not part of the scheduler.
\<close>

datatype clock_op = Set nat rat | Unset nat | Delay nat rat | Setunit nat rat bool

fun exec_op :: "clock_op \<Rightarrow> sched \<Rightarrow> sched option" where
  "exec_op (Set x t) s = clock_set x t s"
| "exec_op (Unset x) s = clock_unset x s"
| "exec_op (Delay x d) s = clock_delay x d s"
| "exec_op (Setunit x u b) s = clock_setunit x u b s"

fun clock_ops :: "clock_op list \<Rightarrow> sched \<Rightarrow> sched option" where
  "clock_ops [] s = Some s"
| "clock_ops (a # as) s = Option.bind (exec_op a s) (clock_ops as)"

text \<open>
  The loop of \<open>sched_tick\<close>, with the calls it made, in order, as \<open>fired\<close>: it need not end, when
  methods keep setting clocks for the same tick. A quit request and the polling of the GUI every
  5001 calls are left out.
\<close>

partial_function (option) tick_loop ::
  "(nat \<Rightarrow> rat \<Rightarrow> clock_op list) \<Rightarrow> rat \<Rightarrow> sched \<Rightarrow> (nat \<times> rat) list \<Rightarrow> (sched \<times> (nat \<times> rat) list) option" where
  "tick_loop fn nexttime s fired =
     (case setlist s of
        [] \<Rightarrow> Some (s, fired)
      | c # _ \<Rightarrow>
          if settime s c < nexttime then
            Option.bind (clock_unset c (s\<lparr>systime := settime s c\<rparr>))
              (\<lambda>s1. Option.bind (clock_ops (fn c (settime s c)) s1)
                (\<lambda>s2. tick_loop fn nexttime s2 (fired @ [(c, settime s c)])))
          else Some (s, fired))"

definition next_systime :: "nat \<Rightarrow> sched \<Rightarrow> rat" where
  "next_systime blocksize s = rd (systime s + rd (rs (of_nat blocksize / dacsr s) * TIMEUNITPERSECOND))"

definition sched_tick ::
  "(nat \<Rightarrow> rat \<Rightarrow> clock_op list) \<Rightarrow> nat \<Rightarrow> sched \<Rightarrow> (sched \<times> (nat \<times> rat) list) option" where
  "sched_tick fn blocksize s =
     map_option (\<lambda>(s', fired). (s'\<lparr>systime := next_systime blocksize s\<rparr>, fired))
       (tick_loop fn (next_systime blocksize s) s [])"

section \<open>Audio errors and the histogram\<close>

abbreviation NRESYNC :: nat where "NRESYNC \<equiv> 20"

record resync =
  ring :: "(int \<times> int) list"
  resyncphase :: nat
  nresync :: nat

text \<open>\<open>sys_log_error\<close>: the ring of the last errors, each with the tick it happened in.\<close>

definition sys_log_error :: "int \<Rightarrow> int \<Rightarrow> resync \<Rightarrow> resync" where
  "sys_log_error diddsp type r =
     r\<lparr>ring := (ring r)[resyncphase r := (diddsp, type)],
       nresync := Suc (nresync r),
       resyncphase := (if Suc (resyncphase r) = NRESYNC then 0 else Suc (resyncphase r))\<rparr>"

text \<open>The entries \<open>glob_audiostatus\<close> posts, latest first; an unknown type is shown as 0.\<close>

fun audiostatus_loop :: "nat \<Rightarrow> int \<Rightarrow> (int \<times> int) list \<Rightarrow> (int \<times> int) list" where
  "audiostatus_loop 0 phase rg = []"
| "audiostatus_loop (Suc n) phase rg =
     (let phase = (if phase < 0 then phase + int NRESYNC else phase);
          (tick, err) = rg ! nat phase in
      (tick, if err < 0 \<or> err > 4 then 0 else err) # audiostatus_loop n (phase - 1) rg)"

definition glob_audiostatus :: "resync \<Rightarrow> (int \<times> int) list" where
  "glob_audiostatus r =
     audiostatus_loop (if nresync r \<ge> NRESYNC then NRESYNC else nresync r) (int (resyncphase r) - 1) (ring r)"

definition sys_bin :: "int list" where "sys_bin = [0, 2, 5, 10, 20, 30, 50, 100, 1000]"

text \<open>The bin \<open>sys_addhist\<close> counts a duration in (milliseconds, truncated): the highest it reaches.\<close>

fun addhist_loop :: "nat \<Rightarrow> int \<Rightarrow> nat option" where
  "addhist_loop 0 msec = None"
| "addhist_loop (Suc j) msec = (if msec \<ge> sys_bin ! j then Some j else addhist_loop j msec)"

definition sys_addhist_bin :: "int \<Rightarrow> nat option" where
  "sys_addhist_bin msec = addhist_loop 9 msec"

section \<open>Rounding keeps the sign\<close>

lemma rhe_nonneg: "0 \<le> x \<Longrightarrow> 0 \<le> rhe x"
  by (auto simp: rhe_def Let_def)

lemma fround_nonneg: "0 \<le> x \<Longrightarrow> 0 \<le> fround p e x"
proof -
  assume "0 \<le> x"
  moreover have "0 \<le> pow 2 k" for k by (simp add: pow_def)
  ultimately show ?thesis
    by (auto simp: fround_def Let_def intro!: mult_nonneg_nonneg rhe_nonneg divide_nonneg_nonneg)
qed

lemma rd_nonneg: "0 \<le> x \<Longrightarrow> 0 \<le> rd x"
  by (simp add: rd_def fround_nonneg)

lemma rd_nonpos: "x \<le> 0 \<Longrightarrow> rd x \<le> 0"
  using fround_nonneg [of "- x" 53 "-1074"] by (cases "x = 0") (simp_all add: rd_def, simp add: fround_def)

section \<open>The list of set clocks\<close>

text \<open>The list holds exactly the clocks that are set, once each, in the order of their times.\<close>

definition clock_inv :: "sched \<Rightarrow> bool" where
  "clock_inv s \<longleftrightarrow> distinct (setlist s) \<and> (\<forall>x. x \<in> set (setlist s) \<longleftrightarrow> 0 \<le> settime s x) \<and>
     sorted (map (settime s) (setlist s)) \<and> (\<forall>x \<in> set (setlist s). systime s \<le> settime s x) \<and> 0 \<le> systime s"

lemma put_settime_simps [simp]:
  "settime (put_settime x t s) = (settime s)(x := t)" "setlist (put_settime x t s) = setlist s"
  "systime (put_settime x t s) = systime s" "dacsr (put_settime x t s) = dacsr s"
  by (auto simp: put_settime_def settime_def fun_eq_iff)

lemma settime_update [simp]: "settime (s\<lparr>setlist := l\<rparr>) = settime s" "settime (s\<lparr>systime := t\<rparr>) = settime s"
  by (auto simp: settime_def fun_eq_iff)

lemma unlink_remove1: "x \<in> set l \<Longrightarrow> unlink x l = Some (remove1 x l)"
  by (induction l) auto

lemma sorted_remove1_map: "sorted (map f l) \<Longrightarrow> sorted (map f (remove1 x l))"
  by (induction l) (auto dest: set_remove1_subset [THEN subsetD])

lemma map_upd_notin: "x \<notin> set l \<Longrightarrow> map (f(x := t)) l = map f l"
  by simp

lemma clock_unset_spec:
  assumes "clock_inv s"
  shows "\<exists>s'. clock_unset x s = Some s' \<and> clock_inv s' \<and> setlist s' = remove1 x (setlist s) \<and> systime s' = systime s \<and>
    settime s' = (if 0 \<le> settime s x then (settime s)(x := -1) else settime s)"
proof (cases "0 \<le> settime s x")
  case True
  then have x: "x \<in> set (setlist s)" using assms by (simp add: clock_inv_def)
  have nx: "x \<notin> set (remove1 x (setlist s))" using assms by (simp add: clock_inv_def)
  have "sorted (map ((settime s)(x := -1)) (remove1 x (setlist s)))"
    unfolding map_upd_notin [OF nx] using assms by (simp add: clock_inv_def sorted_remove1_map)
  with True x assms show ?thesis
    by (auto simp: clock_unset_def unlink_remove1 clock_inv_def set_remove1_eq)
next
  case False
  then have "x \<notin> set (setlist s)" using assms by (simp add: clock_inv_def)
  with False assms show ?thesis by (auto simp: clock_unset_def remove1_idem)
qed

lemma filter_all_gt: "\<forall>y\<in>set l. t < tm y \<Longrightarrow> [y\<leftarrow>l. tm y \<le> t] = [] \<and> [y\<leftarrow>l. t < tm y] = l"
  for t :: "'a::linorder"
  by (induction l) auto

lemma insert_after_filter:
  "sorted (map tm l) \<Longrightarrow> l \<noteq> [] \<Longrightarrow> tm (hd l) \<le> t \<Longrightarrow>
    insert_after tm t x l = [y\<leftarrow>l. tm y \<le> t] @ x # [y\<leftarrow>l. t < tm y]"
proof (induction tm t x l rule: insert_after.induct)
  case (3 tm t x b a r)
  show ?case
  proof (cases "tm a > t")
    case True
    with 3 have "\<forall>y\<in>set (a # r). t < tm y" by auto
    note f = filter_all_gt [OF this]
    have "insert_after tm t x (b # a # r) = b # x # a # r" using True by simp
    also have "\<dots> = [y\<leftarrow>b # a # r. tm y \<le> t] @ x # [y\<leftarrow>b # a # r. t < tm y]"
      using f 3(4) by (simp only: filter.simps) auto
    finally show ?thesis .
  qed (use 3 in auto)
qed auto

lemma sorted_insert:
  assumes "sorted (map tm l)" "x \<notin> set l"
  shows "sorted (map (tm(x := t)) ([y\<leftarrow>l. tm y \<le> t] @ x # [y\<leftarrow>l. t < tm y]))"
proof -
  have m: "map (tm(x := t)) [y\<leftarrow>l. P y] = map tm [y\<leftarrow>l. P y]" for P using assms(2) by simp
  show ?thesis using assms(1)
    by (auto simp: m sorted_append sorted_filter intro: order.trans less_imp_le)
qed

definition with_clock :: "nat list \<Rightarrow> (nat \<Rightarrow> rat) \<Rightarrow> nat \<Rightarrow> rat \<Rightarrow> nat list" where
  "with_clock l tm x t = (let r = remove1 x l in [y\<leftarrow>r. tm y \<le> t] @ x # [y\<leftarrow>r. t < tm y])"

lemma clock_set_spec:
  assumes "clock_inv s"
  shows "\<exists>s'. clock_set x t s = Some s' \<and> clock_inv s' \<and> systime s' = systime s \<and>
    settime s' = (settime s)(x := max t (systime s)) \<and>
    setlist s' = with_clock (setlist s) (settime s) x (max t (systime s))"
proof -
  define t' where "t' = max t (systime s)"
  define r where "r = remove1 x (setlist s)"
  obtain s1 where s1: "clock_unset x s = Some s1" "setlist s1 = r" "systime s1 = systime s" "clock_inv s1"
    "settime s1 = (if 0 \<le> settime s x then (settime s)(x := -1) else settime s)"
    using clock_unset_spec [OF assms, of x] by (auto simp: r_def)
  have nx: "x \<notin> set r" using assms by (simp add: r_def clock_inv_def)
  define s2 where "s2 = put_settime x t' s1"
  have s2: "setlist s2 = r" "settime s2 = (settime s)(x := t')" "systime s2 = systime s"
    using s1 by (auto simp: s2_def)
  have sr: "sorted (map (settime s) r)" using assms by (simp add: r_def clock_inv_def sorted_remove1_map)
  have sr2: "sorted (map (settime s2) r)" unfolding s2(2) using sr nx by simp
  have fl: "[y\<leftarrow>r. P (settime s2 y)] = [y\<leftarrow>r. P (settime s y)]" for P
    using nx by (intro filter_cong) (auto simp: s2(2))
  define l where "l = (case r of [] \<Rightarrow> [x] | h # r' \<Rightarrow>
      (if settime s2 h \<le> t' then insert_after (settime s2) t' x (h # r') else x # h # r'))"
  have l: "l = [y\<leftarrow>r. settime s y \<le> t'] @ x # [y\<leftarrow>r. t' < settime s y]"
  proof (cases r)
    case (Cons h r')
    show ?thesis
    proof (cases "settime s2 h \<le> t'")
      case True
      have "insert_after (settime s2) t' x r = [y\<leftarrow>r. settime s2 y \<le> t'] @ x # [y\<leftarrow>r. t' < settime s2 y]"
        by (rule insert_after_filter [OF sr2]) (use True Cons in auto)
      with True show ?thesis
        using fl [of "\<lambda>v. v \<le> t'"] fl [of "\<lambda>v. t' < v"] by (simp add: l_def Cons)
    next
      case False
      have "settime s2 y = settime s y" if "y \<in> set r" for y using nx that by (auto simp: s2(2))
      moreover have "settime s2 h \<le> settime s2 y" if "y \<in> set r" for y
        using sr2 that unfolding Cons by auto
      ultimately have "\<forall>y\<in>set r. t' < settime s y" using False by (metis less_le_trans not_le)
      from filter_all_gt [OF this] False show ?thesis by (simp add: l_def Cons)
    qed
  qed (simp add: l_def)
  define s' where "s' = s2\<lparr>setlist := l\<rparr>"
  have cs: "clock_set x t s = Some s'"
    using s1(1) s2(1) by (auto simp: clock_set_def Let_def s'_def l_def s2_def t'_def max_def split: list.splits)
  have "sorted (map (settime s') (setlist s'))"
    using sorted_insert [OF sr nx, of t'] unfolding s'_def l by (simp add: s2(2))
  moreover have "set l = insert x (set r)" unfolding l by auto
  moreover have "distinct l" unfolding l using assms nx by (auto simp: r_def clock_inv_def)
  ultimately have "clock_inv s'" using assms
    by (auto simp: clock_inv_def s'_def s2 r_def t'_def le_max_iff_disj)
  with cs l show ?thesis by (auto simp: s'_def s2 with_clock_def Let_def t'_def r_def)
qed

lemma clock_delay_inv: "clock_inv s \<Longrightarrow> \<exists>s'. clock_delay x d s = Some s' \<and> clock_inv s' \<and> systime s' = systime s"
  using clock_set_spec [of s x] by (fastforce simp: clock_delay_def Let_def)

lemma clock_inv_unit: "clock_inv (s\<lparr>clocks := (clocks s)(x := (clocks s x)\<lparr>c_unit := u\<rparr>)\<rparr>) = clock_inv s"
proof -
  have "settime (s\<lparr>clocks := (clocks s)(x := (clocks s x)\<lparr>c_unit := u\<rparr>)\<rparr>) = settime s"
    by (auto simp: settime_def fun_eq_iff)
  then show ?thesis by (simp add: clock_inv_def)
qed

lemma clock_setunit_inv: "clock_inv s \<Longrightarrow> \<exists>s'. clock_setunit x u b s = Some s' \<and> clock_inv s' \<and> systime s' = systime s"
  using clock_delay_inv [of "s\<lparr>clocks := (clocks s)(x := (clocks s x)\<lparr>c_unit := v\<rparr>)\<rparr>" x for v]
  by (auto simp: clock_setunit_def Let_def clock_inv_unit)

lemma exec_op_inv: "clock_inv s \<Longrightarrow> \<exists>s'. exec_op a s = Some s' \<and> clock_inv s' \<and> systime s' = systime s"
  using clock_set_spec [of s] clock_unset_spec [of s] clock_delay_inv [of s] clock_setunit_inv [of s]
  by (cases a) fastforce+

lemma clock_ops_inv: "clock_inv s \<Longrightarrow> \<exists>s'. clock_ops as s = Some s' \<and> clock_inv s' \<and> systime s' = systime s"
proof (induction as arbitrary: s)
  case (Cons a as)
  from exec_op_inv [OF Cons.prems, of a] obtain s1 where s1: "exec_op a s = Some s1" "clock_inv s1" "systime s1 = systime s" by blast
  from Cons.IH [OF s1(2)] s1 show ?case by auto
qed simp

text \<open>A due clock is taken off the list and the time moves to its time.\<close>

lemma fire_inv:
  assumes "clock_inv s" "setlist s = c # r"
  shows "\<exists>s1. clock_unset c (s\<lparr>systime := settime s c\<rparr>) = Some s1 \<and> clock_inv s1 \<and> systime s1 = settime s c \<and>
    setlist s1 = r \<and> settime s1 = (settime s)(c := -1) \<and> systime s \<le> settime s c"
proof -
  have "clock_inv (s\<lparr>systime := settime s c\<rparr>)"
    using assms by (auto simp: clock_inv_def)
  moreover have "0 \<le> settime s c" "systime s \<le> settime s c" using assms by (auto simp: clock_inv_def)
  ultimately show ?thesis using clock_unset_spec [of "s\<lparr>systime := settime s c\<rparr>" c] assms(2) by auto
qed

lemma rs_nonneg: "0 \<le> x \<Longrightarrow> 0 \<le> rs x"
  by (simp add: rs_def fround_nonneg)

section \<open>The interface of a timer queue\<close>

text \<open>
  What objects rely on when they set clocks: a request never fails, the pending list stays ordered
  by time, and clocks set for the same time are called in the order they were set.
\<close>

locale timer_queue =
  fixes ins :: "nat \<Rightarrow> rat \<Rightarrow> 's \<Rightarrow> 's option"
    and del :: "nat \<Rightarrow> 's \<Rightarrow> 's option"
    and pending :: "'s \<Rightarrow> (nat \<times> rat) list"
    and clk_now :: "'s \<Rightarrow> rat"
    and ok :: "'s \<Rightarrow> bool"
  assumes ins_ok: "ok s \<Longrightarrow> \<exists>s'. ins x t s = Some s' \<and> ok s' \<and> clk_now s' = clk_now s \<and>
      (let r = filter (\<lambda>p. fst p \<noteq> x) (pending s); t' = max t (clk_now s) in
       pending s' = filter (\<lambda>p. snd p \<le> t') r @ (x, t') # filter (\<lambda>p. t' < snd p) r)"
    and del_ok: "ok s \<Longrightarrow> \<exists>s'. del x s = Some s' \<and> ok s' \<and> clk_now s' = clk_now s \<and>
      pending s' = filter (\<lambda>p. fst p \<noteq> x) (pending s)"
    and pending_sorted: "ok s \<Longrightarrow> sorted (map snd (pending s))"
begin

lemma same_time_order:
  assumes "ok s" "x \<noteq> y"
  shows "\<exists>s1 s2 us vs ws. ins x t s = Some s1 \<and> ins y t s1 = Some s2 \<and> ok s2 \<and>
    pending s2 = us @ (x, max t (clk_now s)) # vs @ (y, max t (clk_now s)) # ws \<and> (\<forall>p\<in>set ws. max t (clk_now s) < snd p)"
proof -
  define m where "m = max t (clk_now s)"
  define r where "r = filter (\<lambda>p. fst p \<noteq> x) (pending s)"
  obtain s1 where s1: "ins x t s = Some s1" "ok s1" "clk_now s1 = clk_now s"
    "pending s1 = filter (\<lambda>p. snd p \<le> m) r @ (x, m) # filter (\<lambda>p. m < snd p) r"
    using ins_ok [OF assms(1), of x t] by (auto simp: Let_def m_def r_def)
  define q where "q = filter (\<lambda>p. fst p \<noteq> y) (pending s1)"
  obtain s2 where s2: "ins y t s1 = Some s2" "ok s2"
    "pending s2 = filter (\<lambda>p. snd p \<le> m) q @ (y, m) # filter (\<lambda>p. m < snd p) q"
    using ins_ok [OF s1(2), of y t] s1(3) by (auto simp: Let_def m_def q_def)
  have "q = filter (\<lambda>p. fst p \<noteq> y) (filter (\<lambda>p. snd p \<le> m) r) @ (x, m) # filter (\<lambda>p. fst p \<noteq> y) (filter (\<lambda>p. m < snd p) r)"
    using assms(2) by (simp add: q_def s1(4))
  then obtain us vs where "filter (\<lambda>p. snd p \<le> m) q = us @ (x, m) # vs" by auto
  with s1(1) s2 show ?thesis unfolding m_def [symmetric]
    by (intro exI [of _ s1] exI [of _ s2] exI [of _ us] exI [of _ vs] exI [of _ "filter (\<lambda>p. m < snd p) q"]) auto
qed

end

definition pending_clocks :: "sched \<Rightarrow> (nat \<times> rat) list" where
  "pending_clocks s = map (\<lambda>x. (x, settime s x)) (setlist s)"

lemma pending_unset:
  assumes "clock_inv s"
  shows "filter (\<lambda>p. fst p \<noteq> x) (pending_clocks s) = map (\<lambda>y. (y, settime s y)) (remove1 x (setlist s))"
  using assms by (simp add: pending_clocks_def filter_map o_def clock_inv_def distinct_remove1_removeAll
      removeAll_filter_not_eq eq_commute [of x])

interpretation tq: timer_queue clock_set clock_unset pending_clocks systime clock_inv
proof
  fix s x t assume inv: "clock_inv s"
  define r where "r = remove1 x (setlist s)"
  have nx: "x \<notin> set r" using inv by (simp add: r_def clock_inv_def)
  obtain s' where s': "clock_set x t s = Some s'" "clock_inv s'" "systime s' = systime s"
    "settime s' = (settime s)(x := max t (systime s))"
    "setlist s' = with_clock (setlist s) (settime s) x (max t (systime s))"
    using clock_set_spec [OF inv, of x t] by blast
  have "map (\<lambda>y. (y, settime s' y)) [y\<leftarrow>r. P y] = map (\<lambda>y. (y, settime s y)) [y\<leftarrow>r. P y]" for P
    using nx by (auto simp: s'(4))
  then show "\<exists>s'. clock_set x t s = Some s' \<and> clock_inv s' \<and> systime s' = systime s \<and>
      (let r = filter (\<lambda>p. fst p \<noteq> x) (pending_clocks s); t' = max t (systime s) in
       pending_clocks s' = filter (\<lambda>p. snd p \<le> t') r @ (x, t') # filter (\<lambda>p. t' < snd p) r)"
    using s' unfolding pending_unset [OF inv] r_def [symmetric]
    by (auto simp: pending_clocks_def with_clock_def Let_def filter_map o_def r_def)
next
  fix s x assume inv: "clock_inv s"
  obtain s' where s': "clock_unset x s = Some s'" "clock_inv s'" "setlist s' = remove1 x (setlist s)" "systime s' = systime s"
    "settime s' = (if 0 \<le> settime s x then (settime s)(x := -1) else settime s)"
    using clock_unset_spec [OF inv, of x] by blast
  moreover have "x \<notin> set (remove1 x (setlist s))" using inv by (simp add: clock_inv_def)
  ultimately show "\<exists>s'. clock_unset x s = Some s' \<and> clock_inv s' \<and> systime s' = systime s \<and>
      pending_clocks s' = filter (\<lambda>p. fst p \<noteq> x) (pending_clocks s)"
    unfolding pending_unset [OF inv] by (auto simp: pending_clocks_def)
next
  fix s assume "clock_inv s"
  then show "sorted (map snd (pending_clocks s))" by (simp add: pending_clocks_def clock_inv_def o_def)
qed

section \<open>The calls of a tick\<close>

text \<open>The log of a tick in progress: times increase, none is due later than the time reached.\<close>

definition log_ok :: "rat \<Rightarrow> sched \<Rightarrow> (nat \<times> rat) list \<Rightarrow> bool" where
  "log_ok bnd s fired \<longleftrightarrow> sorted (map snd fired) \<and> (\<forall>f\<in>set fired. snd f \<le> systime s \<and> snd f < bnd)"

lemma tick_step:
  assumes "clock_inv s" "setlist s = c # r" "settime s c < bnd" "log_ok bnd s fired"
  shows "\<exists>s1 s2. clock_unset c (s\<lparr>systime := settime s c\<rparr>) = Some s1 \<and> setlist s1 = r \<and>
    settime s1 = (settime s)(c := -1) \<and> systime s1 = settime s c \<and> clock_inv s1 \<and>
    clock_ops as s1 = Some s2 \<and> clock_inv s2 \<and> systime s2 = settime s c \<and> systime s \<le> settime s c \<and>
    log_ok bnd s2 (fired @ [(c, settime s c)])"
proof -
  from fire_inv [OF assms(1,2)] obtain s1 where
    s1: "clock_unset c (s\<lparr>systime := settime s c\<rparr>) = Some s1" "clock_inv s1" "systime s1 = settime s c"
      "setlist s1 = r" "settime s1 = (settime s)(c := -1)" "systime s \<le> settime s c" by blast
  from clock_ops_inv [OF s1(2), of as] obtain s2 where
    s2: "clock_ops as s1 = Some s2" "clock_inv s2" "systime s2 = systime s1" by blast
  have "log_ok bnd s2 (fired @ [(c, settime s c)])"
    using assms(3,4) s1(3,6) s2(3) by (auto simp: log_ok_def sorted_append intro: order.trans)
  with s1 s2 show ?thesis by auto
qed

lemma tick_loop_spec:
  assumes "tick_loop fn bnd s fired = Some res" "clock_inv s" "log_ok bnd s fired"
  shows "clock_inv (fst res) \<and> log_ok bnd (fst res) (snd res) \<and> (\<exists>g. snd res = fired @ g) \<and>
    (\<forall>x\<in>set (setlist (fst res)). bnd \<le> settime (fst res) x) \<and> systime s \<le> systime (fst res)"
proof -
  have "clock_inv s \<longrightarrow> log_ok bnd s fired \<longrightarrow> clock_inv (fst res) \<and> log_ok bnd (fst res) (snd res) \<and>
      (\<exists>g. snd res = fired @ g) \<and> (\<forall>x\<in>set (setlist (fst res)). bnd \<le> settime (fst res) x) \<and> systime s \<le> systime (fst res)"
  proof (rule tick_loop.raw_induct [where P = "\<lambda>fn bnd s fired res. clock_inv s \<longrightarrow> log_ok bnd s fired \<longrightarrow>
      clock_inv (fst res) \<and> log_ok bnd (fst res) (snd res) \<and>
      (\<exists>g. snd res = fired @ g) \<and> (\<forall>x\<in>set (setlist (fst res)). bnd \<le> settime (fst res) x) \<and> systime s \<le> systime (fst res)",
      OF _ assms(1)])
    fix loop fn bnd s fired res
    assume IH: "\<And>fn bnd s fired res. loop fn bnd s fired = Some res \<Longrightarrow> clock_inv s \<longrightarrow> log_ok bnd s fired \<longrightarrow>
        clock_inv (fst res) \<and> log_ok bnd (fst res) (snd res) \<and>
        (\<exists>g. snd res = fired @ g) \<and> (\<forall>x\<in>set (setlist (fst res)). bnd \<le> settime (fst res) x) \<and> systime s \<le> systime (fst res)"
      and step: "(case setlist s of [] \<Rightarrow> Some (s, fired)
        | c # _ \<Rightarrow> if settime s c < bnd then
            Option.bind (clock_unset c (s\<lparr>systime := settime s c\<rparr>))
              (\<lambda>s1. Option.bind (clock_ops (fn c (settime s c)) s1)
                (\<lambda>s2. loop fn bnd s2 (fired @ [(c, settime s c)])))
          else Some (s, fired)) = Some res"
    show "clock_inv s \<longrightarrow> log_ok bnd s fired \<longrightarrow> clock_inv (fst res) \<and> log_ok bnd (fst res) (snd res) \<and>
        (\<exists>g. snd res = fired @ g) \<and> (\<forall>x\<in>set (setlist (fst res)). bnd \<le> settime (fst res) x) \<and> systime s \<le> systime (fst res)"
    proof (intro impI)
      assume inv: "clock_inv s" "log_ok bnd s fired"
      show "clock_inv (fst res) \<and> log_ok bnd (fst res) (snd res) \<and>
        (\<exists>g. snd res = fired @ g) \<and> (\<forall>x\<in>set (setlist (fst res)). bnd \<le> settime (fst res) x) \<and> systime s \<le> systime (fst res)"
      proof (cases "setlist s")
        case Nil
        with step inv show ?thesis by auto
      next
        case (Cons c r)
        show ?thesis
        proof (cases "settime s c < bnd")
          case True
          from tick_step [OF inv(1) Cons True inv(2), of "fn c (settime s c)"] obtain s1 s2 where
            s: "clock_unset c (s\<lparr>systime := settime s c\<rparr>) = Some s1" "clock_ops (fn c (settime s c)) s1 = Some s2"
              "clock_inv s2" "systime s2 = settime s c" "systime s \<le> settime s c" "log_ok bnd s2 (fired @ [(c, settime s c)])" by blast
          with step Cons True have "loop fn bnd s2 (fired @ [(c, settime s c)]) = Some res" by simp
          from IH [OF this] s show ?thesis by auto
        next
          case False
          then have "\<forall>x\<in>set (setlist s). bnd \<le> settime s x"
            using inv(1) Cons unfolding clock_inv_def by (auto intro: order.trans [of bnd "settime s c"])
          with False step Cons inv show ?thesis by auto
        qed
      qed
    qed
  qed
  with assms(2,3) show ?thesis by blast
qed

text \<open>
  A tick returns when the methods set clocks for later ticks only: every call takes one due clock
  off the list.
\<close>

fun later_op :: "rat \<Rightarrow> clock_op \<Rightarrow> bool" where
  "later_op bnd (Set x t) \<longleftrightarrow> bnd \<le> t"
| "later_op bnd (Unset x) \<longleftrightarrow> True"
| "later_op bnd _ \<longleftrightarrow> False"

definition due :: "rat \<Rightarrow> sched \<Rightarrow> nat list" where
  "due bnd s = [x\<leftarrow>setlist s. settime s x < bnd]"

lemma later_op_due:
  assumes "clock_inv s" "later_op bnd a" "exec_op a s = Some s'"
  shows "set (due bnd s') \<subseteq> set (due bnd s)"
proof (cases a)
  case (Set x t)
  with assms clock_set_spec [OF assms(1), of x t] show ?thesis
    by (auto simp: due_def with_clock_def Let_def dest: set_remove1_subset [THEN subsetD] split: if_splits)
next
  case (Unset x)
  with assms clock_unset_spec [OF assms(1), of x] show ?thesis
    by (auto simp: due_def clock_inv_def dest: set_remove1_subset [THEN subsetD] split: if_splits)
qed (use assms(2) in auto)

lemma later_ops_due:
  "clock_inv s \<Longrightarrow> list_all (later_op bnd) as \<Longrightarrow> clock_ops as s = Some s' \<Longrightarrow> set (due bnd s') \<subseteq> set (due bnd s)"
proof (induction as arbitrary: s)
  case (Cons a as)
  from exec_op_inv [OF Cons.prems(1), of a] obtain s1 where s1: "exec_op a s = Some s1" "clock_inv s1" by blast
  with Cons.IH [OF s1(2)] later_op_due [OF Cons.prems(1) _ s1(1), of bnd] Cons.prems show ?case by auto
qed simp

lemma tick_loop_returns:
  assumes "clock_inv s" "log_ok bnd s fired" "\<And>c t. t < bnd \<Longrightarrow> list_all (later_op bnd) (fn c t)"
  shows "\<exists>res. tick_loop fn bnd s fired = Some res"
  using assms(1,2)
proof (induction "card (set (due bnd s))" arbitrary: s fired rule: less_induct)
  case less
  show ?case
  proof (cases "setlist s")
    case Nil
    then show ?thesis by (subst tick_loop.simps) simp
  next
    case (Cons c r)
    show ?thesis
    proof (cases "settime s c < bnd")
      case True
      from tick_step [OF less.prems(1) Cons True less.prems(2), of "fn c (settime s c)"] obtain s1 s2 where
        s: "clock_unset c (s\<lparr>systime := settime s c\<rparr>) = Some s1" "setlist s1 = r" "settime s1 = (settime s)(c := -1)"
          "clock_inv s1" "clock_ops (fn c (settime s c)) s1 = Some s2" "clock_inv s2"
          "log_ok bnd s2 (fired @ [(c, settime s c)])" by blast
      have "c \<notin> set r" using less.prems(1) Cons by (simp add: clock_inv_def)
      then have "set (due bnd s1) \<subset> set (due bnd s)" using s(2,3) Cons True by (auto simp: due_def)
      with later_ops_due [OF s(4) assms(3) [OF True] s(5)] have "set (due bnd s2) \<subset> set (due bnd s)" by blast
      then have "card (set (due bnd s2)) < card (set (due bnd s))" by (intro psubset_card_mono) auto
      from less.hyps [OF this s(6,7)] s Cons True show ?thesis
        by (subst tick_loop.simps) simp
    next
      case False
      with Cons show ?thesis by (subst tick_loop.simps) simp
    qed
  qed
qed

section \<open>The ring of audio errors\<close>

definition no_errors :: resync where
  "no_errors = \<lparr>ring = replicate NRESYNC (0, 0), resyncphase = 0, nresync = 0\<rparr>"

definition log_errors :: "(int \<times> int) list \<Rightarrow> resync" where
  "log_errors es = fold (\<lambda>e. sys_log_error (fst e) (snd e)) es no_errors"

lemma log_errors_snoc: "log_errors (es @ [e]) = sys_log_error (fst e) (snd e) (log_errors es)"
  by (simp add: log_errors_def)

lemma mod_20_eq: "i < n \<Longrightarrow> n < i + 20 \<Longrightarrow> i mod 20 \<noteq> n mod (20 :: nat)"
proof
  assume i: "i < n" "n < i + 20" and "i mod 20 = n mod 20"
  then have "20 dvd n - i" using mod_eq_dvd_iff_nat [of i n 20] by simp
  with i dvd_imp_le [of 20 "n - i"] show False by simp
qed

lemma log_errors_ring:
  "length (ring (log_errors es)) = NRESYNC \<and> resyncphase (log_errors es) = length es mod NRESYNC \<and>
    nresync (log_errors es) = length es \<and>
    (\<forall>i. i < length es \<longrightarrow> length es \<le> i + NRESYNC \<longrightarrow> ring (log_errors es) ! (i mod NRESYNC) = es ! i)"
proof (induction es rule: rev_induct)
  case Nil
  then show ?case by (simp add: log_errors_def no_errors_def)
next
  case (snoc e es)
  have "ring (log_errors (es @ [e])) ! (i mod NRESYNC) = (es @ [e]) ! i"
    if "i < length (es @ [e])" "length (es @ [e]) \<le> i + NRESYNC" for i
  proof (cases "i = length es")
    case True
    with snoc show ?thesis by (simp add: log_errors_snoc sys_log_error_def)
  next
    case False
    then have "i < length es" "length es < i + 20" using that by auto
    with mod_20_eq [OF this] snoc show ?thesis
      by (simp add: log_errors_snoc sys_log_error_def nth_append)
  qed
  with snoc show ?case by (auto simp: log_errors_snoc sys_log_error_def mod_Suc)
qed

definition shown_error :: "int \<times> int \<Rightarrow> int \<times> int" where
  "shown_error e = (fst e, if snd e < 0 \<or> snd e > 4 then 0 else snd e)"

lemma audiostatus_loop_ring:
  "- 1 \<le> p \<Longrightarrow> p < 20 \<Longrightarrow> p mod 20 = (int m - 1) mod 20 \<Longrightarrow> n \<le> m \<Longrightarrow>
    audiostatus_loop n p rg = map (\<lambda>k. shown_error (rg ! ((m - 1 - k) mod NRESYNC))) [0..<n]"
proof (induction n arbitrary: p m)
  case (Suc n)
  define q where "q = (if p < 0 then p + 20 else p)"
  have "q mod 20 = p mod 20" by (simp add: q_def)
  with Suc.prems have q: "0 \<le> q" "q < 20" "q mod 20 = (int m - 1) mod 20" by (simp_all add: q_def)
  have im: "int m - 1 = int (m - 1)" using Suc.prems(4) by (simp add: of_nat_diff)
  then have "q mod 20 = int (m - 1) mod 20" using q(3) by metis
  moreover have "q mod 20 = q" using q by simp
  ultimately have "q = int ((m - 1) mod 20)" by (metis zmod_int of_nat_numeral)
  then have "nat q = (m - 1) mod 20" by simp
  moreover have "(q - 1) mod 20 = (int (m - 1) - 1) mod 20"
    using q(3) im by (metis mod_diff_left_eq)
  then have "audiostatus_loop n (q - 1) rg = map (\<lambda>k. shown_error (rg ! ((m - 1 - 1 - k) mod NRESYNC))) [0..<n]"
    using q Suc.prems(4) by (intro Suc.IH) auto
  moreover have "audiostatus_loop (Suc n) p rg = shown_error (rg ! nat q) # audiostatus_loop n (q - 1) rg"
    by (simp add: q_def Let_def split_beta shown_error_def)
  moreover have "[0..<Suc n] = 0 # map Suc [0..<n]" by (subst map_Suc_upt) (simp add: upt_conv_Cons del: upt_Suc)
  ultimately show ?case by (simp add: o_def del: upt_Suc audiostatus_loop.simps)
qed simp

section \<open>Properties\<close>


text \<open>C34: every request of an object, and every sequence of them, keeps the list of clocks ordered
  by time, free of repetitions, equal to the set of clocks that are set, and never in the past.\<close>

theorem clock_requests_inv:
  assumes "clock_inv s"
  shows "\<exists>s'. clock_ops as s = Some s' \<and> clock_inv s' \<and> systime s' = systime s"
  using assms by (rule clock_ops_inv)


text \<open>A tick returns when the methods of the clocks set clocks for later ticks only.\<close>

theorem sched_tick_returns:
  assumes "clock_inv s" "\<And>c t. t < next_systime blocksize s \<Longrightarrow> list_all (later_op (next_systime blocksize s)) (fn c t)"
  shows "\<exists>s' fired. sched_tick fn blocksize s = Some (s', fired)"
proof -
  have "log_ok (next_systime blocksize s) s []" by (simp add: log_ok_def)
  from tick_loop_returns [OF assms(1) this, of fn] assms(2) obtain s' fired where
    "tick_loop fn (next_systime blocksize s) s [] = Some (s', fired)" by auto
  then show ?thesis by (simp add: sched_tick_def)
qed

text \<open>Changing the unit of a clock that counts samples does not reschedule it, although it is
  set: the time left is divided by the negative unit and taken for unset.\<close>

theorem setunit_keeps_time:
  assumes "c_unit (clocks s x) < 0" "systime s \<le> settime s x" "0 \<le> settime s x" "0 < timeunit"
    and "if sampflag then timeunit \<noteq> - c_unit (clocks s x) else timeunit \<noteq> rd (c_unit (clocks s x) * TIMEUNITPERMSEC)"
    and "rd (rd (settime s x - systime s) / rd (c_unit (clocks s x) * rd (TIMEUNITPERSECOND / dacsr s))) \<noteq> 0"
    and "0 < dacsr s"
  shows "\<exists>s'. clock_setunit x timeunit sampflag s = Some s' \<and> settime s' x = settime s x \<and> setlist s' = setlist s"
proof -
  let ?u = "c_unit (clocks s x)"
  let ?d = "rd (?u * rd (TIMEUNITPERSECOND / dacsr s))"
  have "0 \<le> rd (TIMEUNITPERSECOND / dacsr s)" using assms(7) by (intro rd_nonneg) (simp add: TIMEUNITPERSECOND_def)
  then have "?u * rd (TIMEUNITPERSECOND / dacsr s) \<le> 0" using assms(1) by (simp add: mult_nonpos_nonneg)
  then have "?d \<le> 0" by (rule rd_nonpos)
  moreover have "0 \<le> rd (settime s x - systime s)" using assms(2) by (simp add: rd_nonneg)
  ultimately have "rd (settime s x - systime s) / ?d \<le> 0" by (simp add: divide_nonneg_nonpos)
  then have "rd (rd (settime s x - systime s) / ?d) \<le> 0" by (rule rd_nonpos)
  with assms(6) have "\<not> 0 \<le> rd (rd (settime s x - systime s) / ?d)" by simp
  with assms(1,3,4,5) show ?thesis by (auto simp: clock_setunit_def Let_def settime_def)
qed

text \<open>The audio error history shows the last errors logged, latest first, at most twenty.\<close>

theorem audiostatus_history:
  "glob_audiostatus (log_errors es) = map shown_error (take NRESYNC (rev es))"
proof -
  define n where "n = min (length es) NRESYNC"
  note r = log_errors_ring [of es]
  have p: "(int (length es mod 20) - 1) mod 20 = (int (length es) - 1) mod 20" by (simp add: zmod_int mod_diff_left_eq)
  have "glob_audiostatus (log_errors es) =
      audiostatus_loop n (int (length es mod 20) - 1) (ring (log_errors es))"
    using r by (auto simp: glob_audiostatus_def n_def)
  also have "\<dots> = map (\<lambda>k. shown_error (ring (log_errors es) ! ((length es - 1 - k) mod NRESYNC))) [0..<n]"
    using p by (intro audiostatus_loop_ring) (auto simp: n_def)
  also have "\<dots> = map (\<lambda>k. shown_error (rev es ! k)) [0..<n]"
  proof (rule map_cong [OF refl])
    fix k assume "k \<in> set [0..<n]"
    then have k: "k < length es" "k < 20" by (auto simp: n_def)
    then have "length es - 1 - k < length es" "length es \<le> length es - 1 - k + 20" by linarith+
    with r k show "shown_error (ring (log_errors es) ! ((length es - 1 - k) mod NRESYNC)) = shown_error (rev es ! k)"
      by (simp add: rev_nth)
  qed
  also have "\<dots> = map shown_error (take NRESYNC (rev es))"
    by (rule nth_equalityI) (auto simp: n_def min_def split: if_splits)
  finally show ?thesis .
qed

section \<open>Witnesses\<close>

text \<open>One clock, number 1, set for time 5, at time 0.\<close>

definition sched1 :: sched where
  "sched1 = \<lparr>clocks = (\<lambda>x. if x = 1 then clock_new\<lparr>c_settime := 5\<rparr> else clock_new), setlist = [1],
     systime = 0, dacsr = 44100\<rparr>"

lemma sched1_inv: "clock_inv sched1"
  by (auto simp: clock_inv_def sched1_def settime_def clock_new_def split: if_splits)

definition follow :: "nat \<Rightarrow> rat \<Rightarrow> clock_op list" where
  "follow c t = (if c = 1 then [Set 2 10, Set 3 30000000, Set 4 40000000] else [])"

lemma rd_nat: "n < 2 ^ 53 \<Longrightarrow> rd (of_nat n) = of_nat n"
  by (simp add: rd_def fround_nat)

lemma rs_nat: "n < 2 ^ 24 \<Longrightarrow> rs (of_nat n) = of_nat n"
  by (simp add: rs_def fround_nat)

lemma sched1_next: "next_systime 44100 sched1 = 14112000"
  using rd_nat [of 14112000] rs_nat [of 1] by (simp add: next_systime_def sched1_def TIMEUNITPERSECOND_def)

lemma sched1_tick: "map_option (\<lambda>(s', fired). (setlist s', fired)) (sched_tick follow 44100 sched1) = Some ([3, 4], [(1, 5), (2, 10)])"
  unfolding sched_tick_def sched1_next
  by (simp add: tick_loop.simps follow_def sched1_def settime_def clock_unset_def clock_set_def put_settime_def clock_new_def Let_def)

lemma sched1_tick_full: "sched_tick follow 44100 sched1 = Some (s', fired) \<Longrightarrow> setlist s' = [3, 4] \<and> fired = [(1, 5), (2, 10)]"
  using sched1_tick by simp


theorem clock_requests_inv_witness:
  "\<exists>s'. clock_ops [Set 2 1, Set 3 9, Unset 1, Delay 2 7, Setunit 3 4 True] sched1 = Some s' \<and> clock_inv s' \<and>
    systime s' = systime sched1"
  by (rule clock_requests_inv [OF sched1_inv])


theorem sched_tick_returns_witness:
  "\<exists>s' fired. sched_tick (\<lambda>c t. [Set c 14112000, Unset 2]) 44100 sched1 = Some (s', fired)"
  by (rule sched_tick_returns [OF sched1_inv]) (simp add: sched1_next)

text \<open>A clock of unit 4 samples, set for time 5; its unit is changed to 1 ms.\<close>

definition sched2 :: sched where
  "sched2 = sched1\<lparr>clocks := (clocks sched1)(1 := \<lparr>c_settime = 5 * 14112000, c_unit = -4\<rparr>), dacsr := 14112000\<rparr>"

lemma rd_sched2: "rd (-4000) = -4000" "rd 1000 = 1000" "rd 70560000 = 70560000" "rd (-17640) = -17640" "rd (-56448) = -56448"
  using fround_nat [of 4000 53 "-1074"] rd_nat [of 1000] rd_nat [of 70560000] fround_nat [of 17640 53 "-1074"] fround_nat [of 56448 53 "-1074"]
  by (simp_all add: rd_def)

theorem setunit_keeps_time_witness:
  "\<exists>s'. clock_setunit 1 1 False sched2 = Some s' \<and> settime s' 1 = settime sched2 1 \<and> setlist s' = setlist sched2"
proof (rule setunit_keeps_time)
  have [simp]: "rd 1 = 1" "rd (-4) = -4" using rd_nat [of 1] fround_nat [of 4 53 "-1074"] by (simp_all add: rd_def)
  show "if False then 1 \<noteq> - c_unit (clocks sched2 1) else 1 \<noteq> rd (c_unit (clocks sched2 1) * TIMEUNITPERMSEC)"
    by (simp add: sched2_def TIMEUNITPERMSEC_def rd_sched2)
  show "rd (rd (settime sched2 1 - systime sched2) / rd (c_unit (clocks sched2 1) * rd (TIMEUNITPERSECOND / dacsr sched2))) \<noteq> 0"
    using fround_nat [of 17640000 53 "-1074"] by (simp add: sched2_def settime_def sched1_def TIMEUNITPERSECOND_def rd_sched2, simp add: rd_def)
qed (simp_all add: sched2_def settime_def sched1_def)

end
