(* ===== verification/Time.thy ===== *)
theory Time
  imports Clock Atom
begin

text \<open>
  The objects that keep time, \<open>src/pd/src/x_time.c\<close>: delay, metro, line and timer, and the part of
  \<open>sched_tick\<close> that calls their clocks, now with the state the methods work on. Values stored in a
  \<open>t_float\<close> are rounded by \<open>rs\<close>, results of double arithmetic by \<open>rd\<close>. What an outlet leads to is a
  parameter, the state transformer \<open>out\<close>: it can send messages back to the object.
\<close>

section \<open>Clocks and the state they work on\<close>

definition clock_create :: "nat \<Rightarrow> sched \<Rightarrow> sched" where
  "clock_create x s = s\<lparr>clocks := (clocks s)(x := clock_new)\<rparr>"

definition clock_free :: "nat \<Rightarrow> sched \<Rightarrow> sched option" where
  "clock_free x s = clock_unset x s"

text \<open>The loop of \<open>sched_tick\<close>, where \<open>fn c\<close> is the method of clock \<open>c\<close> and \<open>w\<close> the state of its owner.\<close>

partial_function (option) run_clocks ::
  "(nat \<Rightarrow> 'w \<Rightarrow> sched \<Rightarrow> ('w \<times> sched) option) \<Rightarrow> rat \<Rightarrow> 'w \<Rightarrow> sched \<Rightarrow> ('w \<times> sched) option" where
  "run_clocks fn nexttime w s =
     (case setlist s of
        [] \<Rightarrow> Some (w, s)
      | c # _ \<Rightarrow>
          if settime s c < nexttime then
            Option.bind (clock_unset c (s\<lparr>systime := settime s c\<rparr>))
              (\<lambda>s1. Option.bind (fn c w s1) (\<lambda>(w', s2). run_clocks fn nexttime w' s2))
          else Some (w, s))"

text \<open>A tick moves the time on to its end; \<open>ticks n\<close> are \<open>n\<close> of them in a row.\<close>

definition tick_clocks ::
  "(nat \<Rightarrow> 'w \<Rightarrow> sched \<Rightarrow> ('w \<times> sched) option) \<Rightarrow> nat \<Rightarrow> 'w \<Rightarrow> sched \<Rightarrow> ('w \<times> sched) option" where
  "tick_clocks fn blocksize w s =
     map_option (\<lambda>(w', s'). (w', s'\<lparr>systime := next_systime blocksize s\<rparr>)) (run_clocks fn (next_systime blocksize s) w s)"

fun ticks ::
  "(nat \<Rightarrow> 'w \<Rightarrow> sched \<Rightarrow> ('w \<times> sched) option) \<Rightarrow> nat \<Rightarrow> nat \<Rightarrow> 'w \<Rightarrow> sched \<Rightarrow> ('w \<times> sched) option" where
  "ticks fn blocksize 0 w s = Some (w, s)"
| "ticks fn blocksize (Suc n) w s =
     Option.bind (tick_clocks fn blocksize w s) (\<lambda>(w', s'). ticks fn blocksize n w' s')"

section \<open>Time units\<close>

text \<open>The unit, whether it counts samples, and the error posted, if any.\<close>

definition parsetimeunits :: "rat \<Rightarrow> symbol \<Rightarrow> rat \<times> bool \<times> string option" where
  "parsetimeunits amount s =
     (let amount = (if amount \<le> 0 then 1 else amount);
          fail = (1, False, Some (if s \<noteq> [] then s @ '': unknown time unit''
            else ''tempo setting needs time unit ('sec', 'samp', 'permin', etc.'')) in
      if take 3 s = ''per'' then
        (let s2 = drop 3 s in
         if s2 = ''millisecond'' \<or> s2 = ''msec'' then (rs (rd (1 / amount)), False, None)
         else if take 3 s2 = ''sec'' then (rs (rd (1000 / amount)), False, None)
         else if take 3 s2 = ''min'' then (rs (rd (60000 / amount)), False, None)
         else if take 3 s2 = ''sam'' then (rs (rd (1 / amount)), True, None)
         else fail)
      else if s = ''millisecond'' \<or> s = ''msec'' then (amount, False, None)
      else if take 3 s = ''sec'' then (rs (rd (1000 * amount)), False, None)
      else if take 3 s = ''min'' then (rs (rd (60000 * amount)), False, None)
      else if take 3 s = ''sam'' then (amount, True, None)
      else fail)"

definition set_tempo :: "nat \<Rightarrow> symbol \<Rightarrow> rat \<Rightarrow> sched \<Rightarrow> sched option" where
  "set_tempo c unitname tempo s =
     (let (unit, samps, _) = parsetimeunits tempo unitname in clock_setunit c unit samps s)"

section \<open>delay\<close>

record delay =
  d_clock :: nat
  d_deltime :: rat

definition delay_ft1 :: "rat \<Rightarrow> delay \<Rightarrow> delay" where
  "delay_ft1 g x = x\<lparr>d_deltime := (if g < 0 then 0 else g)\<rparr>"

definition delay_bang :: "delay \<Rightarrow> sched \<Rightarrow> sched option" where
  "delay_bang x s = clock_delay (d_clock x) (d_deltime x) s"

definition delay_stop :: "delay \<Rightarrow> sched \<Rightarrow> sched option" where
  "delay_stop x s = clock_unset (d_clock x) s"

definition delay_float :: "rat \<Rightarrow> delay \<Rightarrow> sched \<Rightarrow> (delay \<times> sched) option" where
  "delay_float f x s = (let x' = delay_ft1 f x in map_option (Pair x') (delay_bang x' s))"

definition delay_tempo :: "symbol \<Rightarrow> rat \<Rightarrow> delay \<Rightarrow> sched \<Rightarrow> sched option" where
  "delay_tempo unitname tempo x s = set_tempo (d_clock x) unitname tempo s"

definition delay_new :: "nat \<Rightarrow> symbol \<Rightarrow> rat \<Rightarrow> rat \<Rightarrow> sched \<Rightarrow> (delay \<times> sched) option" where
  "delay_new c unitname f tempo s =
     (let x = delay_ft1 f \<lparr>d_clock = c, d_deltime = 0\<rparr>; s1 = clock_create c s in
      if tempo \<noteq> 0 then map_option (Pair x) (delay_tempo unitname tempo x s1) else Some (x, s1))"

definition delay_free :: "delay \<Rightarrow> sched \<Rightarrow> sched option" where
  "delay_free x s = clock_free (d_clock x) s"

text \<open>The clock's method sends a bang.\<close>

definition delay_tick :: "(delay \<times> sched \<Rightarrow> (delay \<times> sched) option) \<Rightarrow> delay \<times> sched \<Rightarrow> (delay \<times> sched) option" where
  "delay_tick out w = out w"

section \<open>metro\<close>

record metro =
  m_clock :: nat
  m_deltime :: rat
  x_hit :: bool

definition metro_ft1 :: "rat \<Rightarrow> metro \<Rightarrow> metro" where
  "metro_ft1 g x = x\<lparr>m_deltime := (if g \<le> 0 then 1 else g)\<rparr>"

definition metro_tick :: "(metro \<times> sched \<Rightarrow> (metro \<times> sched) option) \<Rightarrow> metro \<times> sched \<Rightarrow> (metro \<times> sched) option" where
  "metro_tick out w =
     Option.bind (out ((fst w)\<lparr>x_hit := False\<rparr>, snd w)) (\<lambda>(x, s).
       if \<not> x_hit x then map_option (Pair x) (clock_delay (m_clock x) (m_deltime x) s) else Some (x, s))"

definition metro_float ::
  "(metro \<times> sched \<Rightarrow> (metro \<times> sched) option) \<Rightarrow> rat \<Rightarrow> metro \<times> sched \<Rightarrow> (metro \<times> sched) option" where
  "metro_float out f w =
     map_option (\<lambda>(x, s). (x\<lparr>x_hit := True\<rparr>, s))
       (if f \<noteq> 0 then metro_tick out w else map_option (Pair (fst w)) (clock_unset (m_clock (fst w)) (snd w)))"

definition metro_bang :: "(metro \<times> sched \<Rightarrow> (metro \<times> sched) option) \<Rightarrow> metro \<times> sched \<Rightarrow> (metro \<times> sched) option" where
  "metro_bang out w = metro_float out 1 w"

definition metro_stop :: "metro \<times> sched \<Rightarrow> (metro \<times> sched) option" where
  "metro_stop w = metro_float (\<lambda>w. Some w) 0 w"

definition metro_tempo :: "symbol \<Rightarrow> rat \<Rightarrow> metro \<Rightarrow> sched \<Rightarrow> sched option" where
  "metro_tempo unitname tempo x s = set_tempo (m_clock x) unitname tempo s"

definition metro_new :: "nat \<Rightarrow> symbol \<Rightarrow> rat \<Rightarrow> rat \<Rightarrow> sched \<Rightarrow> (metro \<times> sched) option" where
  "metro_new c unitname f tempo s =
     (let x = metro_ft1 f \<lparr>m_clock = c, m_deltime = 0, x_hit = False\<rparr>; s1 = clock_create c s in
      if tempo \<noteq> 0 then map_option (Pair x) (metro_tempo unitname tempo x s1) else Some (x, s1))"

definition metro_free :: "metro \<Rightarrow> sched \<Rightarrow> sched option" where
  "metro_free x s = clock_free (m_clock x) s"

section \<open>line\<close>

definition DEFAULTLINEGRAIN :: rat where "DEFAULTLINEGRAIN = 20"

record line =
  l_clock :: nat
  x_targettime :: rat
  x_targetval :: rat
  x_prevtime :: rat
  x_setval :: rat
  x_gotinlet :: bool
  x_grain :: rat
  x_1overtimediff :: rat
  x_in1val :: rat

text \<open>The value on the ramp at time \<open>now\<close>, in double arithmetic but for the difference of the two floats.\<close>

definition ramp_val :: "line \<Rightarrow> rat \<Rightarrow> rat" where
  "ramp_val x now =
     rs (rd (x_setval x + rd (rd (x_1overtimediff x * rd (now - x_prevtime x)) * rs (x_targetval x - x_setval x))))"

definition use_grain :: "line \<Rightarrow> line" where
  "use_grain x = (if x_grain x \<le> 0 then x\<lparr>x_grain := DEFAULTLINEGRAIN\<rparr> else x)"

type_synonym 'e line_world = "'e \<times> line \<times> sched"

definition line_tick :: "(rat \<Rightarrow> 'e line_world \<Rightarrow> 'e line_world option) \<Rightarrow> 'e line_world \<Rightarrow> 'e line_world option" where
  "line_tick out w =
     (let (e, x, s) = w; timenow = clock_getlogicaltime s; msectogo = - clock_gettimesince (x_targettime x) s in
      if msectogo < rd (1 / 10 ^ 9) then out (x_targetval x) (e, x, s)
      else Option.bind (out (ramp_val x timenow) (e, x, s)) (\<lambda>(e, x, s).
        let x = use_grain x in
        map_option (\<lambda>s. (e, x, s)) (clock_delay (l_clock x) (if x_grain x > msectogo then msectogo else x_grain x) s)))"

text \<open>
  A ramp time below the resolution of the clock divides by zero: the infinity is not modelled, there
  is no result then.
\<close>

definition line_float ::
  "(rat \<Rightarrow> 'e line_world \<Rightarrow> 'e line_world option) \<Rightarrow> rat \<Rightarrow> 'e line_world \<Rightarrow> 'e line_world option" where
  "line_float out f w =
     (let (e, x, s) = w; timenow = clock_getlogicaltime s in
      map_option (\<lambda>(e, x, s). (e, x\<lparr>x_gotinlet := False\<rparr>, s))
        (if x_gotinlet x \<and> x_in1val x > 0 then
           (let x1 = x\<lparr>x_setval := (if timenow > x_targettime x then x_targetval x else ramp_val x timenow),
                       x_prevtime := timenow, x_targettime := clock_getsystimeafter (x_in1val x) s,
                       x_targetval := f\<rparr> in
            Option.bind (line_tick out (e, x1, s)) (\<lambda>(e, x, s).
              if rd (x_targettime x - timenow) = 0 then None else
              let x2 = use_grain (x\<lparr>x_gotinlet := False, x_1overtimediff := rd (1 / rd (x_targettime x - timenow))\<rparr>) in
              map_option (\<lambda>s. (e, x2, s))
                (clock_delay (l_clock x2) (if x_grain x2 > x_in1val x2 then x_in1val x2 else x_grain x2) s)))
         else
           Option.bind (clock_unset (l_clock x) s) (\<lambda>s. out f (e, x\<lparr>x_targetval := f, x_setval := f\<rparr>, s))))"

definition line_ft1 :: "rat \<Rightarrow> line \<Rightarrow> line" where
  "line_ft1 g x = x\<lparr>x_in1val := g, x_gotinlet := True\<rparr>"

definition line_stop :: "line \<Rightarrow> sched \<Rightarrow> (line \<times> sched) option" where
  "line_stop x s = map_option (Pair (x\<lparr>x_targetval := x_setval x\<rparr>)) (clock_unset (l_clock x) s)"

definition line_set :: "rat \<Rightarrow> line \<Rightarrow> sched \<Rightarrow> (line \<times> sched) option" where
  "line_set f x s = map_option (Pair (x\<lparr>x_targetval := f, x_setval := f\<rparr>)) (clock_unset (l_clock x) s)"

definition line_new :: "nat \<Rightarrow> rat \<Rightarrow> rat \<Rightarrow> sched \<Rightarrow> line \<times> sched" where
  "line_new c f grain s =
     (\<lparr>l_clock = c, x_targettime = systime s, x_targetval = f, x_prevtime = systime s, x_setval = f, x_gotinlet = False,
       x_grain = grain, x_1overtimediff = 1, x_in1val = 0\<rparr>, clock_create c s)"

definition line_free :: "line \<Rightarrow> sched \<Rightarrow> sched option" where
  "line_free x s = clock_free (l_clock x) s"

section \<open>timer\<close>

record timer =
  t_settime :: rat
  x_moreelapsed :: rat
  x_unit :: rat
  x_samps :: bool

definition timer_bang :: "sched \<Rightarrow> timer \<Rightarrow> timer" where
  "timer_bang s x = x\<lparr>t_settime := clock_getlogicaltime s, x_moreelapsed := 0\<rparr>"

text \<open>The float sent out by \<open>bang2\<close>.\<close>

definition timer_bang2 :: "sched \<Rightarrow> timer \<Rightarrow> rat" where
  "timer_bang2 s x =
     rs (rd (clock_gettimesincewithunits (t_settime x) (x_unit x) (x_samps x) s + x_moreelapsed x))"

definition timer_tempo :: "symbol \<Rightarrow> rat \<Rightarrow> sched \<Rightarrow> timer \<Rightarrow> timer" where
  "timer_tempo unitname tempo s x =
     (let (unit, samps, _) = parsetimeunits tempo unitname in
      x\<lparr>x_moreelapsed := rd (x_moreelapsed x + clock_gettimesincewithunits (t_settime x) (x_unit x) (x_samps x) s),
        t_settime := clock_getlogicaltime s, x_unit := unit, x_samps := samps\<rparr>)"

definition timer_new :: "symbol \<Rightarrow> rat \<Rightarrow> sched \<Rightarrow> timer" where
  "timer_new unitname tempo s =
     (let x = timer_bang s \<lparr>t_settime = 0, x_moreelapsed = 0, x_unit = 1, x_samps = False\<rparr> in
      if tempo \<noteq> 0 then timer_tempo unitname tempo s x else x)"

end
