(* ===== verification/Gpointer.thy ===== *)
theory Gpointer
  imports Atom
begin

text \<open>
  Safe pointers into the data of a patch, \<open>src/pd/src/g_traversal.c\<close>: a gpointer does not hold the
  address of its canvas or array but that of a stub, which counts the gpointers that refer to it
  and outlives its owner until the last of them is unset; the number \<open>gp_valid\<close> tells whether the
  owner's contents have changed since the gpointer was set. The memory is explicit: stubs, gpointers,
  canvases (glists), arrays and graphical objects are found by their addresses, and address 0 is the
  null pointer. What is freed is removed, and an operation that reads it has no result (\<open>None\<close>).
\<close>

section \<open>Stubs, gpointers and the memory\<close>

datatype gp_kind = GP_NONE | GP_GLIST | GP_ARRAY

record gstub =
  gs_un :: nat
  gs_which :: gp_kind
  gs_refcount :: int

record gpointer =
  gp_un :: nat
  gp_valid :: int
  gp_stub :: nat

text \<open>
  Of a graphical object only its class matters here: a scalar has the name of its template,
  anything else has none. A canvas keeps its objects in order, with the selected ones
  among them; an array knows its template.
\<close>

record gobj = sc_template :: "symbol option"

record glist =
  gl_stub :: nat
  gl_valid :: int
  gl_list :: "nat list"
  gl_selection :: "nat list"
  gl_visible :: bool

record garray =
  a_stub :: nat
  a_valid :: int
  a_templatesym :: symbol

record gmem =
  stubs :: "nat \<Rightarrow> gstub option"
  gptr :: "nat \<Rightarrow> gpointer"
  glists :: "nat \<Rightarrow> glist option"
  arrays :: "nat \<Rightarrow> garray option"
  gobjs :: "nat \<Rightarrow> gobj option"
  glist_valid :: int
  bugs :: "string list"

definition glist_valid0 :: int where "glist_valid0 = 10000"

definition bug :: "string \<Rightarrow> gmem \<Rightarrow> gmem" where
  "bug s M = M\<lparr>bugs := bugs M @ [s]\<rparr>"

section \<open>Operations on stubs\<close>

text \<open>A new stub is made where the allocator says, at \<open>s\<close>, for the canvas \<open>gl\<close> or else the array \<open>a\<close>.\<close>

definition gstub_new :: "nat \<Rightarrow> nat \<Rightarrow> nat \<Rightarrow> gmem \<Rightarrow> gmem" where
  "gstub_new gl a s M =
     M\<lparr>stubs := (stubs M)(s \<mapsto>
       (if gl \<noteq> 0 then \<lparr>gs_un = gl, gs_which = GP_GLIST, gs_refcount = 0\<rparr>
        else \<lparr>gs_un = a, gs_which = GP_ARRAY, gs_refcount = 0\<rparr>))\<rparr>"

definition gstub_dis :: "nat \<Rightarrow> gmem \<Rightarrow> gmem option" where
  "gstub_dis s M =
     (case stubs M s of
        None \<Rightarrow> None
      | Some g \<Rightarrow>
          let refcount = gs_refcount g - 1; M' = M\<lparr>stubs := (stubs M)(s \<mapsto> g\<lparr>gs_refcount := refcount\<rparr>)\<rparr> in
          if refcount = 0 \<and> gs_which g = GP_NONE then Some (M'\<lparr>stubs := (stubs M')(s := None)\<rparr>)
          else if refcount < 0 then Some (bug ''gstub_dis'' M')
          else Some M')"

definition gstub_cutoff :: "nat \<Rightarrow> gmem \<Rightarrow> gmem option" where
  "gstub_cutoff s M =
     (case stubs M s of
        None \<Rightarrow> None
      | Some g \<Rightarrow>
          let M1 = M\<lparr>stubs := (stubs M)(s \<mapsto> g\<lparr>gs_which := GP_NONE\<rparr>)\<rparr>;
              M2 = (if gs_refcount g < 0 then bug ''gstub_cutoff'' M1 else M1) in
          if gs_refcount g = 0 then Some (M2\<lparr>stubs := (stubs M2)(s := None)\<rparr>) else Some M2)"

text \<open>One more gpointer refers to stub \<open>s\<close>.\<close>

definition stub_ref :: "nat \<Rightarrow> gmem \<Rightarrow> gmem option" where
  "stub_ref s M =
     (case stubs M s of
        None \<Rightarrow> None
      | Some g \<Rightarrow> Some (M\<lparr>stubs := (stubs M)(s \<mapsto> g\<lparr>gs_refcount := gs_refcount g + 1\<rparr>)\<rparr>))"

section \<open>Operations on gpointers\<close>

abbreviation put_gptr :: "nat \<Rightarrow> gpointer \<Rightarrow> gmem \<Rightarrow> gmem" where
  "put_gptr p gp M \<equiv> M\<lparr>gptr := (gptr M)(p := gp)\<rparr>"

definition gpointer_init :: "nat \<Rightarrow> gmem \<Rightarrow> gmem" where
  "gpointer_init p M = put_gptr p \<lparr>gp_un = 0, gp_valid = 0, gp_stub = 0\<rparr> M"

definition gpointer_copy :: "gpointer \<Rightarrow> nat \<Rightarrow> gmem \<Rightarrow> gmem option" where
  "gpointer_copy gp p M =
     (let M1 = put_gptr p gp M in
      if gp_stub gp \<noteq> 0 then stub_ref (gp_stub gp) M1 else Some (bug ''gpointer_copy'' M1))"

definition gpointer_unset :: "nat \<Rightarrow> gmem \<Rightarrow> gmem option" where
  "gpointer_unset p M =
     (if gp_stub (gptr M p) \<noteq> 0 then
        map_option (\<lambda>M'. put_gptr p ((gptr M' p)\<lparr>gp_stub := 0\<rparr>) M') (gstub_dis (gp_stub (gptr M p)) M)
      else Some M)"

text \<open>The stub a gpointer refers to is left before the new one is looked up.\<close>

definition leave_stub :: "nat \<Rightarrow> gmem \<Rightarrow> gmem option" where
  "leave_stub p M = (if gp_stub (gptr M p) \<noteq> 0 then gstub_dis (gp_stub (gptr M p)) M else Some M)"

definition gpointer_setglist :: "nat \<Rightarrow> nat \<Rightarrow> nat \<Rightarrow> gmem \<Rightarrow> gmem option" where
  "gpointer_setglist p gl x M =
     Option.bind (leave_stub p M) (\<lambda>M1.
       case glists M1 gl of
         None \<Rightarrow> None
       | Some g \<Rightarrow> stub_ref (gl_stub g) (put_gptr p \<lparr>gp_un = x, gp_valid = gl_valid g, gp_stub = gl_stub g\<rparr> M1))"

definition gpointer_setarray :: "nat \<Rightarrow> nat \<Rightarrow> nat \<Rightarrow> gmem \<Rightarrow> gmem option" where
  "gpointer_setarray p a w M =
     Option.bind (leave_stub p M) (\<lambda>M1.
       case arrays M1 a of
         None \<Rightarrow> None
       | Some g \<Rightarrow> stub_ref (a_stub g) (put_gptr p \<lparr>gp_un = w, gp_valid = a_valid g, gp_stub = a_stub g\<rparr> M1))"

text \<open>
  \<open>gpointer_docheck\<close>: the class of the object pointed to is read, when \<open>gobjok\<close> is off, before the
  valid numbers are compared.
\<close>

definition gpointer_docheck :: "gpointer \<Rightarrow> bool \<Rightarrow> bool \<Rightarrow> gmem \<Rightarrow> bool option" where
  "gpointer_docheck gp headok gobjok M =
     (if gp_stub gp = 0 then Some False
      else case stubs M (gp_stub gp) of
        None \<Rightarrow> None
      | Some gs \<Rightarrow>
          (case gs_which gs of
             GP_ARRAY \<Rightarrow> map_option (\<lambda>g. a_valid g = gp_valid gp) (arrays M (gs_un gs))
           | GP_GLIST \<Rightarrow>
               let valid = map_option (\<lambda>g. gl_valid g = gp_valid gp) (glists M (gs_un gs)) in
               if \<not> headok \<and> gp_un gp = 0 then Some False
               else if \<not> gobjok \<and> gp_un gp \<noteq> 0 then
                 (case gobjs M (gp_un gp) of
                    None \<Rightarrow> None
                  | Some g \<Rightarrow> if sc_template g = None then Some False else valid)
               else valid
           | GP_NONE \<Rightarrow> Some False))"

definition gpointer_check :: "gpointer \<Rightarrow> bool \<Rightarrow> gmem \<Rightarrow> bool option" where
  "gpointer_check gp headok M = gpointer_docheck gp headok False M"

definition gpointer_check_gobj :: "gpointer \<Rightarrow> gmem \<Rightarrow> bool option" where
  "gpointer_check_gobj gp M = gpointer_docheck gp False True M"

text \<open>The template of what is pointed to: \<open>Some None\<close> at the head of a list.\<close>

definition gpointer_gettemplatesym :: "gpointer \<Rightarrow> gmem \<Rightarrow> symbol option option" where
  "gpointer_gettemplatesym gp M =
     (case stubs M (gp_stub gp) of
        None \<Rightarrow> None
      | Some gs \<Rightarrow>
          (case gs_which gs of
             GP_GLIST \<Rightarrow> (if gp_un gp = 0 then Some None else map_option sc_template (gobjs M (gp_un gp)))
           | GP_ARRAY \<Rightarrow> map_option (\<lambda>g. Some (a_templatesym g)) (arrays M (gs_un gs))
           | GP_NONE \<Rightarrow> None))"

section \<open>What the owners do\<close>

text \<open>A canvas gets its stub and its valid number when it is made; an array starts with number 0.\<close>

definition bump :: "gmem \<Rightarrow> gmem" where
  "bump M = M\<lparr>glist_valid := int_cast (glist_valid M + 1)\<rparr>"

definition glist_init :: "nat \<Rightarrow> nat \<Rightarrow> gmem \<Rightarrow> gmem" where
  "glist_init gl s M =
     (let M1 = bump (gstub_new gl 0 s M) in
      M1\<lparr>glists := (glists M1)(gl \<mapsto>
         \<lparr>gl_stub = s, gl_valid = glist_valid M1, gl_list = [], gl_selection = [], gl_visible = False\<rparr>)\<rparr>)"

definition array_new :: "nat \<Rightarrow> nat \<Rightarrow> symbol \<Rightarrow> gmem \<Rightarrow> gmem" where
  "array_new a s template M =
     (let M1 = gstub_new 0 a s M in
      M1\<lparr>arrays := (arrays M1)(a \<mapsto> \<lparr>a_stub = s, a_valid = 0, a_templatesym = template\<rparr>)\<rparr>)"

definition array_resize :: "nat \<Rightarrow> gmem \<Rightarrow> gmem option" where
  "array_resize a M =
     (case arrays M a of
        None \<Rightarrow> None
      | Some g \<Rightarrow> let M1 = bump M in Some (M1\<lparr>arrays := (arrays M1)(a \<mapsto> g\<lparr>a_valid := glist_valid M1\<rparr>)\<rparr>))"

definition array_free :: "nat \<Rightarrow> gmem \<Rightarrow> gmem option" where
  "array_free a M =
     (case arrays M a of
        None \<Rightarrow> None
      | Some g \<Rightarrow> map_option (\<lambda>M1. M1\<lparr>arrays := (arrays M1)(a := None)\<rparr>) (gstub_cutoff (a_stub g) M))"

definition canvas_free :: "nat \<Rightarrow> gmem \<Rightarrow> gmem option" where
  "canvas_free gl M =
     (case glists M gl of
        None \<Rightarrow> None
      | Some g \<Rightarrow> map_option (\<lambda>M1. M1\<lparr>glists := (glists M1)(gl := None)\<rparr>) (gstub_cutoff (gl_stub g) M))"

text \<open>
  Objects are added at the end; one that is deleted is unlinked and freed, and the number changes.
  (What deletion does on the screen is left out.)
\<close>

definition glist_add :: "nat \<Rightarrow> nat \<Rightarrow> gobj \<Rightarrow> gmem \<Rightarrow> gmem option" where
  "glist_add gl y ob M =
     (case glists M gl of
        None \<Rightarrow> None
      | Some g \<Rightarrow> Some (M\<lparr>glists := (glists M)(gl \<mapsto> g\<lparr>gl_list := gl_list g @ [y]\<rparr>), gobjs := (gobjs M)(y \<mapsto> ob)\<rparr>))"

definition glist_delete :: "nat \<Rightarrow> nat \<Rightarrow> gmem \<Rightarrow> gmem option" where
  "glist_delete gl y M =
     (case glists M gl of
        None \<Rightarrow> None
      | Some g \<Rightarrow>
          if gl_list g = [] then Some M
          else let M1 = bump (M\<lparr>gobjs := (gobjs M)(y := None)\<rparr>) in
          Some (M1\<lparr>glists := (glists M1)(gl \<mapsto>
            g\<lparr>gl_list := remove1 y (gl_list g), gl_selection := removeAll y (gl_selection g),
              gl_valid := glist_valid M1\<rparr>)\<rparr>))"

section \<open>The pointer object\<close>

text \<open>
  \<open>x_gp\<close> is the address of the object's gpointer; the outlets are numbered, the typed ones with the
  template they are for, then the one for other templates and the one that bangs. Where the code
  calls an outlet or another object, the model records it with what the gpointer holds then.
\<close>

record ptrobj =
  x_gp :: nat
  x_typedout :: "(symbol \<times> nat) list"
  x_otherout :: nat
  x_bangout :: nat

datatype pout =
    P_pointer nat gpointer
  | P_bang nat
  | P_send symbol gpointer
  | P_error string

definition canvas_makebindsym :: "symbol \<Rightarrow> symbol" where
  "canvas_makebindsym s = take (MAXPDSTRING - 2) (''pd-'' @ s)"

definition template_getbindsym :: "symbol \<Rightarrow> symbol" where
  "template_getbindsym s = (if s = [] \<or> s = ''-'' then [] else canvas_makebindsym s)"

definition ptrobj_new :: "nat \<Rightarrow> atom list \<Rightarrow> gmem \<Rightarrow> gmem \<times> ptrobj" where
  "ptrobj_new p argv M =
     (gpointer_init p M,
      \<lparr>x_gp = p, x_typedout = zip (map (\<lambda>a. template_getbindsym (atom_getsymbol a)) argv) [0..<length argv],
       x_otherout = length argv, x_bangout = Suc (length argv)\<rparr>)"

text \<open>A pointer goes to the first outlet made for its template.\<close>

definition ptr_out :: "ptrobj \<Rightarrow> symbol option \<Rightarrow> gmem \<Rightarrow> pout" where
  "ptr_out x template M =
     P_pointer (case find (\<lambda>(ty, ou). Some ty = template) (x_typedout x) of Some (ty, ou) \<Rightarrow> ou | None \<Rightarrow> x_otherout x)
       (gptr M (x_gp x))"

definition ptrobj_traverse :: "(symbol \<Rightarrow> nat option) \<Rightarrow> ptrobj \<Rightarrow> symbol \<Rightarrow> gmem \<Rightarrow> (gmem \<times> pout list) option" where
  "ptrobj_traverse findcanvas x s M =
     (case findcanvas s of
        Some gl \<Rightarrow> map_option (\<lambda>M'. (M', [])) (gpointer_setglist (x_gp x) gl 0 M)
      | None \<Rightarrow> Some (M, [P_error ''list not found'']))"

text \<open>The objects that follow \<open>y\<close>, and the first scalar among them, selected if that is asked for.\<close>

definition g_next :: "nat \<Rightarrow> nat list \<Rightarrow> nat list option" where
  "g_next y ys = (case dropWhile (\<lambda>z. z \<noteq> y) ys of [] \<Rightarrow> None | z # zs \<Rightarrow> Some zs)"

fun next_scalar :: "gmem \<Rightarrow> (nat \<Rightarrow> bool) \<Rightarrow> nat list \<Rightarrow> (nat \<times> symbol) option option" where
  "next_scalar M wanted [] = Some None"
| "next_scalar M wanted (y # ys) =
     (case gobjs M y of
        None \<Rightarrow> None
      | Some ob \<Rightarrow>
          (case sc_template ob of
             None \<Rightarrow> next_scalar M wanted ys
           | Some ty \<Rightarrow> if wanted y then Some (Some (y, ty)) else next_scalar M wanted ys))"

text \<open>The pointer moves to the scalar found, or is unset at the end of the list.\<close>

definition ptr_step :: "ptrobj \<Rightarrow> (nat \<times> symbol) option \<Rightarrow> gmem \<Rightarrow> (gmem \<times> pout list) option" where
  "ptr_step x found M =
     (case found of
        Some (y, ty) \<Rightarrow>
          (let M' = put_gptr (x_gp x) ((gptr M (x_gp x))\<lparr>gp_un := y\<rparr>) M in Some (M', [ptr_out x (Some ty) M']))
      | None \<Rightarrow> map_option (\<lambda>M'. (M', [P_bang (x_bangout x)])) (gpointer_unset (x_gp x) M))"

definition ptrobj_vnext :: "ptrobj \<Rightarrow> t_float \<Rightarrow> gmem \<Rightarrow> (gmem \<times> pout list) option" where
  "ptrobj_vnext x f M =
     (let gp = gptr M (x_gp x); wantselected = (f \<noteq> FFin 0 \<and> f \<noteq> FNegZero) in
      if gp_stub gp = 0 then Some (M, [P_error ''no current pointer''])
      else case stubs M (gp_stub gp) of
        None \<Rightarrow> None
      | Some gs \<Rightarrow>
          if gs_which gs \<noteq> GP_GLIST then Some (M, [P_error ''lists only, not arrays''])
          else (case glists M (gs_un gs) of
            None \<Rightarrow> None
          | Some g \<Rightarrow>
              if gl_valid g \<noteq> gp_valid gp then Some (M, [P_error ''stale pointer''])
              else if wantselected \<and> \<not> gl_visible g then Some (M, [P_error ''next-selected only works for a visible window''])
              else Option.bind (if gp_un gp = 0 then Some (gl_list g) else g_next (gp_un gp) (gl_list g)) (\<lambda>ys.
                   Option.bind (next_scalar M (\<lambda>y. wantselected \<longrightarrow> y \<in> set (gl_selection g)) ys) (\<lambda>found.
                   ptr_step x found M))))"

definition ptrobj_next :: "ptrobj \<Rightarrow> gmem \<Rightarrow> (gmem \<times> pout list) option" where
  "ptrobj_next x M = ptrobj_vnext x (FFin 0) M"

definition ptrobj_delete :: "ptrobj \<Rightarrow> gmem \<Rightarrow> (gmem \<times> pout list) option" where
  "ptrobj_delete x M =
     (let gp = gptr M (x_gp x) in
      if gp_stub gp = 0 then Some (M, [P_error ''no current pointer''])
      else case stubs M (gp_stub gp) of
        None \<Rightarrow> None
      | Some gs \<Rightarrow>
          if gs_which gs \<noteq> GP_GLIST then Some (M, [P_error ''lists only, not arrays''])
          else (case glists M (gs_un gs) of
            None \<Rightarrow> None
          | Some g \<Rightarrow>
              if gl_valid g \<noteq> gp_valid gp then Some (M, [P_error ''stale pointer''])
              else if gp_un gp = 0 then Some (M, [P_error ''pointing to head''])
              else (case Option.bind (gobjs M (gp_un gp)) sc_template of
                None \<Rightarrow> None
              | Some ty \<Rightarrow>
                  if ty = ''pd-text'' then Some (M, [P_error ''can't delete 'pd-text' scalar''])
                  else if ty = ''pd-float-array'' then Some (M, [P_error ''can't delete 'pd-float-array' scalar''])
                  else Option.bind (g_next (gp_un gp) (gl_list g)) (\<lambda>ys.
                       Option.bind (next_scalar M (\<lambda>y. True) ys) (\<lambda>found.
                       Option.bind (glist_delete (gs_un gs) (gp_un gp) M) (\<lambda>M1.
                       case glists M1 (gs_un gs) of
                         None \<Rightarrow> None
                       | Some g1 \<Rightarrow> ptr_step x found (put_gptr (x_gp x) (gp\<lparr>gp_valid := gl_valid g1\<rparr>) M1)))))))"

definition ptrobj_bang :: "ptrobj \<Rightarrow> gmem \<Rightarrow> (gmem \<times> pout list) option" where
  "ptrobj_bang x M =
     Option.bind (gpointer_check (gptr M (x_gp x)) True M) (\<lambda>ok.
       if \<not> ok then Some (M, [P_error ''empty pointer''])
       else map_option (\<lambda>ty. (M, [ptr_out x ty M])) (gpointer_gettemplatesym (gptr M (x_gp x)) M))"

definition ptrobj_equal :: "ptrobj \<Rightarrow> gpointer \<Rightarrow> gmem \<Rightarrow> (gmem \<times> pout list) option" where
  "ptrobj_equal x gp M =
     Option.bind (gpointer_check (gptr M (x_gp x)) True M) (\<lambda>ok.
       if \<not> ok then Some (M, [P_error ''empty pointer''])
       else case (stubs M (gp_stub gp), stubs M (gp_stub (gptr M (x_gp x)))) of
         (Some g1, Some g2) \<Rightarrow>
           if \<not> (gs_un g1 = gs_un g2 \<and> gp_un gp = gp_un (gptr M (x_gp x))) then Some (M, [P_bang (x_bangout x)])
           else map_option (\<lambda>ty. (M, [ptr_out x ty M])) (gpointer_gettemplatesym (gptr M (x_gp x)) M)
       | _ \<Rightarrow> None)"

definition ptrobj_send :: "(symbol \<Rightarrow> bool) \<Rightarrow> ptrobj \<Rightarrow> symbol \<Rightarrow> gmem \<Rightarrow> (gmem \<times> pout list) option" where
  "ptrobj_send s_thing x s M =
     (if \<not> s_thing s then Some (M, [P_error ''no such object''])
      else map_option (\<lambda>ok. (M, [if ok then P_send s (gptr M (x_gp x)) else P_error ''empty pointer'']))
             (gpointer_check (gptr M (x_gp x)) True M))"

text \<open>The gpointer received is at address \<open>p\<close>: it may be the object's own.\<close>

definition ptrobj_pointer :: "ptrobj \<Rightarrow> nat \<Rightarrow> gmem \<Rightarrow> (gmem \<times> pout list) option" where
  "ptrobj_pointer x p M =
     Option.bind (gpointer_unset (x_gp x) M) (\<lambda>M1.
     Option.bind (gpointer_copy (gptr M1 p) (x_gp x) M1) (\<lambda>M2. ptrobj_bang x M2))"

definition ptrobj_rewind :: "ptrobj \<Rightarrow> gmem \<Rightarrow> (gmem \<times> pout list) option" where
  "ptrobj_rewind x M =
     Option.bind (gpointer_check (gptr M (x_gp x)) True M) (\<lambda>ok.
       if \<not> ok then Some (M, [P_error ''empty pointer''])
       else case stubs M (gp_stub (gptr M (x_gp x))) of
         None \<Rightarrow> None
       | Some gs \<Rightarrow>
           if gs_which gs \<noteq> GP_GLIST then Some (M, [P_error ''sorry, unavailable for arrays''])
           else Option.bind (gpointer_setglist (x_gp x) (gs_un gs) 0 M) (\<lambda>M1. ptrobj_bang x M1))"

definition ptrobj_free :: "ptrobj \<Rightarrow> gmem \<Rightarrow> gmem option" where
  "ptrobj_free x M = gpointer_unset (x_gp x) M"

end
