(* ===== verification/Pipe.thy ===== *)
theory Pipe
  imports Time Gpointer
begin

text \<open>
  The message delay line pipe, \<open>src/pd/src/x_time.c\<close>: each incoming message is copied into a hang with a
  clock of its own, linked at the head of a list, and sent when the clock is due. Hangs are cells of a
  heap; the clock of a hang has the number of the hang. The gpointers of the pipe (\<open>x_gp\<close>) and of
  each hang (\<open>h_gp\<close>) are arrays, at consecutive addresses. The types of the slots are those of the
  atoms of \<open>x_vec\<close>; slot \<open>i\<close> has outlet \<open>i\<close>. What is sent out of an outlet goes to the parameter \<open>out\<close>,
  which can send messages back to the pipe; \<open>'e\<close> is the state of the other objects.
\<close>

record hang =
  h_gp :: nat
  h_vec :: "atom list"

record pipe =
  x_nptr :: nat
  x_deltime :: t_float
  x_vec :: "atom list"
  p_gp :: nat
  x_hang :: "nat list"
  hangs :: "nat \<Rightarrow> hang option"
  p_errors :: "string list"

type_synonym 'e pipe_world = "'e \<times> pipe \<times> gmem \<times> sched"
type_synonym 'e pipe_out = "nat \<Rightarrow> atom \<Rightarrow> 'e pipe_world \<Rightarrow> 'e pipe_world option"

definition pipe_error :: "string \<Rightarrow> pipe \<Rightarrow> pipe" where
  "pipe_error msg x = x\<lparr>p_errors := p_errors x @ [msg]\<rparr>"

section \<open>Making a pipe\<close>

definition starts :: "char \<Rightarrow> atom \<Rightarrow> bool" where
  "starts c a = (case a of A_SYMBOL s \<Rightarrow> cnth s 0 = c | _ \<Rightarrow> False)"

text \<open>The slot made for an argument; \<open>gp\<close> is the next of the pipe's gpointers.\<close>

definition pipe_slot :: "nat \<Rightarrow> atom \<Rightarrow> atom" where
  "pipe_slot gp a =
     (case a of
        A_FLOAT f \<Rightarrow> A_FLOAT f
      | A_SYMBOL s \<Rightarrow>
          if cnth s 0 = CHR ''s'' then A_SYMBOL ''symbol''
          else if cnth s 0 = CHR ''p'' then A_POINTER gp
          else A_FLOAT (FFin 0)
      | _ \<Rightarrow> A_NULL)"

definition slot_errors :: "atom \<Rightarrow> string list" where
  "slot_errors a =
     (case a of
        A_SYMBOL s \<Rightarrow> if cnth s 0 \<in> {CHR ''s'', CHR ''p'', CHR ''f''} then [] else [''pipe: '' @ s @ '': bad type'']
      | _ \<Rightarrow> [])"

fun pipe_slots :: "nat \<Rightarrow> atom list \<Rightarrow> atom list" where
  "pipe_slots gp [] = []"
| "pipe_slots gp (a # as) = pipe_slot gp a # pipe_slots (if starts (CHR ''p'') a then Suc gp else gp) as"

fun init_gps :: "nat \<Rightarrow> nat \<Rightarrow> gmem \<Rightarrow> gmem" where
  "init_gps gp 0 M = M"
| "init_gps gp (Suc k) M = init_gps (Suc gp) k (gpointer_init gp M)"

text \<open>The pipe's gpointers are put at \<open>gp\<close>. \<open>None\<close>: the buffer of the error message is not written.\<close>

definition pipe_new :: "nat \<Rightarrow> atom list \<Rightarrow> gmem \<Rightarrow> (pipe \<times> gmem) option" where
  "pipe_new gp argv M =
     Option.bind
       (if argv = [] then Some (FFin 0, [])
        else case last argv of
          A_FLOAT f \<Rightarrow> Some (f, [])
        | a \<Rightarrow> map_option (\<lambda>str. (FFin 0, [''pipe: '' @ str @ '': bad time delay value''])) (atom_string a 79))
       (\<lambda>(deltime, err).
          let args = (if butlast argv = [] then [A_FLOAT (FFin 0)] else butlast argv);
              nptr = length (filter (starts (CHR ''p'')) args) in
          Some (\<lparr>x_nptr = nptr, x_deltime = deltime, x_vec = pipe_slots gp args, p_gp = gp, x_hang = [], hangs = (\<lambda>_. None),
            p_errors = err @ concat (map slot_errors args)\<rparr>, init_gps gp nptr M))"

section \<open>Hangs\<close>

fun unset_gps :: "nat \<Rightarrow> nat \<Rightarrow> gmem \<Rightarrow> gmem option" where
  "unset_gps gp 0 M = Some M"
| "unset_gps gp (Suc k) M = Option.bind (gpointer_unset gp M) (unset_gps (Suc gp) k)"

definition hang_free :: "nat \<Rightarrow> pipe \<times> gmem \<times> sched \<Rightarrow> (pipe \<times> gmem \<times> sched) option" where
  "hang_free h w =
     (let (x, M, s) = w in
      case hangs x h of
        None \<Rightarrow> None
      | Some hg \<Rightarrow>
          Option.bind (unset_gps (h_gp hg) (x_nptr x) M) (\<lambda>M1.
          map_option (\<lambda>s1. (x\<lparr>hangs := (hangs x)(h := None)\<rparr>, M1, s1)) (clock_free h s)))"

text \<open>The search for the hang before \<open>h\<close> reads the first hang's link: \<open>None\<close> when there is no hang.\<close>

definition unlink_hang :: "nat \<Rightarrow> nat list \<Rightarrow> nat list option" where
  "unlink_hang h l = (if l = [] then None else Some (remove1 h l))"

text \<open>One slot is sent, by its type; a pointer only if it is not stale.\<close>

definition hang_send :: "'e pipe_out \<Rightarrow> nat \<Rightarrow> nat \<Rightarrow> 'e pipe_world \<Rightarrow> 'e pipe_world option" where
  "hang_send out h i w =
     (let (e, x, M, s) = w in
      case hangs x h of
        None \<Rightarrow> None
      | Some hg \<Rightarrow>
          if length (x_vec x) \<le> i \<or> length (h_vec hg) \<le> i then None
          else case x_vec x ! i of
            A_FLOAT _ \<Rightarrow> out i (h_vec hg ! i) w
          | A_SYMBOL _ \<Rightarrow> out i (h_vec hg ! i) w
          | A_POINTER _ \<Rightarrow>
              (case h_vec hg ! i of
                 A_POINTER a \<Rightarrow>
                   Option.bind (gpointer_check (gptr M a) True M) (\<lambda>ok.
                     if ok then out i (A_POINTER a) w
                     else Some (e, pipe_error ''pipe: stale pointer'' x, M, s))
               | _ \<Rightarrow> None)
          | _ \<Rightarrow> Some w)"

text \<open>The outlets from right to left.\<close>

fun hang_sends :: "'e pipe_out \<Rightarrow> nat \<Rightarrow> nat \<Rightarrow> 'e pipe_world \<Rightarrow> 'e pipe_world option" where
  "hang_sends out h 0 w = Some w"
| "hang_sends out h (Suc i) w = Option.bind (hang_send out h i w) (hang_sends out h i)"

definition hang_tick :: "'e pipe_out \<Rightarrow> nat \<Rightarrow> 'e pipe_world \<Rightarrow> 'e pipe_world option" where
  "hang_tick out h w =
     (let (e, x, M, s) = w in
      Option.bind (unlink_hang h (x_hang x)) (\<lambda>l.
      Option.bind (hang_sends out h (length (x_vec x)) (e, x\<lparr>x_hang := l\<rparr>, M, s)) (\<lambda>(e, w).
      map_option (Pair e) (hang_free h w))))"

section \<open>Messages\<close>

text \<open>A gpointer is overwritten with another and counted, if it refers to a stub.\<close>

definition gp_assign :: "nat \<Rightarrow> gpointer \<Rightarrow> gmem \<Rightarrow> gmem option" where
  "gp_assign p gp M = (let M1 = put_gptr p gp M in if gp_stub gp \<noteq> 0 then stub_ref (gp_stub gp) M1 else Some M1)"

text \<open>The arguments go into the slots; the pointer slots have gpointers from \<open>gp\<close> on.\<close>

fun fill_slots :: "nat \<Rightarrow> atom list \<Rightarrow> atom list \<Rightarrow> gmem \<Rightarrow> (atom list \<times> gmem \<times> string list) option" where
  "fill_slots gp [] av M = Some ([], M, [])"
| "fill_slots gp (p # ps) [] M = Some (p # ps, M, [])"
| "fill_slots gp (p # ps) (a # av) M =
     (case p of
        A_FLOAT _ \<Rightarrow> map_option (\<lambda>(ps', r). (A_FLOAT (atom_getfloat a) # ps', r)) (fill_slots gp ps av M)
      | A_SYMBOL _ \<Rightarrow> map_option (\<lambda>(ps', r). (A_SYMBOL (atom_getsymbol a) # ps', r)) (fill_slots gp ps av M)
      | A_POINTER _ \<Rightarrow>
          Option.bind (gpointer_unset gp M) (\<lambda>M1.
          Option.bind (case a of A_POINTER q \<Rightarrow> map_option (\<lambda>M2. (M2, [])) (gp_assign gp (gptr M1 q) M1)
                       | _ \<Rightarrow> Some (M1, [''pipe: bad pointer''])) (\<lambda>(M2, err).
          map_option (\<lambda>(ps', M3, errs). (p # ps', M3, err @ errs)) (fill_slots (Suc gp) ps av M2)))
      | _ \<Rightarrow> map_option (\<lambda>(ps', r). (p # ps', r)) (fill_slots gp ps av M))"

text \<open>The slots are copied into a hang, their gpointers from \<open>gp\<close> on to those from \<open>gp2\<close> on.\<close>

fun copy_slots :: "nat \<Rightarrow> nat \<Rightarrow> atom list \<Rightarrow> gmem \<Rightarrow> (atom list \<times> gmem) option" where
  "copy_slots gp gp2 [] M = Some ([], M)"
| "copy_slots gp gp2 (p # ps) M =
     (case p of
        A_POINTER _ \<Rightarrow>
          Option.bind (if gp_stub (gptr M gp) \<noteq> 0 then stub_ref (gp_stub (gptr M gp)) M else Some M) (\<lambda>M1.
          map_option (\<lambda>(ws, M2). (A_POINTER gp2 # ws, M2)) (copy_slots (Suc gp) (Suc gp2) ps (put_gptr gp2 (gptr M1 gp) M1)))
      | _ \<Rightarrow> map_option (\<lambda>(ws, M2). (p # ws, M2)) (copy_slots gp gp2 ps M))"

text \<open>The delay in milliseconds; an infinite one is not modelled. What is not at least 0 (a NaN too) is 0.\<close>

definition delay_ms :: "t_float \<Rightarrow> rat option" where
  "delay_ms f =
     (case f of FFin r \<Rightarrow> Some (if 0 \<le> r then r else 0) | FNegZero \<Rightarrow> Some 0 | FInf neg \<Rightarrow> if neg then Some 0 else None | FNaN \<Rightarrow> Some 0)"

text \<open>\<open>h\<close> and \<open>g\<close> are where the new hang and its gpointers are put.\<close>

definition pipe_list :: "nat \<Rightarrow> nat \<Rightarrow> atom list \<Rightarrow> pipe \<times> gmem \<times> sched \<Rightarrow> (pipe \<times> gmem \<times> sched) option" where
  "pipe_list h g av w =
     (let (x, M, s) = w; n = length (x_vec x);
          x1 = (if n < length av then
                  (case av ! n of A_FLOAT f \<Rightarrow> x\<lparr>x_deltime := f\<rparr>
                   | _ \<Rightarrow> pipe_error ''pipe: symbol or pointer in time inlet'' x)
                else x) in
      Option.bind (fill_slots (p_gp x1) (x_vec x1) (take n av) M) (\<lambda>(ps, M1, errs).
      Option.bind (copy_slots (p_gp x1) g ps M1) (\<lambda>(ws, M2).
      Option.bind (delay_ms (x_deltime x1)) (\<lambda>d.
        map_option (\<lambda>s1. (x1\<lparr>x_vec := ps, x_hang := h # x_hang x1, hangs := (hangs x1)(h \<mapsto> \<lparr>h_gp = g, h_vec = ws\<rparr>),
            p_errors := p_errors x1 @ errs\<rparr>, M2, s1))
          (clock_delay h d (clock_create h s))))))"

partial_function (option) pipe_flush :: "'e pipe_out \<Rightarrow> 'e pipe_world \<Rightarrow> 'e pipe_world option" where
  "pipe_flush out w =
     (case x_hang (fst (snd w)) of
        [] \<Rightarrow> Some w
      | h # _ \<Rightarrow> Option.bind (hang_tick out h w) (pipe_flush out))"

fun clear_loop :: "nat list \<Rightarrow> pipe \<times> gmem \<times> sched \<Rightarrow> (pipe \<times> gmem \<times> sched) option" where
  "clear_loop [] w = Some w"
| "clear_loop (h # l) w = Option.bind (hang_free h ((fst w)\<lparr>x_hang := l\<rparr>, snd w)) (clear_loop l)"

definition pipe_clear :: "pipe \<times> gmem \<times> sched \<Rightarrow> (pipe \<times> gmem \<times> sched) option" where
  "pipe_clear w = clear_loop (x_hang (fst w)) w"

text \<open>The gpointers of the pipe itself are neither unset nor freed.\<close>

definition pipe_free :: "pipe \<times> gmem \<times> sched \<Rightarrow> (gmem \<times> sched) option" where
  "pipe_free w = map_option snd (pipe_clear w)"

end
