(* ===== verification/TimeSpec.thy ===== *)
theory TimeSpec
  imports Time
begin

text \<open>
  What the time objects promise: a metro sends its bangs at the iterates of its period, whatever the
  other objects do with their clocks, and without drift when the period is a whole number of time
  units; what messages sent back from a bang do; when a tick never returns; the ends of ramps.
\<close>

section \<open>Rules for the loop over clocks\<close>

lemma run_clocks_inv:
  assumes run: "run_clocks fn bnd w s = Some (w', s')" and "I w s"
    and step: "\<And>c r w s s1 w2 s2. I w s \<Longrightarrow> setlist s = c # r \<Longrightarrow> settime s c < bnd \<Longrightarrow>
      clock_unset c (s\<lparr>systime := settime s c\<rparr>) = Some s1 \<Longrightarrow> fn c w s1 = Some (w2, s2) \<Longrightarrow> I w2 s2"
  shows "I w' s' \<and> (setlist s' = [] \<or> bnd \<le> settime s' (hd (setlist s')))"
proof -
  have "I w s \<longrightarrow> (\<forall>c r w s s1 w2 s2. I w s \<longrightarrow> setlist s = c # r \<longrightarrow> settime s c < bnd \<longrightarrow>
      clock_unset c (s\<lparr>systime := settime s c\<rparr>) = Some s1 \<longrightarrow> fn c w s1 = Some (w2, s2) \<longrightarrow> I w2 s2) \<longrightarrow>
    I (fst (w', s')) (snd (w', s')) \<and> (setlist (snd (w', s')) = [] \<or> bnd \<le> settime (snd (w', s')) (hd (setlist (snd (w', s')))))"
  proof (rule run_clocks.raw_induct [where P = "\<lambda>fn bnd w s res. I w s \<longrightarrow>
      (\<forall>c r w s s1 w2 s2. I w s \<longrightarrow> setlist s = c # r \<longrightarrow> settime s c < bnd \<longrightarrow>
        clock_unset c (s\<lparr>systime := settime s c\<rparr>) = Some s1 \<longrightarrow> fn c w s1 = Some (w2, s2) \<longrightarrow> I w2 s2) \<longrightarrow>
      I (fst res) (snd res) \<and> (setlist (snd res) = [] \<or> bnd \<le> settime (snd res) (hd (setlist (snd res))))", OF _ run])
    fix loop fn bnd w s res
    assume IH: "\<And>fn bnd w s res. loop fn bnd w s = Some res \<Longrightarrow> I w s \<longrightarrow>
        (\<forall>c r w s s1 w2 s2. I w s \<longrightarrow> setlist s = c # r \<longrightarrow> settime s c < bnd \<longrightarrow>
          clock_unset c (s\<lparr>systime := settime s c\<rparr>) = Some s1 \<longrightarrow> fn c w s1 = Some (w2, s2) \<longrightarrow> I w2 s2) \<longrightarrow>
        I (fst res) (snd res) \<and> (setlist (snd res) = [] \<or> bnd \<le> settime (snd res) (hd (setlist (snd res))))"
      and eq: "(case setlist s of [] \<Rightarrow> Some (w, s)
        | c # _ \<Rightarrow> if settime s c < bnd then
            Option.bind (clock_unset c (s\<lparr>systime := settime s c\<rparr>))
              (\<lambda>s1. Option.bind (fn c w s1) (\<lambda>(w', s2). loop fn bnd w' s2))
          else Some (w, s)) = Some res"
    show "I w s \<longrightarrow> (\<forall>c r w s s1 w2 s2. I w s \<longrightarrow> setlist s = c # r \<longrightarrow> settime s c < bnd \<longrightarrow>
          clock_unset c (s\<lparr>systime := settime s c\<rparr>) = Some s1 \<longrightarrow> fn c w s1 = Some (w2, s2) \<longrightarrow> I w2 s2) \<longrightarrow>
        I (fst res) (snd res) \<and> (setlist (snd res) = [] \<or> bnd \<le> settime (snd res) (hd (setlist (snd res))))"
    proof (intro impI)
      assume I: "I w s" and st: "\<forall>c r w s s1 w2 s2. I w s \<longrightarrow> setlist s = c # r \<longrightarrow> settime s c < bnd \<longrightarrow>
          clock_unset c (s\<lparr>systime := settime s c\<rparr>) = Some s1 \<longrightarrow> fn c w s1 = Some (w2, s2) \<longrightarrow> I w2 s2"
      show "I (fst res) (snd res) \<and> (setlist (snd res) = [] \<or> bnd \<le> settime (snd res) (hd (setlist (snd res))))"
      proof (cases "\<exists>c r. setlist s = c # r \<and> settime s c < bnd")
        case True
        then obtain c r where c: "setlist s = c # r" "settime s c < bnd" by blast
        from eq c obtain s1 w2 s2 where n: "clock_unset c (s\<lparr>systime := settime s c\<rparr>) = Some s1"
          "fn c w s1 = Some (w2, s2)" "loop fn bnd w2 s2 = Some res"
          by (auto simp: bind_eq_Some_conv split: prod.splits)
        from st I c n(1,2) have "I w2 s2" by blast
        with IH [OF n(3)] st show ?thesis by blast
      next
        case False
        with eq I show ?thesis by (auto split: list.splits if_splits)
      qed
    qed
  qed
  with assms(2) step show ?thesis by auto
qed

lemma run_clocks_step:
  assumes "setlist s = c # r" "settime s c < bnd" "clock_unset c (s\<lparr>systime := settime s c\<rparr>) = Some s1"
    "fn c w s1 = Some (w2, s2)"
  shows "run_clocks fn bnd w s = run_clocks fn bnd w2 s2"
  using assms by (subst run_clocks.simps) simp

lemma run_clocks_done: "setlist s = [] \<or> bnd \<le> settime s (hd (setlist s)) \<Longrightarrow> run_clocks fn bnd w s = Some (w, s)"
  by (subst run_clocks.simps) (auto split: list.splits)

lemma run_clocks_returns:
  fixes \<mu> :: "'w \<Rightarrow> sched \<Rightarrow> nat"
  assumes "I w s"
    and step: "\<And>c r w s. I w s \<Longrightarrow> setlist s = c # r \<Longrightarrow> settime s c < bnd \<Longrightarrow>
      \<exists>s1 w2 s2. clock_unset c (s\<lparr>systime := settime s c\<rparr>) = Some s1 \<and> fn c w s1 = Some (w2, s2) \<and> I w2 s2 \<and> \<mu> w2 s2 < \<mu> w s"
  shows "\<exists>w' s'. run_clocks fn bnd w s = Some (w', s') \<and> I w' s' \<and> (setlist s' = [] \<or> bnd \<le> settime s' (hd (setlist s')))"
  using assms(1)
proof (induction "\<mu> w s" arbitrary: w s rule: less_induct)
  case less
  show ?case
  proof (cases "setlist s = [] \<or> bnd \<le> settime s (hd (setlist s))")
    case True
    from run_clocks_done [OF this] less.prems True show ?thesis by (intro exI conjI) auto
  next
    case False
    then obtain c r where c: "setlist s = c # r" "settime s c < bnd" by (cases "setlist s") auto
    from step [OF less.prems c] obtain s1 w2 s2 where
      n: "clock_unset c (s\<lparr>systime := settime s c\<rparr>) = Some s1" "fn c w s1 = Some (w2, s2)" "I w2 s2" "\<mu> w2 s2 < \<mu> w s" by blast
    from less.hyps [OF n(4,3)] run_clocks_step [of s c r bnd s1 fn w w2 s2, OF c n(1,2)] show ?thesis by simp
  qed
qed

text \<open>A tick never returns when a clock is always due.\<close>

lemma run_clocks_diverges:
  assumes "I w s" and due: "\<And>w s. I w s \<Longrightarrow> setlist s \<noteq> [] \<and> settime s (hd (setlist s)) < bnd"
    and step: "\<And>c r w s s1 w2 s2. I w s \<Longrightarrow> setlist s = c # r \<Longrightarrow> settime s c < bnd \<Longrightarrow>
      clock_unset c (s\<lparr>systime := settime s c\<rparr>) = Some s1 \<Longrightarrow> fn c w s1 = Some (w2, s2) \<Longrightarrow> I w2 s2"
  shows "run_clocks fn bnd w s = None"
proof (cases "run_clocks fn bnd w s")
  case (Some res)
  then obtain w' s' where r: "run_clocks fn bnd w s = Some (w', s')" by (cases res) auto
  from run_clocks_inv [where I = I, OF r assms(1) step] due show ?thesis by fastforce
qed simp

section \<open>Requests leave other clocks alone\<close>

lemma clock_unset_units: "clock_unset x s = Some s' \<Longrightarrow> c_unit (clocks s' y) = c_unit (clocks s y) \<and> dacsr s' = dacsr s"
  by (auto simp: clock_unset_def put_settime_def split: if_splits)

lemma clock_set_units: "clock_set x t s = Some s' \<Longrightarrow> c_unit (clocks s' y) = c_unit (clocks s y) \<and> dacsr s' = dacsr s"
proof -
  assume s': "clock_set x t s = Some s'"
  then obtain s1 where s1: "clock_unset x s = Some s1" by (auto simp: clock_set_def Let_def)
  have "c_unit (clocks s' y) = c_unit (clocks s1 y) \<and> dacsr s' = dacsr s1"
    using s' by (cases "setlist s1") (auto simp: clock_set_def Let_def put_settime_def s1)
  with clock_unset_units [OF s1] show ?thesis by simp
qed

definition delay_until :: "rat \<Rightarrow> rat \<Rightarrow> rat \<Rightarrow> rat \<Rightarrow> rat" where
  "delay_until u sr d t =
     max (if u > 0 then rd (t + rd (u * d)) else rd (t - rd (rd (u * rd (TIMEUNITPERSECOND / sr)) * d))) t"

lemma clock_delay_spec:
  assumes "clock_inv s"
  shows "\<exists>s'. clock_delay x d s = Some s' \<and> clock_inv s' \<and> systime s' = systime s \<and> dacsr s' = dacsr s \<and>
    settime s' = (settime s)(x := delay_until (c_unit (clocks s x)) (dacsr s) d (systime s)) \<and>
    (\<forall>y. c_unit (clocks s' y) = c_unit (clocks s y))"
proof -
  define t where "t = (if c_unit (clocks s x) > 0 then rd (systime s + rd (c_unit (clocks s x) * d))
    else rd (systime s - rd (rd (c_unit (clocks s x) * rd (TIMEUNITPERSECOND / dacsr s)) * d)))"
  have "clock_delay x d s = clock_set x t s" by (simp add: clock_delay_def Let_def t_def)
  with clock_set_spec [OF assms, of x t] clock_set_units [of x t s] show ?thesis
    by (auto simp: delay_until_def t_def [symmetric])
qed

fun avoids :: "nat \<Rightarrow> clock_op \<Rightarrow> bool" where
  "avoids m (Set x t) \<longleftrightarrow> x \<noteq> m"
| "avoids m (Unset x) \<longleftrightarrow> x \<noteq> m"
| "avoids m (Delay x d) \<longleftrightarrow> x \<noteq> m"
| "avoids m (Setunit x u b) \<longleftrightarrow> x \<noteq> m"

definition same_clock :: "nat \<Rightarrow> sched \<Rightarrow> sched \<Rightarrow> bool" where
  "same_clock m s s' \<longleftrightarrow> settime s' m = settime s m \<and> c_unit (clocks s' m) = c_unit (clocks s m) \<and> dacsr s' = dacsr s"

lemma same_clock_refl [simp]: "same_clock m s s"
  by (simp add: same_clock_def)

lemma same_clock_trans: "same_clock m s s1 \<Longrightarrow> same_clock m s1 s2 \<Longrightarrow> same_clock m s s2"
  by (simp add: same_clock_def)

lemma unset_same:
  assumes "clock_inv s" "x \<noteq> m" "clock_unset x s = Some s'" shows "same_clock m s s'"
  using clock_unset_spec [OF assms(1), of x] clock_unset_units [OF assms(3), of m] assms by (auto simp: same_clock_def)

lemma delay_same:
  assumes "clock_inv s" "x \<noteq> m" "clock_delay x d s = Some s'" shows "same_clock m s s'"
  using clock_delay_spec [OF assms(1), of x d] assms by (auto simp: same_clock_def)

lemma exec_op_same:
  assumes "clock_inv s" "avoids m a" "exec_op a s = Some s'" shows "same_clock m s s'"
proof (cases a)
  case (Set x t)
  with clock_set_spec [OF assms(1), of x t] clock_set_units [of x t s s' m] assms show ?thesis
    by (auto simp: same_clock_def)
next
  case (Setunit x u b)
  define s1 where "s1 v = s\<lparr>clocks := (clocks s)(x := (clocks s x)\<lparr>c_unit := v\<rparr>)\<rparr>" for v
  have s1: "clock_inv (s1 v)" "same_clock m s (s1 v)" for v
    using Setunit assms(1,2) by (simp_all add: s1_def clock_inv_unit same_clock_def settime_def)
  then have sd: "same_clock m s s''" if "clock_delay x d (s1 v) = Some s''" for v d s''
    using delay_same [OF s1(1) _ that, of m] same_clock_trans [OF s1(2)] Setunit assms(2)
    by simp
  have e: "clock_setunit x u b s = Some s'" using Setunit assms(3) by simp
  show ?thesis using e unfolding clock_setunit_def Let_def s1_def [symmetric]
    by (auto split: if_splits intro: sd s1(2))
qed (use assms unset_same delay_same in auto)

lemma clock_ops_same:
  "clock_inv s \<Longrightarrow> list_all (avoids m) as \<Longrightarrow> clock_ops as s = Some s' \<Longrightarrow> same_clock m s s'"
proof (induction as arbitrary: s)
  case (Cons a as)
  from exec_op_inv [OF Cons.prems(1), of a] obtain s1 where s1: "exec_op a s = Some s1" "clock_inv s1" by blast
  with Cons exec_op_same [OF Cons.prems(1) _ s1(1), of m] show ?case
    by (auto intro: same_clock_trans)
qed simp

section \<open>A metro among other objects\<close>

text \<open>
  The methods of the clocks in a patch with a metro: its own is \<open>metro_tick\<close>, whose bang makes requests
  \<open>down t\<close> at time \<open>t\<close>, those of the others make requests \<open>other c t\<close>. The log holds the times of the bangs.
\<close>

definition metro_patch ::
  "(nat \<Rightarrow> rat \<Rightarrow> clock_op list) \<Rightarrow> (rat \<Rightarrow> clock_op list) \<Rightarrow> nat \<Rightarrow> metro \<times> rat list \<Rightarrow> sched \<Rightarrow>
    ((metro \<times> rat list) \<times> sched) option" where
  "metro_patch other down c w s =
     (if c = m_clock (fst w) then
        map_option (\<lambda>(x, s'). ((x, snd w @ [systime s]), s'))
          (metro_tick (\<lambda>(x, s1). map_option (Pair x) (clock_ops (down (systime s)) s1)) (fst w, s))
      else map_option (Pair w) (clock_ops (other c (systime s)) s))"

text \<open>The requests of the others leave clock \<open>m\<close> alone; those of a tick that ends at \<open>bnd\<close> are for later.\<close>

definition leaves_alone :: "nat \<Rightarrow> (nat \<Rightarrow> rat \<Rightarrow> clock_op list) \<Rightarrow> (rat \<Rightarrow> clock_op list) \<Rightarrow> bool" where
  "leaves_alone m other down \<longleftrightarrow> (\<forall>c t. list_all (avoids m) (other c t)) \<and> (\<forall>t. list_all (avoids m) (down t))"

definition requests_later :: "rat \<Rightarrow> (nat \<Rightarrow> rat \<Rightarrow> clock_op list) \<Rightarrow> (rat \<Rightarrow> clock_op list) \<Rightarrow> bool" where
  "requests_later bnd other down \<longleftrightarrow> (\<forall>c t. list_all (later_op bnd) (other c t)) \<and> (\<forall>t. list_all (later_op bnd) (down t))"

lemma leaves_aloneD: "leaves_alone m other down \<Longrightarrow> list_all (avoids m) (other c t)"
  "leaves_alone m other down \<Longrightarrow> list_all (avoids m) (down t)"
  by (simp_all add: leaves_alone_def)

lemma requests_laterD: "requests_later bnd other down \<Longrightarrow> list_all (later_op bnd) (other c t)"
  "requests_later bnd other down \<Longrightarrow> list_all (later_op bnd) (down t)"
  by (simp_all add: requests_later_def)

definition next_bang :: "sched \<Rightarrow> metro \<Rightarrow> rat \<Rightarrow> rat" where
  "next_bang s x t = delay_until (c_unit (clocks s (m_clock x))) (dacsr s) (m_deltime x) t"

text \<open>A metro that runs: its clock is set, and the bangs so far are the iterates of its period.\<close>

definition metro_runs :: "nat \<Rightarrow> rat \<Rightarrow> (rat \<Rightarrow> rat) \<Rightarrow> rat \<Rightarrow> metro \<times> rat list \<Rightarrow> sched \<Rightarrow> bool" where
  "metro_runs m d nx t0 w s \<longleftrightarrow> clock_inv s \<and> m_clock (fst w) = m \<and> m_deltime (fst w) = d \<and> m \<in> set (setlist s) \<and>
     next_bang s (fst w) = nx \<and> snd w = map (\<lambda>k. (nx ^^ k) t0) [0..<length (snd w)] \<and>
     settime s m = (nx ^^ length (snd w)) t0"

lemma next_bang_same: "same_clock (m_clock x) s s' \<Longrightarrow> next_bang s' x = next_bang s x"
  by (simp add: next_bang_def same_clock_def fun_eq_iff)

lemma next_bang_cong: "c_unit (clocks s' (m_clock x)) = c_unit (clocks s (m_clock x)) \<Longrightarrow> dacsr s' = dacsr s \<Longrightarrow>
    next_bang s' x = next_bang s x"
  by (simp add: next_bang_def fun_eq_iff)

lemma metro_tick_alone:
  assumes "clock_inv s" "list_all (avoids (m_clock x)) as"
  shows "\<exists>s'. metro_tick (\<lambda>(x, s1). map_option (Pair x) (clock_ops as s1)) (x, s) = Some (x\<lparr>x_hit := False\<rparr>, s') \<and>
    clock_inv s' \<and> systime s' = systime s \<and> settime s' (m_clock x) = next_bang s x (systime s) \<and> next_bang s' x = next_bang s x \<and>
    (\<exists>s1. clock_ops as s = Some s1 \<and> settime s' = (settime s1)(m_clock x := next_bang s x (systime s)))"
proof -
  obtain s1 where s1: "clock_ops as s = Some s1" "clock_inv s1" "systime s1 = systime s" "same_clock (m_clock x) s s1"
    using clock_ops_inv [OF assms(1), of as] clock_ops_same [OF assms] by blast
  from clock_delay_spec [OF s1(2), of "m_clock x" "m_deltime x"] obtain s' where
    s': "clock_delay (m_clock x) (m_deltime x) s1 = Some s'" "clock_inv s'" "systime s' = systime s1" "dacsr s' = dacsr s1"
      "settime s' = (settime s1)(m_clock x := next_bang s1 x (systime s1))" "\<forall>y. c_unit (clocks s' y) = c_unit (clocks s1 y)"
    by (auto simp: next_bang_def)
  have "next_bang s' x = next_bang s1 x" using s'(4,6) by (intro next_bang_cong) auto
  with s1 s' next_bang_same [OF s1(4)] show ?thesis by (auto simp: metro_tick_def)
qed

lemma metro_runs_step:
  assumes r: "metro_runs m d nx t0 w s" and c: "setlist s = c # r" "clock_unset c (s\<lparr>systime := settime s c\<rparr>) = Some s1"
    and q: "leaves_alone m other down"
  shows "\<exists>w2 s2. metro_patch other down c w s1 = Some (w2, s2) \<and> metro_runs m d nx t0 w2 s2 \<and>
    (if c = m then length (snd w2) = Suc (length (snd w)) \<and> settime s2 m = nx (settime s m) else w2 = w \<and> settime s2 m = settime s m)"
proof -
  have inv: "clock_inv s" using r by (simp add: metro_runs_def)
  from fire_inv [OF inv c(1)] c(2) have s1: "clock_inv s1" "systime s1 = settime s c" "setlist s1 = r" "settime s1 = (settime s)(c := -1)"
    by auto
  have u: "c_unit (clocks s1 y) = c_unit (clocks s y)" "dacsr s1 = dacsr s" for y
    using clock_unset_units [OF c(2), of y] by simp_all
  then have nb: "next_bang s1 (fst w) = nx" using r next_bang_cong [of s1 "fst w" s] by (simp add: metro_runs_def)
  show ?thesis
  proof (cases "c = m")
    case True
    define t where "t = settime s m"
    have t: "t = (nx ^^ length (snd w)) t0" using r by (simp add: metro_runs_def t_def)
    have "m_clock (fst w) = m" using r by (simp add: metro_runs_def)
    with metro_tick_alone [OF s1(1), of "fst w" "down (systime s1)"] leaves_aloneD(2) [OF q] nb True s1(2) obtain s2 where
      s2: "metro_tick (\<lambda>(x, s'). map_option (Pair x) (clock_ops (down (systime s1)) s')) (fst w, s1) = Some ((fst w)\<lparr>x_hit := False\<rparr>, s2)"
        "clock_inv s2" "settime s2 m = nx t" "next_bang s2 (fst w) = nx" unfolding t_def by auto
    have "0 \<le> t" using inv c(1) True by (auto simp: t_def clock_inv_def)
    moreover have "t \<le> nx t" using nb by (auto simp: next_bang_def delay_until_def)
    ultimately have "m \<in> set (setlist s2)" using s2(2,3) by (auto simp: clock_inv_def)
    moreover have "next_bang s2 ((fst w)\<lparr>x_hit := False\<rparr>) = nx" using s2(4) by (simp add: next_bang_def fun_eq_iff)
    ultimately show ?thesis
      using True s2 r s1(2) t by (auto simp: metro_patch_def metro_runs_def t_def)
  next
    case False
    obtain s2 where s2: "clock_ops (other c (systime s1)) s1 = Some s2" "clock_inv s2" "same_clock m s1 s2"
      using clock_ops_inv [OF s1(1), of "other c (systime s1)"] clock_ops_same [OF s1(1) leaves_aloneD(1) [OF q]] by blast
    have "0 \<le> settime s2 m" using s2(3) s1(4) False r inv by (auto simp: same_clock_def metro_runs_def clock_inv_def)
    then have "m \<in> set (setlist s2)" using s2(2) by (simp add: clock_inv_def)
    with False s2 r s1 next_bang_same [of "fst w" s1 s2] nb show ?thesis
      by (auto simp: metro_patch_def metro_runs_def same_clock_def)
  qed
qed

lemma end_of_tick:
  assumes "clock_inv s" "setlist s = [] \<or> bnd \<le> settime s (hd (setlist s))" "0 \<le> bnd"
  shows "clock_inv (s\<lparr>systime := bnd\<rparr>)"
  using assms by (cases "setlist s") (auto simp: clock_inv_def)

lemma next_systime_nonneg: "clock_inv s \<Longrightarrow> 0 < dacsr s \<Longrightarrow> 0 \<le> next_systime blocksize s"
  unfolding next_systime_def clock_inv_def
  by (intro rd_nonneg add_nonneg_nonneg mult_nonneg_nonneg rs_nonneg) (auto simp: TIMEUNITPERSECOND_def)

lemma metro_runs_inv: "metro_runs m d nx t0 w s \<Longrightarrow> clock_inv s"
  by (simp add: metro_runs_def)

text \<open>The rate the patch runs at does not change: requests do not touch it.\<close>

definition metro_at :: "nat \<Rightarrow> rat \<Rightarrow> (rat \<Rightarrow> rat) \<Rightarrow> rat \<Rightarrow> rat \<Rightarrow> metro \<times> rat list \<Rightarrow> sched \<Rightarrow> bool" where
  "metro_at m d nx t0 sr w s \<longleftrightarrow> metro_runs m d nx t0 w s \<and> dacsr s = sr"

lemma delay_dacsr: "clock_delay x d s = Some s' \<Longrightarrow> dacsr s' = dacsr s"
  using clock_set_units by (auto simp: clock_delay_def Let_def)

lemma clock_ops_dacsr: "clock_inv s \<Longrightarrow> list_all (avoids m) as \<Longrightarrow> clock_ops as s = Some s' \<Longrightarrow> dacsr s' = dacsr s"
  using clock_ops_same [of s m as s'] by (simp add: same_clock_def)

lemma metro_at_step:
  assumes r: "metro_at m d nx t0 sr w s" and c: "setlist s = c # r" "clock_unset c (s\<lparr>systime := settime s c\<rparr>) = Some s1"
    and q: "leaves_alone m other down"
    and e: "metro_patch other down c w s1 = Some (w2, s2)"
  shows "metro_at m d nx t0 sr w2 s2"
proof -
  have inv: "clock_inv s" using r by (simp add: metro_at_def metro_runs_def)
  from fire_inv [OF inv c(1)] c(2) have s1: "clock_inv s1" by auto
  have d1: "dacsr s1 = sr" using clock_unset_units [OF c(2)] r by (simp add: metro_at_def)
  have "dacsr s2 = dacsr s1"
    using e clock_ops_dacsr [OF s1 leaves_aloneD(1) [OF q]] clock_ops_dacsr [OF s1 leaves_aloneD(2) [OF q]]
    by (auto simp: metro_patch_def metro_tick_def bind_eq_Some_conv dest!: delay_dacsr split: if_splits)
  with metro_runs_step [of m d nx t0 w s c r s1 other down, OF _ c q] r e d1 show ?thesis by (auto simp: metro_at_def)
qed

lemma metro_at_ticks:
  assumes q: "leaves_alone m other down" and "0 < sr"
  shows "metro_at m d nx t0 sr w s \<Longrightarrow> ticks (metro_patch other down) blocksize n w s = Some (w', s') \<Longrightarrow>
    metro_at m d nx t0 sr w' s'"
proof (induction n arbitrary: w s)
  case (Suc n)
  define bnd where "bnd = next_systime blocksize s"
  from Suc.prems(2) obtain w1 s1 where r: "run_clocks (metro_patch other down) bnd w s = Some (w1, s1)"
    "ticks (metro_patch other down) blocksize n w1 (s1\<lparr>systime := bnd\<rparr>) = Some (w', s')"
    by (auto simp: tick_clocks_def bnd_def bind_eq_Some_conv)
  have "metro_at m d nx t0 sr w1 s1 \<and> (setlist s1 = [] \<or> bnd \<le> settime s1 (hd (setlist s1)))"
    by (rule run_clocks_inv [where I = "metro_at m d nx t0 sr", OF r(1) Suc.prems(1)]) (rule metro_at_step [OF _ _ _ q])
  moreover have "0 \<le> bnd" using Suc.prems(1) assms(2) next_systime_nonneg [of s] by (simp add: bnd_def metro_at_def metro_runs_def)
  ultimately have "metro_at m d nx t0 sr w1 (s1\<lparr>systime := bnd\<rparr>)"
    using end_of_tick [of s1 bnd] next_bang_cong [of "s1\<lparr>systime := bnd\<rparr>" "fst w1" s1] by (simp add: metro_at_def metro_runs_def)
  from Suc.IH [OF this r(2)] show ?case .
qed simp

text \<open>A metro is steady: over any number of ticks its bangs come at the iterates of its period from
  the first one, whatever the other objects and those its bangs reach do with their own clocks.\<close>

theorem metro_steady:
  assumes "clock_inv s" "0 < dacsr s" "m_clock x \<in> set (setlist s)"
    and "leaves_alone (m_clock x) other down"
    and "ticks (metro_patch other down) blocksize n (x, []) s = Some ((x', bangs), s')"
  shows "bangs = map (\<lambda>k. (next_bang s x ^^ k) (settime s (m_clock x))) [0..<length bangs] \<and>
    settime s' (m_clock x) = (next_bang s x ^^ length bangs) (settime s (m_clock x)) \<and> systime s' \<le> settime s' (m_clock x)"
proof -
  have "metro_at (m_clock x) (m_deltime x) (next_bang s x) (settime s (m_clock x)) (dacsr s) (x, []) s"
    using assms(1,3) by (simp add: metro_at_def metro_runs_def)
  from metro_at_ticks [OF assms(4,2) this assms(5)] show ?thesis
    by (auto simp: metro_at_def metro_runs_def clock_inv_def)
qed

section \<open>No drift, and a period too short\<close>

lemma due_set: "clock_inv s \<Longrightarrow> set (due bnd s) = {y. 0 \<le> settime s y \<and> settime s y < bnd}"
  by (auto simp: due_def clock_inv_def)

text \<open>What is due of the other clocks shrinks when requests are for later ticks.\<close>

lemma metro_due:
  assumes r: "metro_runs m d nx t0 w s" and c: "setlist s = c # r" "clock_unset c (s\<lparr>systime := settime s c\<rparr>) = Some s1"
    and q: "leaves_alone m other down" and l: "requests_later bnd other down"
    and e: "metro_patch other down c w s1 = Some (w2, s2)"
  shows "set (due bnd s2) - {m} \<subseteq> set (due bnd s) - {m} - {c}"
proof -
  have inv: "clock_inv s" and m: "m_clock (fst w) = m" using r by (simp_all add: metro_runs_def)
  from fire_inv [OF inv c(1)] c(2) have s1: "clock_inv s1" "settime s1 = (settime s)(c := -1)" by auto
  have "metro_runs m d nx t0 w2 s2" using metro_runs_step [OF r c q] e by auto
  then have s2: "clock_inv s2" by (simp add: metro_runs_def)
  show ?thesis
  proof (cases "c = m")
    case True
    from metro_tick_alone [OF s1(1), of "fst w" "down (systime s1)"] leaves_aloneD(2) [OF q] m obtain s1' s2' where
      t: "metro_tick (\<lambda>(x, s'). map_option (Pair x) (clock_ops (down (systime s1)) s')) (fst w, s1) = Some ((fst w)\<lparr>x_hit := False\<rparr>, s2')"
        "clock_ops (down (systime s1)) s1 = Some s1'" "settime s2' = (settime s1')(m := next_bang s1 (fst w) (systime s1))" by auto
    have [simp]: "s2' = s2" using e t(1) True m by (auto simp: metro_patch_def)
    have "clock_inv s1'" using clock_ops_inv [OF s1(1), of "down (systime s1)"] t(2) by auto
    with later_ops_due [OF s1(1) requests_laterD(2) [OF l] t(2)] t(3) s1 s2 inv True show ?thesis
      by (auto simp: due_set split: if_splits)
  next
    case False
    then have o: "clock_ops (other c (systime s1)) s1 = Some s2" using e m by (auto simp: metro_patch_def)
    from later_ops_due [OF s1(1) requests_laterD(1) [OF l] o] s1 s2 inv show ?thesis by (auto simp: due_set split: if_splits)
  qed
qed

lemma next_bang_exact:
  assumes "0 < c_unit (clocks s (m_clock x))" "rd (c_unit (clocks s (m_clock x)) * m_deltime x) = of_nat q" "t + q < 2 ^ 53"
  shows "next_bang s x (of_nat t) = of_nat (t + q)"
  using assms rd_nat [of "t + q"] by (simp add: next_bang_def delay_until_def)

lemma next_bang_iter:
  assumes "0 < c_unit (clocks s (m_clock x))" "rd (c_unit (clocks s (m_clock x)) * m_deltime x) = of_nat q"
  shows "a + k * q < 2 ^ 53 \<Longrightarrow> (next_bang s x ^^ k) (of_nat a) = of_nat (a + k * q)"
proof (induction k)
  case (Suc k)
  then have "(next_bang s x ^^ k) (of_nat a) = of_nat (a + k * q)" by simp
  with next_bang_exact [OF assms, of "a + k * q"] Suc.prems show ?case by (simp add: ac_simps)
qed simp

lemma head_first: "clock_inv s \<Longrightarrow> x \<in> set (setlist s) \<Longrightarrow> setlist s \<noteq> [] \<and> settime s (hd (setlist s)) \<le> settime s x"
  unfolding clock_inv_def by (cases "setlist s") (simp_all del: not_le, metis order_refl)

text \<open>A metro started at \<open>a\<close> with period \<open>q\<close>, in the middle of a tick: all bangs so far were due in it.\<close>

definition metro_in_tick :: "nat \<Rightarrow> rat \<Rightarrow> (rat \<Rightarrow> rat) \<Rightarrow> nat \<Rightarrow> nat \<Rightarrow> rat \<Rightarrow> metro \<times> rat list \<Rightarrow> sched \<Rightarrow> bool" where
  "metro_in_tick m d nx a q bnd w s \<longleftrightarrow> metro_runs m d nx (of_nat a) w s \<and> a + length (snd w) * q < 2 ^ 53 \<and>
     settime s m = of_nat (a + length (snd w) * q) \<and>
     (length (snd w) = 0 \<or> of_nat (a + (length (snd w) - 1) * q) < bnd)"

text \<open>The calls the tick still makes are at most the clocks due and the bangs left.\<close>

definition calls_left :: "nat \<Rightarrow> nat \<Rightarrow> nat \<Rightarrow> rat \<Rightarrow> metro \<times> rat list \<Rightarrow> sched \<Rightarrow> nat" where
  "calls_left m a q bnd w s = card (set (due bnd s) - {m}) + (nat \<lceil>bnd\<rceil> - (a + length (snd w) * q))"

lemma below_2_53:
  fixes bnd :: rat
  assumes "bnd + of_nat q \<le> 2 ^ 53" "of_nat t < bnd" shows "t + q < 2 ^ 53"
proof -
  have "(of_nat (t + q) :: rat) < of_nat (2 ^ 53)" using assms by (simp add: of_nat_power)
  then show ?thesis by (simp only: of_nat_less_iff)
qed

lemma metro_in_tick_step:
  assumes I: "metro_in_tick m d nx a q bnd w s" and c: "setlist s = c # r" "settime s c < bnd"
    and ex: "\<And>t. t + q < 2 ^ 53 \<Longrightarrow> nx (of_nat t) = of_nat (t + q)" and q: "0 < q" "bnd + of_nat q \<le> 2 ^ 53"
    and al: "leaves_alone m other down" and l: "requests_later bnd other down"
  shows "\<exists>s1 w2 s2. clock_unset c (s\<lparr>systime := settime s c\<rparr>) = Some s1 \<and> metro_patch other down c w s1 = Some (w2, s2) \<and>
    metro_in_tick m d nx a q bnd w2 s2 \<and> calls_left m a q bnd w2 s2 < calls_left m a q bnd w s"
proof -
  have r: "metro_runs m d nx (of_nat a) w s" using I by (simp add: metro_in_tick_def)
  then have inv: "clock_inv s" by (rule metro_runs_inv)
  obtain s1 where s1: "clock_unset c (s\<lparr>systime := settime s c\<rparr>) = Some s1" using fire_inv [OF inv c(1)] by blast
  from metro_runs_step [OF r c(1) s1 al] obtain w2 s2 where
    n: "metro_patch other down c w s1 = Some (w2, s2)" "metro_runs m d nx (of_nat a) w2 s2"
      "if c = m then length (snd w2) = Suc (length (snd w)) \<and> settime s2 m = nx (settime s m) else w2 = w \<and> settime s2 m = settime s m"
    by blast
  note du = metro_due [OF r c(1) s1 al l n(1)]
  have cd: "c \<in> set (due bnd s)" using c by (simp add: due_def)
  have "metro_in_tick m d nx a q bnd w2 s2 \<and> calls_left m a q bnd w2 s2 < calls_left m a q bnd w s"
  proof (cases "c = m")
    case True
    define t where "t = a + length (snd w) * q"
    have t: "of_nat t < bnd" using I c(2) True by (simp add: metro_in_tick_def t_def)
    note lt = below_2_53 [OF q(2) t]
    have st: "settime s m = of_nat t" using I by (simp add: metro_in_tick_def t_def)
    have len: "length (snd w2) = Suc (length (snd w))" and at: "settime s2 m = of_nat (t + q)"
      using n(3) True ex [OF lt] st by simp_all
    have w2: "a + length (snd w2) * q = t + q" "a + (length (snd w2) - 1) * q = t" using len by (simp_all add: t_def)
    have "metro_in_tick m d nx a q bnd w2 s2" using n(2) at lt t unfolding metro_in_tick_def w2 by simp
    moreover have "t < nat \<lceil>bnd\<rceil>" using t by linarith
    moreover have "card (set (due bnd s2) - {m}) \<le> card (set (due bnd s) - {m})" using du by (intro card_mono) auto
    ultimately show ?thesis using q(1) unfolding calls_left_def w2 t_def [symmetric] by simp
  next
    case False
    have "set (due bnd s2) - {m} \<subset> set (due bnd s) - {m}" using du False cd by blast
    then have "card (set (due bnd s2) - {m}) < card (set (due bnd s) - {m})" by (intro psubset_card_mono) auto
    with I n False show ?thesis by (simp add: metro_in_tick_def calls_left_def)
  qed
  with s1 n(1) show ?thesis by blast
qed

lemma metro_run_exact:
  assumes "clock_inv s" "m_clock x \<in> set (setlist s)" "settime s (m_clock x) = of_nat a"
    and "0 < c_unit (clocks s (m_clock x))" "rd (c_unit (clocks s (m_clock x)) * m_deltime x) = of_nat q" "0 < q"
    and "bnd + of_nat q \<le> 2 ^ 53" "of_nat a \<le> bnd"
    and "leaves_alone (m_clock x) other down" "requests_later bnd other down"
  shows "\<exists>n x' s'. run_clocks (metro_patch other down) bnd (x, []) s = Some ((x', map (\<lambda>k. of_nat (a + k * q)) [0..<n]), s') \<and>
    (n = 0 \<or> of_nat (a + (n - 1) * q) < bnd) \<and> bnd \<le> of_nat (a + n * q) \<and> settime s' (m_clock x) = of_nat (a + n * q)"
proof -
  define m where "m = m_clock x"
  define nx where "nx = next_bang s x"
  note ex = next_bang_exact [OF assms(4,5), folded nx_def] and it = next_bang_iter [OF assms(4,5), folded nx_def, of a]
  have "(of_nat a :: rat) < of_nat (2 ^ 53)" using assms(6-8) by (simp add: of_nat_power)
  then have "a < 2 ^ 53" by (simp only: of_nat_less_iff)
  then have "metro_in_tick m (m_deltime x) nx a q bnd (x, []) s"
    using assms(1-3) by (simp add: metro_in_tick_def metro_runs_def m_def nx_def)
  then have "\<exists>w' s'. run_clocks (metro_patch other down) bnd (x, []) s = Some (w', s') \<and>
      metro_in_tick m (m_deltime x) nx a q bnd w' s' \<and> (setlist s' = [] \<or> bnd \<le> settime s' (hd (setlist s')))"
    by (rule run_clocks_returns [where I = "metro_in_tick m (m_deltime x) nx a q bnd" and \<mu> = "calls_left m a q bnd"])
      (rule metro_in_tick_step [OF _ _ _ ex assms(6,7) assms(9) [folded m_def] assms(10)])
  then obtain w s' where
    f: "run_clocks (metro_patch other down) bnd (x, []) s = Some (w, s')" "metro_in_tick m (m_deltime x) nx a q bnd w s'"
      "setlist s' = [] \<or> bnd \<le> settime s' (hd (setlist s'))" by blast
  define n where "n = length (snd w)"
  have r: "clock_inv s'" "m \<in> set (setlist s')" "snd w = map (\<lambda>k. (nx ^^ k) (of_nat a)) [0..<n]"
    using f(2) by (auto simp: metro_in_tick_def metro_runs_def n_def)
  have lim: "a + k * q < 2 ^ 53" if "k < n" for k
  proof -
    have "a + k * q \<le> a + n * q" using that by simp
    also have "\<dots> < 2 ^ 53" using f(2) by (simp only: metro_in_tick_def n_def)
    finally show ?thesis .
  qed
  have "snd w = map (\<lambda>k. of_nat (a + k * q)) [0..<n]" unfolding r(3) by (rule map_cong [OF refl], rule it, rule lim) simp
  moreover have "bnd \<le> settime s' m" using head_first [OF r(1,2)] f(3) by auto
  ultimately show ?thesis using f(1,2) unfolding m_def [symmetric]
    by (intro exI [of _ n] exI [of _ "fst w"] exI [of _ s']) (cases w, auto simp: metro_in_tick_def n_def)
qed

text \<open>C10: a metro whose period is a whole number of time units does not drift: its bangs come at exactly the
  multiples of the period, every one that is due before the end of the tick, and the tick returns.\<close>

theorem metro_exact:
  assumes "clock_inv s" "m_clock x \<in> set (setlist s)" "settime s (m_clock x) = of_nat a"
    and "0 < c_unit (clocks s (m_clock x))" "rd (c_unit (clocks s (m_clock x)) * m_deltime x) = of_nat q" "0 < q"
    and "bnd + of_nat q \<le> 2 ^ 53" "of_nat a \<le> bnd"
    and "leaves_alone (m_clock x) other down" "requests_later bnd other down"
  shows "\<exists>n x' s'. run_clocks (metro_patch other down) bnd (x, []) s = Some ((x', map (\<lambda>k. of_nat (a + k * q)) [0..<n]), s') \<and>
    (n = 0 \<or> of_nat (a + (n - 1) * q) < bnd) \<and> bnd \<le> of_nat (a + n * q) \<and> settime s' (m_clock x) = of_nat (a + n * q)"
  using assms by (rule metro_run_exact)

text \<open>The first \<open>n\<close> calls of the loop; \<open>None\<close> also when there are not as many.\<close>

fun clock_calls ::
  "(nat \<Rightarrow> 'w \<Rightarrow> sched \<Rightarrow> ('w \<times> sched) option) \<Rightarrow> rat \<Rightarrow> nat \<Rightarrow> 'w \<Rightarrow> sched \<Rightarrow> ('w \<times> sched) option" where
  "clock_calls fn bnd 0 w s = Some (w, s)"
| "clock_calls fn bnd (Suc n) w s =
     (case setlist s of
        [] \<Rightarrow> None
      | c # _ \<Rightarrow>
          if settime s c < bnd then
            Option.bind (clock_unset c (s\<lparr>systime := settime s c\<rparr>))
              (\<lambda>s1. Option.bind (fn c w s1) (\<lambda>(w', s2). clock_calls fn bnd n w' s2))
          else None)"

lemma run_clocks_forever:
  assumes "I w s" and step: "\<And>w s. I w s \<Longrightarrow> \<exists>c r s1 w2 s2. setlist s = c # r \<and> settime s c < bnd \<and>
      clock_unset c (s\<lparr>systime := settime s c\<rparr>) = Some s1 \<and> fn c w s1 = Some (w2, s2) \<and> I w2 s2"
  shows "run_clocks fn bnd w s = None" "\<exists>w' s'. clock_calls fn bnd n w s = Some (w', s')"
proof -
  show "run_clocks fn bnd w s = None"
  proof (rule run_clocks_diverges [where I = I, OF assms(1)])
    fix w s assume "I w s"
    from step [OF this] show "setlist s \<noteq> [] \<and> settime s (hd (setlist s)) < bnd" by auto
  next
    fix c r w s s1 w2 s2
    assume "I w s" "setlist s = c # r" "clock_unset c (s\<lparr>systime := settime s c\<rparr>) = Some s1" "fn c w s1 = Some (w2, s2)"
    with step [OF this(1)] show "I w2 s2" by auto
  qed
  show "\<exists>w' s'. clock_calls fn bnd n w s = Some (w', s')"
    using assms(1)
  proof (induction n arbitrary: w s)
    case (Suc n)
    from step [OF Suc.prems] Suc.IH show ?case by fastforce
  qed simp
qed

text \<open>A metro whose period is below the resolution of the clock hangs the program: the tick never returns,
  as the next bang is always due at the same time, and calls clocks without end.\<close>

theorem metro_hangs:
  assumes "clock_inv s" "m_clock x \<in> set (setlist s)" "settime s (m_clock x) < bnd"
    and "next_bang s x (settime s (m_clock x)) = settime s (m_clock x)" "leaves_alone (m_clock x) other down"
  shows "run_clocks (metro_patch other down) bnd (x, []) s = None \<and>
    (\<exists>w' s'. clock_calls (metro_patch other down) bnd n (x, []) s = Some (w', s'))"
proof -
  define nx where "nx = next_bang s x"
  define I where "I = metro_runs (m_clock x) (m_deltime x) nx (settime s (m_clock x))"
  have st: "(nx ^^ k) (settime s (m_clock x)) = settime s (m_clock x)" for k
    using assms(4) by (induction k) (simp_all add: nx_def)
  have "I (x, []) s" using assms(1,2) by (simp add: I_def metro_runs_def nx_def)
  moreover have "\<exists>c r s1 w2 s2. setlist s' = c # r \<and> settime s' c < bnd \<and> clock_unset c (s'\<lparr>systime := settime s' c\<rparr>) = Some s1 \<and>
      metro_patch other down c w s1 = Some (w2, s2) \<and> I w2 s2" if r: "I w s'" for w s'
  proof -
    have m: "m_clock x \<in> set (setlist s')" "settime s' (m_clock x) < bnd" "clock_inv s'"
      using r assms(3) by (simp_all add: I_def metro_runs_def st)
    from head_first [OF m(3,1)] m(2) obtain c k where c: "setlist s' = c # k" "settime s' c < bnd" by (cases "setlist s'") auto
    from fire_inv [OF m(3) c(1)] obtain s1 where s1: "clock_unset c (s'\<lparr>systime := settime s' c\<rparr>) = Some s1" by blast
    from metro_runs_step [OF r [unfolded I_def] c(1) s1 assms(5)] c s1 show ?thesis unfolding I_def by blast
  qed
  ultimately show ?thesis
    using run_clocks_forever(1) [of I "(x, [])" s bnd] run_clocks_forever(2) [of I "(x, [])" s bnd _ n] by simp
qed

section \<open>Messages sent back to a metro\<close>

text \<open>
  What the objects a bang reaches send back to the metro, and what they do when those messages make it
  send bangs again; \<open>M_other\<close> are requests for other clocks.
\<close>

datatype metro_msg = M_bang | M_float rat | M_stop | M_ft1 rat | M_tempo symbol rat | M_other clock_op

datatype reaction = React "(metro_msg \<times> reaction) list"

definition metro_do :: "metro_msg \<Rightarrow> (metro \<times> sched \<Rightarrow> (metro \<times> sched) option) \<Rightarrow> metro \<times> sched \<Rightarrow> (metro \<times> sched) option" where
  "metro_do msg out w =
     (case msg of
        M_bang \<Rightarrow> metro_bang out w
      | M_float f \<Rightarrow> metro_float out f w
      | M_stop \<Rightarrow> metro_stop w
      | M_ft1 g \<Rightarrow> Some (metro_ft1 g (fst w), snd w)
      | M_tempo u t \<Rightarrow> map_option (Pair (fst w)) (metro_tempo u t (fst w) (snd w))
      | M_other a \<Rightarrow> map_option (Pair (fst w)) (exec_op a (snd w)))"

fun react :: "reaction \<Rightarrow> metro \<times> sched \<Rightarrow> (metro \<times> sched) option"
  and reacts :: "(metro_msg \<times> reaction) list \<Rightarrow> metro \<times> sched \<Rightarrow> (metro \<times> sched) option" where
  "react (React ms) = reacts ms"
| "reacts [] = Some"
| "reacts ((msg, r) # ms) = (\<lambda>w. Option.bind (metro_do msg (react r) w) (reacts ms))"

text \<open>Whether the metro runs after its bang: the last message that starts or stops it decides.\<close>

fun running :: "reaction \<Rightarrow> bool" and running_after :: "(metro_msg \<times> reaction) list \<Rightarrow> bool \<Rightarrow> bool" where
  "running (React ms) = running_after ms True"
| "running_after [] b = b"
| "running_after ((msg, r) # ms) b =
     running_after ms (case msg of M_bang \<Rightarrow> running r | M_float f \<Rightarrow> f \<noteq> 0 \<and> running r | M_stop \<Rightarrow> False | _ \<Rightarrow> b)"

fun hits :: "metro_msg \<Rightarrow> bool" where
  "hits M_bang = True"
| "hits (M_float f) = True"
| "hits M_stop = True"
| "hits _ = False"

fun reaction_avoids :: "nat \<Rightarrow> reaction \<Rightarrow> bool" and reactions_avoid :: "nat \<Rightarrow> (metro_msg \<times> reaction) list \<Rightarrow> bool" where
  "reaction_avoids m (React ms) = reactions_avoid m ms"
| "reactions_avoid m [] = True"
| "reactions_avoid m ((msg, r) # ms) \<longleftrightarrow>
     (case msg of M_other a \<Rightarrow> avoids m a | _ \<Rightarrow> True) \<and> reaction_avoids m r \<and> reactions_avoid m ms"

text \<open>A state of the metro that a message leaves: its clock is set or not, and it has been started or stopped.\<close>

definition metro_left :: "metro \<Rightarrow> sched \<Rightarrow> bool \<Rightarrow> bool \<Rightarrow> metro \<times> sched \<Rightarrow> bool" where
  "metro_left x s hit st w \<longleftrightarrow> clock_inv (snd w) \<and> systime (snd w) = systime s \<and> m_clock (fst w) = m_clock x \<and>
     x_hit (fst w) = hit \<and> (0 \<le> settime (snd w) (m_clock x) \<longleftrightarrow> st)"

lemma setunit_left:
  assumes "clock_inv s"
  shows "\<exists>s'. clock_setunit x u b s = Some s' \<and> clock_inv s' \<and> systime s' = systime s \<and> (0 \<le> settime s' x \<longleftrightarrow> 0 \<le> settime s x)"
proof -
  define s1 where "s1 v = s\<lparr>clocks := (clocks s)(x := (clocks s x)\<lparr>c_unit := v\<rparr>)\<rparr>" for v
  have s1: "clock_inv (s1 v)" "systime (s1 v) = systime s" "settime (s1 v) = settime s" for v
    using assms(1) by (auto simp: s1_def clock_inv_unit settime_def fun_eq_iff)
  have 0: "0 \<le> systime s" using assms by (simp add: clock_inv_def)
  have d: "\<exists>s'. clock_delay x d (s1 v) = Some s' \<and> clock_inv s' \<and> systime s' = systime s \<and> 0 \<le> settime s' x" for v d
    using clock_delay_spec [OF s1(1), of x d v] 0 by (auto simp: s1 delay_until_def max_def)
  show ?thesis using s1 d assms unfolding clock_setunit_def Let_def s1_def [symmetric]
    by (auto split: if_splits)
qed

lemma metro_do_left:
  assumes w: "metro_left x s hit st w" and out: "\<And>w' hit' st'. metro_left x s hit' st' w' \<Longrightarrow> 
      \<exists>w2 h. out w' = Some w2 \<and> metro_left x s (hit' \<or> h) (if h then after else st') w2 \<and> (h \<or> after)"
    and a: "case msg of M_other a \<Rightarrow> avoids (m_clock x) a | _ \<Rightarrow> True"
  shows "\<exists>w2. metro_do msg out w = Some w2 \<and>
    metro_left x s (hit \<or> hits msg) (case msg of M_bang \<Rightarrow> after | M_float f \<Rightarrow> f \<noteq> 0 \<and> after | M_stop \<Rightarrow> False | _ \<Rightarrow> st) w2"
proof -
  have inv: "clock_inv (snd w)" "m_clock (fst w) = m_clock x" "systime (snd w) = systime s" using w by (simp_all add: metro_left_def)
  have tick: "\<exists>w2. metro_tick out w = Some w2 \<and> (\<exists>h. metro_left x s h after w2)"
  proof -
    have "metro_left x s False st ((fst w)\<lparr>x_hit := False\<rparr>, snd w)" using w by (simp add: metro_left_def)
    from out [OF this] obtain x2 s2 h where o: "out ((fst w)\<lparr>x_hit := False\<rparr>, snd w) = Some (x2, s2)"
      "metro_left x s h (if h then after else st) (x2, s2)" "h \<or> after" by auto
    show ?thesis
    proof (cases h)
      case True
      with o show ?thesis by (auto simp: metro_tick_def metro_left_def)
    next
      case False
      have s2: "clock_inv s2" "m_clock x2 = m_clock x" "systime s2 = systime s" "\<not> x_hit x2" "after"
        using o(2,3) False by (simp_all add: metro_left_def)
      from s2 have "0 \<le> systime s" by (metis clock_inv_def)
      with clock_delay_spec [OF s2(1), of "m_clock x" "m_deltime x2"] s2 o(1) show ?thesis
        by (auto simp: metro_tick_def metro_left_def delay_until_def max_def)
    qed
  qed
  then have start: "\<exists>w2. metro_float out f w = Some w2 \<and> metro_left x s True after w2" if "f \<noteq> 0" for f
    using that by (auto simp: metro_float_def metro_left_def)
  have stop: "\<exists>w2. metro_float g 0 w = Some w2 \<and> metro_left x s True False w2" for g
    using clock_unset_spec [OF inv(1), of "m_clock x"] inv by (auto simp: metro_float_def metro_left_def)
  show ?thesis
  proof (cases msg)
    case (M_tempo u t)
    show ?thesis using setunit_left [OF inv(1), of "m_clock x"] inv w M_tempo
      by (auto simp: metro_do_def metro_tempo_def set_tempo_def metro_left_def split: prod.split)
  next
    case (M_other b)
    with a exec_op_inv [OF inv(1), of b] exec_op_same [OF inv(1), of "m_clock x" b] inv w show ?thesis
      by (auto simp: metro_do_def metro_left_def same_clock_def)
  next
    case (M_float f)
    with start [of f] stop show ?thesis by (cases "f = 0") (auto simp: metro_do_def)
  next
    case M_bang
    with start [of 1] show ?thesis by (simp add: metro_do_def metro_bang_def)
  next
    case M_stop
    with stop show ?thesis by (simp add: metro_do_def metro_stop_def)
  qed (use w in \<open>auto simp: metro_do_def metro_ft1_def metro_left_def\<close>)
qed

lemma running_after_no_hit: "\<not> (\<exists>p\<in>set ms. hits (fst p)) \<Longrightarrow> running_after ms b = b"
  by (induction ms arbitrary: b) (auto split: metro_msg.splits)

lemma running_after_hit: "\<exists>p\<in>set ms. hits (fst p) \<Longrightarrow> running_after ms b = running_after ms b'"
proof (induction ms arbitrary: b b')
  case (Cons p ms)
  obtain msg r where p: "p = (msg, r)" by (cases p)
  show ?case
  proof (cases "\<exists>p\<in>set ms. hits (fst p)")
    case True
    then show ?thesis unfolding p running_after.simps by (rule Cons.IH)
  next
    case False
    then have "hits msg" using Cons.prems p by simp
    then show ?thesis unfolding p by (cases msg) simp_all
  qed
qed simp

lemma react_left:
  "metro_left x s hit st w \<Longrightarrow> reaction_avoids (m_clock x) r \<Longrightarrow>
    \<exists>w2 h. react r w = Some w2 \<and> metro_left x s (hit \<or> h) (if h then running r else st) w2 \<and> (h \<or> running r)"
  and reacts_left: "metro_left x s hit st w \<Longrightarrow> reactions_avoid (m_clock x) ms \<Longrightarrow>
    \<exists>w2. reacts ms w = Some w2 \<and> metro_left x s (hit \<or> (\<exists>p\<in>set ms. hits (fst p))) (running_after ms st) w2"
proof (induction r and ms arbitrary: hit st w and hit st w rule: react_reacts.induct)
  case (1 ms)
  define h where "h = (\<exists>p\<in>set ms. hits (fst p))"
  from "1.IH" [OF "1.prems"(1)] "1.prems"(2) obtain w2 where
    w2: "reacts ms w = Some w2" "metro_left x s (hit \<or> h) (running_after ms st) w2" by (auto simp: h_def)
  have "running_after ms st = (if h then running (React ms) else st)" "h \<or> running (React ms)"
    using running_after_hit [of ms st True] running_after_no_hit [of ms] by (auto simp: h_def)
  with w2 show ?case by (intro exI [of _ w2] exI [of _ h]) (simp only: react.simps)
next
  case (3 msg r ms)
  have a: "case msg of M_other a \<Rightarrow> avoids (m_clock x) a | _ \<Rightarrow> True" "reaction_avoids (m_clock x) r" "reactions_avoid (m_clock x) ms"
    using "3.prems"(2) by simp_all
  from metro_do_left [OF "3.prems"(1) _ a(1), of "react r" "running r"] "3.IH"(1) [OF _ a(2)] obtain w1 where
    w1: "metro_do msg (react r) w = Some w1"
      "metro_left x s (hit \<or> hits msg) (case msg of M_bang \<Rightarrow> running r | M_float f \<Rightarrow> f \<noteq> 0 \<and> running r | M_stop \<Rightarrow> False | _ \<Rightarrow> st) w1"
    by blast
  from "3.IH"(2) [OF w1 a(3)] obtain w2 where w2: "reacts ms w1 = Some w2"
    "metro_left x s ((hit \<or> hits msg) \<or> (\<exists>p\<in>set ms. hits (fst p))) (running_after ((msg, r) # ms) st) w2"
    unfolding running_after.simps by blast
  moreover have "((hit \<or> hits msg) \<or> (\<exists>p\<in>set ms. hits (fst p))) = (hit \<or> (\<exists>p\<in>set ((msg, r) # ms). hits (fst p)))" by auto
  ultimately show ?case using w1(1) by (simp only: reacts.simps bind.bind_lunit) auto
qed simp

text \<open>C11: a bang of a metro can be answered by messages to it, and their bangs by more: the metro runs
  afterwards just when the last of the messages that start or stop it says so (and runs when there is none).
  No bang sets its clock twice, none starts a metro again that its bang has stopped.\<close>

theorem metro_feedback:
  assumes "clock_inv s" "reaction_avoids (m_clock x) r"
  shows "\<exists>x' s'. metro_tick (react r) (x, s) = Some (x', s') \<and> clock_inv s' \<and> systime s' = systime s \<and> m_clock x' = m_clock x \<and>
    (m_clock x \<in> set (setlist s') \<longleftrightarrow> running r)"
proof -
  have "metro_left x s (x_hit x) (0 \<le> settime s (m_clock x)) (x, s)" using assms(1) by (simp add: metro_left_def)
  then obtain w where w: "metro_do M_bang (react r) (x, s) = Some w" "metro_left x s True (running r) w"
    using metro_do_left [of x s "x_hit x" "0 \<le> settime s (m_clock x)" "(x, s)" "react r" "running r" M_bang] react_left [OF _ assms(2)]
    by auto
  from w(1) obtain w' where "metro_tick (react r) (x, s) = Some w'" "w = ((fst w')\<lparr>x_hit := True\<rparr>, snd w')"
    by (auto simp: metro_do_def metro_bang_def metro_float_def)
  with w(2) show ?thesis by (cases w') (auto simp: metro_left_def clock_inv_def)
qed

section \<open>Ramps\<close>

text \<open>The floats a line sends, with their times, when nothing is sent back to it.\<close>

definition line_log :: "rat \<Rightarrow> (rat \<times> rat) list line_world \<Rightarrow> (rat \<times> rat) list line_world option" where
  "line_log v w = (case w of (e, x, s) \<Rightarrow> Some (e @ [(systime s, v)], x, s))"

lemma rd_zero [simp]: "rd 0 = 0" and rs_zero [simp]: "rs 0 = 0"
  by (simp_all add: rd_def rs_def fround_def)

text \<open>\<open>stop\<close> does not freeze a line where it is: whatever it has sent since, the next ramp starts from
  the value the stopped one started from.\<close>

theorem line_stop_jumps:
  assumes "clock_inv s" "clock_inv s2" "rs (rd (x_setval x)) = x_setval x" "0 < T"
    and "rd (1 / 10 ^ 9) \<le> - clock_gettimesince (clock_getsystimeafter T s2) s2"
    and "rd (clock_getsystimeafter T s2 - systime s2) \<noteq> 0"
  shows "\<exists>x1 s1 x3 s3. line_stop x s = Some (x1, s1) \<and>
    line_float line_log f ([], line_ft1 T x1, s2) = Some ([(systime s2, x_setval x)], x3, s3) \<and>
    l_clock x \<in> set (setlist s3)"
proof -
  obtain s1 where s1: "clock_unset (l_clock x) s = Some s1" using clock_unset_spec [OF assms(1)] by blast
  define x1 where "x1 = x\<lparr>x_targetval := x_setval x\<rparr>"
  define x2 where "x2 = (line_ft1 T x1)\<lparr>x_setval := x_setval x, x_prevtime := systime s2,
    x_targettime := clock_getsystimeafter T s2, x_targetval := f\<rparr>"
  have rv: "ramp_val (line_ft1 T x1) t = x_setval x" for t using assms(3) by (simp add: ramp_val_def line_ft1_def x1_def)
  have rv2: "ramp_val x2 (systime s2) = x_setval x" using assms(3) by (simp add: ramp_val_def x2_def)
  have g: "l_clock (use_grain y) = l_clock y" "x_targettime (use_grain y) = x_targettime y" for y by (simp_all add: use_grain_def)
  have x2: "l_clock x2 = l_clock x" "x_targettime x2 = clock_getsystimeafter T s2" by (simp_all add: x2_def x1_def line_ft1_def)
  obtain s3 where s3: "clock_delay (l_clock x) (if x_grain (use_grain x2) > - clock_gettimesince (clock_getsystimeafter T s2) s2
    then - clock_gettimesince (clock_getsystimeafter T s2) s2 else x_grain (use_grain x2)) s2 = Some s3" "clock_inv s3" "systime s3 = systime s2"
    using clock_delay_inv [OF assms(2)] by blast
  have t: "line_tick line_log ([], x2, s2) = Some ([(systime s2, x_setval x)], use_grain x2, s3)"
    using assms(5) s3(1) by (simp add: line_tick_def line_log_def clock_getlogicaltime_def Let_def g x2 rv2 split: if_splits)
  define x3 where "x3 = use_grain ((use_grain x2)\<lparr>x_gotinlet := False, x_1overtimediff := rd (1 / rd (clock_getsystimeafter T s2 - systime s2))\<rparr>)"
  have l: "l_clock x3 = l_clock x" by (simp add: x3_def g x2)
  have nn: "0 \<le> delay_until u sr d (systime s3)" for u sr d
    using s3(2) by (simp add: delay_until_def clock_inv_def le_max_iff_disj)
  obtain s4 where s4: "clock_delay (l_clock x3) (if x_grain x3 > x_in1val x3 then x_in1val x3 else x_grain x3) s3 = Some s4"
    "clock_inv s4" "0 \<le> settime s4 (l_clock x)"
    using clock_delay_spec [OF s3(2), of "l_clock x3" "if x_grain x3 > x_in1val x3 then x_in1val x3 else x_grain x3"] nn l
    by auto
  have e: "x_in1val (line_ft1 T x1) = T" "x_gotinlet (line_ft1 T x1)" "x_targetval (line_ft1 T x1) = x_setval x"
    by (simp_all add: line_ft1_def x1_def)
  have "line_float line_log f ([], line_ft1 T x1, s2) = Some ([(systime s2, x_setval x)], x3\<lparr>x_gotinlet := False\<rparr>, s4)"
    using assms(4,6) t s4(1) unfolding line_float_def
    by (simp add: Let_def e rv clock_getlogicaltime_def g x2 l x2_def [symmetric] x3_def [symmetric] split: if_splits)
  moreover have "line_stop x s = Some (x1, s1)" by (simp add: line_stop_def s1 x1_def)
  moreover have "l_clock x \<in> set (setlist s4)" using s4(2,3) by (simp add: clock_inv_def)
  ultimately show ?thesis by blast
qed

section \<open>delay and timer\<close>

text \<open>The last request to a delay counts: an earlier one that is pending is forgotten.\<close>

lemma delay_float_spec:
  assumes "clock_inv s"
  shows "\<exists>s'. delay_float f x s = Some (delay_ft1 f x, s') \<and> clock_inv s' \<and> systime s' = systime s \<and>
    settime s' = (settime s)(d_clock x := delay_until (c_unit (clocks s (d_clock x))) (dacsr s) (max f 0) (systime s)) \<and>
    (\<forall>y. c_unit (clocks s' y) = c_unit (clocks s y)) \<and> dacsr s' = dacsr s"
  using clock_delay_spec [OF assms, of "d_clock x" "max f 0"]
  by (auto simp: delay_float_def delay_bang_def delay_ft1_def Let_def max_def split: if_splits)

lemma delay_last_wins:
  assumes "clock_inv s"
  shows "\<exists>x1 s1 x2 s2 s3. delay_float f x s = Some (x1, s1) \<and> delay_float g x1 s1 = Some (x2, s2) \<and>
    delay_float g x s = Some (x2, s3) \<and> settime s2 = settime s3"
proof -
  obtain s1 where s1: "delay_float f x s = Some (delay_ft1 f x, s1)" "clock_inv s1" "systime s1 = systime s" "dacsr s1 = dacsr s"
    "settime s1 = (settime s)(d_clock x := delay_until (c_unit (clocks s (d_clock x))) (dacsr s) (max f 0) (systime s))"
    "\<forall>y. c_unit (clocks s1 y) = c_unit (clocks s y)"
    using delay_float_spec [OF assms, of f x] by blast
  have x: "d_clock (delay_ft1 f x) = d_clock x" "delay_ft1 g (delay_ft1 f x) = delay_ft1 g x" by (simp_all add: delay_ft1_def)
  from delay_float_spec [OF s1(2), of g "delay_ft1 f x"] delay_float_spec [OF assms, of g x] s1 show ?thesis
    by (auto simp: x)
qed

text \<open>A new tempo keeps what a timer has counted: with the unit it had, the reading stays the sum.\<close>

lemma timer_tempo_keeps:
  assumes "rd (x_moreelapsed x + clock_gettimesincewithunits (t_settime x) (x_unit x) (x_samps x) s) = e"
  shows "timer_bang2 s (timer_tempo unitname tempo s x) = rs (rd e)"
  using assms by (simp add: timer_bang2_def timer_tempo_def clock_gettimesincewithunits_def clock_getlogicaltime_def split: prod.split)

section \<open>Witnesses\<close>

definition metro1 :: metro where "metro1 = \<lparr>m_clock = 1, m_deltime = 1, x_hit = False\<rparr>"

text \<open>What the other clocks' methods and the objects the bangs reach ask for.\<close>

definition other1 :: "nat \<Rightarrow> rat \<Rightarrow> clock_op list" where "other1 c t = [Set 2 20000000, Unset 3]"
definition down1 :: "rat \<Rightarrow> clock_op list" where "down1 t = [Set 3 30000000]"

lemma patch1: "leaves_alone 1 other1 down1" "bnd \<le> 20000000 \<Longrightarrow> requests_later bnd other1 down1"
  by (auto simp: leaves_alone_def requests_later_def other1_def down1_def)

lemma sched1_simps [simp]: "c_unit (clocks sched1 1) = 14112" "settime sched1 1 = 5" "setlist sched1 = [1]" "systime sched1 = 0" "dacsr sched1 = 44100"
  by (simp_all add: sched1_def settime_def clock_new_def TIMEUNITPERMSEC_def)

theorem metro_exact_witness:
  "\<exists>n x' s'. run_clocks (metro_patch other1 down1) 100000 (metro1, []) sched1 =
      Some ((x', map (\<lambda>k. of_nat (5 + k * 14112)) [0..<n]), s') \<and>
    (n = 0 \<or> of_nat (5 + (n - 1) * 14112) < (100000 :: rat)) \<and> (100000 :: rat) \<le> of_nat (5 + n * 14112) \<and>
    settime s' (m_clock metro1) = of_nat (5 + n * 14112)"
  by (rule metro_exact) (use sched1_inv rd_nat [of 14112] patch1 in \<open>simp_all add: metro1_def del: One_nat_def\<close>)

theorem metro_steady_witness:
  "\<exists>x' bangs s'. ticks (metro_patch other1 down1) 44100 1 (metro1, []) sched1 = Some ((x', bangs), s') \<and>
    bangs = map (\<lambda>k. (next_bang sched1 metro1 ^^ k) (settime sched1 (m_clock metro1))) [0..<length bangs] \<and> bangs \<noteq> []"
proof -
  have "\<exists>n x' s'. run_clocks (metro_patch other1 down1) 14112000 (metro1, []) sched1 =
      Some ((x', map (\<lambda>k. of_nat (5 + k * 14112)) [0..<n]), s') \<and>
    (n = 0 \<or> of_nat (5 + (n - 1) * 14112) < (14112000 :: rat)) \<and> (14112000 :: rat) \<le> of_nat (5 + n * 14112) \<and>
    settime s' (m_clock metro1) = of_nat (5 + n * 14112)"
    by (rule metro_run_exact) (use sched1_inv rd_nat [of 14112] patch1 in \<open>simp_all add: metro1_def del: One_nat_def\<close>)
  then obtain n x' s' where r: "run_clocks (metro_patch other1 down1) 14112000 (metro1, []) sched1 =
      Some ((x', map (\<lambda>k. of_nat (5 + k * 14112)) [0..<n]), s')" "(14112000 :: rat) \<le> of_nat (5 + n * 14112)" by blast
  define bangs where "bangs = map (\<lambda>k. of_nat (5 + k * 14112) :: rat) [0..<n]"
  have t: "ticks (metro_patch other1 down1) 44100 1 (metro1, []) sched1 = Some ((x', bangs), s'\<lparr>systime := 14112000\<rparr>)"
    using r(1) by (simp add: tick_clocks_def sched1_next bangs_def)
  have "n \<noteq> 0" using r(2) by (cases n) simp_all
  then have "bangs \<noteq> []" by (simp add: bangs_def)
  moreover have "bangs = map (\<lambda>k. (next_bang sched1 metro1 ^^ k) (settime sched1 (m_clock metro1))) [0..<length bangs]"
    using metro_steady [OF sched1_inv _ _ _ t] patch1(1) by (simp add: metro1_def)
  ultimately show ?thesis using t by blast
qed

text \<open>A metro of \<open>2 ^ -60\<close> units, at time 5.\<close>

definition sched3 :: sched where "sched3 = sched1\<lparr>clocks := (\<lambda>x. (clocks sched1 x)\<lparr>c_unit := 1\<rparr>)\<rparr>"

lemma sched3_inv: "clock_inv sched3"
  by (auto simp: clock_inv_def sched3_def sched1_def settime_def clock_new_def split: if_splits)

lemma floors:
  "\<lfloor>5764607523034234881 / 1152921504606846976 :: rat\<rfloor> = 5" "\<lfloor>5764607523034234881 / 1024 :: rat\<rfloor> = 5629499534213120"
  by (simp_all add: floor_eq_iff)

lemma floor_logs: "floor_log 2 (1 / 1152921504606846976) = -60" "floor_log 2 (5764607523034234881 / 1152921504606846976) = 2"
proof -
  have "nat \<lceil>1 / (1 / 1152921504606846976) :: rat\<rceil> = 1152921504606846976" by simp
  then show "floor_log 2 (1 / 1152921504606846976) = -60" "floor_log 2 (5764607523034234881 / 1152921504606846976) = 2"
    unfolding floor_log_def floors by (simp_all add: ilog.simps)
qed

lemma rd_tiny: "rd (1 / 1152921504606846976) = 1 / 1152921504606846976" "rd (5764607523034234881 / 1152921504606846976) = 5"
  unfolding rd_def fround_def floor_logs by (simp_all add: rhe_def pow_def Let_def floors)

theorem metro_hangs_witness:
  "run_clocks (metro_patch other1 down1) 100000 (metro_ft1 (1 / 1152921504606846976) metro1, []) sched3 = None \<and>
    (\<exists>w' s'. clock_calls (metro_patch other1 down1) 100000 1000 (metro_ft1 (1 / 1152921504606846976) metro1, []) sched3 = Some (w', s'))"
proof (rule metro_hangs [OF sched3_inv])
  show "next_bang sched3 (metro_ft1 (1 / 1152921504606846976) metro1) (settime sched3 (m_clock (metro_ft1 (1 / 1152921504606846976) metro1))) =
      settime sched3 (m_clock (metro_ft1 (1 / 1152921504606846976) metro1))"
    by (simp del: One_nat_def add: rd_tiny next_bang_def delay_until_def metro_ft1_def metro1_def sched3_def settime_def sched1_def)
qed (use patch1 in \<open>simp_all add: metro_ft1_def metro1_def sched3_def sched1_def settime_def\<close>)

text \<open>The bang is answered by a new rate, a stop and a start whose own bang is answered by 0.\<close>

definition answer1 :: reaction where
  "answer1 = React [(M_stop, React []), (M_ft1 7, React []), (M_bang, React [(M_other (Set 4 9), React []), (M_float 0, React [])])]"

theorem metro_feedback_witness:
  "\<exists>x' s'. metro_tick (react answer1) (metro1, sched1) = Some (x', s') \<and> clock_inv s' \<and> 1 \<notin> set (setlist s')"
  using metro_feedback [OF sched1_inv, of metro1 answer1] by (auto simp: answer1_def metro1_def)

text \<open>A line halfway from 0 to 100, stopped, and sent to 50 in a millisecond.\<close>

definition line1 :: line where
  "line1 = \<lparr>l_clock = 1, x_targettime = 28224, x_targetval = 100, x_prevtime = 0, x_setval = 0, x_gotinlet = False,
     x_grain = 20, x_1overtimediff = 1 / 28224, x_in1val = 2\<rparr>"

lemma rd_line: "rd 14112 = 14112" "rd (- 14112) = - 14112" "rd 1 = 1" "rd (- 1) = - 1" "rd (1 / 1000000000) \<le> 1"
  using rd_nat [of 14112] rd_nat [of 1] fround_nat [of 14112 53 "-1074"] fround_nat [of 1 53 "-1074"]
  by (simp_all add: rd_def, simp add: fround_def floor_log_def ilog.simps rhe_def pow_def Let_def)

theorem line_stop_jumps_witness:
  "\<exists>x1 s1 x3 s3. line_stop line1 sched1 = Some (x1, s1) \<and>
    line_float line_log 50 ([], line_ft1 1 x1, sched1) = Some ([(0, 0)], x3, s3) \<and> 1 \<in> set (setlist s3)"
proof -
  have t: "clock_getsystimeafter 1 sched1 = 14112" by (simp add: clock_getsystimeafter_def TIMEUNITPERMSEC_def rd_line)
  have m: "clock_gettimesince 14112 sched1 = - 1" by (simp add: clock_gettimesince_def TIMEUNITPERMSEC_def rd_line)
  from line_stop_jumps [OF sched1_inv sched1_inv, of line1 1 50] show ?thesis
    by (simp add: t m rd_line line1_def)
qed

end
