(* ===== verification/Hangs.thy ===== *)
theory Hangs
  imports TimeSpec
begin

text \<open>
  What pipe and makenote share: cells with a clock each, kept in a list, newest first. How the list of clocks the scheduler keeps
  relates to the cells that are pending, and what the requests of other clocks do to it.
\<close>

section \<open>Stable sorting\<close>

lemma insort_before: "f a \<le> f x \<Longrightarrow> insort_key f a (us @ x # vs) = insort_key f a us @ x # vs"
  by (induction us) auto

lemma insort_behind: "\<forall>y\<in>set us. f y < f a \<Longrightarrow> insort_key f a (us @ vs) = us @ insort_key f a vs"
  by (induction us) auto

lemma insort_key_cong: "f a = g a \<Longrightarrow> (\<And>y. y \<in> set us \<Longrightarrow> f y = g y) \<Longrightarrow> insort_key f a us = insort_key g a us"
  by (induction us) auto

lemma sort_key_cong: "(\<And>y. y \<in> set us \<Longrightarrow> f y = g y) \<Longrightarrow> sort_key f us = sort_key g us"
  by (induction us) (auto intro!: insort_key_cong)

lemma insort_key_map: "insort_key f (g a) (map g us) = map g (insort_key (\<lambda>y. f (g y)) a us)"
  by (induction us) auto

lemma sort_key_map: "sort_key f (map g us) = map g (sort_key (\<lambda>y. f (g y)) us)"
  by (induction us) (auto simp: insort_key_map)

text \<open>What comes last goes behind all that is not later.\<close>

lemma sort_key_snoc:
  "x \<notin> set l \<Longrightarrow> sort_key (f(x := t)) (l @ [x]) = [y\<leftarrow>sort_key f l. f y \<le> t] @ x # [y\<leftarrow>sort_key f l. t < f y]"
proof (induction l)
  case (Cons a l)
  define g where "g = f(x := t)"
  define us vs where "us = [y\<leftarrow>sort_key f l. f y \<le> t]" and "vs = [y\<leftarrow>sort_key f l. t < f y]"
  have ax: "g a = f a" and x: "g x = t" using Cons.prems by (auto simp: g_def)
  have eq: "g y = f y" if "y \<in> set us \<union> set vs" for y using that Cons.prems by (auto simp: g_def us_def vs_def)
  have s: "sorted (map f (sort_key f l))" by simp
  have ih: "sort_key g (l @ [x]) = us @ x # vs" using Cons.IH Cons.prems unfolding g_def us_def vs_def by (simp del: fun_upd_apply)
  show ?case
  proof (cases "f a \<le> t")
    case True
    have "insort_key g a (us @ x # vs) = insort_key g a us @ x # vs" using True ax x by (intro insort_before) simp
    also have "insort_key g a us = insort_key f a us" using ax eq by (intro insort_key_cong) auto
    finally show ?thesis using True ih by (simp add: g_def [symmetric] us_def vs_def filter_insort [OF s] filter_insort_triv)
  next
    case False
    have "insort_key g a ((us @ [x]) @ vs) = (us @ [x]) @ insort_key g a vs"
      using False ax x eq by (intro insort_behind) (auto simp: us_def)
    also have "insort_key g a vs = insort_key f a vs" using ax eq by (intro insort_key_cong) auto
    finally show ?thesis using False ih by (simp add: g_def [symmetric] us_def vs_def filter_insort [OF s] filter_insort_triv)
  qed
qed simp

section \<open>Requests for other clocks keep the order\<close>

lemma filter_remove1_other: "\<not> P x \<Longrightarrow> filter P (remove1 x l) = filter P l"
  by (induction l) auto

lemma filter_with_clock_other:
  assumes "sorted (map tm l)" "\<not> P x"
  shows "filter P (with_clock l tm x t) = filter P l"
proof -
  define r where "r = remove1 x l"
  have "sorted (map tm r)" using assms(1) unfolding r_def by (rule sorted_remove1_map)
  then have "[y\<leftarrow>r. tm y \<le> t] @ [y\<leftarrow>r. t < tm y] = r"
  proof (induction r)
    case (Cons a r)
    show ?case
    proof (cases "tm a \<le> t")
      case False
      with Cons.prems have "\<forall>y\<in>set (a # r). t < tm y" by auto
      from filter_all_gt [OF this] show ?thesis by (simp del: filter.simps)
    qed (use Cons in auto)
  qed simp
  then have "filter P [y\<leftarrow>r. tm y \<le> t] @ filter P [y\<leftarrow>r. t < tm y] = filter P r" by (metis filter_append)
  then show ?thesis using assms(2) unfolding with_clock_def Let_def r_def [symmetric]
    by (simp add: r_def filter_remove1_other)
qed

fun op_clock :: "clock_op \<Rightarrow> nat" where
  "op_clock (Set x t) = x"
| "op_clock (Unset x) = x"
| "op_clock (Delay x d) = x"
| "op_clock (Setunit x u b) = x"

text \<open>Two schedulers are alike on the clocks \<open>H\<close>: the same are set, for the same times, in the same order.\<close>

definition alike_on :: "nat set \<Rightarrow> sched \<Rightarrow> sched \<Rightarrow> bool" where
  "alike_on H s s' \<longleftrightarrow> (\<forall>h\<in>H. settime s' h = settime s h) \<and> [h\<leftarrow>setlist s'. h \<in> H] = [h\<leftarrow>setlist s. h \<in> H] \<and> dacsr s' = dacsr s"

lemma alike_refl [simp]: "alike_on H s s"
  by (simp add: alike_on_def)

lemma alike_trans: "alike_on H s s1 \<Longrightarrow> alike_on H s1 s2 \<Longrightarrow> alike_on H s s2"
  by (simp add: alike_on_def)

lemma clock_set_alike:
  assumes "clock_inv s" "x \<notin> H" "clock_set x t s = Some s'" shows "alike_on H s s'"
proof -
  obtain s1 where s1: "clock_set x t s = Some s1" "settime s1 = (settime s)(x := max t (systime s))"
    "setlist s1 = with_clock (setlist s) (settime s) x (max t (systime s))" using clock_set_spec [OF assms(1)] by blast
  have "sorted (map (settime s) (setlist s))" using assms(1) by (simp add: clock_inv_def)
  from filter_with_clock_other [OF this, of "\<lambda>h. h \<in> H" x] s1 assms clock_set_units [OF assms(3)] show ?thesis
    by (auto simp: alike_on_def)
qed

lemma clock_unset_alike:
  assumes "clock_inv s" "x \<notin> H" "clock_unset x s = Some s'" shows "alike_on H s s'"
  using clock_unset_spec [OF assms(1), of x] assms clock_unset_units [OF assms(3)] filter_remove1_other [of "\<lambda>h. h \<in> H" x]
  by (auto simp: alike_on_def)

lemma clock_delay_alike: "clock_inv s \<Longrightarrow> x \<notin> H \<Longrightarrow> clock_delay x d s = Some s' \<Longrightarrow> alike_on H s s'"
  by (auto simp: clock_delay_def Let_def intro: clock_set_alike)

lemma exec_op_alike:
  assumes "clock_inv s" "op_clock a \<notin> H" "exec_op a s = Some s'" shows "alike_on H s s'"
proof (cases a)
  case (Setunit x u b)
  define s1 where "s1 v = s\<lparr>clocks := (clocks s)(x := (clocks s x)\<lparr>c_unit := v\<rparr>)\<rparr>" for v
  have s1: "clock_inv (s1 v)" "alike_on H s (s1 v)" for v
    using assms(1) Setunit assms(2) by (auto simp: s1_def clock_inv_unit alike_on_def settime_def)
  have x: "x \<notin> H" using Setunit assms(2) by simp
  have e: "clock_setunit x u b s = Some s'" using Setunit assms(3) by simp
  show ?thesis using e unfolding clock_setunit_def Let_def s1_def [symmetric]
    by (auto split: if_splits intro: s1(2) alike_trans [OF s1(2) clock_delay_alike [OF s1(1) x]])
qed (use assms clock_set_alike clock_unset_alike clock_delay_alike in auto)

lemma clock_ops_alike:
  "clock_inv s \<Longrightarrow> list_all (\<lambda>a. op_clock a \<notin> H) as \<Longrightarrow> clock_ops as s = Some s' \<Longrightarrow> alike_on H s s'"
proof (induction as arbitrary: s)
  case (Cons a as)
  from exec_op_inv [OF Cons.prems(1), of a] obtain s1 where s1: "exec_op a s = Some s1" "clock_inv s1" by blast
  have "alike_on H s s1" using exec_op_alike [OF Cons.prems(1) _ s1(1)] Cons.prems(2) by simp
  moreover have "alike_on H s1 s'" using Cons.IH [OF s1(2)] Cons.prems(2,3) s1(1) by simp
  ultimately show ?case by (rule alike_trans)
qed simp

text \<open>The clocks that are set among \<open>H\<close> are the hangs': when one goes, the order of the others stays.\<close>

lemma sorted_hangs_remove:
  assumes "distinct l" "h \<in> set l" "\<And>y. y \<in> set l \<Longrightarrow> y \<noteq> h \<Longrightarrow> g y = f y"
  shows "sort_key g (rev (remove1 h l)) = [y\<leftarrow>sort_key f (rev l). y \<noteq> h]"
proof -
  have r: "rev (remove1 h l) = [y\<leftarrow>rev l. y \<noteq> h]"
    using assms(1) by (simp add: distinct_remove1_removeAll removeAll_filter_not_eq rev_filter eq_commute [of h])
  have "sort_key g (rev (remove1 h l)) = sort_key f (rev (remove1 h l))"
    using assms by (intro sort_key_cong) (auto simp: distinct_remove1_removeAll)
  then show ?thesis by (simp add: r filter_sort)
qed

text \<open>Time passes: the specification in terms of the hangs \<open>l\<close>, of which \<open>h\<close> is the message \<open>pm h\<close>.\<close>

definition due_msgs :: "rat \<Rightarrow> (nat \<Rightarrow> rat \<times> 'm) \<Rightarrow> nat list \<Rightarrow> (rat \<times> 'm) list" where
  "due_msgs bnd pm l = map pm [h\<leftarrow>sort_key (\<lambda>h. fst (pm h)) (rev l). fst (pm h) < bnd]"

definition later_msgs :: "rat \<Rightarrow> (nat \<Rightarrow> rat \<times> 'm) \<Rightarrow> nat list \<Rightarrow> (rat \<times> 'm) list" where
  "later_msgs bnd pm l = map pm [h\<leftarrow>l. bnd \<le> fst (pm h)]"

lemma msgs_cong:
  assumes "\<And>h. h \<in> set l \<Longrightarrow> pm h = pm' h"
  shows "due_msgs bnd pm l = due_msgs bnd pm' l" "later_msgs bnd pm l = later_msgs bnd pm' l"
proof -
  have "sort_key (\<lambda>h. fst (pm h)) (rev l) = sort_key (\<lambda>h. fst (pm' h)) (rev l)" using assms by (intro sort_key_cong) simp
  moreover have "[h\<leftarrow>k. P (pm h)] = [h\<leftarrow>k. P (pm' h)]" if "set k = set l" for k P
    using assms that by (intro filter_cong) auto
  ultimately show "due_msgs bnd pm l = due_msgs bnd pm' l" "later_msgs bnd pm l = later_msgs bnd pm' l"
    unfolding due_msgs_def later_msgs_def using assms by (auto intro!: map_cong filter_cong)
qed

lemma msgs_first:
  assumes "sort_key (\<lambda>h. fst (pm h)) (rev l) = c # r" "fst (pm c) < bnd" "distinct l" "c \<in> set l"
  shows "due_msgs bnd pm l = pm c # due_msgs bnd pm (remove1 c l)" "later_msgs bnd pm l = later_msgs bnd pm (remove1 c l)"
proof -
  have "distinct (sort_key (\<lambda>h. fst (pm h)) (rev l))" using assms(3) by simp
  then have "c \<notin> set r" using assms(1) by simp
  then have "[y\<leftarrow>r. y \<noteq> c] = r" by (intro filter_True) auto
  then have "[y\<leftarrow>c # r. y \<noteq> c] = r" by simp
  with sorted_hangs_remove [OF assms(3,4), of "\<lambda>h. fst (pm h)" "\<lambda>h. fst (pm h)"] assms(1)
  have "sort_key (\<lambda>h. fst (pm h)) (rev (remove1 c l)) = r" by simp
  with assms(1,2) show "due_msgs bnd pm l = pm c # due_msgs bnd pm (remove1 c l)" by (simp add: due_msgs_def)
  show "later_msgs bnd pm l = later_msgs bnd pm (remove1 c l)"
    using assms(2) by (simp add: later_msgs_def filter_remove1_other [of _ c])
qed

lemma clock_delay_list:
  assumes "clock_inv s" "0 < c_unit (clocks s x)"
  shows "\<exists>s'. clock_delay x d s = Some s' \<and> clock_inv s' \<and> systime s' = systime s \<and>
    settime s' = (settime s)(x := delay_until (c_unit (clocks s x)) 0 d (systime s)) \<and>
    setlist s' = with_clock (setlist s) (settime s) x (delay_until (c_unit (clocks s x)) 0 d (systime s))"
  using clock_set_spec [OF assms(1), of x "rd (systime s + rd (c_unit (clocks s x) * d))"] assms(2)
  by (auto simp: clock_delay_def Let_def delay_until_def)

lemma clock_create_inv:
  assumes "clock_inv s" "settime s h < 0"
  shows "clock_inv (clock_create h s)" "settime (clock_create h s) = (settime s)(h := -1)" "setlist (clock_create h s) = setlist s"
    "systime (clock_create h s) = systime s" "c_unit (clocks (clock_create h s) h) = TIMEUNITPERMSEC"
proof -
  show st: "settime (clock_create h s) = (settime s)(h := -1)" by (auto simp: settime_def clock_create_def clock_new_def)
  have "h \<notin> set (setlist s)" using assms by (auto simp: clock_inv_def)
  then show "clock_inv (clock_create h s)" using assms unfolding clock_inv_def st
    by (auto simp: clock_create_def map_upd_notin)
qed (simp_all add: clock_create_def clock_new_def)

text \<open>A new hang goes behind those that are due at the same time.\<close>

lemma new_hang_order:
  assumes "[y\<leftarrow>l. y \<in> H] = sort_key tm (rev k)" "h \<in> H" "h \<notin> set l" "h \<notin> set k"
  shows "[y\<leftarrow>with_clock l tm h t. y \<in> H] = sort_key (tm(h := t)) (rev (h # k))"
proof -
  have r: "remove1 h l = l" using assms(3) by (simp add: remove1_idem)
  have "[y\<leftarrow>with_clock l tm h t. y \<in> H] = [y\<leftarrow>[y\<leftarrow>l. y \<in> H]. tm y \<le> t] @ h # [y\<leftarrow>[y\<leftarrow>l. y \<in> H]. t < tm y]"
    using assms(2) by (simp add: with_clock_def r conj_commute)
  also have "\<dots> = sort_key (tm(h := t)) (rev k @ [h])" unfolding assms(1) using assms(4) by (intro sort_key_snoc [symmetric]) simp
  finally show ?thesis by simp
qed

definition foreign :: "nat set \<Rightarrow> (nat \<Rightarrow> rat \<Rightarrow> clock_op list) \<Rightarrow> bool" where
  "foreign H other \<longleftrightarrow> (\<forall>c t. list_all (\<lambda>a. op_clock a \<notin> H) (other c t))"


section \<open>The clocks of the hangs\<close>

text \<open>
  The clocks of the cells \<open>H\<close> that are set are those of the list \<open>l\<close> (newest first), and stand among the clocks in the order of
  their times, the older before the newer.
\<close>

definition hangs_set :: "nat set \<Rightarrow> nat list \<Rightarrow> sched \<Rightarrow> bool" where
  "hangs_set H l s \<longleftrightarrow> clock_inv s \<and> distinct l \<and> set l \<subseteq> H \<and> (\<forall>h\<in>H. 0 \<le> settime s h \<longleftrightarrow> h \<in> set l) \<and>
     [h\<leftarrow>setlist s. h \<in> H] = sort_key (settime s) (rev l)"

lemma hangs_setD:
  assumes "hangs_set H l s"
  shows "clock_inv s" "distinct l" "set l \<subseteq> H" "h \<in> H \<Longrightarrow> 0 \<le> settime s h \<longleftrightarrow> h \<in> set l"
    "[h\<leftarrow>setlist s. h \<in> H] = sort_key (settime s) (rev l)"
  using assms by (simp_all add: hangs_set_def)

lemma hangs_set_empty: "clock_inv s \<Longrightarrow> H \<inter> set (setlist s) = {} \<Longrightarrow> hangs_set H [] s"
  by (auto simp: hangs_set_def clock_inv_def filter_empty_conv)

lemma hangs_set_gone:
  assumes ok: "hangs_set H l s" and h: "h \<in> set l"
    and s1: "clock_inv s1" "settime s1 = (settime s)(h := -1)" "setlist s1 = remove1 h (setlist s)"
  shows "hangs_set H (remove1 h l) s1"
proof -
  have d: "distinct l" and ds: "distinct (setlist s)" using ok by (auto simp: hangs_set_def clock_inv_def)
  have "[y\<leftarrow>setlist s1. y \<in> H] = [y\<leftarrow>[y\<leftarrow>setlist s. y \<in> H]. y \<noteq> h]"
    using ds by (simp add: s1(3) distinct_remove1_removeAll removeAll_filter_not_eq eq_commute [of h] conj_commute)
  also have "\<dots> = sort_key (settime s1) (rev (remove1 h l))"
    using sorted_hangs_remove [OF d h, of "settime s1" "settime s"] ok s1(2) by (simp add: hangs_set_def)
  finally show ?thesis using ok h d s1(1,2) by (auto simp: hangs_set_def dest: set_remove1_subset [THEN subsetD])
qed

lemma hangs_set_unset:
  assumes "hangs_set H l s" "h \<in> set l"
  shows "\<exists>s1. clock_unset h s = Some s1 \<and> clock_inv s1 \<and> settime s1 = (settime s)(h := -1) \<and> setlist s1 = remove1 h (setlist s) \<and>
    systime s1 = systime s \<and> hangs_set H (remove1 h l) s1"
proof -
  have "0 \<le> settime s h" using assms by (auto simp: hangs_set_def)
  with clock_unset_spec [OF hangs_setD(1) [OF assms(1)], of h] hangs_set_gone [OF assms] show ?thesis by auto
qed

lemma hangs_set_new:
  assumes ok: "hangs_set H l s" and h: "h \<in> H" "h \<notin> set l"
  defines "t \<equiv> \<lambda>d. delay_until TIMEUNITPERMSEC 0 d (systime s)"
  shows "\<exists>s1. clock_delay h d (clock_create h s) = Some s1 \<and> systime s1 = systime s \<and> settime s1 = (settime s)(h := t d) \<and>
    hangs_set H (h # l) s1"
proof -
  have inv: "clock_inv s" using ok by (rule hangs_setD)
  have n: "settime s h < 0" using hangs_setD(4) [OF ok h(1)] h(2) by simp
  note c = clock_create_inv [OF inv n]
  have u: "0 < c_unit (clocks (clock_create h s) h)" by (simp add: c(5) TIMEUNITPERMSEC_def)
  from clock_delay_list [OF c(1) u, of d] obtain s1 where
    s1: "clock_delay h d (clock_create h s) = Some s1" "clock_inv s1" "systime s1 = systime s" "settime s1 = (settime s)(h := t d)"
      "setlist s1 = with_clock (setlist s) ((settime s)(h := -1)) h (t d)"
    by (auto simp: c t_def)
  have nl: "h \<notin> set (setlist s)" using inv n by (simp add: clock_inv_def)
  have "[y\<leftarrow>setlist s. y \<in> H] = sort_key ((settime s)(h := -1)) (rev l)"
    unfolding hangs_setD(5) [OF ok] using h(2) by (intro sort_key_cong) auto
  from new_hang_order [OF this h(1) nl h(2), of "t d"] have
    ord: "[y\<leftarrow>setlist s1. y \<in> H] = sort_key (settime s1) (rev (h # l))" by (simp add: s1(4,5))
  have "0 \<le> t d" using inv by (simp add: t_def delay_until_def clock_inv_def le_max_iff_disj)
  then have "hangs_set H (h # l) s1" using ok h s1(2,4) ord by (auto simp: hangs_set_def)
  then show ?thesis using s1 by blast
qed

lemma hangs_set_alike:
  assumes ok: "hangs_set H l s" and "clock_inv s'" "alike_on H s s'"
  shows "hangs_set H l s'" "h \<in> set l \<Longrightarrow> settime s' h = settime s h"
proof -
  show sub: "settime s' h = settime s h" if "h \<in> set l" for h using that assms by (auto simp: hangs_set_def alike_on_def)
  then have "sort_key (settime s') (rev l) = sort_key (settime s) (rev l)" by (intro sort_key_cong) simp
  with assms show "hangs_set H l s'" by (simp add: hangs_set_def alike_on_def)
qed

lemma hangs_set_head:
  assumes "hangs_set H l s" "setlist s = c # r" "c \<in> H"
  shows "c \<in> set l" "sort_key (settime s) (rev l) = c # [y\<leftarrow>r. y \<in> H]"
  using assms by (auto simp: hangs_set_def clock_inv_def)

text \<open>The next clock is called: what is due shrinks; the requests another clock makes leave the hangs alone.\<close>

lemma fire_due:
  assumes "clock_inv s" "setlist s = c # r" "settime s c < bnd"
  shows "\<exists>s1. clock_unset c (s\<lparr>systime := settime s c\<rparr>) = Some s1 \<and> clock_inv s1 \<and> systime s1 = settime s c \<and> setlist s1 = r \<and>
    settime s1 = (settime s)(c := -1) \<and> set (due bnd s1) \<subset> set (due bnd s)"
proof -
  from fire_inv [OF assms(1,2)] obtain s1 where
    s1: "clock_unset c (s\<lparr>systime := settime s c\<rparr>) = Some s1" "clock_inv s1" "systime s1 = settime s c"
      "setlist s1 = r" "settime s1 = (settime s)(c := -1)" by blast
  have "c \<notin> set r" using assms(1,2) by (simp add: clock_inv_def)
  then have "c \<in> set (due bnd s)" "c \<notin> set (due bnd s1)" using assms by (simp_all add: due_def s1(4))
  moreover have "set (due bnd s1) \<subseteq> set (due bnd s)" using s1(4,5) assms by (auto simp: due_def split: if_splits)
  ultimately show ?thesis using s1 by blast
qed

lemma foreign_call:
  assumes s1: "clock_unset c (s\<lparr>systime := settime s c\<rparr>) = Some s1" "clock_inv s1" "setlist s1 = remove1 c (setlist s)"
      "settime s1 = (settime s)(c := -1)" "c \<notin> H"
    and f: "foreign H other" "requests_later bnd other (\<lambda>_. [])"
  shows "\<exists>s2. clock_ops (other c (systime s1)) s1 = Some s2 \<and> clock_inv s2 \<and> alike_on H s s2 \<and> set (due bnd s2) \<subseteq> set (due bnd s1)"
proof -
  obtain s2 where s2: "clock_ops (other c (systime s1)) s1 = Some s2" "clock_inv s2"
    using clock_ops_inv [OF s1(2), of "other c (systime s1)"] by blast
  have "alike_on H s s1" using clock_unset_units [OF s1(1)] s1(3-5) by (auto simp: alike_on_def filter_remove1_other)
  moreover have "alike_on H s1 s2" using f clock_ops_alike [OF s1(2) _ s2(1)] by (simp add: foreign_def)
  ultimately have "alike_on H s s2" by (rule alike_trans)
  then show ?thesis using s2 later_ops_due [OF s1(2) requests_laterD(1) [OF f(2)] s2(1)] by blast
qed

text \<open>At the end of the time nothing of the hangs is due.\<close>

lemma hangs_late:
  assumes "hangs_set H l s" "setlist s = [] \<or> bnd \<le> settime s (hd (setlist s))" "h \<in> set l"
  shows "bnd \<le> settime s h"
proof -
  have inv: "clock_inv s" using assms(1) by (rule hangs_setD)
  have "h \<in> set (setlist s)" using assms(1,3) inv by (auto simp: hangs_set_def clock_inv_def)
  with head_first [OF inv this] assms(2) show ?thesis by auto
qed

end
