(* ===== verification/PipeSpec.thy ===== *)
theory PipeSpec
  imports Pipe Hangs
begin

text \<open>
  What pipe promises: it is a delay line. Its state is refined to the list of the messages pending,
  each with the time it is due; they leave in the order of those times, and those due at the same time
  in the order they came, whatever the other objects ask of the scheduler. With pointers, the
  references a pipe holds are counted.
\<close>

section \<open>The delay line\<close>

text \<open>
  The specification: the slots with their current values, the delay, the messages pending with the
  times they are due, newest first, and what has been sent: the time, the outlet and the atom.
\<close>

record delay_line =
  q_slots :: "atom list"
  q_delay :: t_float
  q_pending :: "(rat \<times> atom list) list"
  q_now :: rat
  q_sent :: "(rat \<times> nat \<times> atom) list"

fun sendable :: "atom \<Rightarrow> bool" where
  "sendable (A_FLOAT f) = True"
| "sendable (A_SYMBOL s) = True"
| "sendable _ = False"

fun plain :: "atom \<Rightarrow> bool" where
  "plain (A_POINTER p) = False"
| "plain _ = True"

fun slot_value :: "atom \<Rightarrow> atom \<Rightarrow> atom" where
  "slot_value (A_FLOAT f) a = A_FLOAT (atom_getfloat a)"
| "slot_value (A_SYMBOL s) a = A_SYMBOL (atom_getsymbol a)"
| "slot_value p a = p"

text \<open>A message leaves through the outlets from right to left.\<close>

definition sends :: "nat \<Rightarrow> rat \<times> atom list \<Rightarrow> (rat \<times> nat \<times> atom) list" where
  "sends n m = map (\<lambda>i. (fst m, i, snd m ! i)) (rev [i\<leftarrow>[0..<n]. sendable (snd m ! i)])"

abbreviation all_sends :: "(rat \<times> atom list) list \<Rightarrow> (rat \<times> nat \<times> atom) list" where
  "all_sends ms \<equiv> concat (map (\<lambda>m. sends (length (snd m)) m) ms)"

text \<open>What comes after the arguments for the slots is a new delay.\<close>

definition q_list :: "atom list \<Rightarrow> delay_line \<Rightarrow> delay_line option" where
  "q_list av q =
     (let n = length (q_slots q);
          d = (if n < length av then (case av ! n of A_FLOAT f \<Rightarrow> f | _ \<Rightarrow> q_delay q) else q_delay q);
          vs = map2 slot_value (take (length av) (q_slots q)) (take n av) @ drop (length av) (q_slots q) in
      map_option (\<lambda>ms. q\<lparr>q_slots := vs, q_delay := d,
          q_pending := (delay_until TIMEUNITPERMSEC 0 ms (q_now q), vs) # q_pending q\<rparr>) (delay_ms d))"

definition q_flush :: "delay_line \<Rightarrow> delay_line" where
  "q_flush q = q\<lparr>q_sent := q_sent q @ all_sends (map (\<lambda>m. (q_now q, snd m)) (q_pending q)), q_pending := []\<rparr>"

definition q_clear :: "delay_line \<Rightarrow> delay_line" where
  "q_clear q = q\<lparr>q_pending := []\<rparr>"

text \<open>Until \<open>bnd\<close>, the messages due before it leave, in the order of their times, oldest first.\<close>

definition q_run :: "rat \<Rightarrow> delay_line \<Rightarrow> delay_line" where
  "q_run bnd q =
     q\<lparr>q_sent := q_sent q @ all_sends [m\<leftarrow>sort_key fst (rev (q_pending q)). fst m < bnd],
       q_pending := [m\<leftarrow>q_pending q. bnd \<le> fst m], q_now := bnd\<rparr>"

section \<open>A pipe in a patch\<close>

type_synonym pipe_state = "(rat \<times> nat \<times> atom) list pipe_world"

definition pipe_log :: "(rat \<times> nat \<times> atom) list pipe_out" where
  "pipe_log i a w = (case w of (e, x, M, s) \<Rightarrow> Some (e @ [(systime s, i, a)], x, M, s))"

text \<open>The methods of the clocks: the hangs' send, the others make requests \<open>other c t\<close>.\<close>

definition pipe_patch ::
  "(nat \<Rightarrow> rat \<Rightarrow> clock_op list) \<Rightarrow> nat \<Rightarrow> (rat \<times> nat \<times> atom) list \<times> pipe \<times> gmem \<Rightarrow> sched \<Rightarrow>
    (((rat \<times> nat \<times> atom) list \<times> pipe \<times> gmem) \<times> sched) option" where
  "pipe_patch other c w s =
     (case w of (e, x, M) \<Rightarrow>
        if hangs x c \<noteq> None then map_option (\<lambda>(e, x, M, s). ((e, x, M), s)) (hang_tick pipe_log c (e, x, M, s))
        else map_option (Pair w) (clock_ops (other c (systime s)) s))"

datatype pipe_ev = P_list nat "atom list" | P_flush | P_clear | P_delay t_float | P_run rat "nat \<Rightarrow> rat \<Rightarrow> clock_op list"

text \<open>
  What happens to a pipe: a list put in hang \<open>h\<close>, flush, clear, a float at the right inlet, and time
  passing while the other clocks make requests.
\<close>

fun pipe_do :: "pipe_ev \<Rightarrow> pipe_state \<Rightarrow> pipe_state option" where
  "pipe_do (P_list h av) w = map_option (Pair (fst w)) (pipe_list h 0 av (snd w))"
| "pipe_do P_flush w = pipe_flush pipe_log w"
| "pipe_do P_clear w = map_option (Pair (fst w)) (pipe_clear (snd w))"
| "pipe_do (P_delay f) (e, x, M, s) = Some (e, x\<lparr>x_deltime := f\<rparr>, M, s)"
| "pipe_do (P_run bnd other) (e, x, M, s) =
     map_option (\<lambda>((e, x, M), s). (e, x, M, s\<lparr>systime := bnd\<rparr>)) (run_clocks (pipe_patch other) bnd (e, x, M) s)"

fun q_do :: "pipe_ev \<Rightarrow> delay_line \<Rightarrow> delay_line option" where
  "q_do (P_list h av) q = q_list av q"
| "q_do P_flush q = Some (q_flush q)"
| "q_do P_clear q = Some (q_clear q)"
| "q_do (P_delay f) q = Some (q\<lparr>q_delay := f\<rparr>)"
| "q_do (P_run bnd other) q = Some (q_run bnd q)"

text \<open>A hang as a message pending.\<close>

definition pending_msg :: "pipe \<Rightarrow> sched \<Rightarrow> nat \<Rightarrow> rat \<times> atom list" where
  "pending_msg x s h = (settime s h, h_vec (the (hangs x h)))"

definition pipe_abs :: "pipe_state \<Rightarrow> delay_line" where
  "pipe_abs w =
     (case w of (e, x, M, s) \<Rightarrow>
        \<lparr>q_slots = x_vec x, q_delay = x_deltime x, q_pending = map (pending_msg x s) (x_hang x), q_now = systime s, q_sent = e\<rparr>)"

text \<open>
  A pipe without pointers, its hangs among the cells \<open>H\<close>: the hangs on its list are those there are, and the clocks of those
  are set.
\<close>

definition pipe_ok :: "nat set \<Rightarrow> pipe_state \<Rightarrow> bool" where
  "pipe_ok H w \<longleftrightarrow>
     (case w of (e, x, M, s) \<Rightarrow> hangs_set H (x_hang x) s \<and> (\<forall>h. hangs x h = None \<longleftrightarrow> h \<notin> set (x_hang x)) \<and>
        x_nptr x = 0 \<and> list_all plain (x_vec x) \<and>
        (\<forall>h hg. hangs x h = Some hg \<longrightarrow> list_all2 (\<lambda>v p. sendable v = sendable p) (h_vec hg) (x_vec x)))"

section \<open>One message\<close>

lemma hang_sends_log:
  assumes "list_all plain (x_vec x)" "hangs x h = Some hg" "list_all2 (\<lambda>v p. sendable v = sendable p) (h_vec hg) (x_vec x)"
  shows "n \<le> length (x_vec x) \<Longrightarrow> hang_sends pipe_log h n (e, x, M, s) = Some (e @ sends n (systime s, h_vec hg), x, M, s)"
proof (induction n arbitrary: e)
  case (Suc n)
  then have n: "n < length (x_vec x)" "n < length (h_vec hg)" using assms(3) by (auto dest: list_all2_lengthD)
  have p: "plain (x_vec x ! n)" using assms(1) n(1) by (simp add: list_all_length)
  have "sendable (h_vec hg ! n) = sendable (x_vec x ! n)" using assms(3) n by (auto simp: list_all2_conv_all_nth)
  with p have "hang_send pipe_log h n (e, x, M, s) =
      Some (e @ (if sendable (h_vec hg ! n) then [(systime s, n, h_vec hg ! n)] else []), x, M, s)"
    using n assms(2) by (cases "x_vec x ! n") (auto simp: hang_send_def pipe_log_def)
  with Suc.IH Suc.prems show ?case by (simp add: sends_def)
qed (simp add: sends_def)

lemma hang_tick_log:
  assumes "list_all plain (x_vec x)" "hangs x h = Some hg" "list_all2 (\<lambda>v p. sendable v = sendable p) (h_vec hg) (x_vec x)"
    and "x_nptr x = 0" "x_hang x \<noteq> []" "clock_unset h s = Some s1"
  shows "hang_tick pipe_log h (e, x, M, s) =
    Some (e @ sends (length (h_vec hg)) (systime s, h_vec hg), x\<lparr>x_hang := remove1 h (x_hang x), hangs := (hangs x)(h := None)\<rparr>, M, s1)"
proof -
  have "length (h_vec hg) = length (x_vec x)" using assms(3) by (rule list_all2_lengthD)
  with hang_sends_log [of "x\<lparr>x_hang := remove1 h (x_hang x)\<rparr>" h hg "length (x_vec x)" e M s] assms show ?thesis
    by (simp add: hang_tick_def unlink_hang_def hang_free_def clock_free_def)
qed

section \<open>Operations refine the delay line\<close>

abbreviation without :: "nat \<Rightarrow> pipe \<Rightarrow> pipe" where
  "without h x \<equiv> x\<lparr>x_hang := remove1 h (x_hang x), hangs := (hangs x)(h := None)\<rparr>"

lemma pipe_ok_set: "pipe_ok H (e, x, M, s) \<Longrightarrow> hangs_set H (x_hang x) s"
  by (simp add: pipe_ok_def)

lemmas pipe_ok_inv = pipe_ok_set [THEN hangs_setD(1)]

lemma hang_gone:
  assumes ok: "pipe_ok H (e, x, M, s)" and h: "h \<in> set (x_hang x)"
    and s1: "clock_inv s1" "settime s1 = (settime s)(h := -1)" "setlist s1 = remove1 h (setlist s)"
  shows "pipe_ok H (e', without h x, M', s1)"
    "map (pending_msg (without h x) s1) (remove1 h (x_hang x)) = map (pending_msg x s) (remove1 h (x_hang x))"
proof -
  have d: "distinct (x_hang x)" using pipe_ok_set [OF ok] by (rule hangs_setD)
  show "pipe_ok H (e', without h x, M', s1)" using ok hangs_set_gone [OF pipe_ok_set [OF ok] h s1] h d by (auto simp: pipe_ok_def)
  show "map (pending_msg (without h x) s1) (remove1 h (x_hang x)) = map (pending_msg x s) (remove1 h (x_hang x))"
    using d s1(2) by (auto simp: pending_msg_def)
qed

lemma hang_vec:
  assumes "pipe_ok H (e, x, M, s)" "h \<in> set (x_hang x)"
  obtains hg where "hangs x h = Some hg" "list_all2 (\<lambda>v p. sendable v = sendable p) (h_vec hg) (x_vec x)"
proof -
  have "hangs x h \<noteq> None" using assms by (simp add: pipe_ok_def)
  then obtain hg where hg: "hangs x h = Some hg" by auto
  moreover have "list_all2 (\<lambda>v p. sendable v = sendable p) (h_vec hg) (x_vec x)" using assms(1) hg by (simp add: pipe_ok_def)
  ultimately show ?thesis by (rule that)
qed

lemma unset_hang:
  assumes "pipe_ok H (e, x, M, s)" "h \<in> set (x_hang x)"
  shows "\<exists>s1. clock_unset h s = Some s1 \<and> clock_inv s1 \<and> settime s1 = (settime s)(h := -1) \<and> setlist s1 = remove1 h (setlist s) \<and>
    systime s1 = systime s"
  using hangs_set_unset [OF pipe_ok_set [OF assms(1)] assms(2)] by blast

lemma q_flush_abs:
  "q_flush (pipe_abs (e, x, M, s)) =
    \<lparr>q_slots = x_vec x, q_delay = x_deltime x, q_pending = [], q_now = systime s,
     q_sent = e @ concat (map (\<lambda>m. sends (length (snd m)) (systime s, snd m)) (map (pending_msg x s) (x_hang x)))\<rparr>"
  by (simp add: q_flush_def pipe_abs_def o_def)

lemma pipe_flush_refines:
  "pipe_ok H (e, x, M, s) \<Longrightarrow> \<exists>w'. pipe_flush pipe_log (e, x, M, s) = Some w' \<and> pipe_ok H w' \<and> pipe_abs w' = q_flush (pipe_abs (e, x, M, s))"
proof (induction "length (x_hang x)" arbitrary: e x s)
  case 0
  then show ?case by (subst pipe_flush.simps) (simp add: pipe_abs_def q_flush_def)
next
  case (Suc n)
  then obtain h l where l: "x_hang x = h # l" by (cases "x_hang x") auto
  then have h: "h \<in> set (x_hang x)" by simp
  from hang_vec [OF Suc.prems h] obtain hg where hg: "hangs x h = Some hg"
    "list_all2 (\<lambda>v p. sendable v = sendable p) (h_vec hg) (x_vec x)" .
  from unset_hang [OF Suc.prems h] obtain s1 where
    s1: "clock_unset h s = Some s1" "clock_inv s1" "settime s1 = (settime s)(h := -1)" "setlist s1 = remove1 h (setlist s)"
      "systime s1 = systime s" by blast
  define e1 where "e1 = e @ sends (length (h_vec hg)) (systime s, h_vec hg)"
  have t: "hang_tick pipe_log h (e, x, M, s) = Some (e1, without h x, M, s1)"
    unfolding e1_def by (rule hang_tick_log [OF _ hg _ _ s1(1)]) (use Suc.prems l in \<open>auto simp: pipe_ok_def\<close>)
  note g = hang_gone [OF Suc.prems h s1(2,3,4)]
  from Suc.hyps(1) [of "without h x" e1 s1] Suc.hyps(2) g(1) l obtain w' where
    w': "pipe_flush pipe_log (e1, without h x, M, s1) = Some w'" "pipe_ok H w'" "pipe_abs w' = q_flush (pipe_abs (e1, without h x, M, s1))"
    by auto
  have "q_flush (pipe_abs (e1, without h x, M, s1)) = q_flush (pipe_abs (e, x, M, s))"
    using g(2) unfolding q_flush_abs by (simp add: l s1(5) e1_def del: map_map map_eq_conv) (simp add: pending_msg_def hg(1))
  with w' t l show ?case by (subst pipe_flush.simps) simp
qed

lemma clear_loop_refines:
  "pipe_ok H (e, x, M, s) \<Longrightarrow> \<exists>w'. clear_loop (x_hang x) (x, M, s) = Some w' \<and> pipe_ok H (e, w') \<and> pipe_abs (e, w') = q_clear (pipe_abs (e, x, M, s))"
proof (induction "length (x_hang x)" arbitrary: x s)
  case 0
  then show ?case by (simp add: pipe_abs_def q_clear_def)
next
  case (Suc n)
  then obtain h l where l: "x_hang x = h # l" by (cases "x_hang x") auto
  then have h: "h \<in> set (x_hang x)" by simp
  from hang_vec [OF Suc.prems h] obtain hg where hg: "hangs x h = Some hg" .
  from unset_hang [OF Suc.prems h] obtain s1 where
    s1: "clock_unset h s = Some s1" "clock_inv s1" "settime s1 = (settime s)(h := -1)" "setlist s1 = remove1 h (setlist s)"
      "systime s1 = systime s" by blast
  have "x_nptr x = 0" using Suc.prems by (simp add: pipe_ok_def)
  then have t: "hang_free h (x\<lparr>x_hang := l\<rparr>, M, s) = Some (without h x, M, s1)"
    using hg s1(1) l by (simp add: hang_free_def clock_free_def)
  note g = hang_gone(1) [OF Suc.prems h s1(2,3,4), of e M]
  from Suc.hyps(1) [of "without h x" s1] Suc.hyps(2) g l obtain w' where
    w': "clear_loop l (without h x, M, s1) = Some w'" "pipe_ok H (e, w')" "pipe_abs (e, w') = q_clear (pipe_abs (e, without h x, M, s1))"
    by auto
  have "q_clear (pipe_abs (e, without h x, M, s1)) = q_clear (pipe_abs (e, x, M, s))"
    using s1(5) by (simp add: pipe_abs_def q_clear_def)
  with w' t l show ?case by simp
qed

lemma q_run_abs:
  "q_run bnd (pipe_abs (e, x, M, s)) =
    \<lparr>q_slots = x_vec x, q_delay = x_deltime x, q_pending = later_msgs bnd (pending_msg x s) (x_hang x), q_now = bnd,
     q_sent = e @ all_sends (due_msgs bnd (pending_msg x s) (x_hang x))\<rparr>"
  by (simp add: q_run_def pipe_abs_def rev_map sort_key_map filter_map o_def due_msgs_def later_msgs_def)

lemma fill_slots_plain:
  "list_all plain ps \<Longrightarrow> fill_slots gp ps av M =
    Some (map2 slot_value (take (length av) ps) (take (length ps) av) @ drop (length av) ps, M, [])"
proof (induction ps arbitrary: av)
  case (Cons p ps)
  show ?case
  proof (cases av)
    case (Cons a av')
    with Cons.prems Cons.IH [of av'] show ?thesis by (cases p) simp_all
  qed simp
qed simp

lemma copy_slots_plain: "list_all plain ps \<Longrightarrow> copy_slots gp g ps M = Some (ps, M)"
  by (induction ps) (auto split: atom.split)

lemma slot_value_kind: "sendable (slot_value p a) = sendable p" "plain p \<Longrightarrow> plain (slot_value p a)"
  by (cases p; simp)+

lemma filled_kind:
  "list_all2 (\<lambda>v p. sendable v = sendable p) (map2 slot_value (take (length av) ps) (take (length ps) av) @ drop (length av) ps) ps"
  "list_all plain ps \<Longrightarrow> list_all plain (map2 slot_value (take (length av) ps) (take (length ps) av) @ drop (length av) ps)"
proof (induction ps arbitrary: av)
  case (Cons p ps)
  { case 1 show ?case by (cases av) (use Cons.IH(1) in \<open>auto simp: slot_value_kind list_all2_same\<close>) }
  { case 2 then show ?case by (cases av) (use Cons.IH(2) in \<open>auto simp: slot_value_kind\<close>) }
qed simp_all

lemma pipe_list_refines:
  assumes ok: "pipe_ok H (e, x, M, s)" and h: "h \<in> H" "hangs x h = None" and q: "q_list av (pipe_abs (e, x, M, s)) = Some q'"
  shows "\<exists>w'. pipe_list h 0 av (x, M, s) = Some w' \<and> pipe_ok H (e, w') \<and> pipe_abs (e, w') = q'"
proof -
  define n where "n = length (x_vec x)"
  define vs where "vs = map2 slot_value (take (length av) (x_vec x)) (take n av) @ drop (length av) (x_vec x)"
  define x1 where "x1 = (if n < length av then (case av ! n of A_FLOAT f \<Rightarrow> x\<lparr>x_deltime := f\<rparr>
    | _ \<Rightarrow> pipe_error ''pipe: symbol or pointer in time inlet'' x) else x)"
  have x1: "x_vec x1 = x_vec x" "x_hang x1 = x_hang x" "hangs x1 = hangs x" "x_nptr x1 = x_nptr x"
    "x_deltime x1 = (if n < length av then (case av ! n of A_FLOAT f \<Rightarrow> f | _ \<Rightarrow> x_deltime x) else x_deltime x)"
    by (simp_all add: x1_def pipe_error_def split: atom.splits)
  have sel: "q_slots (pipe_abs (e, x, M, s)) = x_vec x" "q_delay (pipe_abs (e, x, M, s)) = x_deltime x"
    "q_pending (pipe_abs (e, x, M, s)) = map (pending_msg x s) (x_hang x)" "q_now (pipe_abs (e, x, M, s)) = systime s"
    by (simp_all add: pipe_abs_def)
  from q obtain d where d: "delay_ms (x_deltime x1) = Some d" and
    q': "q' = (pipe_abs (e, x, M, s))\<lparr>q_slots := vs, q_delay := x_deltime x1,
      q_pending := (delay_until TIMEUNITPERMSEC 0 d (systime s), vs) # map (pending_msg x s) (x_hang x)\<rparr>"
    unfolding q_list_def Let_def sel n_def [symmetric] x1(5) [symmetric] vs_def [symmetric] by auto
  have pl: "list_all plain (x_vec x)" using ok by (simp add: pipe_ok_def)
  have nh: "h \<notin> set (x_hang x)" using ok h(2) by (auto simp: pipe_ok_def)
  from hangs_set_new [OF pipe_ok_set [OF ok] h(1) nh, of d] obtain s1 where
    s1: "clock_delay h d (clock_create h s) = Some s1" "systime s1 = systime s" "hangs_set H (h # x_hang x) s1"
      "settime s1 = (settime s)(h := delay_until TIMEUNITPERMSEC 0 d (systime s))" by blast
  define x2 where "x2 = x1\<lparr>x_vec := vs, x_hang := h # x_hang x, hangs := (hangs x)(h \<mapsto> \<lparr>h_gp = 0, h_vec = vs\<rparr>), p_errors := p_errors x1 @ []\<rparr>"
  have vs: "list_all plain vs" using filled_kind(2) [OF pl, of av] by (simp add: vs_def n_def)
  have fs: "fill_slots (p_gp x1) (x_vec x1) (take n av) M = Some (vs, M, [])"
    using fill_slots_plain [OF pl, of "p_gp x1" "take n av" M] by (simp add: x1 vs_def n_def min_def)
  have e: "pipe_list h 0 av (x, M, s) = Some (x2, M, s1)"
    unfolding pipe_list_def Let_def prod.case n_def [symmetric] x1_def [symmetric] fs
    by (simp add: copy_slots_plain [OF vs] d s1(1) x1(2,3) x2_def)
  have "list_all2 (\<lambda>v p. sendable v = sendable p) v vs" if "list_all2 (\<lambda>v p. sendable v = sendable p) v (x_vec x)" for v
    using that filled_kind(1) [of av "x_vec x"] by (auto simp: vs_def n_def list_all2_conv_all_nth)
  moreover have "list_all2 (\<lambda>v p. sendable v = sendable p) vs vs" by (simp add: list_all2_same)
  ultimately have "pipe_ok H (e, x2, M, s1)"
    using ok h nh s1(3) vs by (auto simp: pipe_ok_def x2_def x1)
  moreover have "pipe_abs (e, x2, M, s1) = q'"
    using s1(2,4) nh by (auto simp: pipe_abs_def x2_def q' x1(1-4) pending_msg_def)
  ultimately show ?thesis using e by blast
qed

lemma pipe_ok_alike:
  assumes ok: "pipe_ok H (e, x, M, s)" and s': "clock_inv s'" "alike_on H s s'"
  shows "pipe_ok H (e, x, M, s')" "map (pending_msg x s') (x_hang x) = map (pending_msg x s) (x_hang x)"
proof -
  note al = hangs_set_alike [OF pipe_ok_set [OF ok] s']
  show "pipe_ok H (e, x, M, s')" using ok al(1) by (simp add: pipe_ok_def)
  show "map (pending_msg x s') (x_hang x) = map (pending_msg x s) (x_hang x)" using al(2) by (simp add: pending_msg_def)
qed

lemma q_run_alike:
  assumes "pipe_ok H (e, x, M, s)" "clock_inv s'" "alike_on H s s'"
  shows "q_run bnd (pipe_abs (e, x, M, s')) = q_run bnd (pipe_abs (e, x, M, s))"
proof -
  have "pending_msg x s' h = pending_msg x s h" if "h \<in> set (x_hang x)" for h
    using that hangs_set_alike(2) [OF pipe_ok_set [OF assms(1)] assms(2,3)] by (simp add: pending_msg_def)
  note msgs_cong [OF this]
  then show ?thesis by (simp add: q_run_abs)
qed

text \<open>The next clock is called: a hang sends its message, another object makes its requests.\<close>

lemma pipe_patch_step:
  assumes ok: "pipe_ok H (e, x, M, s)" and c: "setlist s = c # r" "settime s c < bnd"
    and f: "foreign H other" and l: "requests_later bnd other (\<lambda>_. [])"
  shows "\<exists>s1 e2 x2 s2. clock_unset c (s\<lparr>systime := settime s c\<rparr>) = Some s1 \<and>
    pipe_patch other c (e, x, M) s1 = Some ((e2, x2, M), s2) \<and> pipe_ok H (e2, x2, M, s2) \<and>
    q_run bnd (pipe_abs (e2, x2, M, s2)) = q_run bnd (pipe_abs (e, x, M, s)) \<and>
    card (set (due bnd s2)) < card (set (due bnd s))"
proof -
  have inv: "clock_inv s" using ok by (rule pipe_ok_inv)
  from fire_due [OF inv c] obtain s1 where
    s1: "clock_unset c (s\<lparr>systime := settime s c\<rparr>) = Some s1" "clock_inv s1" "systime s1 = settime s c"
      "setlist s1 = r" "settime s1 = (settime s)(c := -1)" and due1: "set (due bnd s1) \<subset> set (due bnd s)" by blast
  have r1: "setlist s1 = remove1 c (setlist s)" using s1(4) c(1) by simp
  show ?thesis
  proof (cases "c \<in> H")
    case True
    note h = hangs_set_head(1) [OF pipe_ok_set [OF ok] c(1) True]
    from hang_vec [OF ok h] obtain hg where hg: "hangs x c = Some hg" "list_all2 (\<lambda>v p. sendable v = sendable p) (h_vec hg) (x_vec x)" .
    have u: "clock_unset c s1 = Some s1" by (simp add: clock_unset_def s1(5))
    define e2 where "e2 = e @ sends (length (h_vec hg)) (settime s c, h_vec hg)"
    have "x_hang x \<noteq> []" using h by auto
    then have "hang_tick pipe_log c (e, x, M, s1) = Some (e2, without c x, M, s1)"
      using hang_tick_log [OF _ hg _ _ u, of e M] ok h by (auto simp: pipe_ok_def e2_def s1(3))
    then have p: "pipe_patch other c (e, x, M) s1 = Some ((e2, without c x, M), s1)" by (simp add: pipe_patch_def hg(1))
    note g = hang_gone [OF ok h s1(2,5) r1]
    have d: "distinct (x_hang x)" using pipe_ok_set [OF ok] by (rule hangs_setD)
    have k: "sort_key (\<lambda>h. fst (pending_msg x s h)) (rev (x_hang x)) = c # [y\<leftarrow>r. y \<in> H]"
      using hangs_set_head(2) [OF pipe_ok_set [OF ok] c(1) True] by (simp add: pending_msg_def)
    have "pending_msg (without c x) s1 h = pending_msg x s h" if "h \<in> set (remove1 c (x_hang x))" for h
      using g(2) that by simp
    note m1 = msgs_cong [OF this]
    have pc: "pending_msg x s c = (settime s c, h_vec hg)" by (simp add: pending_msg_def hg(1))
    then have lt: "fst (pending_msg x s c) < bnd" using c(2) by simp
    have "q_run bnd (pipe_abs (e2, without c x, M, s1)) = q_run bnd (pipe_abs (e, x, M, s))"
      unfolding q_run_abs msgs_first [OF k lt d h] by (simp add: m1 e2_def pc)
    then show ?thesis using s1(1) p g(1) [of e2 M] due1 by (auto intro: psubset_card_mono)
  next
    case False
    have "hangs x c = None" using ok False hangs_setD(3) [OF pipe_ok_set [OF ok]] by (auto simp: pipe_ok_def)
    from foreign_call [OF s1(1,2) r1 s1(5) False f l] obtain s2 where
      s2: "clock_ops (other c (systime s1)) s1 = Some s2" "clock_inv s2" "alike_on H s s2" "set (due bnd s2) \<subseteq> set (due bnd s1)" by blast
    have "pipe_patch other c (e, x, M) s1 = Some ((e, x, M), s2)" using s2(1) \<open>hangs x c = None\<close> by (simp add: pipe_patch_def)
    moreover have "set (due bnd s2) \<subset> set (due bnd s)" using s2(4) due1 by blast
    ultimately show ?thesis
      using s1(1) pipe_ok_alike(1) [OF ok s2(2,3)] q_run_alike [OF ok s2(2,3), of bnd] by (auto intro: psubset_card_mono)
  qed
qed

lemma pipe_run_refines:
  assumes ok: "pipe_ok H (e, x, M, s)" and f: "foreign H other" "requests_later bnd other (\<lambda>_. [])" "0 \<le> bnd"
  shows "\<exists>w'. pipe_do (P_run bnd other) (e, x, M, s) = Some w' \<and> pipe_ok H w' \<and> pipe_abs w' = q_run bnd (pipe_abs (e, x, M, s))"
proof -
  define I where "I w s' \<longleftrightarrow> snd (snd w) = M \<and> pipe_ok H (fst w, fst (snd w), M, s') \<and>
    q_run bnd (pipe_abs (fst w, fst (snd w), M, s')) = q_run bnd (pipe_abs (e, x, M, s))"
    for w :: "(rat \<times> nat \<times> atom) list \<times> pipe \<times> gmem" and s'
  have "I (e, x, M) s" using ok by (simp add: I_def)
  then have "\<exists>w' s'. run_clocks (pipe_patch other) bnd (e, x, M) s = Some (w', s') \<and> I w' s' \<and>
      (setlist s' = [] \<or> bnd \<le> settime s' (hd (setlist s')))"
  proof (rule run_clocks_returns [where \<mu> = "\<lambda>w s. card (set (due bnd s))"])
    fix c r w s' assume "I w s'" "setlist s' = c # r" "settime s' c < bnd"
    then show "\<exists>s1 w2 s2. clock_unset c (s'\<lparr>systime := settime s' c\<rparr>) = Some s1 \<and> pipe_patch other c w s1 = Some (w2, s2) \<and>
        I w2 s2 \<and> card (set (due bnd s2)) < card (set (due bnd s'))"
      using pipe_patch_step [of H "fst w" "fst (snd w)" M s' c r bnd other] f(1,2) by (cases w) (auto simp: I_def)
  qed
  then obtain e2 x2 s2 where
    r: "run_clocks (pipe_patch other) bnd (e, x, M) s = Some ((e2, x2, M), s2)" "pipe_ok H (e2, x2, M, s2)"
      "q_run bnd (pipe_abs (e2, x2, M, s2)) = q_run bnd (pipe_abs (e, x, M, s))"
      "setlist s2 = [] \<or> bnd \<le> settime s2 (hd (setlist s2))" by (auto simp: I_def)
  have inv: "clock_inv s2" using r(2) by (rule pipe_ok_inv)
  have late: "bnd \<le> settime s2 h" if "h \<in> set (x_hang x2)" for h
    using hangs_late [OF pipe_ok_set [OF r(2)] r(4)] that .
  then have "due_msgs bnd (pending_msg x2 s2) (x_hang x2) = []" "later_msgs bnd (pending_msg x2 s2) (x_hang x2) = map (pending_msg x2 s2) (x_hang x2)"
    unfolding due_msgs_def later_msgs_def by (auto simp: filter_empty_conv pending_msg_def not_less intro!: filter_True)
  then have "pipe_abs (e2, x2, M, s2\<lparr>systime := bnd\<rparr>) = q_run bnd (pipe_abs (e2, x2, M, s2))"
    unfolding q_run_abs by (simp add: pipe_abs_def pending_msg_def)
  with r(3) have "pipe_abs (e2, x2, M, s2\<lparr>systime := bnd\<rparr>) = q_run bnd (pipe_abs (e, x, M, s))" by simp
  moreover have "pipe_ok H (e2, x2, M, s2\<lparr>systime := bnd\<rparr>)"
    using r(2) end_of_tick [OF inv r(4) f(3)] by (simp add: pipe_ok_def hangs_set_def)
  ultimately show ?thesis using r(1) by simp
qed

section \<open>Sequences of messages\<close>

fun pipe_legal :: "nat set \<Rightarrow> pipe_state \<Rightarrow> pipe_ev \<Rightarrow> bool" where
  "pipe_legal H w (P_list h av) \<longleftrightarrow> h \<in> H \<and> hangs (fst (snd w)) h = None"
| "pipe_legal H w (P_run bnd other) \<longleftrightarrow> 0 \<le> bnd \<and> foreign H other \<and> requests_later bnd other (\<lambda>_. [])"
| "pipe_legal H w _ \<longleftrightarrow> True"

lemma pipe_do_refines:
  assumes ok: "pipe_ok H w" and "pipe_legal H w ev" "q_do ev (pipe_abs w) = Some q'"
  shows "\<exists>w'. pipe_do ev w = Some w' \<and> pipe_ok H w' \<and> pipe_abs w' = q'"
proof -
  obtain e x M s where w: "w = (e, x, M, s)" by (cases w)
  show ?thesis
  proof (cases ev)
    case (P_list h av)
    with assms pipe_list_refines [of H e x M s h av q'] show ?thesis by (auto simp: w)
  next
    case P_flush
    with assms pipe_flush_refines [of H e x M s] show ?thesis by (auto simp: w)
  next
    case P_clear
    with assms clear_loop_refines [of H e x M s] show ?thesis by (auto simp: w pipe_clear_def)
  next
    case (P_delay f)
    with assms show ?thesis by (auto simp: w pipe_ok_def pipe_abs_def pending_msg_def)
  next
    case (P_run bnd other)
    with assms pipe_run_refines [of H e x M s other bnd] show ?thesis by (auto simp: w simp del: pipe_do.simps)
  qed
qed

fun pipe_dos :: "pipe_ev list \<Rightarrow> pipe_state \<Rightarrow> pipe_state option" where
  "pipe_dos [] w = Some w"
| "pipe_dos (ev # evs) w = Option.bind (pipe_do ev w) (pipe_dos evs)"

fun q_dos :: "pipe_ev list \<Rightarrow> delay_line \<Rightarrow> delay_line option" where
  "q_dos [] q = Some q"
| "q_dos (ev # evs) q = Option.bind (q_do ev q) (q_dos evs)"

text \<open>Each list gets a hang that is free when it comes.\<close>

fun pipe_legals :: "nat set \<Rightarrow> pipe_ev list \<Rightarrow> pipe_state \<Rightarrow> bool" where
  "pipe_legals H [] w \<longleftrightarrow> True"
| "pipe_legals H (ev # evs) w \<longleftrightarrow> pipe_legal H w ev \<and> (case pipe_do ev w of None \<Rightarrow> True | Some w' \<Rightarrow> pipe_legals H evs w')"

lemma pipe_dos_refine:
  "pipe_ok H w \<Longrightarrow> pipe_legals H evs w \<Longrightarrow> q_dos evs (pipe_abs w) = Some q' \<Longrightarrow>
    \<exists>w'. pipe_dos evs w = Some w' \<and> pipe_ok H w' \<and> pipe_abs w' = q'"
proof (induction evs arbitrary: w)
  case (Cons ev evs)
  from Cons.prems(3) obtain q1 where q1: "q_do ev (pipe_abs w) = Some q1" "q_dos evs q1 = Some q'"
    by (auto simp: bind_eq_Some_conv)
  from pipe_do_refines [OF Cons.prems(1) _ q1(1)] Cons.prems(2) obtain w1 where
    w1: "pipe_do ev w = Some w1" "pipe_ok H w1" "pipe_abs w1 = q1" by auto
  with Cons.IH [OF w1(2)] Cons.prems(2) q1(2) show ?case by simp
qed simp

section \<open>Properties\<close>

lemma pipe_slots_plain: "\<not> (\<exists>a\<in>set as. starts (CHR ''p'') a) \<Longrightarrow> list_all plain (pipe_slots gp as)"
  by (induction as arbitrary: gp) (auto simp: pipe_slot_def starts_def split: atom.splits)

lemma pipe_new_ok:
  assumes "pipe_new gp argv M = Some (x, M0)" "\<not> (\<exists>a\<in>set argv. starts (CHR ''p'') a)"
    and "clock_inv s" "H \<inter> set (setlist s) = {}"
  shows "pipe_ok H ([], x, M0, s)"
proof -
  have na: "\<not> (\<exists>a\<in>set (butlast argv). starts (CHR ''p'') a)" using assms(2) by (auto dest: in_set_butlastD)
  then have "[a\<leftarrow>butlast argv. starts (CHR ''p'') a] = []" by (auto simp: filter_empty_conv)
  moreover have "\<not> starts (CHR ''p'') (A_FLOAT f)" for f by (simp add: starts_def)
  ultimately have x: "x_nptr x = 0" "x_hang x = []" "hangs x = (\<lambda>_. None)" "list_all plain (x_vec x)"
    using assms(1) pipe_slots_plain [OF na, of gp] by (auto simp: pipe_new_def bind_eq_Some_conv Let_def pipe_slot_def)
  with hangs_set_empty [OF assms(3,4)] show ?thesis by (auto simp: pipe_ok_def)
qed

text \<open>C30: a new pipe without pointers behaves as a delay line, whatever sequence of lists, delays, flush and clear messages it
  gets while time passes and other objects use their own clocks: every message leaves, whole and from right to
  left, exactly when it is due, those due at the same time in the order they came; nothing is lost, sent twice or sent
  after it was cleared, and no step reads a hang that has been freed.\<close>

theorem pipe_delays:
  assumes "pipe_new gp argv M = Some (x, M0)" "\<not> (\<exists>a\<in>set argv. starts (CHR ''p'') a)"
    and "clock_inv s" "H \<inter> set (setlist s) = {}" "pipe_legals H evs ([], x, M0, s)"
    and "q_dos evs (pipe_abs ([], x, M0, s)) = Some q'"
  shows "\<exists>w'. pipe_dos evs ([], x, M0, s) = Some w' \<and> pipe_abs w' = q'"
  using pipe_dos_refine [OF pipe_new_ok [OF assms(1-4)] assms(5,6)] by blast

text \<open>A flush that gets a new message for each it sends.\<close>

lemma pipe_flush_inv:
  assumes ret: "pipe_flush out w = Some w'" and "I w"
    and step: "\<And>h l w w2. I w \<Longrightarrow> x_hang (fst (snd w)) = h # l \<Longrightarrow> hang_tick out h w = Some w2 \<Longrightarrow> I w2"
  shows "I w' \<and> x_hang (fst (snd w')) = []"
proof -
  have "I w \<longrightarrow> (\<forall>h l w w2. I w \<longrightarrow> x_hang (fst (snd w)) = h # l \<longrightarrow> hang_tick out h w = Some w2 \<longrightarrow> I w2) \<longrightarrow>
    I w' \<and> x_hang (fst (snd w')) = []"
  proof (rule pipe_flush.raw_induct [where P = "\<lambda>out w w'. I w \<longrightarrow>
      (\<forall>h l w w2. I w \<longrightarrow> x_hang (fst (snd w)) = h # l \<longrightarrow> hang_tick out h w = Some w2 \<longrightarrow> I w2) \<longrightarrow>
      I w' \<and> x_hang (fst (snd w')) = []", OF _ ret])
    fix loop out w w'
    assume IH: "\<And>out w w'. loop out w = Some w' \<Longrightarrow> I w \<longrightarrow>
        (\<forall>h l w w2. I w \<longrightarrow> x_hang (fst (snd w)) = h # l \<longrightarrow> hang_tick out h w = Some w2 \<longrightarrow> I w2) \<longrightarrow>
        I w' \<and> x_hang (fst (snd w')) = []"
      and eq: "(case x_hang (fst (snd w)) of [] \<Rightarrow> Some w | h # _ \<Rightarrow> Option.bind (hang_tick out h w) (loop out)) = Some w'"
    show "I w \<longrightarrow> (\<forall>h l w w2. I w \<longrightarrow> x_hang (fst (snd w)) = h # l \<longrightarrow> hang_tick out h w = Some w2 \<longrightarrow> I w2) \<longrightarrow>
        I w' \<and> x_hang (fst (snd w')) = []"
    proof (intro impI)
      assume I: "I w" "\<forall>h l w w2. I w \<longrightarrow> x_hang (fst (snd w)) = h # l \<longrightarrow> hang_tick out h w = Some w2 \<longrightarrow> I w2"
      show "I w' \<and> x_hang (fst (snd w')) = []"
      proof (cases "x_hang (fst (snd w))")
        case (Cons h l)
        with eq obtain w2 where "hang_tick out h w = Some w2" "loop out w2 = Some w'" by (auto simp: bind_eq_Some_conv)
        with IH I Cons show ?thesis by blast
      qed (use eq I in auto)
    qed
  qed
  with assms(2) step show ?thesis by blast
qed

text \<open>The outlet of a pipe for one float is connected to its inlet; new hangs are numbered by the environment.\<close>

definition feed_back :: "nat pipe_out" where
  "feed_back i a w = (case w of (e, x, M, s) \<Rightarrow> map_option (Pair (Suc e)) (pipe_list e 0 [a] (x, M, s)))"

text \<open>The first \<open>n\<close> rounds of the loop of \<open>pipe_flush\<close>; \<open>None\<close> also when there are not as many.\<close>

fun flush_rounds :: "'e pipe_out \<Rightarrow> nat \<Rightarrow> 'e pipe_world \<Rightarrow> 'e pipe_world option" where
  "flush_rounds out 0 w = Some w"
| "flush_rounds out (Suc n) w =
     (case x_hang (fst (snd w)) of [] \<Rightarrow> None | h # _ \<Rightarrow> Option.bind (hang_tick out h w) (flush_rounds out n))"

text \<open>A pipe fed back: its hangs have numbers below those still to come, whose clocks are not set.\<close>

definition fed_back :: "nat pipe_world \<Rightarrow> bool" where
  "fed_back w \<longleftrightarrow>
     (case w of (e, x, M, s) \<Rightarrow> clock_inv s \<and> x_hang x \<noteq> [] \<and> distinct (x_hang x) \<and> x_nptr x = 0 \<and> delay_ms (x_deltime x) \<noteq> None \<and>
        (\<exists>f. x_vec x = [A_FLOAT f]) \<and> (\<forall>h\<in>set (x_hang x). h < e \<and> (\<exists>hg v. hangs x h = Some hg \<and> h_vec hg = [v])) \<and>
        (\<forall>k. e \<le> k \<longrightarrow> settime s k < 0))"

lemma fed_back_round:
  assumes fb: "fed_back w" and h: "x_hang (fst (snd w)) = h # l"
  shows "\<exists>w2. hang_tick feed_back h w = Some w2 \<and> fed_back w2"
proof -
  obtain e x M s where w: "w = (e, x, M, s)" by (cases w)
  from fb obtain f d where x: "clock_inv s" "distinct (x_hang x)" "x_nptr x = 0" "delay_ms (x_deltime x) = Some d" "x_vec x = [A_FLOAT f]"
    "\<forall>h\<in>set (x_hang x). h < e \<and> (\<exists>hg v. hangs x h = Some hg \<and> h_vec hg = [v])" "\<forall>k. e \<le> k \<longrightarrow> settime s k < 0"
    by (auto simp: w fed_back_def)
  obtain hg v where hg: "hangs x h = Some hg" "h_vec hg = [v]" and he: "h < e" using x(6) h by (auto simp: w)
  note c = clock_create_inv [OF x(1), of e]
  have ce: "settime s e < 0" using x(7) by simp
  from clock_delay_inv [OF c(1) [OF ce], of e d] clock_delay_list [OF c(1) [OF ce], of e d] c(2,5) [OF ce] obtain s1 t where
    s1: "clock_delay e d (clock_create e s) = Some s1" "clock_inv s1" "settime s1 = (settime s)(e := t)"
    by (auto simp: TIMEUNITPERMSEC_def)
  from clock_unset_spec [OF s1(2), of h] obtain s2 where
    s2: "clock_unset h s1 = Some s2" "clock_inv s2" "\<forall>k. e < k \<longrightarrow> settime s2 k = settime s k"
    using he s1(3) by (auto split: if_splits)
  define x2 where "x2 = x\<lparr>x_hang := e # l, x_vec := [A_FLOAT (atom_getfloat v)],
    hangs := ((hangs x)(e \<mapsto> \<lparr>h_gp = 0, h_vec = [A_FLOAT (atom_getfloat v)]\<rparr>))(h := None)\<rparr>"
  have "hang_tick feed_back h w = Some (Suc e, x2, M, s2)"
    using x(3-5) h hg he s1(1) s2(1)
    by (simp add: w hang_tick_def unlink_hang_def hang_send_def feed_back_def pipe_list_def hang_free_def clock_free_def Let_def x2_def)
  moreover have "fed_back (Suc e, x2, M, s2)"
    using x(2,3,4,6,7) h he s2(2,3) by (auto simp: w fed_back_def x2_def less_Suc_eq)
  ultimately show ?thesis by blast
qed

text \<open>\<open>flush\<close> never returns when the outlet of the pipe leads back to its inlet, even after a delay: each message
  flushed is put in a new hang at the head of the list, and there are rounds without end.\<close>

theorem pipe_flush_loops:
  assumes "fed_back w"
  shows "pipe_flush feed_back w = None \<and> (\<exists>w'. flush_rounds feed_back n w = Some w' \<and> fed_back w')"
proof
  show "pipe_flush feed_back w = None"
  proof (cases "pipe_flush feed_back w")
    case (Some w')
    have "fed_back w' \<and> x_hang (fst (snd w')) = []"
      by (rule pipe_flush_inv [where I = fed_back, OF Some assms]) (use fed_back_round in fastforce)
    then show ?thesis by (auto simp: fed_back_def split: prod.splits)
  qed simp
  show "\<exists>w'. flush_rounds feed_back n w = Some w' \<and> fed_back w'"
    using assms
  proof (induction n arbitrary: w)
    case (Suc n)
    then obtain h l where h: "x_hang (fst (snd w)) = h # l" by (cases "x_hang (fst (snd w))") (auto simp: fed_back_def split: prod.splits)
    from fed_back_round [OF Suc.prems h] Suc.IH h show ?case by auto
  qed simp
qed

section \<open>Witnesses\<close>

definition pipe_args :: "atom list" where
  "pipe_args = [A_SYMBOL ''float'', A_SYMBOL ''symbol'', A_FLOAT (FFin 1)]"

definition pipe1 :: pipe where
  "pipe1 = \<lparr>x_nptr = 0, x_deltime = FFin 1, x_vec = [A_FLOAT (FFin 0), A_SYMBOL ''symbol''], p_gp = 0, x_hang = [],
     hangs = (\<lambda>_. None), p_errors = []\<rparr>"

lemma pipe1_new: "pipe_new 0 pipe_args M = Some (pipe1, M)"
  by (simp add: pipe_new_def pipe_args_def pipe1_def starts_def pipe_slot_def slot_errors_def cnth_def)

definition pipe_evs :: "pipe_ev list" where
  "pipe_evs = [P_list 10 [A_FLOAT (FFin 3), A_SYMBOL ''a''], P_list 11 [A_FLOAT (FFin 4)],
     P_list 12 [A_FLOAT (FFin 5), A_SYMBOL ''b'', A_FLOAT (FFin 7)], P_run 20000 other1, P_flush]"

lemma pipe_list_hangs:
  "pipe_list h g av w = Some w' \<Longrightarrow> \<exists>hg. hangs (fst w') = (hangs (fst w))(h \<mapsto> hg)"
  by (auto simp: pipe_list_def Let_def bind_eq_Some_conv pipe_error_def split: prod.splits if_splits atom.splits)

lemma pipe_do_hangs: "pipe_do (P_list h av) w = Some w' \<Longrightarrow> k \<noteq> h \<Longrightarrow> hangs (fst (snd w')) k = hangs (fst (snd w)) k"
  using pipe_list_hangs [of h 0 av "snd w"] by fastforce

lemma pipe_legal_list:
  assumes "h \<in> H" "hangs (fst (snd w)) h = None"
    and "\<And>w'. \<forall>k. k \<noteq> h \<longrightarrow> hangs (fst (snd w')) k = hangs (fst (snd w)) k \<Longrightarrow> pipe_legals H evs w'"
  shows "pipe_legals H (P_list h av # evs) w"
  using assms pipe_do_hangs [of h av w] by (auto simp del: pipe_do.simps split: option.split)

lemma pipe_evs_legal: "pipe_legals {10, 11, 12} pipe_evs ([], pipe1, M, sched1)"
proof -
  have o: "foreign {10, 11, 12} other1" "requests_later 20000 other1 (\<lambda>_. [])"
    using patch1(2) [of 20000] by (simp_all add: foreign_def other1_def requests_later_def)
  have "hangs pipe1 k = None" for k by (simp add: pipe1_def)
  then show ?thesis unfolding pipe_evs_def
    by (intro pipe_legal_list) (auto simp: o split: option.split)
qed

lemma due1: "delay_until TIMEUNITPERMSEC 0 1 0 = 14112" "delay_until TIMEUNITPERMSEC 0 7 0 = 98784"
  using rd_nat [of 14112] rd_nat [of 98784] by (simp_all add: delay_until_def TIMEUNITPERMSEC_def)

lemma pipe_evs_run:
  "map_option q_sent (q_dos pipe_evs (pipe_abs ([], pipe1, M, sched1))) =
    Some [(14112, 1, A_SYMBOL ''a''), (14112, 0, A_FLOAT (FFin 3)), (14112, 1, A_SYMBOL ''a''), (14112, 0, A_FLOAT (FFin 4)),
      (20000, 1, A_SYMBOL ''b''), (20000, 0, A_FLOAT (FFin 5))]"
  by (simp add: pipe_evs_def pipe_abs_def pipe1_def q_list_def q_run_def q_flush_def delay_ms_def due1 sends_def
      atom_getfloat_def atom_getsymbol_def Let_def)

theorem pipe_delays_witness:
  "\<forall>M. \<exists>w'. pipe_dos pipe_evs ([], pipe1, M, sched1) = Some w' \<and>
    q_sent (pipe_abs w') = [(14112, 1, A_SYMBOL ''a''), (14112, 0, A_FLOAT (FFin 3)), (14112, 1, A_SYMBOL ''a''), (14112, 0, A_FLOAT (FFin 4)),
      (20000, 1, A_SYMBOL ''b''), (20000, 0, A_FLOAT (FFin 5))]"
proof
  fix M :: gmem
  have p: "\<not> (\<exists>a\<in>set pipe_args. starts (CHR ''p'') a)" by (simp add: pipe_args_def starts_def cnth_def)
  have h: "{10, 11, 12} \<inter> set (setlist sched1) = {}" by simp
  from pipe_evs_run [of M] obtain q' where q': "q_dos pipe_evs (pipe_abs ([], pipe1, M, sched1)) = Some q'"
    "q_sent q' = [(14112, 1, A_SYMBOL ''a''), (14112, 0, A_FLOAT (FFin 3)), (14112, 1, A_SYMBOL ''a''), (14112, 0, A_FLOAT (FFin 4)),
      (20000, 1, A_SYMBOL ''b''), (20000, 0, A_FLOAT (FFin 5))]" by (auto simp: map_option_case split: option.splits)
  from pipe_delays [OF pipe1_new p sched1_inv h pipe_evs_legal q'(1)] q'(2) show "\<exists>w'. pipe_dos pipe_evs ([], pipe1, M, sched1) = Some w' \<and>
    q_sent (pipe_abs w') = [(14112, 1, A_SYMBOL ''a''), (14112, 0, A_FLOAT (FFin 3)), (14112, 1, A_SYMBOL ''a''), (14112, 0, A_FLOAT (FFin 4)),
      (20000, 1, A_SYMBOL ''b''), (20000, 0, A_FLOAT (FFin 5))]" by auto
qed

text \<open>The pipe fed back has one message pending, in hang 1.\<close>

definition pipe2 :: pipe where
  "pipe2 = pipe1\<lparr>x_vec := [A_FLOAT (FFin 0)], x_hang := [1], hangs := (hangs pipe1)(1 \<mapsto> \<lparr>h_gp = 0, h_vec = [A_FLOAT (FFin 6)]\<rparr>)\<rparr>"

theorem pipe_flush_loops_witness:
  "\<forall>M. pipe_flush feed_back (2, pipe2, M, sched1) = None \<and> (\<exists>w'. flush_rounds feed_back 5 (2, pipe2, M, sched1) = Some w' \<and> fed_back w')"
proof (intro allI pipe_flush_loops)
  fix M :: gmem
  have "\<forall>k. 2 \<le> k \<longrightarrow> settime sched1 k < 0" by (auto simp: sched1_def settime_def clock_new_def)
  then show "fed_back (2, pipe2, M, sched1)"
    using sched1_inv by (simp add: fed_back_def pipe2_def pipe1_def delay_ms_def)
qed

end
