(* ===== verification/GpointerSafe.thy ===== *)
theory GpointerSafe
  imports Gpointer
begin

text \<open>
  The safety of gpointers: the reference counts of the stubs (\<open>counted\<close>) and the links between stubs and
  owners (\<open>owners_ok\<close>) are an invariant of every sequence of operations (\<open>gmem_reaches\<close>), which rules out
  reading freed stubs and owners; stale pointers stay recognisable (\<open>stale_pointer\<close>); the pointer object
  enumerates the scalars of a canvas (\<open>traverse_visits_scalars\<close>). Concrete runs close the theory.
\<close>

section \<open>Reference counts\<close>

text \<open>
  \<open>R s\<close> is the number of gpointers that refer to stub \<open>s\<close>. A stub's count is that number, a stub without
  owner is kept only while something refers to it, and no gpointer refers to a freed stub.
\<close>

definition counted :: "(nat \<Rightarrow> nat) \<Rightarrow> gmem \<Rightarrow> bool" where
  "counted R M \<longleftrightarrow>
     stubs M 0 = None \<and> bugs M = [] \<and>
     (\<forall>s g. stubs M s = Some g \<longrightarrow> gs_refcount g = int (R s) \<and> (gs_which g = GP_NONE \<longrightarrow> 0 < R s)) \<and>
     (\<forall>s. s \<noteq> 0 \<and> 0 < R s \<longrightarrow> stubs M s \<noteq> None)"

text \<open>The owner a stub still has. Owners and stubs point at each other.\<close>

definition owner_of :: "gmem \<Rightarrow> nat \<Rightarrow> (gp_kind \<times> nat) option" where
  "owner_of M s =
     (case stubs M s of
        None \<Rightarrow> None
      | Some g \<Rightarrow> if gs_which g = GP_NONE then None else Some (gs_which g, gs_un g))"

definition owners_ok :: "gmem \<Rightarrow> bool" where
  "owners_ok M \<longleftrightarrow>
     (\<forall>gl g. glists M gl = Some g \<longrightarrow> gl \<noteq> 0 \<and> owner_of M (gl_stub g) = Some (GP_GLIST, gl)) \<and>
     (\<forall>a g. arrays M a = Some g \<longrightarrow> owner_of M (a_stub g) = Some (GP_ARRAY, a)) \<and>
     (\<forall>s gl. owner_of M s = Some (GP_GLIST, gl) \<longrightarrow> (\<exists>g. glists M gl = Some g \<and> gl_stub g = s)) \<and>
     (\<forall>s a. owner_of M s = Some (GP_ARRAY, a) \<longrightarrow> (\<exists>g. arrays M a = Some g \<and> a_stub g = s))"

text \<open>What the operations on stubs leave alone.\<close>

definition same_owners :: "gmem \<Rightarrow> gmem \<Rightarrow> bool" where
  "same_owners M M' \<longleftrightarrow> glists M' = glists M \<and> arrays M' = arrays M \<and> gobjs M' = gobjs M \<and>
     glist_valid M' = glist_valid M \<and> owner_of M' = owner_of M"

lemma same_owners_refl [simp]: "same_owners M M"
  by (simp add: same_owners_def)

lemma same_owners_trans: "same_owners M M1 \<Longrightarrow> same_owners M1 M2 \<Longrightarrow> same_owners M M2"
  by (simp add: same_owners_def)

lemma same_owners_ok: "same_owners M M' \<Longrightarrow> owners_ok M' = owners_ok M"
  by (simp add: same_owners_def owners_ok_def)

lemma put_gptr_same [simp]:
  "same_owners M (M\<lparr>gptr := f\<rparr>)" "stubs (M\<lparr>gptr := f\<rparr>) = stubs M" "counted R (M\<lparr>gptr := f\<rparr>) = counted R M"
  by (simp_all add: same_owners_def counted_def owner_of_def fun_eq_iff)

lemma owners_put_gptr [simp]: "owners_ok (M\<lparr>gptr := f\<rparr>) = owners_ok M"
  by (rule same_owners_ok) simp

lemma countedD:
  assumes "counted R M"
  shows "stubs M 0 = None" "bugs M = []"
    "stubs M s = Some g \<Longrightarrow> gs_refcount g = int (R s)"
    "stubs M s = Some g \<Longrightarrow> gs_which g = GP_NONE \<Longrightarrow> 0 < R s"
    "s \<noteq> 0 \<Longrightarrow> 0 < R s \<Longrightarrow> \<exists>g. stubs M s = Some g"
  using assms unfolding counted_def by auto

text \<open>One reference more, one less.\<close>

lemma stub_ref_counted:
  assumes "counted R M" "stubs M s = Some g"
  shows "\<exists>M'. stub_ref s M = Some M' \<and> counted (R(s := Suc (R s))) M' \<and> gptr M' = gptr M \<and> same_owners M M'"
proof -
  have "s \<noteq> 0" using assms countedD(1) [OF assms(1)] by (cases "s = 0") auto
  then show ?thesis
    using assms by (auto simp: counted_def stub_ref_def same_owners_def owner_of_def fun_eq_iff)
qed

lemma gstub_dis_counted:
  assumes "counted R M" "0 < R s" "s \<noteq> 0"
  shows "\<exists>M'. gstub_dis s M = Some M' \<and> counted (R(s := R s - 1)) M' \<and> gptr M' = gptr M \<and> same_owners M M'"
proof -
  obtain g where g: "stubs M s = Some g" using countedD(5) [OF assms(1)] assms by blast
  have r: "gs_refcount g = int (R s)" by (rule countedD(3) [OF assms(1) g])
  show ?thesis
  proof (cases "gs_refcount g = 1 \<and> gs_which g = GP_NONE")
    case True
    with assms g r show ?thesis
      by (simp add: gstub_dis_def Let_def counted_def same_owners_def owner_of_def fun_eq_iff)
  next
    case False
    with assms g r show ?thesis
      by (auto simp: gstub_dis_def Let_def counted_def same_owners_def owner_of_def fun_eq_iff)
  qed
qed

lemma gpointer_unset_counted:
  assumes "counted R M" "gp_stub (gptr M p) \<noteq> 0 \<Longrightarrow> 0 < R (gp_stub (gptr M p))"
  shows "\<exists>M'. gpointer_unset p M = Some M' \<and> counted (R(gp_stub (gptr M p) := R (gp_stub (gptr M p)) - 1)) M' \<and>
    gptr M' = (gptr M)(p := (gptr M p)\<lparr>gp_stub := 0\<rparr>) \<and> same_owners M M'"
proof (cases "gp_stub (gptr M p) = 0")
  case True
  have "counted (R(0 := R 0 - 1)) M" using assms(1) by (auto simp: counted_def)
  moreover have "gptr M = (gptr M)(p := (gptr M p)\<lparr>gp_stub := 0\<rparr>)"
  proof -
    have "gptr M p = (gptr M p)\<lparr>gp_stub := 0\<rparr>" using True by (cases "gptr M p") simp
    then show ?thesis by (metis fun_upd_triv)
  qed
  ultimately show ?thesis using True by (simp add: gpointer_unset_def)
next
  case False
  then obtain M' where "gstub_dis (gp_stub (gptr M p)) M = Some M'"
      "counted (R(gp_stub (gptr M p) := R (gp_stub (gptr M p)) - 1)) M'" "gptr M' = gptr M" "same_owners M M'"
    using gstub_dis_counted [OF assms(1)] assms(2) by blast
  then show ?thesis using False
    by (auto simp: gpointer_unset_def intro: same_owners_trans [OF _ put_gptr_same(1)])
qed

lemma gpointer_copy_counted:
  assumes "counted R M" "stubs M (gp_stub gp) = Some g"
  shows "\<exists>M'. gpointer_copy gp p M = Some M' \<and> counted (R(gp_stub gp := Suc (R (gp_stub gp)))) M' \<and>
    gptr M' = (gptr M)(p := gp) \<and> same_owners M M'"
proof -
  have "gp_stub gp \<noteq> 0" using assms countedD(1) [OF assms(1)] by (cases "gp_stub gp = 0") auto
  then show ?thesis
    using stub_ref_counted [of R "put_gptr p gp M" "gp_stub gp"] assms
    by (auto simp: gpointer_copy_def Let_def intro: same_owners_trans [OF put_gptr_same(1)])
qed

lemma leave_stub_counted:
  assumes "counted R M" "gp_stub (gptr M p) \<noteq> 0 \<Longrightarrow> 0 < R (gp_stub (gptr M p))"
  shows "\<exists>M'. leave_stub p M = Some M' \<and> counted (R(gp_stub (gptr M p) := R (gp_stub (gptr M p)) - 1)) M' \<and>
    gptr M' = gptr M \<and> same_owners M M'"
proof (cases "gp_stub (gptr M p) = 0")
  case True
  have "counted (R(0 := R 0 - 1)) M" using assms(1) by (auto simp: counted_def)
  then show ?thesis using True by (simp add: leave_stub_def)
next
  case False
  then show ?thesis using gstub_dis_counted [OF assms(1)] assms(2) by (simp add: leave_stub_def)
qed

lemma owner_of_stub: "owner_of M s = Some k \<Longrightarrow> \<exists>g. stubs M s = Some g"
  by (auto simp: owner_of_def split: option.splits)

lemma counted_cong:
  assumes "counted R M" "\<And>s. s \<noteq> 0 \<Longrightarrow> R' s = R s"
  shows "counted R' M"
proof -
  have "s \<noteq> 0" if "stubs M s = Some g" for s g
    using that countedD(1) [OF assms(1)] by (cases "s = 0") auto
  then have "stubs M s = Some g \<Longrightarrow> R' s = R s" for s g using assms(2) by blast
  with assms show ?thesis unfolding counted_def by auto
qed

lemma gpointer_setglist_counted:
  assumes "counted R M" "gp_stub (gptr M p) \<noteq> 0 \<Longrightarrow> 0 < R (gp_stub (gptr M p))" "owners_ok M" "glists M gl = Some g"
  defines "R1 \<equiv> R(gp_stub (gptr M p) := R (gp_stub (gptr M p)) - 1)"
  shows "\<exists>M'. gpointer_setglist p gl x M = Some M' \<and> counted (R1(gl_stub g := Suc (R1 (gl_stub g)))) M' \<and>
    gptr M' = (gptr M)(p := \<lparr>gp_un = x, gp_valid = gl_valid g, gp_stub = gl_stub g\<rparr>) \<and> same_owners M M'"
proof -
  obtain M1 where M1: "leave_stub p M = Some M1" "counted R1 M1" "gptr M1 = gptr M" "same_owners M M1"
    using leave_stub_counted [OF assms(1,2)] unfolding R1_def by blast
  let ?M2 = "put_gptr p \<lparr>gp_un = x, gp_valid = gl_valid g, gp_stub = gl_stub g\<rparr> M1"
  have "owner_of M1 (gl_stub g) = Some (GP_GLIST, gl)" "glists M1 gl = Some g"
    using M1(4) assms(3,4) by (simp_all add: same_owners_def owners_ok_def)
  then obtain st where "stubs ?M2 (gl_stub g) = Some st" by (auto dest: owner_of_stub)
  from stub_ref_counted [OF _ this, of R1] obtain M' where
    "stub_ref (gl_stub g) ?M2 = Some M'" "counted (R1(gl_stub g := Suc (R1 (gl_stub g)))) M'" "gptr M' = gptr ?M2"
    "same_owners ?M2 M'" using M1(2) by (auto simp only: put_gptr_same)
  then show ?thesis using M1 \<open>glists M1 gl = Some g\<close>
    by (auto simp: gpointer_setglist_def intro: same_owners_trans [OF _ same_owners_trans [OF put_gptr_same(1)]])
qed

lemma gpointer_setarray_counted:
  assumes "counted R M" "gp_stub (gptr M p) \<noteq> 0 \<Longrightarrow> 0 < R (gp_stub (gptr M p))" "owners_ok M" "arrays M a = Some g"
  defines "R1 \<equiv> R(gp_stub (gptr M p) := R (gp_stub (gptr M p)) - 1)"
  shows "\<exists>M'. gpointer_setarray p a x M = Some M' \<and> counted (R1(a_stub g := Suc (R1 (a_stub g)))) M' \<and>
    gptr M' = (gptr M)(p := \<lparr>gp_un = x, gp_valid = a_valid g, gp_stub = a_stub g\<rparr>) \<and> same_owners M M'"
proof -
  obtain M1 where M1: "leave_stub p M = Some M1" "counted R1 M1" "gptr M1 = gptr M" "same_owners M M1"
    using leave_stub_counted [OF assms(1,2)] unfolding R1_def by blast
  let ?M2 = "put_gptr p \<lparr>gp_un = x, gp_valid = a_valid g, gp_stub = a_stub g\<rparr> M1"
  have "owner_of M1 (a_stub g) = Some (GP_ARRAY, a)" "arrays M1 a = Some g"
    using M1(4) assms(3,4) by (simp_all add: same_owners_def owners_ok_def)
  then obtain st where "stubs ?M2 (a_stub g) = Some st" by (auto dest: owner_of_stub)
  from stub_ref_counted [OF _ this, of R1] obtain M' where
    "stub_ref (a_stub g) ?M2 = Some M'" "counted (R1(a_stub g := Suc (R1 (a_stub g)))) M'" "gptr M' = gptr ?M2"
    "same_owners ?M2 M'" using M1(2) by (auto simp only: put_gptr_same)
  then show ?thesis using M1 \<open>arrays M1 a = Some g\<close>
    by (auto simp: gpointer_setarray_def intro: same_owners_trans [OF _ same_owners_trans [OF put_gptr_same(1)]])
qed

section \<open>Sequences of operations\<close>

text \<open>
  An operation on the memory. The addresses of what is made are the allocator's choice. \<open>A\<close> is the set of the
  gpointers in use: those initialised or copied and not yet given up, which their owners do after unsetting them.
\<close>

datatype gev =
    New_glist nat nat
  | New_array nat nat symbol
  | Free_glist nat
  | Free_array nat
  | Resize_array nat
  | Add_obj nat nat gobj
  | Delete_obj nat nat
  | Init nat
  | Copy nat nat
  | Unset nat
  | Set_glist nat nat nat
  | Set_array nat nat nat
  | Give_up nat

fun gev_do :: "gev \<Rightarrow> gmem \<Rightarrow> gmem option" where
  "gev_do (New_glist gl s) M = Some (glist_init gl s M)"
| "gev_do (New_array a s t) M = Some (array_new a s t M)"
| "gev_do (Free_glist gl) M = canvas_free gl M"
| "gev_do (Free_array a) M = array_free a M"
| "gev_do (Resize_array a) M = array_resize a M"
| "gev_do (Add_obj gl y ob) M = glist_add gl y ob M"
| "gev_do (Delete_obj gl y) M = glist_delete gl y M"
| "gev_do (Init p) M = Some (gpointer_init p M)"
| "gev_do (Copy q p) M = gpointer_copy (gptr M q) p M"
| "gev_do (Unset p) M = gpointer_unset p M"
| "gev_do (Set_glist p gl x) M = gpointer_setglist p gl x M"
| "gev_do (Set_array p a w) M = gpointer_setarray p a w M"
| "gev_do (Give_up p) M = Some M"

fun gev_live :: "gev \<Rightarrow> nat set \<Rightarrow> nat set" where
  "gev_live (Init p) A = insert p A"
| "gev_live (Copy q p) A = insert p A"
| "gev_live (Give_up p) A = A - {p}"
| "gev_live _ A = A"

text \<open>What callers see to.\<close>

fun gev_legal :: "nat set \<Rightarrow> gmem \<Rightarrow> gev \<Rightarrow> bool" where
  "gev_legal A M (New_glist gl s) \<longleftrightarrow> gl \<noteq> 0 \<and> glists M gl = None \<and> s \<noteq> 0 \<and> stubs M s = None"
| "gev_legal A M (New_array a s t) \<longleftrightarrow> arrays M a = None \<and> s \<noteq> 0 \<and> stubs M s = None"
| "gev_legal A M (Free_glist gl) \<longleftrightarrow> glists M gl \<noteq> None"
| "gev_legal A M (Free_array a) \<longleftrightarrow> arrays M a \<noteq> None"
| "gev_legal A M (Resize_array a) \<longleftrightarrow> arrays M a \<noteq> None"
| "gev_legal A M (Add_obj gl y ob) \<longleftrightarrow> glists M gl \<noteq> None \<and> y \<noteq> 0 \<and> gobjs M y = None"
| "gev_legal A M (Delete_obj gl y) \<longleftrightarrow> glists M gl \<noteq> None"
| "gev_legal A M (Init p) \<longleftrightarrow> p \<notin> A"
| "gev_legal A M (Copy q p) \<longleftrightarrow> q \<in> A \<and> p \<notin> A \<and> gp_stub (gptr M q) \<noteq> 0"
| "gev_legal A M (Unset p) \<longleftrightarrow> p \<in> A"
| "gev_legal A M (Set_glist p gl x) \<longleftrightarrow> p \<in> A \<and> glists M gl \<noteq> None"
| "gev_legal A M (Set_array p a w) \<longleftrightarrow> p \<in> A \<and> arrays M a \<noteq> None"
| "gev_legal A M (Give_up p) \<longleftrightarrow> p \<in> A \<and> gp_stub (gptr M p) = 0"

definition gmem_start :: "(nat \<Rightarrow> gpointer) \<Rightarrow> gmem" where
  "gmem_start f = \<lparr>stubs = (\<lambda>s. None), gptr = f, glists = (\<lambda>gl. None), arrays = (\<lambda>a. None),
     gobjs = (\<lambda>y. None), glist_valid = glist_valid0, bugs = []\<rparr>"

inductive gmem_reaches :: "gev list \<Rightarrow> nat set \<Rightarrow> gmem \<Rightarrow> bool" where
  start: "gmem_reaches [] {} (gmem_start f)"
| step: "gmem_reaches es A M \<Longrightarrow> gev_legal A M e \<Longrightarrow> gev_do e M = Some M' \<Longrightarrow>
    gmem_reaches (es @ [e]) (gev_live e A) M'"

definition nrefs :: "nat set \<Rightarrow> (nat \<Rightarrow> gpointer) \<Rightarrow> nat \<Rightarrow> nat" where
  "nrefs A f s = card {p \<in> A. gp_stub (f p) = s}"

definition gmem_inv :: "nat set \<Rightarrow> gmem \<Rightarrow> bool" where
  "gmem_inv A M \<longleftrightarrow> finite A \<and> counted (nrefs A (gptr M)) M \<and> owners_ok M"

lemma nrefs_insert:
  assumes "finite A" "p \<notin> A"
  shows "nrefs (insert p A) f = (nrefs A f)(gp_stub (f p) := Suc (nrefs A f (gp_stub (f p))))"
proof
  fix s
  have "{q \<in> insert p A. gp_stub (f q) = s} =
      (if gp_stub (f p) = s then insert p {q \<in> A. gp_stub (f q) = s} else {q \<in> A. gp_stub (f q) = s})" by auto
  then show "nrefs (insert p A) f s = ((nrefs A f)(gp_stub (f p) := Suc (nrefs A f (gp_stub (f p))))) s"
    using assms by (auto simp: nrefs_def)
qed

lemma nrefs_cong: "(\<And>p. p \<in> A \<Longrightarrow> gp_stub (f p) = gp_stub (g p)) \<Longrightarrow> nrefs A f = nrefs A g"
proof
  fix s
  assume "\<And>p. p \<in> A \<Longrightarrow> gp_stub (f p) = gp_stub (g p)"
  then have "{p \<in> A. gp_stub (f p) = s} = {p \<in> A. gp_stub (g p) = s}" by auto
  then show "nrefs A f s = nrefs A g s" by (simp add: nrefs_def)
qed

lemma nrefs_upd_out [simp]: "p \<notin> A \<Longrightarrow> nrefs A (f(p := g)) = nrefs A f"
  by (rule nrefs_cong) auto

lemma nrefs_upd:
  fixes f :: "nat \<Rightarrow> gpointer"
  assumes "finite A" "p \<in> A"
  defines "R1 \<equiv> (nrefs A f)(gp_stub (f p) := nrefs A f (gp_stub (f p)) - 1)"
  shows "nrefs A (f(p := g)) = R1(gp_stub g := Suc (R1 (gp_stub g)))"
proof -
  have A: "A = insert p (A - {p})" using assms(2) by blast
  have "nrefs A h = (nrefs (A - {p}) h)(gp_stub (h p) := Suc (nrefs (A - {p}) h (gp_stub (h p))))" for h
    using nrefs_insert [of "A - {p}" p h] assms(1) A by simp
  from this [of f] this [of "f(p := g)"] show ?thesis by (simp add: R1_def fun_eq_iff)
qed

lemma nrefs_pos: "finite A \<Longrightarrow> p \<in> A \<Longrightarrow> 0 < nrefs A f (gp_stub (f p))"
  by (auto simp: nrefs_def card_gt_0_iff)

lemma kept_inv:
  assumes "gmem_inv A M" "counted (nrefs A (gptr M')) M'" "same_owners M M'"
  shows "gmem_inv A M'"
  using assms by (simp add: gmem_inv_def same_owners_ok)

text \<open>Making an owner, losing it, changing it.\<close>

lemma gstub_new_counted:
  assumes "counted R M" "s \<noteq> 0" "stubs M s = None"
  shows "counted R (gstub_new gl a s M)"
proof -
  have "R s = 0" using countedD(5) [OF assms(1,2)] assms(3) by force
  then show ?thesis using assms by (auto simp: gstub_new_def counted_def)
qed

lemma gstub_cutoff_counted:
  assumes "counted R M" "owner_of M s \<noteq> None"
  shows "\<exists>M'. gstub_cutoff s M = Some M' \<and> counted R M' \<and> gptr M' = gptr M \<and> glists M' = glists M \<and> arrays M' = arrays M \<and>
    gobjs M' = gobjs M \<and> glist_valid M' = glist_valid M \<and> owner_of M' = (owner_of M)(s := None)"
proof -
  obtain g where g: "stubs M s = Some g" using assms(2) by (auto simp: owner_of_def split: option.splits)
  have "gs_refcount g = int (R s)" by (rule countedD(3) [OF assms(1) g])
  with assms(1) g show ?thesis
    by (auto simp: gstub_cutoff_def Let_def counted_def owner_of_def fun_eq_iff)
qed

lemma counted_frame: "stubs M' = stubs M \<Longrightarrow> bugs M' = bugs M \<Longrightarrow> counted R M' = counted R M"
  by (simp add: counted_def)

lemma owner_of_frame: "stubs M' = stubs M \<Longrightarrow> owner_of M' = owner_of M"
  by (simp add: owner_of_def fun_eq_iff)

lemma owners_okD:
  assumes "owners_ok M"
  shows "glists M gl = Some g \<Longrightarrow> owner_of M (gl_stub g) = Some (GP_GLIST, gl)"
    "glists M gl = Some g \<Longrightarrow> gl \<noteq> 0"
    "arrays M a = Some h \<Longrightarrow> owner_of M (a_stub h) = Some (GP_ARRAY, a)"
    "owner_of M s = Some (GP_GLIST, gl) \<Longrightarrow> \<exists>g. glists M gl = Some g \<and> gl_stub g = s"
    "owner_of M s = Some (GP_ARRAY, a) \<Longrightarrow> \<exists>g. arrays M a = Some g \<and> a_stub g = s"
  using assms unfolding owners_ok_def by blast+

lemma glist_init_inv:
  assumes "gmem_inv A M" "gl \<noteq> 0" "glists M gl = None" "s \<noteq> 0" "stubs M s = None"
  shows "gmem_inv A (glist_init gl s M)"
proof -
  let ?M = "glist_init gl s M"
  have M: "finite A" "counted (nrefs A (gptr M)) M" "owners_ok M" using assms(1) by (simp_all add: gmem_inv_def)
  have st: "stubs ?M = stubs (gstub_new gl 0 s M)" "bugs ?M = bugs (gstub_new gl 0 s M)" "gptr ?M = gptr M"
    by (simp_all add: glist_init_def bump_def gstub_new_def Let_def)
  have ow: "owner_of ?M = (owner_of M)(s \<mapsto> (GP_GLIST, gl))" "owner_of M s = None"
    using assms(2,5) by (simp_all add: owner_of_def fun_eq_iff st gstub_new_def)
  have "owners_ok ?M" using M(3) assms(2,3) ow(2)
    unfolding owners_ok_def ow(1) by (auto simp: glist_init_def bump_def gstub_new_def Let_def; metis option.distinct(1))
  then show ?thesis
    using M gstub_new_counted [OF M(2) assms(4,5)] counted_frame [OF st(1,2)] st(3) by (simp add: gmem_inv_def)
qed

lemma array_new_inv:
  assumes "gmem_inv A M" "arrays M a = None" "s \<noteq> 0" "stubs M s = None"
  shows "gmem_inv A (array_new a s t M)"
proof -
  let ?M = "array_new a s t M"
  have M: "finite A" "counted (nrefs A (gptr M)) M" "owners_ok M" using assms(1) by (simp_all add: gmem_inv_def)
  have st: "stubs ?M = stubs (gstub_new 0 a s M)" "bugs ?M = bugs (gstub_new 0 a s M)" "gptr ?M = gptr M"
    by (simp_all add: array_new_def gstub_new_def Let_def)
  have ow: "owner_of ?M = (owner_of M)(s \<mapsto> (GP_ARRAY, a))" "owner_of M s = None"
    using assms(4) by (simp_all add: owner_of_def fun_eq_iff st gstub_new_def)
  have "owners_ok ?M" using M(3) assms(2) ow(2)
    unfolding owners_ok_def ow(1) by (auto simp: array_new_def gstub_new_def Let_def; metis option.distinct(1))
  then show ?thesis
    using M gstub_new_counted [OF M(2) assms(3,4)] counted_frame [OF st(1,2)] st(3) by (simp add: gmem_inv_def)
qed

lemma canvas_free_inv:
  assumes "gmem_inv A M" "glists M gl \<noteq> None"
  shows "\<exists>M'. canvas_free gl M = Some M' \<and> gmem_inv A M'"
proof -
  have M: "finite A" "counted (nrefs A (gptr M)) M" "owners_ok M" using assms(1) by (simp_all add: gmem_inv_def)
  obtain g where g: "glists M gl = Some g" using assms(2) by blast
  have o: "owner_of M (gl_stub g) = Some (GP_GLIST, gl)" using owners_okD(1) [OF M(3) g] .
  then obtain M1 where M1: "gstub_cutoff (gl_stub g) M = Some M1" "counted (nrefs A (gptr M)) M1" "gptr M1 = gptr M"
    "glists M1 = glists M" "arrays M1 = arrays M" "owner_of M1 = (owner_of M)(gl_stub g := None)"
    using gstub_cutoff_counted [OF M(2), of "gl_stub g"] by auto
  let ?M = "M1\<lparr>glists := (glists M1)(gl := None)\<rparr>"
  have "owners_ok ?M" using owners_okD [OF M(3)] g o
    unfolding owners_ok_def owner_of_frame [of ?M M1, simplified] by (auto simp: M1; metis option.inject prod.inject gp_kind.distinct)
  then show ?thesis using M M1 g counted_frame [of ?M M1] by (simp add: canvas_free_def gmem_inv_def)
qed

lemma array_free_inv:
  assumes "gmem_inv A M" "arrays M a \<noteq> None"
  shows "\<exists>M'. array_free a M = Some M' \<and> gmem_inv A M'"
proof -
  have M: "finite A" "counted (nrefs A (gptr M)) M" "owners_ok M" using assms(1) by (simp_all add: gmem_inv_def)
  obtain g where g: "arrays M a = Some g" using assms(2) by blast
  have o: "owner_of M (a_stub g) = Some (GP_ARRAY, a)" using owners_okD(3) [OF M(3) g] .
  then obtain M1 where M1: "gstub_cutoff (a_stub g) M = Some M1" "counted (nrefs A (gptr M)) M1" "gptr M1 = gptr M"
    "glists M1 = glists M" "arrays M1 = arrays M" "owner_of M1 = (owner_of M)(a_stub g := None)"
    using gstub_cutoff_counted [OF M(2), of "a_stub g"] by auto
  let ?M = "M1\<lparr>arrays := (arrays M1)(a := None)\<rparr>"
  have "owners_ok ?M" using owners_okD [OF M(3)] g o
    unfolding owners_ok_def owner_of_frame [of ?M M1, simplified] by (auto simp: M1; metis option.inject prod.inject gp_kind.distinct)
  then show ?thesis using M M1 g counted_frame [of ?M M1] by (simp add: array_free_def gmem_inv_def)
qed

text \<open>An owner that changes what it holds keeps its stub.\<close>

definition same_stubs :: "gmem \<Rightarrow> gmem \<Rightarrow> bool" where
  "same_stubs M M' \<longleftrightarrow> stubs M' = stubs M \<and> bugs M' = bugs M \<and> gptr M' = gptr M \<and>
     map_option gl_stub \<circ> glists M' = map_option gl_stub \<circ> glists M \<and>
     map_option a_stub \<circ> arrays M' = map_option a_stub \<circ> arrays M"

lemma same_stubs_inv:
  assumes "gmem_inv A M" "same_stubs M M'"
  shows "gmem_inv A M'"
proof -
  have g: "map_option gl_stub (glists M' gl) = map_option gl_stub (glists M gl)"
    and a: "map_option a_stub (arrays M' ar) = map_option a_stub (arrays M ar)" for gl ar
    using assms(2) by (simp_all add: same_stubs_def fun_eq_iff)
  have o: "owner_of M' = owner_of M" by (rule owner_of_frame) (use assms(2) in \<open>simp add: same_stubs_def\<close>)
  have ok: "owners_ok M" using assms(1) by (simp add: gmem_inv_def)
  have "owners_ok M'"
    unfolding owners_ok_def o
  proof (intro conjI allI impI)
    fix gl h assume "glists M' gl = Some h"
    with g [of gl] obtain h' where "glists M gl = Some h'" "gl_stub h' = gl_stub h" by (cases "glists M gl") auto
    then show "gl \<noteq> 0" "owner_of M (gl_stub h) = Some (GP_GLIST, gl)" using owners_okD [OF ok] by metis+
  next
    fix ar h assume "arrays M' ar = Some h"
    with a [of ar] obtain h' where "arrays M ar = Some h'" "a_stub h' = a_stub h" by (cases "arrays M ar") auto
    then show "owner_of M (a_stub h) = Some (GP_ARRAY, ar)" using owners_okD [OF ok] by metis
  next
    fix s gl assume "owner_of M s = Some (GP_GLIST, gl)"
    then obtain h where "glists M gl = Some h" "gl_stub h = s" using owners_okD(4) [OF ok] by blast
    then show "\<exists>h. glists M' gl = Some h \<and> gl_stub h = s" using g [of gl] by (cases "glists M' gl") auto
  next
    fix s ar assume "owner_of M s = Some (GP_ARRAY, ar)"
    then obtain h where "arrays M ar = Some h" "a_stub h = s" using owners_okD(5) [OF ok] by blast
    then show "\<exists>h. arrays M' ar = Some h \<and> a_stub h = s" using a [of ar] by (cases "arrays M' ar") auto
  qed
  then show ?thesis
    using assms counted_frame [of M' M] by (auto simp: gmem_inv_def same_stubs_def)
qed

lemma change_same_stubs:
  "array_resize a M = Some M' \<Longrightarrow> same_stubs M M'" "glist_add gl y ob M = Some M' \<Longrightarrow> same_stubs M M'"
  "glist_delete gl y M = Some M' \<Longrightarrow> same_stubs M M'"
  by (auto simp: array_resize_def glist_add_def glist_delete_def bump_def Let_def same_stubs_def fun_eq_iff
      split: option.splits if_splits)

text \<open>A legal operation has a result and keeps the invariant.\<close>

lemma gev_keeps:
  assumes "gmem_inv A M" "gev_legal A M e"
  shows "\<exists>M'. gev_do e M = Some M' \<and> gmem_inv (gev_live e A) M'"
proof -
  have M: "finite A" "counted (nrefs A (gptr M)) M" "owners_ok M" using assms(1) by (simp_all add: gmem_inv_def)
  have pos: "p \<in> A \<Longrightarrow> 0 < nrefs A (gptr M) (gp_stub (gptr M p))" for p using nrefs_pos [OF M(1)] .
  show ?thesis
  proof (cases e)
    case (New_glist gl s)
    then show ?thesis using assms glist_init_inv by auto
  next
    case (New_array a s t)
    then show ?thesis using assms array_new_inv by auto
  next
    case (Free_glist gl)
    then show ?thesis using assms canvas_free_inv by auto
  next
    case (Free_array a)
    then show ?thesis using assms array_free_inv by auto
  next
    case (Resize_array a)
    then obtain M' where "array_resize a M = Some M'" using assms(2) by (auto simp: array_resize_def Let_def)
    then show ?thesis using Resize_array change_same_stubs(1) same_stubs_inv [OF assms(1)] by simp
  next
    case (Add_obj gl y ob)
    then obtain M' where "glist_add gl y ob M = Some M'" using assms(2) by (auto simp: glist_add_def)
    then show ?thesis using Add_obj change_same_stubs(2) same_stubs_inv [OF assms(1)] by simp
  next
    case (Delete_obj gl y)
    then have "glist_delete gl y M \<noteq> None" using assms(2) by (auto simp: glist_delete_def Let_def split: if_splits)
    then obtain M' where "glist_delete gl y M = Some M'" by blast
    then show ?thesis using Delete_obj change_same_stubs(3) same_stubs_inv [OF assms(1)] by simp
  next
    case (Init p)
    let ?f = "(gptr M)(p := \<lparr>gp_un = 0, gp_valid = 0, gp_stub = 0\<rparr>)"
    have "nrefs (insert p A) ?f s = nrefs A (gptr M) s" if "s \<noteq> 0" for s
      using that Init assms(2) M(1) by (simp add: nrefs_insert)
    then have "counted (nrefs (insert p A) ?f) M" by (rule counted_cong [OF M(2)])
    then show ?thesis using Init M by (simp add: gpointer_init_def gmem_inv_def)
  next
    case (Copy q p)
    then have qp: "q \<in> A" "p \<notin> A" "gp_stub (gptr M q) \<noteq> 0" using assms(2) by auto
    then obtain g where "stubs M (gp_stub (gptr M q)) = Some g" using countedD(5) [OF M(2)] pos by blast
    from gpointer_copy_counted [OF M(2) this, of p] show ?thesis
      using Copy qp M by (auto simp: gmem_inv_def same_owners_ok nrefs_insert fun_upd_def [symmetric])
  next
    case (Unset p)
    then have p: "p \<in> A" using assms(2) by simp
    obtain M' where M': "gpointer_unset p M = Some M'"
      "counted ((nrefs A (gptr M))(gp_stub (gptr M p) := nrefs A (gptr M) (gp_stub (gptr M p)) - 1)) M'"
      "gptr M' = (gptr M)(p := (gptr M p)\<lparr>gp_stub := 0\<rparr>)" "same_owners M M'"
      using gpointer_unset_counted [OF M(2), of p] pos [OF p] by blast
    have "counted (nrefs A (gptr M')) M'"
      by (rule counted_cong [OF M'(2)]) (simp add: M'(3) nrefs_upd [OF M(1) p])
    then show ?thesis using Unset M' M by (auto simp: gmem_inv_def same_owners_ok)
  next
    case (Set_glist p gl x)
    then obtain g where p: "p \<in> A" and g: "glists M gl = Some g" using assms(2) by auto
    from gpointer_setglist_counted [OF M(2) _ M(3) g, of p x] pos [OF p] show ?thesis
      using Set_glist M by (auto simp: gmem_inv_def same_owners_ok nrefs_upd [OF M(1) p])
  next
    case (Set_array p a w)
    then obtain g where p: "p \<in> A" and g: "arrays M a = Some g" using assms(2) by auto
    from gpointer_setarray_counted [OF M(2) _ M(3) g, of p w] pos [OF p] show ?thesis
      using Set_array M by (auto simp: gmem_inv_def same_owners_ok nrefs_upd [OF M(1) p])
  next
    case (Give_up p)
    then have p: "p \<in> A" "gp_stub (gptr M p) = 0" using assms(2) by auto
    have "nrefs (A - {p}) (gptr M) s = nrefs A (gptr M) s" if "s \<noteq> 0" for s
      using nrefs_insert [of "A - {p}" p "gptr M"] M(1) p that by (simp add: insert_absorb)
    then have "counted (nrefs (A - {p}) (gptr M)) M" by (rule counted_cong [OF M(2)])
    then show ?thesis using Give_up M by (simp add: gmem_inv_def)
  qed
qed

lemma reaches_inv: "gmem_reaches es A M \<Longrightarrow> gmem_inv A M"
proof (induction rule: gmem_reaches.induct)
  case (start f)
  show ?case by (simp add: gmem_start_def gmem_inv_def counted_def owners_ok_def owner_of_def nrefs_def)
next
  case (step es A M e M')
  then show ?case using gev_keeps by force
qed

text \<open>
  C18: in every memory reached by operations of the program, each stub counts the gpointers in use that
  refer to it, no gpointer in use refers to a stub that has been freed, a stub whose owner is gone is kept
  only while it is referred to, no operation has reported a bug, and every further legal operation has a
  result: none reads a freed stub or a freed owner.
\<close>

theorem gpointers_safe:
  assumes "gmem_reaches es A M" "gev_legal A M e"
  shows "bugs M = [] \<and> gev_do e M \<noteq> None \<and>
    (case stubs M s of
       None \<Rightarrow> s = 0 \<or> {p \<in> A. gp_stub (gptr M p) = s} = {}
     | Some g \<Rightarrow> gs_refcount g = int (card {p \<in> A. gp_stub (gptr M p) = s}) \<and>
                 \<not> (gs_which g = GP_NONE \<and> {p \<in> A. gp_stub (gptr M p) = s} = {}))"
proof -
  have inv: "gmem_inv A M" by (rule reaches_inv [OF assms(1)])
  then have c: "finite A" "counted (nrefs A (gptr M)) M" by (simp_all add: gmem_inv_def)
  have "{p \<in> A. gp_stub (gptr M p) = s} = {} \<longleftrightarrow> nrefs A (gptr M) s = 0" using c(1) by (simp add: nrefs_def)
  moreover have "gev_do e M \<noteq> None" using gev_keeps [OF inv assms(2)] by auto
  ultimately show ?thesis
    using countedD(2) [OF c(2)] countedD(3-5) [OF c(2), of s]
    by (cases "stubs M s") (auto simp: nrefs_def [symmetric])
qed

section \<open>Stale pointers\<close>

text \<open>The valid number of the owner a stub still has.\<close>

definition owner_valid :: "gmem \<Rightarrow> nat \<Rightarrow> int option" where
  "owner_valid M s =
     (case owner_of M s of
        Some (GP_GLIST, gl) \<Rightarrow> map_option gl_valid (glists M gl)
      | Some (GP_ARRAY, a) \<Rightarrow> map_option a_valid (arrays M a)
      | _ \<Rightarrow> None)"

text \<open>A pointer whose number is not its owner's is refused, and the check reads nothing that was freed.\<close>

lemma docheck_stale:
  assumes "gmem_inv A M" "p \<in> A" "gp_stub (gptr M p) \<noteq> 0" "owner_valid M (gp_stub (gptr M p)) \<noteq> Some (gp_valid (gptr M p))"
  shows "gpointer_docheck (gptr M p) headok True M = Some False"
proof -
  let ?s = "gp_stub (gptr M p)"
  have M: "finite A" "counted (nrefs A (gptr M)) M" "owners_ok M" using assms(1) by (simp_all add: gmem_inv_def)
  obtain st where st: "stubs M ?s = Some st" using countedD(5) [OF M(2) assms(3) nrefs_pos [OF M(1) assms(2)]] by blast
  show ?thesis
  proof (cases "gs_which st")
    case GP_NONE
    then show ?thesis using st assms(3) by (simp add: gpointer_docheck_def)
  next
    case GP_GLIST
    then have o: "owner_of M ?s = Some (GP_GLIST, gs_un st)" using st by (simp add: owner_of_def)
    then obtain g where "glists M (gs_un st) = Some g" using owners_okD(4) [OF M(3)] by blast
    then show ?thesis using GP_GLIST st assms(3,4) o by (auto simp: gpointer_docheck_def owner_valid_def Let_def)
  next
    case GP_ARRAY
    then have o: "owner_of M ?s = Some (GP_ARRAY, gs_un st)" using st by (simp add: owner_of_def)
    then obtain g where "arrays M (gs_un st) = Some g" using owners_okD(5) [OF M(3)] by blast
    then show ?thesis using GP_ARRAY st assms(3,4) o by (auto simp: gpointer_docheck_def owner_valid_def Let_def)
  qed
qed

lemma same_owners_valid: "same_owners M M' \<Longrightarrow> owner_valid M' s = owner_valid M s"
  by (simp add: same_owners_def owner_valid_def split: option.split prod.split gp_kind.split)

definition valid_kept :: "gmem \<Rightarrow> gmem \<Rightarrow> nat \<Rightarrow> bool" where
  "valid_kept M M' s \<longleftrightarrow>
     glist_valid M' \<in> {glist_valid M, int_cast (glist_valid M + 1)} \<and>
     (owner_valid M' s \<in> {owner_valid M s, None} \<or>
      (owner_valid M' s = Some (glist_valid M') \<and> glist_valid M' = int_cast (glist_valid M + 1)) \<or>
      (stubs M s = None \<and> owner_valid M' s = Some 0))"

text \<open>An operation leaves the number of a stub's owner, takes the owner away, or gives it the next number.\<close>

fun on_gpointers :: "gev \<Rightarrow> bool" where
  "on_gpointers (Init p) \<longleftrightarrow> True"
| "on_gpointers (Copy q p) \<longleftrightarrow> True"
| "on_gpointers (Unset p) \<longleftrightarrow> True"
| "on_gpointers (Set_glist p gl x) \<longleftrightarrow> True"
| "on_gpointers (Set_array p a w) \<longleftrightarrow> True"
| "on_gpointers (Give_up p) \<longleftrightarrow> True"
| "on_gpointers _ \<longleftrightarrow> False"

lemma same_owners_ops:
  assumes "gmem_inv A M" "gev_legal A M e" "gev_do e M = Some M'" "on_gpointers e"
  shows "same_owners M M'"
proof -
  have M: "finite A" "counted (nrefs A (gptr M)) M" "owners_ok M" using assms(1) by (simp_all add: gmem_inv_def)
  have pos: "p \<in> A \<Longrightarrow> 0 < nrefs A (gptr M) (gp_stub (gptr M p))" for p using nrefs_pos [OF M(1)] .
  from assms(4) consider p where "e = Init p" | q p where "e = Copy q p" | p where "e = Unset p"
    | p gl x where "e = Set_glist p gl x" | p a w where "e = Set_array p a w" | p where "e = Give_up p" by (cases e) auto
  then show ?thesis
  proof cases
    case 1 then show ?thesis using assms(3) by (auto simp: gpointer_init_def)
  next
    case 2
    then have "q \<in> A" "gp_stub (gptr M q) \<noteq> 0" using assms(2) by auto
    then obtain g where "stubs M (gp_stub (gptr M q)) = Some g" using countedD(5) [OF M(2)] pos by blast
    from gpointer_copy_counted [OF M(2) this, of p] 2 assms(3) show ?thesis by auto
  next
    case 3
    then have "p \<in> A" using assms(2) by simp
    from gpointer_unset_counted [OF M(2), of p] pos [OF this] 3 assms(3) show ?thesis by auto
  next
    case 4
    then obtain g where "p \<in> A" "glists M gl = Some g" using assms(2) by auto
    from gpointer_setglist_counted [OF M(2) _ M(3) this(2), of p x] pos [OF this(1)] 4 assms(3) show ?thesis by auto
  next
    case 5
    then obtain g where "p \<in> A" "arrays M a = Some g" using assms(2) by auto
    from gpointer_setarray_counted [OF M(2) _ M(3) this(2), of p w] pos [OF this(1)] 5 assms(3) show ?thesis by auto
  next
    case 6 then show ?thesis using assms(3) by simp
  qed
qed

lemma owner_valid_step:
  assumes "gmem_inv A M" "gev_legal A M e" "gev_do e M = Some M'"
  shows "valid_kept M M' s"
proof -
  have M: "counted (nrefs A (gptr M)) M" "owners_ok M" using assms(1) by (simp_all add: gmem_inv_def)
  have "valid_kept M M' s" if "same_owners M M'"
    using that same_owners_valid [OF that] by (simp add: same_owners_def valid_kept_def)
  moreover have "same_owners M M'" if "on_gpointers e"
    using same_owners_ops [OF assms(1-3) that] .
  moreover have "valid_kept M M' s" if "e = New_glist gl t" for gl t
  proof -
    have "stubs M t = None" "M' = glist_init gl t M" "gl \<noteq> 0" "glists M gl = None" using that assms by auto
    moreover from this have "owner_of M' s = (if t = s then Some (GP_GLIST, gl) else owner_of M s)"
      by (simp add: owner_of_def glist_init_def gstub_new_def bump_def Let_def)
    moreover have "owner_of M s \<noteq> Some (GP_GLIST, gl)" using owners_okD(4) [OF M(2)] calculation(4) by force
    ultimately show "valid_kept M M' s"
      by (auto simp: valid_kept_def owner_valid_def glist_init_def gstub_new_def bump_def Let_def split: option.splits prod.splits gp_kind.splits)
  qed
  moreover have "valid_kept M M' s" if "e = New_array a t ty" for a t ty
  proof -
    have "stubs M t = None" "M' = array_new a t ty M" "arrays M a = None" using that assms by auto
    moreover from this have "owner_of M' s = (if t = s then Some (GP_ARRAY, a) else owner_of M s)"
      by (simp add: owner_of_def array_new_def gstub_new_def Let_def)
    moreover have "owner_of M s \<noteq> Some (GP_ARRAY, a)" using owners_okD(5) [OF M(2)] calculation(3) by force
    ultimately show "valid_kept M M' s"
      by (auto simp: valid_kept_def owner_valid_def array_new_def gstub_new_def Let_def split: option.splits prod.splits gp_kind.splits)
  qed
  moreover have "valid_kept M M' s" if "e = Free_glist gl" for gl
  proof -
    from that assms(2) obtain g where g: "glists M gl = Some g" by auto
    obtain M1 where "gstub_cutoff (gl_stub g) M = Some M1" "glists M1 = glists M" "arrays M1 = arrays M"
      "glist_valid M1 = glist_valid M" "owner_of M1 = (owner_of M)(gl_stub g := None)"
      using gstub_cutoff_counted [OF M(1), of "gl_stub g"] owners_okD(1) [OF M(2) g] by auto
    moreover from this have "M' = M1\<lparr>glists := (glists M)(gl := None)\<rparr>" using that g assms(3) by (simp add: canvas_free_def)
    moreover from this have "owner_of M' = owner_of M1" by (intro owner_of_frame) simp
    ultimately show "valid_kept M M' s" using owners_okD(4) [OF M(2), of s] g
      by (auto simp: valid_kept_def owner_valid_def split: option.splits prod.splits gp_kind.splits)
  qed
  moreover have "valid_kept M M' s" if "e = Free_array a" for a
  proof -
    from that assms(2) obtain g where g: "arrays M a = Some g" by auto
    obtain M1 where "gstub_cutoff (a_stub g) M = Some M1" "glists M1 = glists M" "arrays M1 = arrays M"
      "glist_valid M1 = glist_valid M" "owner_of M1 = (owner_of M)(a_stub g := None)"
      using gstub_cutoff_counted [OF M(1), of "a_stub g"] owners_okD(3) [OF M(2) g] by auto
    moreover from this have "M' = M1\<lparr>arrays := (arrays M)(a := None)\<rparr>" using that g assms(3) by (simp add: array_free_def)
    moreover from this have "owner_of M' = owner_of M1" by (intro owner_of_frame) simp
    ultimately show "valid_kept M M' s" using owners_okD(5) [OF M(2), of s] g
      by (auto simp: valid_kept_def owner_valid_def split: option.splits prod.splits gp_kind.splits)
  qed
  moreover have "valid_kept M M' s" if "e = Resize_array a" for a
    using that assms(3)
    by (auto simp: valid_kept_def array_resize_def bump_def Let_def owner_valid_def owner_of_def split: option.splits prod.splits gp_kind.splits if_splits)
  moreover have "valid_kept M M' s" if "e = Add_obj gl y ob" for gl y ob
    using that assms(3)
    by (auto simp: valid_kept_def glist_add_def owner_valid_def owner_of_def split: option.splits prod.splits gp_kind.splits if_splits)
  moreover have "valid_kept M M' s" if "e = Delete_obj gl y" for gl y
    using that assms(3)
    by (auto simp: valid_kept_def glist_delete_def bump_def Let_def owner_valid_def owner_of_def split: option.splits prod.splits gp_kind.splits if_splits)
  ultimately show ?thesis by (cases e) (simp_all)
qed

text \<open>
  Running operations in turn, each only if it is legal then. Every operation changes the next number by
  at most one, so that within 2,147,473,000 operations no number comes back.
\<close>

fun gev_run :: "gev list \<Rightarrow> nat set \<times> gmem \<Rightarrow> (nat set \<times> gmem) option" where
  "gev_run [] (A, M) = Some (A, M)"
| "gev_run (e # es) (A, M) =
     (if gev_legal A M e then Option.bind (gev_do e M) (\<lambda>M'. gev_run es (gev_live e A, M')) else None)"

fun gev_sets :: "gev \<Rightarrow> nat \<Rightarrow> bool" where
  "gev_sets (Init p) q \<longleftrightarrow> p = q"
| "gev_sets (Copy r p) q \<longleftrightarrow> p = q"
| "gev_sets (Unset p) q \<longleftrightarrow> p = q"
| "gev_sets (Set_glist p gl x) q \<longleftrightarrow> p = q"
| "gev_sets (Set_array p a w) q \<longleftrightarrow> p = q"
| "gev_sets (Give_up p) q \<longleftrightarrow> p = q"
| "gev_sets _ q \<longleftrightarrow> False"

lemma reaches_run: "gmem_reaches es A M \<Longrightarrow> gev_run es' (A, M) = Some (A', M') \<Longrightarrow> gmem_reaches (es @ es') A' M'"
proof (induction es' arbitrary: es A M)
  case (Cons e es')
  then obtain M1 where "gev_legal A M e" "gev_do e M = Some M1" "gev_run es' (gev_live e A, M1) = Some (A', M')"
    by (auto split: if_splits simp: bind_eq_Some_conv)
  with Cons.IH [OF gmem_reaches.step [OF Cons.prems(1)]] show ?case by simp
qed simp

lemma gptr_kept:
  assumes "gev_do e M = Some M'" "\<not> gev_sets e p"
  shows "gptr M' p = gptr M p"
proof -
  have dis: "gstub_dis s M = Some M1 \<Longrightarrow> gptr M1 = gptr M" for s M M1
    by (auto simp: gstub_dis_def bug_def Let_def split: option.splits if_splits)
  have cut: "gstub_cutoff s M = Some M1 \<Longrightarrow> gptr M1 = gptr M" for s M M1
    by (auto simp: gstub_cutoff_def bug_def Let_def split: option.splits if_splits)
  have ref: "stub_ref s M = Some M1 \<Longrightarrow> gptr M1 = gptr M" for s M M1
    by (auto simp: stub_ref_def split: option.splits)
  have leave: "leave_stub q M = Some M1 \<Longrightarrow> gptr M1 = gptr M" for q M M1
    by (auto simp: leave_stub_def dest: dis split: if_splits)
  show ?thesis
    using assms
    by (cases e)
      (auto simp: glist_init_def array_new_def gstub_new_def bump_def canvas_free_def array_free_def array_resize_def
        glist_add_def glist_delete_def gpointer_init_def gpointer_copy_def gpointer_unset_def gpointer_setglist_def
        gpointer_setarray_def bug_def Let_def bind_eq_Some_conv split: option.splits if_splits dest!: dis cut ref leave)
qed

lemma live_kept: "p \<in> A \<Longrightarrow> \<not> gev_sets e p \<Longrightarrow> p \<in> gev_live e A"
  by (cases e) auto

definition numbered :: "nat \<Rightarrow> nat set \<Rightarrow> gmem \<Rightarrow> bool" where
  "numbered n A M \<longleftrightarrow> 0 \<le> glist_valid M \<and> glist_valid M \<le> 10000 + int n \<and>
     (\<forall>s v. owner_valid M s = Some v \<longrightarrow> v \<le> glist_valid M) \<and> (\<forall>p\<in>A. gp_valid (gptr M p) \<le> glist_valid M)"

lemma gptr_sets:
  assumes "gmem_inv A M" "gev_legal A M e" "gev_do e M = Some M'" "p \<in> gev_live e A"
  shows "gp_valid (gptr M' p) = 0 \<or> (\<exists>q\<in>A. gp_valid (gptr M' p) = gp_valid (gptr M q)) \<or>
    (\<exists>s. owner_valid M s = Some (gp_valid (gptr M' p)))"
proof (cases "gev_sets e p")
  case False
  then have "p \<in> A" using assms(4) by (cases e) auto
  then show ?thesis using gptr_kept [OF assms(3) False] by auto
next
  case True
  have M: "finite A" "counted (nrefs A (gptr M)) M" "owners_ok M" using assms(1) by (simp_all add: gmem_inv_def)
  have pos: "p \<in> A \<Longrightarrow> 0 < nrefs A (gptr M) (gp_stub (gptr M p))" for p using nrefs_pos [OF M(1)] .
  show ?thesis
  proof (cases e)
    case (Init q)
    then show ?thesis using True assms(3) by (auto simp: gpointer_init_def)
  next
    case (Copy q r)
    then have "q \<in> A" "gp_stub (gptr M q) \<noteq> 0" using assms(2) by auto
    then obtain g where "stubs M (gp_stub (gptr M q)) = Some g" using countedD(5) [OF M(2)] pos by blast
    from gpointer_copy_counted [OF M(2) this, of r] Copy True assms(3) \<open>q \<in> A\<close> show ?thesis by auto
  next
    case (Unset q)
    then have "q \<in> A" using assms(2) by simp
    from gpointer_unset_counted [OF M(2), of q] pos [OF this] Unset True assms(3) this show ?thesis by auto
  next
    case (Set_glist q gl x)
    then obtain g where g: "q \<in> A" "glists M gl = Some g" using assms(2) by auto
    then have "owner_valid M (gl_stub g) = Some (gl_valid g)" using owners_okD(1) [OF M(3)] by (simp add: owner_valid_def)
    with gpointer_setglist_counted [OF M(2) _ M(3) g(2), of q x] pos [OF g(1)] Set_glist True assms(3) show ?thesis by auto
  next
    case (Set_array q a w)
    then obtain g where g: "q \<in> A" "arrays M a = Some g" using assms(2) by auto
    then have "owner_valid M (a_stub g) = Some (a_valid g)" using owners_okD(3) [OF M(3)] by (simp add: owner_valid_def)
    with gpointer_setarray_counted [OF M(2) _ M(3) g(2), of q w] pos [OF g(1)] Set_array True assms(3) show ?thesis by auto
  qed (use True assms in auto)
qed

lemma numbered_step:
  assumes "gmem_inv A M" "gev_legal A M e" "gev_do e M = Some M'" "numbered n A M" "n + 10001 < 2 ^ 31"
  shows "numbered (Suc n) (gev_live e A) M'" "glist_valid M \<le> glist_valid M'"
proof -
  have v: "valid_kept M M' s" for s by (rule owner_valid_step [OF assms(1-3)])
  have c: "int_cast (glist_valid M + 1) = glist_valid M + 1"
    using assms(4,5) by (intro int_cast_small) (auto simp: numbered_def)
  then show le: "glist_valid M \<le> glist_valid M'" using v [of 0] by (auto simp: valid_kept_def)
  have "gp_valid (gptr M' p) \<le> glist_valid M'" if "p \<in> gev_live e A" for p
    using gptr_sets [OF assms(1-3) that] assms(4) le unfolding numbered_def by fastforce
  moreover have "w \<le> glist_valid M'" if "owner_valid M' s = Some w" for s w
    using v [of s] that assms(4) le unfolding numbered_def valid_kept_def by fastforce
  ultimately show "numbered (Suc n) (gev_live e A) M'"
    using v [of 0] c assms(4) le unfolding numbered_def valid_kept_def by auto
qed

lemma reaches_numbered:
  "gmem_reaches es A M \<Longrightarrow> length es + 10000 < 2 ^ 31 \<Longrightarrow> numbered (length es) A M"
proof (induction rule: gmem_reaches.induct)
  case (start f)
  show ?case by (auto simp: numbered_def owner_valid_def owner_of_def gmem_start_def glist_valid0_def)
next
  case (step es A M e M')
  then show ?case using numbered_step(1) [OF reaches_inv [OF step.hyps(1)] step.hyps(2,3)] by simp
qed

lemma stale_step:
  assumes "gmem_inv A M" "gev_legal A M e" "gev_do e M = Some M'" "numbered n A M" "n + 10001 < 2 ^ 31"
    "\<not> gev_sets e p" "p \<in> A" "gp_stub (gptr M p) \<noteq> 0" "owner_valid M (gp_stub (gptr M p)) \<noteq> Some (gp_valid (gptr M p))"
  shows "owner_valid M' (gp_stub (gptr M' p)) \<noteq> Some (gp_valid (gptr M' p))"
proof -
  have c: "int_cast (glist_valid M + 1) = glist_valid M + 1"
    using assms(4,5) by (intro int_cast_small) (auto simp: numbered_def)
  have le: "gp_valid (gptr M p) \<le> glist_valid M" using assms(4,7) by (simp add: numbered_def)
  have "stubs M (gp_stub (gptr M p)) \<noteq> None"
    using assms(1) countedD(5) nrefs_pos [OF _ assms(7)] assms(8) unfolding gmem_inv_def by blast
  then show ?thesis
    using owner_valid_step [OF assms(1-3), of "gp_stub (gptr M p)"] gptr_kept [OF assms(3,6)] assms(9) le c
    by (auto simp: valid_kept_def)
qed

lemma stale_run:
  assumes "gmem_reaches es A M" "gev_run es' (A, M) = Some (A', M')" "length es + length es' + 10000 < 2 ^ 31"
    "filter (\<lambda>e. gev_sets e p) es' = []" "p \<in> A" "gp_stub (gptr M p) \<noteq> 0"
    "owner_valid M (gp_stub (gptr M p)) \<noteq> Some (gp_valid (gptr M p))"
  shows "p \<in> A' \<and> gptr M' p = gptr M p \<and> owner_valid M' (gp_stub (gptr M p)) \<noteq> Some (gp_valid (gptr M p))"
  using assms
proof (induction es' arbitrary: es A M)
  case (Cons e es')
  then obtain M1 where e: "gev_legal A M e" "gev_do e M = Some M1" "gev_run es' (gev_live e A, M1) = Some (A', M')"
    by (auto split: if_splits simp: bind_eq_Some_conv)
  have s: "\<not> gev_sets e p" "filter (\<lambda>e. gev_sets e p) es' = []" using Cons.prems(4) by (auto split: if_splits)
  have k: "gptr M1 p = gptr M p" by (rule gptr_kept [OF e(2) s(1)])
  have "owner_valid M1 (gp_stub (gptr M1 p)) \<noteq> Some (gp_valid (gptr M1 p))"
    using stale_step [OF reaches_inv [OF Cons.prems(1)] e(1,2) reaches_numbered [OF Cons.prems(1)] _ s(1) Cons.prems(5-7)]
      Cons.prems(3) by simp
  with Cons.IH [OF gmem_reaches.step [OF Cons.prems(1) e(1,2)] e(3) _ s(2) live_kept [OF Cons.prems(5) s(1)]]
    Cons.prems(3,6) k show ?case by simp
qed simp

text \<open>Deleting from a canvas, freeing it, resizing an array and freeing it leave the pointers into it stale.\<close>

fun outdates :: "gev \<Rightarrow> gmem \<Rightarrow> gpointer \<Rightarrow> bool" where
  "outdates (Delete_obj gl y) M gp \<longleftrightarrow> owner_of M (gp_stub gp) = Some (GP_GLIST, gl) \<and> map_option gl_list (glists M gl) \<noteq> Some []"
| "outdates (Free_glist gl) M gp \<longleftrightarrow> owner_of M (gp_stub gp) = Some (GP_GLIST, gl)"
| "outdates (Resize_array a) M gp \<longleftrightarrow> owner_of M (gp_stub gp) = Some (GP_ARRAY, a)"
| "outdates (Free_array a) M gp \<longleftrightarrow> owner_of M (gp_stub gp) = Some (GP_ARRAY, a)"
| "outdates _ M gp \<longleftrightarrow> False"

lemma outdated:
  assumes "gmem_inv A M" "numbered n A M" "n + 10001 < 2 ^ 31" "p \<in> A" "gev_do e M = Some M'" "outdates e M (gptr M p)"
  shows "owner_valid M' (gp_stub (gptr M p)) \<noteq> Some (gp_valid (gptr M p))"
proof -
  let ?s = "gp_stub (gptr M p)"
  have M: "counted (nrefs A (gptr M)) M" "owners_ok M" using assms(1) by (simp_all add: gmem_inv_def)
  have c: "int_cast (glist_valid M + 1) = glist_valid M + 1" "gp_valid (gptr M p) \<le> glist_valid M"
    using assms(2-4) by (auto intro!: int_cast_small simp: numbered_def)
  show ?thesis
  proof (cases e)
    case (Free_glist gl)
    then obtain g where g: "glists M gl = Some g" "gl_stub g = ?s" using assms(6) owners_okD(4) [OF M(2)] by auto
    obtain M1 where "gstub_cutoff ?s M = Some M1" "owner_of M1 = (owner_of M)(?s := None)"
      using gstub_cutoff_counted [OF M(1), of ?s] assms(6) Free_glist by auto
    moreover have "M' = M1\<lparr>glists := (glists M1)(gl := None)\<rparr>"
      using Free_glist g assms(5) calculation(1) by (simp add: canvas_free_def)
    moreover from this have "owner_of M' = owner_of M1" by (intro owner_of_frame) simp
    ultimately show ?thesis by (simp add: owner_valid_def)
  next
    case (Free_array a)
    then obtain g where g: "arrays M a = Some g" "a_stub g = ?s" using assms(6) owners_okD(5) [OF M(2)] by auto
    obtain M1 where "gstub_cutoff ?s M = Some M1" "owner_of M1 = (owner_of M)(?s := None)"
      using gstub_cutoff_counted [OF M(1), of ?s] assms(6) Free_array by auto
    moreover have "M' = M1\<lparr>arrays := (arrays M1)(a := None)\<rparr>"
      using Free_array g assms(5) calculation(1) by (simp add: array_free_def)
    moreover from this have "owner_of M' = owner_of M1" by (intro owner_of_frame) simp
    ultimately show ?thesis by (simp add: owner_valid_def)
  next
    case (Resize_array a)
    then have "owner_of M' = owner_of M" "owner_of M ?s = Some (GP_ARRAY, a)" using assms(5,6)
      by (auto simp: array_resize_def bump_def Let_def intro!: owner_of_frame split: option.splits)
    then show ?thesis using Resize_array assms(5) c
      by (auto simp: owner_valid_def array_resize_def bump_def Let_def split: option.splits)
  next
    case (Delete_obj gl y)
    then have "owner_of M' = owner_of M" "owner_of M ?s = Some (GP_GLIST, gl)" using assms(5,6)
      by (auto simp: glist_delete_def bump_def Let_def intro!: owner_of_frame split: option.splits if_splits)
    then show ?thesis using Delete_obj assms(5,6) c
      by (auto simp: owner_valid_def glist_delete_def bump_def Let_def split: option.splits if_splits)
  qed (use assms(6) in auto)
qed


section \<open>Traversing a canvas\<close>

text \<open>The scalars among the objects of a list, with their templates, and what the pointer object sends for one.\<close>

fun scalars :: "gmem \<Rightarrow> nat list \<Rightarrow> (nat \<times> symbol) list" where
  "scalars M [] = []"
| "scalars M (y # ys) =
     (case Option.bind (gobjs M y) sc_template of Some ty \<Rightarrow> [(y, ty)] | None \<Rightarrow> []) @ scalars M ys"

definition scalar_out :: "ptrobj \<Rightarrow> glist \<Rightarrow> nat \<times> symbol \<Rightarrow> pout" where
  "scalar_out x g sc =
     P_pointer (case find (\<lambda>(ty, ou). Some ty = Some (snd sc)) (x_typedout x) of Some (ty, ou) \<Rightarrow> ou | None \<Rightarrow> x_otherout x)
       \<lparr>gp_un = fst sc, gp_valid = gl_valid g, gp_stub = gl_stub g\<rparr>"

fun nexts :: "nat \<Rightarrow> ptrobj \<Rightarrow> gmem \<Rightarrow> (gmem \<times> pout list) option" where
  "nexts 0 x M = Some (M, [])"
| "nexts (Suc n) x M =
     Option.bind (ptrobj_next x M) (\<lambda>(M1, outs). map_option (\<lambda>(M2, outs'). (M2, outs @ outs')) (nexts n x M1))"

lemma scalars_put_gptr [simp]: "scalars (M\<lparr>gptr := f\<rparr>) ys = scalars M ys"
  by (induction ys) simp_all

lemma scalars_same: "gobjs M' = gobjs M \<Longrightarrow> scalars M' ys = scalars M ys"
  by (induction ys) simp_all

lemma next_scalar_eq:
  "list_all (\<lambda>y. gobjs M y \<noteq> None) ys \<Longrightarrow>
   next_scalar M (\<lambda>y. True) ys = Some (case scalars M ys of [] \<Rightarrow> None | sc # scs \<Rightarrow> Some sc)"
  by (induction ys) (auto split: option.splits)

lemma scalars_Cons:
  "scalars M ys = (y, ty) # scs \<Longrightarrow> \<exists>zs ws. ys = zs @ y # ws \<and> scalars M ws = scs"
proof (induction ys)
  case (Cons z ys)
  show ?case
  proof (cases "Option.bind (gobjs M z) sc_template")
    case None
    with Cons obtain zs ws where "ys = zs @ y # ws" "scalars M ws = scs" by auto
    then show ?thesis by (intro exI [of _ "z # zs"] exI [of _ ws]) simp
  next
    case (Some t)
    with Cons.prems show ?thesis by (intro exI [of _ "[]"] exI [of _ ys]) simp
  qed
qed simp

lemma g_next_append: "y \<notin> set zs \<Longrightarrow> g_next y (zs @ y # ws) = Some ws"
  by (induction zs) (auto simp: g_next_def)

lemma next_at:
  assumes "gmem_inv A M" "x_gp x \<in> A" "glists M gl = Some g" "list_all (\<lambda>y. gobjs M y \<noteq> None) rest"
    "gptr M (x_gp x) = \<lparr>gp_un = u, gp_valid = gl_valid g, gp_stub = gl_stub g\<rparr>"
    "(if u = 0 then Some (gl_list g) else g_next u (gl_list g)) = Some rest"
  shows "ptrobj_next x M = ptr_step x (case scalars M rest of [] \<Rightarrow> None | sc # scs \<Rightarrow> Some sc) M"
proof -
  have M: "counted (nrefs A (gptr M)) M" "owners_ok M" using assms(1) by (simp_all add: gmem_inv_def)
  have o: "owner_of M (gl_stub g) = Some (GP_GLIST, gl)" by (rule owners_okD(1) [OF M(2) assms(3)])
  then obtain st where "stubs M (gl_stub g) = Some st" "gs_which st = GP_GLIST" "gs_un st = gl"
    by (auto simp: owner_of_def split: option.splits if_splits)
  moreover have "gl_stub g \<noteq> 0" using calculation(1) countedD(1) [OF M(1)] by (cases "gl_stub g = 0") auto
  ultimately show ?thesis
    using assms(3,5,6) next_scalar_eq [OF assms(4)]
    by (cases "u = 0") (simp_all add: ptrobj_next_def ptrobj_vnext_def)
qed

lemma nexts_from:
  assumes "gmem_inv A M" "x_gp x \<in> A" "glists M gl = Some g" "list_all (\<lambda>y. y \<noteq> 0 \<and> gobjs M y \<noteq> None) (gl_list g)"
    "distinct (gl_list g)" "gptr M (x_gp x) = \<lparr>gp_un = u, gp_valid = gl_valid g, gp_stub = gl_stub g\<rparr>"
    "(if u = 0 then Some (gl_list g) else g_next u (gl_list g)) = Some rest" "gl_list g = pre @ rest"
    "scalars M rest = scs"
  shows "\<exists>M'. nexts (Suc (length scs)) x M = Some (M', map (scalar_out x g) scs @ [P_bang (x_bangout x)]) \<and>
    gp_stub (gptr M' (x_gp x)) = 0 \<and> gmem_inv A M' \<and> same_owners M M'"
  using assms
proof (induction scs arbitrary: M u pre rest)
  case Nil
  have "list_all (\<lambda>y. gobjs M y \<noteq> None) rest" using Nil.prems(4,8) by (simp add: list.pred_set)
  from next_at [OF Nil.prems(1-3) this Nil.prems(6,7)] Nil.prems(9)
  have n: "ptrobj_next x M = map_option (\<lambda>M'. (M', [P_bang (x_bangout x)])) (gpointer_unset (x_gp x) M)"
    by (simp add: ptr_step_def)
  have M: "finite A" "counted (nrefs A (gptr M)) M" using Nil.prems(1) by (simp_all add: gmem_inv_def)
  obtain M' where M': "gpointer_unset (x_gp x) M = Some M'" "gmem_inv A M'"
    using gev_keeps [OF Nil.prems(1), of "Unset (x_gp x)"] Nil.prems(2) by auto
  moreover have "gp_stub (gptr M' (x_gp x)) = 0 \<and> same_owners M M'"
    using gpointer_unset_counted [OF M(2), of "x_gp x"] nrefs_pos [OF M(1) Nil.prems(2)] M'(1) by auto
  ultimately show ?case using n by simp
next
  case (Cons sc scs)
  obtain y ty where sc: "sc = (y, ty)" by (cases sc)
  obtain zs ws where ws: "rest = zs @ y # ws" "scalars M ws = scs" using scalars_Cons Cons.prems(9) sc by blast
  have y: "y \<noteq> 0" "g_next y (gl_list g) = Some ws" "gl_list g = (pre @ zs @ [y]) @ ws"
    using Cons.prems(4,5,8) ws(1) g_next_append [of y "pre @ zs" ws] by (auto simp: list.pred_set)
  let ?M = "put_gptr (x_gp x) \<lparr>gp_un = y, gp_valid = gl_valid g, gp_stub = gl_stub g\<rparr> M"
  have "list_all (\<lambda>y. gobjs M y \<noteq> None) rest" using Cons.prems(4,8) by (simp add: list.pred_set)
  from next_at [OF Cons.prems(1-3) this Cons.prems(6,7)] Cons.prems(6,9) sc
  have n: "ptrobj_next x M = Some (?M, [scalar_out x g sc])"
    by (simp add: ptr_step_def ptr_out_def scalar_out_def Let_def)
  have "nrefs A (gptr ?M) = nrefs A (gptr M)" using Cons.prems(6) by (intro nrefs_cong) simp
  then have inv: "gmem_inv A ?M" using Cons.prems(1) by (simp add: gmem_inv_def)
  from Cons.IH [OF this Cons.prems(2) _ _ Cons.prems(5), of y ws "pre @ zs @ [y]"] Cons.prems(3,4) y ws
  obtain M' where "nexts (Suc (length scs)) x ?M = Some (M', map (scalar_out x g) scs @ [P_bang (x_bangout x)])"
    "gp_stub (gptr M' (x_gp x)) = 0" "gmem_inv A M'" "same_owners ?M M'" by auto
  with n show ?case by (auto intro: same_owners_trans [OF put_gptr_same(1)] simp del: nexts.simps(2) simp: nexts.simps(2) [of "Suc (length scs)"])
qed

text \<open>
  C20: a pointer object told to traverse a canvas, and then asked for the next scalar once more than there are
  scalars, sends a pointer to each scalar of the canvas in order, through the outlet made for its template
  or the one for other templates, skips everything else, then bangs and is empty.
\<close>

theorem traverse_visits_scalars:
  assumes "gmem_inv A M" "x_gp x \<in> A" "findcanvas s = Some gl" "glists M gl = Some g"
    "list_all (\<lambda>y. y \<noteq> 0 \<and> gobjs M y \<noteq> None) (gl_list g)" "distinct (gl_list g)"
  shows "map_option snd (Option.bind (ptrobj_traverse findcanvas x s M)
      (\<lambda>(M1, outs). nexts (Suc (length (scalars M (gl_list g)))) x M1)) =
      Some (map (scalar_out x g) (scalars M (gl_list g)) @ [P_bang (x_bangout x)])"
proof -
  have M: "finite A" "counted (nrefs A (gptr M)) M" "owners_ok M" using assms(1) by (simp_all add: gmem_inv_def)
  obtain M1 where M1: "gpointer_setglist (x_gp x) gl 0 M = Some M1" "gmem_inv A M1"
    using gev_keeps [OF assms(1), of "Set_glist (x_gp x) gl 0"] assms(2,4) by auto
  have s: "gptr M1 (x_gp x) = \<lparr>gp_un = 0, gp_valid = gl_valid g, gp_stub = gl_stub g\<rparr>" "same_owners M M1"
    using gpointer_setglist_counted [OF M(2) _ M(3) assms(4), of "x_gp x" 0] nrefs_pos [OF M(1) assms(2)] M1(1) by auto
  have g: "glists M1 gl = Some g" "gobjs M1 = gobjs M" using s(2) assms(4) by (simp_all add: same_owners_def)
  then show ?thesis
    using nexts_from [OF M1(2) assms(2) g(1) _ assms(6) s(1), of "gl_list g" "[]", OF _ _ _ refl] assms(3,5) M1(1)
    by (auto simp: ptrobj_traverse_def scalars_same [OF g(2)] simp del: nexts.simps)
qed

section \<open>Concrete runs\<close>

text \<open>
  A canvas with two scalars and an object that is none, and a pointer (at address 9) into it.
\<close>

definition demo_start :: gmem where
  "demo_start = gmem_start (\<lambda>p. \<lparr>gp_un = 0, gp_valid = 0, gp_stub = 0\<rparr>)"

definition demo_events :: "gev list" where
  "demo_events = [New_glist 1 1, Add_obj 1 5 \<lparr>sc_template = Some ''pd-a''\<rparr>, Add_obj 1 6 \<lparr>sc_template = None\<rparr>,
     Add_obj 1 7 \<lparr>sc_template = Some ''pd-b''\<rparr>, Init 9, Set_glist 9 1 5]"

definition demo_mem :: gmem where
  "demo_mem = (case gev_run demo_events ({}, demo_start) of Some (A, M) \<Rightarrow> M | None \<Rightarrow> demo_start)"

lemmas gmem_eval = demo_start_def demo_events_def gmem_start_def glist_valid0_def glist_init_def gstub_new_def bump_def
  glist_add_def glist_delete_def gpointer_init_def gpointer_setglist_def gpointer_copy_def gpointer_unset_def
  leave_stub_def gstub_dis_def gstub_cutoff_def canvas_free_def stub_ref_def bug_def Let_def int_cast_def

lemma demo_run: "gev_run demo_events ({}, demo_start) = Some ({9}, demo_mem)"
  by (simp add: demo_mem_def gmem_eval)

lemma demo_mem_eq:
  "demo_mem = \<lparr>stubs = [1 \<mapsto> \<lparr>gs_un = 1, gs_which = GP_GLIST, gs_refcount = 1\<rparr>],
     gptr = (\<lambda>p. \<lparr>gp_un = 0, gp_valid = 0, gp_stub = 0\<rparr>)(9 := \<lparr>gp_un = 5, gp_valid = 10001, gp_stub = 1\<rparr>),
     glists = [1 \<mapsto> \<lparr>gl_stub = 1, gl_valid = 10001, gl_list = [5, 6, 7], gl_selection = [], gl_visible = False\<rparr>],
     arrays = (\<lambda>a. None), gobjs = [5 \<mapsto> \<lparr>sc_template = Some ''pd-a''\<rparr>, 6 \<mapsto> \<lparr>sc_template = None\<rparr>,
       7 \<mapsto> \<lparr>sc_template = Some ''pd-b''\<rparr>], glist_valid = 10001, bugs = []\<rparr>"
  by (simp add: demo_mem_def gmem_eval fun_eq_iff)

lemma demo_reaches: "gmem_reaches demo_events {9} demo_mem"
  using reaches_run [OF gmem_reaches.start demo_run [unfolded demo_start_def]] by simp

theorem gpointers_safe_witness:
  "bugs demo_mem = [] \<and> gev_do (Free_glist 1) demo_mem \<noteq> None \<and>
    (case stubs demo_mem 1 of
       None \<Rightarrow> (1::nat) = 0 \<or> {p \<in> {9}. gp_stub (gptr demo_mem p) = 1} = {}
     | Some g \<Rightarrow> gs_refcount g = int (card {p \<in> {9}. gp_stub (gptr demo_mem p) = 1}) \<and>
                 \<not> (gs_which g = GP_NONE \<and> {p \<in> {9}. gp_stub (gptr demo_mem p) = 1} = {}))"
  by (rule gpointers_safe [OF demo_reaches]) (simp add: demo_mem_eq)


theorem traverse_visits_scalars_witness:
  "map_option snd (Option.bind (ptrobj_traverse [''pd-list'' \<mapsto> 1] \<lparr>x_gp = 9, x_typedout = [(''pd-b'', 0)],
      x_otherout = 1, x_bangout = 2\<rparr> ''pd-list'' demo_mem)
      (\<lambda>(M1, outs). nexts 3 \<lparr>x_gp = 9, x_typedout = [(''pd-b'', 0)], x_otherout = 1, x_bangout = 2\<rparr> M1)) =
    Some [P_pointer 1 \<lparr>gp_un = 5, gp_valid = 10001, gp_stub = 1\<rparr>,
      P_pointer 0 \<lparr>gp_un = 7, gp_valid = 10001, gp_stub = 1\<rparr>, P_bang 2]"
  using traverse_visits_scalars [OF reaches_inv [OF demo_reaches], of "\<lparr>x_gp = 9, x_typedout = [(''pd-b'', 0)],
      x_otherout = 1, x_bangout = 2\<rparr>" "[''pd-list'' \<mapsto> 1]" "''pd-list''" 1 "the (glists demo_mem 1)"]
  by (simp add: demo_mem_eq scalar_out_def eval_nat_numeral del: nexts.simps)

text \<open>
  What the ordinary check does with a pointer whose object was deleted and freed: it reads the object.
  The check for graphical objects does not.
\<close>

lemma check_reads_freed:
  "Option.bind (glist_delete 1 5 demo_mem) (gpointer_check (gptr demo_mem 9) True) = None"
  "Option.bind (glist_delete 1 5 demo_mem) (gpointer_check_gobj (gptr demo_mem 9)) = Some False"
  by (simp_all add: demo_mem_eq gmem_eval gpointer_check_def gpointer_check_gobj_def gpointer_docheck_def)

text \<open>Deleting through a pointer to an object that is no scalar reads its template all the same.\<close>

lemma delete_reads_nonscalar:
  "ptrobj_delete \<lparr>x_gp = 9, x_typedout = [], x_otherout = 0, x_bangout = 1\<rparr>
     (put_gptr 9 \<lparr>gp_un = 6, gp_valid = 10001, gp_stub = 1\<rparr> demo_mem) = None"
  by (simp add: demo_mem_eq ptrobj_delete_def)

text \<open>A pointer object that receives its own pointer loses it.\<close>

lemma pointer_to_itself:
  assumes "gp_stub (gptr M (x_gp x)) \<noteq> 0" "gpointer_unset (x_gp x) M = Some M1"
  shows "gpointer_copy (gptr M1 (x_gp x)) (x_gp x) M1 = Some (bug ''gpointer_copy'' (put_gptr (x_gp x) (gptr M1 (x_gp x)) M1))"
  using assms by (auto simp: gpointer_unset_def gpointer_copy_def Let_def)

end
