(* ===== verification/PipePtr.thy ===== *)
theory PipePtr
  imports PipeSpec GpointerSafe
begin

text \<open>
  Pointers in pipes: every gpointer a pipe and its hangs hold is counted by the stub it refers to, so
  that no message that is pending loses what it points to, and clearing or flushing a pipe gives the
  references of its hangs back. Those of the pipe itself are never given back.
\<close>

section \<open>Steps on live gpointers\<close>

text \<open>\<open>A\<close> are the gpointers that are live.\<close>

lemma counted_nonzero: "counted R M \<Longrightarrow> (\<And>s. s \<noteq> 0 \<Longrightarrow> Q s = R s) \<Longrightarrow> counted Q M"
  unfolding counted_def by (metis option.distinct(1))

lemma unset_live:
  assumes "gmem_inv A M" "p \<in> A"
  shows "\<exists>M'. gpointer_unset p M = Some M' \<and> gmem_inv A M' \<and> gmem_inv (A - {p}) M' \<and>
    gptr M' = (gptr M)(p := (gptr M p)\<lparr>gp_stub := 0\<rparr>) \<and> same_owners M M'"
proof -
  define R where "R = nrefs A (gptr M)"
  define t where "t = gp_stub (gptr M p)"
  have A: "finite A" "counted R M" "owners_ok M" using assms(1) by (simp_all add: gmem_inv_def R_def)
  have "0 < R t" using nrefs_pos [OF A(1) assms(2), of "gptr M"] by (simp add: R_def t_def)
  then obtain M' where M': "gpointer_unset p M = Some M'" "counted (R(t := R t - 1)) M'"
    "gptr M' = (gptr M)(p := (gptr M p)\<lparr>gp_stub := 0\<rparr>)" "same_owners M M'"
    using gpointer_unset_counted [OF A(2), of p] by (auto simp: t_def)
  define R1 where "R1 = R(t := R t - 1)"
  have n: "nrefs A (gptr M') = R1(0 := Suc (R1 0))"
    using nrefs_upd [OF A(1) assms(2), of "gptr M" "(gptr M p)\<lparr>gp_stub := 0\<rparr>"] by (simp add: M'(3) R1_def R_def t_def)
  have "nrefs A (gptr M') = (nrefs (A - {p}) (gptr M'))(0 := Suc (nrefs (A - {p}) (gptr M') 0))"
    using nrefs_insert [of "A - {p}" p "gptr M'"] A(1) assms(2) by (simp add: insert_absorb M'(3))
  with n have n2: "(nrefs (A - {p}) (gptr M')) s = R1 s" for s by (metis fun_upd_apply nat.inject)
  have "counted (nrefs A (gptr M')) M'" "counted (nrefs (A - {p}) (gptr M')) M'"
    using M'(2) unfolding R1_def [symmetric] by (rule counted_nonzero; simp add: n n2)+
  then show ?thesis using M' A by (auto simp: gmem_inv_def same_owners_ok)
qed

lemma nrefs_assign:
  assumes "finite A" "p \<notin> A \<or> gp_stub (f p) = 0" "s \<noteq> 0"
  shows "nrefs (insert p A) (f(p := g)) s = nrefs A f s + (if s = gp_stub g then 1 else 0)"
proof -
  have "{q \<in> insert p A. gp_stub ((f(p := g)) q) = s} =
      (if s = gp_stub g then insert p {q \<in> A - {p}. gp_stub (f q) = s} else {q \<in> A - {p}. gp_stub (f q) = s})" by auto
  moreover have "{q \<in> A - {p}. gp_stub (f q) = s} = {q \<in> A. gp_stub (f q) = s}" using assms(2,3) by auto
  ultimately show ?thesis using assms(1,2,3) by (auto simp: nrefs_def card_insert_if)
qed

text \<open>A gpointer that refers to nothing gets the contents of a live one.\<close>

lemma assign_live:
  assumes "gmem_inv A M" "q \<in> A" "p \<notin> A \<or> gp_stub (gptr M p) = 0"
  shows "\<exists>M'. gp_assign p (gptr M q) M = Some M' \<and> gmem_inv (insert p A) M' \<and> gptr M' = (gptr M)(p := gptr M q) \<and> same_owners M M'"
proof -
  define g where "g = gptr M q"
  define M1 where "M1 = put_gptr p g M"
  have A: "finite A" "counted (nrefs A (gptr M)) M" "owners_ok M" using assms(1) by (simp_all add: gmem_inv_def)
  note n = nrefs_assign [where f = "gptr M", OF A(1) assms(3), of _ g]
  have c1: "counted (nrefs A (gptr M)) M1" "same_owners M M1" using A(2) by (simp_all add: M1_def)
  show ?thesis
  proof (cases "gp_stub g = 0")
    case True
    have "counted (nrefs (insert p A) (gptr M1)) M1"
      using c1(1) by (rule counted_nonzero) (simp add: M1_def n True)
    with True A c1(2) show ?thesis unfolding g_def [symmetric]
      by (auto simp: gp_assign_def Let_def M1_def [symmetric] gmem_inv_def same_owners_ok) (simp add: M1_def)
  next
    case False
    have "0 < nrefs A (gptr M) (gp_stub g)" using nrefs_pos [OF A(1) assms(2), of "gptr M"] by (simp add: g_def)
    with countedD(5) [OF c1(1) False] obtain st where "stubs M1 (gp_stub g) = Some st" by blast
    from stub_ref_counted [OF c1(1) this] obtain M2 where
      M2: "stub_ref (gp_stub g) M1 = Some M2" "counted ((nrefs A (gptr M))(gp_stub g := Suc (nrefs A (gptr M) (gp_stub g)))) M2"
        "gptr M2 = gptr M1" "same_owners M1 M2" by blast
    have "counted (nrefs (insert p A) (gptr M2)) M2"
      using M2(2) by (rule counted_nonzero) (simp add: M1_def n M2(3))
    moreover have "same_owners M M2" using c1(2) M2(4) by (rule same_owners_trans)
    ultimately show ?thesis using False M2(1,3) A unfolding g_def [symmetric]
      by (auto simp: gp_assign_def Let_def M1_def [symmetric] gmem_inv_def same_owners_ok) (simp add: M1_def)
  qed
qed

section \<open>Slots, hangs and their gpointers\<close>

fun is_ptr :: "atom \<Rightarrow> bool" where
  "is_ptr (A_POINTER p) = True"
| "is_ptr _ = False"

definition nptrs :: "atom list \<Rightarrow> nat" where
  "nptrs ps = length (filter is_ptr ps)"

lemma nptrs_simps [simp]: "nptrs [] = 0" "nptrs (p # ps) = (if is_ptr p then Suc (nptrs ps) else nptrs ps)"
  by (simp_all add: nptrs_def)

definition range_of :: "nat \<Rightarrow> nat \<Rightarrow> nat set" where
  "range_of gp k = {gp ..< gp + k}"

lemma range_of_simps [simp]: "range_of gp 0 = {}" "range_of gp (Suc k) = insert gp (range_of (Suc gp) k)" "gp \<notin> range_of (Suc gp) k"
  by (auto simp: range_of_def)

text \<open>The pointer atoms of a message are live.\<close>

definition args_live :: "nat set \<Rightarrow> atom list \<Rightarrow> bool" where
  "args_live A av \<longleftrightarrow> (\<forall>p. A_POINTER p \<in> set av \<longrightarrow> p \<in> A)"

lemma args_live_simps [simp]: "args_live A []" "args_live A (a # av) \<longleftrightarrow> (\<forall>p. a = A_POINTER p \<longrightarrow> p \<in> A) \<and> args_live A av"
  by (auto simp: args_live_def)

lemma fill_slots_live:
  "gmem_inv A M \<Longrightarrow> range_of gp (nptrs ps) \<subseteq> A \<Longrightarrow> args_live A av \<Longrightarrow>
    \<exists>ps' M' errs. fill_slots gp ps av M = Some (ps', M', errs) \<and> gmem_inv A M' \<and> same_owners M M' \<and>
      map is_ptr ps' = map is_ptr ps \<and> (\<forall>p. p \<notin> range_of gp (nptrs ps) \<longrightarrow> gptr M' p = gptr M p)"
proof (induction ps arbitrary: gp av M)
  case (Cons p ps)
  show ?case
  proof (cases av)
    case (Cons a av')
    note prems = Cons.prems [unfolded Cons]
    show ?thesis
  proof (cases "is_ptr p")
    case True
    then obtain q0 where p: "p = A_POINTER q0" by (cases p) auto
    have gp: "gp \<in> A" "range_of (Suc gp) (nptrs ps) \<subseteq> A" using Cons.prems(2) p by auto
    obtain M1 where M1: "gpointer_unset gp M = Some M1" "gmem_inv A M1" "same_owners M M1"
      "gptr M1 = (gptr M)(gp := (gptr M gp)\<lparr>gp_stub := 0\<rparr>)" using unset_live [OF Cons.prems(1) gp(1)] by blast
    have "\<exists>M2 err. (case a of A_POINTER q \<Rightarrow> map_option (\<lambda>M2. (M2, [])) (gp_assign gp (gptr M1 q) M1)
        | _ \<Rightarrow> Some (M1, [''pipe: bad pointer''])) = Some (M2, err) \<and> gmem_inv A M2 \<and> same_owners M1 M2 \<and>
        (\<forall>p. p \<noteq> gp \<longrightarrow> gptr M2 p = gptr M1 p)"
    proof (cases "is_ptr a")
      case True
      then obtain q where a: "a = A_POINTER q" by (cases a) auto
      have "q \<in> A" using prems(3) a by simp
      moreover have "gp_stub (gptr M1 gp) = 0" by (simp add: M1(4))
      ultimately show ?thesis using assign_live [OF M1(2), of q gp] gp(1) by (auto simp: a insert_absorb)
    qed (use M1(2) in \<open>cases a; simp\<close>)
    then obtain M2 err where M2: "(case a of A_POINTER q \<Rightarrow> map_option (\<lambda>M2. (M2, [])) (gp_assign gp (gptr M1 q) M1)
        | _ \<Rightarrow> Some (M1, [''pipe: bad pointer''])) = Some (M2, err)" "gmem_inv A M2" "same_owners M1 M2"
        "\<forall>p. p \<noteq> gp \<longrightarrow> gptr M2 p = gptr M1 p" by blast
    from Cons.IH [OF M2(2) gp(2), of av'] prems(3) obtain ps' M' errs where
      r: "fill_slots (Suc gp) ps av' M2 = Some (ps', M', errs)" "gmem_inv A M'" "same_owners M2 M'" "map is_ptr ps' = map is_ptr ps"
        "\<forall>p. p \<notin> range_of (Suc gp) (nptrs ps) \<longrightarrow> gptr M' p = gptr M2 p" by auto
    have "same_owners M M'" using M1(3) M2(3) r(3) by (blast intro: same_owners_trans)
    with M1 M2 r show ?thesis by (simp add: p Cons)
  next
    case False
    with Cons.IH [OF Cons.prems(1), of gp av'] Cons.prems(2) prems(3) obtain ps' M' errs where
      r: "fill_slots gp ps av' M = Some (ps', M', errs)" "gmem_inv A M'" "same_owners M M'" "map is_ptr ps' = map is_ptr ps"
        "\<forall>p. p \<notin> range_of gp (nptrs ps) \<longrightarrow> gptr M' p = gptr M p" by auto
    with False show ?thesis by (cases p) (auto simp: Cons)
  qed
  qed (use Cons.prems in auto)
qed simp

lemma copy_is_assign:
  "gmem_inv A M \<Longrightarrow> gp \<in> A \<Longrightarrow> g \<notin> A \<Longrightarrow>
    \<exists>M1. (if gp_stub (gptr M gp) \<noteq> 0 then stub_ref (gp_stub (gptr M gp)) M else Some M) = Some M1 \<and>
      gmem_inv (insert g A) (put_gptr g (gptr M1 gp) M1) \<and> same_owners M (put_gptr g (gptr M1 gp) M1) \<and>
      gptr (put_gptr g (gptr M1 gp) M1) = (gptr M)(g := gptr M gp)"
proof -
  have swap: "put_gptr g v M\<lparr>stubs := f\<rparr> = put_gptr g v (M\<lparr>stubs := f\<rparr>)" for v f by simp
  assume "gmem_inv A M" "gp \<in> A" "g \<notin> A"
  with assign_live [of A M gp g] show ?thesis
    by (auto simp: gp_assign_def Let_def stub_ref_def swap simp del: gmem.update_convs split: if_splits option.splits)
qed

lemma copy_slots_live:
  "gmem_inv A M \<Longrightarrow> range_of gp (nptrs ps) \<subseteq> A \<Longrightarrow> range_of g (nptrs ps) \<inter> A = {} \<Longrightarrow>
    \<exists>ws M'. copy_slots gp g ps M = Some (ws, M') \<and> gmem_inv (A \<union> range_of g (nptrs ps)) M' \<and> same_owners M M' \<and>
      map is_ptr ws = map is_ptr ps \<and> args_live (range_of g (nptrs ps)) ws \<and> (\<forall>p. p \<notin> range_of g (nptrs ps) \<longrightarrow> gptr M' p = gptr M p)"
proof (induction ps arbitrary: gp g A M)
  case (Cons p ps)
  show ?case
  proof (cases "is_ptr p")
    case True
    then obtain q where p: "p = A_POINTER q" by (cases p) auto
    have gp: "gp \<in> A" "g \<notin> A" "range_of (Suc gp) (nptrs ps) \<subseteq> insert g A" "range_of (Suc g) (nptrs ps) \<inter> insert g A = {}"
      using Cons.prems(2,3) p by auto
    from copy_is_assign [OF Cons.prems(1) gp(1,2)] obtain M1 where
      M1: "(if gp_stub (gptr M gp) \<noteq> 0 then stub_ref (gp_stub (gptr M gp)) M else Some M) = Some M1"
        "gmem_inv (insert g A) (put_gptr g (gptr M1 gp) M1)" "same_owners M (put_gptr g (gptr M1 gp) M1)"
        "gptr (put_gptr g (gptr M1 gp) M1) = (gptr M)(g := gptr M gp)" by blast
    from Cons.IH [OF M1(2) gp(3,4)] obtain ws M' where
      r: "copy_slots (Suc gp) (Suc g) ps (put_gptr g (gptr M1 gp) M1) = Some (ws, M')" "gmem_inv (insert g A \<union> range_of (Suc g) (nptrs ps)) M'"
        "same_owners (put_gptr g (gptr M1 gp) M1) M'" "map is_ptr ws = map is_ptr ps" "args_live (range_of (Suc g) (nptrs ps)) ws"
        "\<forall>p. p \<notin> range_of (Suc g) (nptrs ps) \<longrightarrow> gptr M' p = gptr (put_gptr g (gptr M1 gp) M1) p" by blast
    have "copy_slots gp g (p # ps) M = Some (A_POINTER g # ws, M')" using M1(1) r(1) by (simp add: p)
    moreover have "gmem_inv (A \<union> range_of g (nptrs (p # ps))) M'" using r(2) by (simp add: p Un_commute)
    moreover have "same_owners M M'" using M1(3) r(3) by (rule same_owners_trans)
    moreover have "\<forall>p'. p' \<notin> range_of g (nptrs (p # ps)) \<longrightarrow> gptr M' p' = gptr M p'" using r(6) M1(4) by (simp add: p)
    moreover have "args_live (range_of g (nptrs (p # ps))) (A_POINTER g # ws)" using r(5) by (auto simp: p args_live_def)
    ultimately show ?thesis using r(4) p by auto
  next
    case False
    with Cons.IH [OF Cons.prems(1), of gp g] Cons.prems(2,3) obtain ws M' where
      r: "copy_slots gp g ps M = Some (ws, M')" "gmem_inv (A \<union> range_of g (nptrs ps)) M'" "same_owners M M'"
        "map is_ptr ws = map is_ptr ps" "args_live (range_of g (nptrs ps)) ws" "\<forall>p. p \<notin> range_of g (nptrs ps) \<longrightarrow> gptr M' p = gptr M p" by auto
    with False show ?thesis by (cases p) auto
  qed
qed simp

lemma unset_gps_live:
  "gmem_inv A M \<Longrightarrow> range_of g k \<subseteq> A \<Longrightarrow>
    \<exists>M'. unset_gps g k M = Some M' \<and> gmem_inv (A - range_of g k) M' \<and> same_owners M M' \<and> (\<forall>p. p \<notin> range_of g k \<longrightarrow> gptr M' p = gptr M p)"
proof (induction k arbitrary: g A M)
  case (Suc k)
  have g: "g \<in> A" "range_of (Suc g) k \<subseteq> A - {g}" using Suc.prems(2) by (auto simp: range_of_def)
  from unset_live [OF Suc.prems(1) g(1)] obtain M1 where
    M1: "gpointer_unset g M = Some M1" "gmem_inv (A - {g}) M1" "gptr M1 = (gptr M)(g := (gptr M g)\<lparr>gp_stub := 0\<rparr>)" "same_owners M M1" by blast
  from Suc.IH [OF M1(2) g(2)] obtain M' where
    r: "unset_gps (Suc g) k M1 = Some M'" "gmem_inv (A - {g} - range_of (Suc g) k) M'" "same_owners M1 M'"
      "\<forall>p. p \<notin> range_of (Suc g) k \<longrightarrow> gptr M' p = gptr M1 p" by blast
  have "A - {g} - range_of (Suc g) k = A - range_of g (Suc k)" by auto
  with M1 r show ?case by (auto intro: same_owners_trans)
qed simp

section \<open>The references of a pipe\<close>

definition hang_gps :: "pipe \<Rightarrow> hang \<Rightarrow> nat set" where
  "hang_gps x hg = range_of (h_gp hg) (x_nptr x)"

definition pipe_gps :: "pipe \<Rightarrow> nat set" where
  "pipe_gps x = range_of (p_gp x) (x_nptr x) \<union> (\<Union>h\<in>set (x_hang x). hang_gps x (the (hangs x h)))"

text \<open>
  The gpointers of the pipe, of its hangs and those live elsewhere (\<open>B\<close>) are different cells, all counted;
  the pointers in a hang are its own.
\<close>

definition hang_safe :: "pipe \<Rightarrow> hang \<Rightarrow> bool" where
  "hang_safe x hg \<longleftrightarrow> map is_ptr (h_vec hg) = map is_ptr (x_vec x) \<and> args_live (hang_gps x hg) (h_vec hg) \<and>
     hang_gps x hg \<inter> range_of (p_gp x) (x_nptr x) = {}"

definition hangs_safe :: "pipe \<Rightarrow> bool" where
  "hangs_safe x \<longleftrightarrow> (\<forall>h hg. hangs x h = Some hg \<longrightarrow> hang_safe x hg)"

definition hangs_apart :: "pipe \<Rightarrow> bool" where
  "hangs_apart x \<longleftrightarrow>
     (\<forall>h k hg kg. hangs x h = Some hg \<longrightarrow> hangs x k = Some kg \<longrightarrow> h \<noteq> k \<longrightarrow> hang_gps x hg \<inter> hang_gps x kg = {})"

definition pipe_safe :: "nat set \<Rightarrow> pipe \<times> gmem \<times> sched \<Rightarrow> bool" where
  "pipe_safe B w \<longleftrightarrow>
     (case w of (x, M, s) \<Rightarrow> clock_inv s \<and> distinct (x_hang x) \<and> dom (hangs x) = set (x_hang x) \<and>
        nptrs (x_vec x) = x_nptr x \<and> delay_ms (x_deltime x) \<noteq> None \<and>
        gmem_inv (B \<union> pipe_gps x) M \<and> B \<inter> pipe_gps x = {} \<and> hangs_safe x \<and> hangs_apart x)"

lemma pipe_safeD:
  assumes "pipe_safe B (x, M, s)"
  shows "clock_inv s" "distinct (x_hang x)" "dom (hangs x) = set (x_hang x)" "nptrs (x_vec x) = x_nptr x"
    "delay_ms (x_deltime x) \<noteq> None" "gmem_inv (B \<union> pipe_gps x) M" "B \<inter> pipe_gps x = {}" "hangs_safe x" "hangs_apart x"
  using assms unfolding pipe_safe_def prod.case by blast+

lemma pipe_safeI:
  "clock_inv s \<Longrightarrow> distinct (x_hang x) \<Longrightarrow> dom (hangs x) = set (x_hang x) \<Longrightarrow> nptrs (x_vec x) = x_nptr x \<Longrightarrow>
    delay_ms (x_deltime x) \<noteq> None \<Longrightarrow> gmem_inv (B \<union> pipe_gps x) M \<Longrightarrow> B \<inter> pipe_gps x = {} \<Longrightarrow> hangs_safe x \<Longrightarrow>
    hangs_apart x \<Longrightarrow> pipe_safe B (x, M, s)"
  unfolding pipe_safe_def prod.case by blast

lemma hang_gps_without [simp]: "hang_gps (without h x) = hang_gps x" "hang_gps (x\<lparr>x_hang := l\<rparr>) = hang_gps x"
  by (simp_all add: hang_gps_def fun_eq_iff)

lemma hangs_without:
  "hangs_safe x \<Longrightarrow> hangs_safe (without h x)" "hangs_apart x \<Longrightarrow> hangs_apart (without h x)"
proof -
  have hs: "hang_safe (without h x) hg = hang_safe x hg" for hg by (simp add: hang_safe_def)
  show "hangs_safe x \<Longrightarrow> hangs_safe (without h x)" unfolding hangs_safe_def hs by simp
  show "hangs_apart x \<Longrightarrow> hangs_apart (without h x)" unfolding hangs_apart_def hang_gps_without by (simp; blast)
qed

lemma in_pipe_gps: "p \<in> pipe_gps x \<longleftrightarrow> p \<in> range_of (p_gp x) (x_nptr x) \<or> (\<exists>h\<in>set (x_hang x). p \<in> hang_gps x (the (hangs x h)))"
  by (simp add: pipe_gps_def)

lemma pipe_gps_without:
  assumes safe: "pipe_safe B (x, M, s)" and h: "hangs x h = Some hg"
  shows "B \<union> pipe_gps (without h x) = (B \<union> pipe_gps x) - hang_gps x hg" "hang_gps x hg \<subseteq> pipe_gps x" "B \<inter> pipe_gps (without h x) = {}"
proof -
  note d = pipe_safeD [OF safe]
  have hin: "h \<in> set (x_hang x)" using h d(3) by blast
  have o: "hang_gps x (the (hangs x k)) \<inter> hang_gps x hg = {}" if k: "k \<in> set (x_hang x)" "k \<noteq> h" for k
  proof -
    obtain kg where kg: "hangs x k = Some kg" using k(1) d(3) by blast
    then show ?thesis using d(9) h k(2) unfolding hangs_apart_def by (metis option.sel)
  qed
  have hs: "hang_gps x hg \<inter> range_of (p_gp x) (x_nptr x) = {}" using d(8) h by (simp add: hangs_safe_def hang_safe_def)
  show sub: "hang_gps x hg \<subseteq> pipe_gps x" using hin h by (force simp: in_pipe_gps)
  have p: "p \<in> pipe_gps (without h x) \<longleftrightarrow> p \<in> pipe_gps x \<and> p \<notin> hang_gps x hg" for p
  proof -
    have "p \<in> pipe_gps (without h x) \<longleftrightarrow> p \<in> range_of (p_gp x) (x_nptr x) \<or> (\<exists>k\<in>set (x_hang x) - {h}. p \<in> hang_gps x (the (hangs x k)))"
      unfolding in_pipe_gps hang_gps_without using d(2) by auto
    also have "\<dots> \<longleftrightarrow> p \<in> pipe_gps x \<and> p \<notin> hang_gps x hg"
      unfolding in_pipe_gps using o hs h by (metis Diff_iff disjoint_iff option.sel singletonD singletonI)
    finally show ?thesis .
  qed
  show "B \<union> pipe_gps (without h x) = (B \<union> pipe_gps x) - hang_gps x hg" "B \<inter> pipe_gps (without h x) = {}"
    using p d(7) sub by blast+
qed

text \<open>A hang taken off the list and freed gives its references back.\<close>

lemma hang_free_safe:
  assumes safe: "pipe_safe B (x, M, s)" and h: "h \<in> set (x_hang x)"
  shows "\<exists>M' s'. hang_free h (x\<lparr>x_hang := remove1 h (x_hang x)\<rparr>, M, s) = Some (without h x, M', s') \<and>
    pipe_safe B (without h x, M', s') \<and> same_owners M M' \<and> (\<forall>p\<in>range_of (p_gp x) (x_nptr x). gptr M' p = gptr M p)"
proof -
  note d = pipe_safeD [OF safe]
  obtain hg where hg: "hangs x h = Some hg" using h d(3) by blast
  note g = pipe_gps_without [OF safe hg]
  have "range_of (h_gp hg) (x_nptr x) \<subseteq> B \<union> pipe_gps x" using g(2) by (auto simp: hang_gps_def)
  from unset_gps_live [OF d(6) this] obtain M' where
    M': "unset_gps (h_gp hg) (x_nptr x) M = Some M'" "gmem_inv (B \<union> pipe_gps (without h x)) M'" "same_owners M M'"
      "\<forall>p. p \<notin> range_of (h_gp hg) (x_nptr x) \<longrightarrow> gptr M' p = gptr M p"
    unfolding g(1) hang_gps_def by blast
  have "hang_gps x hg \<inter> range_of (p_gp x) (x_nptr x) = {}" using d(8) hg by (simp add: hangs_safe_def hang_safe_def)
  then have own: "\<forall>p\<in>range_of (p_gp x) (x_nptr x). gptr M' p = gptr M p" using M'(4) unfolding hang_gps_def by blast
  obtain s' where s': "clock_unset h s = Some s'" "clock_inv s'" using clock_unset_spec [OF d(1), of h] by blast
  have "hang_free h (x\<lparr>x_hang := remove1 h (x_hang x)\<rparr>, M, s) = Some (without h x, M', s')"
    using hg M'(1) s'(1) by (simp add: hang_free_def clock_free_def)
  moreover have "dom (hangs (without h x)) = set (x_hang (without h x))" using d(2,3) by auto
  then have "pipe_safe B (without h x, M', s')"
    using d(2,4,5) s'(2) M'(2) g(3) hangs_without(1) [OF d(8)] hangs_without(2) [OF d(9)]
    by (intro pipe_safeI) (simp_all only: pipe.simps, simp_all)
  ultimately show ?thesis using M'(3) own by blast
qed

section \<open>Messages to a pipe\<close>

text \<open>Where the new hang is put there is none, no clock is set, and its gpointers are new.\<close>

definition room_for :: "nat set \<Rightarrow> nat \<Rightarrow> nat \<Rightarrow> pipe \<Rightarrow> sched \<Rightarrow> bool" where
  "room_for B h g x s \<longleftrightarrow> hangs x h = None \<and> settime s h < 0 \<and> range_of g (x_nptr x) \<inter> (B \<union> pipe_gps x) = {}"

definition new_delay :: "pipe \<Rightarrow> atom list \<Rightarrow> t_float" where
  "new_delay x av =
     (if length (x_vec x) < length av then (case av ! length (x_vec x) of A_FLOAT f \<Rightarrow> f | _ \<Rightarrow> x_deltime x) else x_deltime x)"

lemma args_live_take: "args_live A av \<Longrightarrow> args_live (A \<union> C) (take n av)"
  by (auto simp: args_live_def dest: in_set_takeD)

lemma nptrs_cong: "map is_ptr ps = map is_ptr qs \<Longrightarrow> nptrs ps = nptrs qs"
proof -
  have "nptrs ps = length (filter id (map is_ptr ps))" for ps by (simp add: nptrs_def filter_map)
  then show "map is_ptr ps = map is_ptr qs \<Longrightarrow> nptrs ps = nptrs qs" by metis
qed

text \<open>The pipe with a new hang at \<open>h\<close>; \<open>y\<close> is the pipe with its slots filled.\<close>

abbreviation with_hang :: "nat \<Rightarrow> hang \<Rightarrow> pipe \<Rightarrow> pipe" where
  "with_hang h hg y \<equiv> y\<lparr>x_hang := h # x_hang y, hangs := (hangs y)(h \<mapsto> hg)\<rparr>"

lemma pipe_gps_with: "hangs y h = None \<Longrightarrow> dom (hangs y) = set (x_hang y) \<Longrightarrow> pipe_gps (with_hang h hg y) = pipe_gps y \<union> hang_gps y hg"
proof -
  assume h: "hangs y h = None" "dom (hangs y) = set (x_hang y)"
  then have "h \<notin> set (x_hang y)" by blast
  then have "(\<Union>k\<in>set (x_hang y). hang_gps y (the (((hangs y)(h \<mapsto> hg)) k))) = (\<Union>k\<in>set (x_hang y). hang_gps y (the (hangs y k)))"
    by (intro SUP_cong) auto
  then show ?thesis by (simp add: pipe_gps_def hang_gps_def Un_ac)
qed

lemma in_hang_gps: "dom (hangs y) = set (x_hang y) \<Longrightarrow> hangs y k = Some kg \<Longrightarrow> hang_gps y kg \<subseteq> pipe_gps y"
  by (force simp: in_pipe_gps)

lemma hangs_with:
  assumes "hangs_safe y" "hangs_apart y" "hangs y h = None" "dom (hangs y) = set (x_hang y)"
    "map is_ptr (h_vec hg) = map is_ptr (x_vec y)" "args_live (hang_gps y hg) (h_vec hg)" "hang_gps y hg \<inter> pipe_gps y = {}"
  shows "hangs_safe (with_hang h hg y)" "hangs_apart (with_hang h hg y)"
proof -
  have gps: "hang_gps (with_hang h hg y) kg = hang_gps y kg" for kg by (simp add: hang_gps_def)
  have hs: "hang_safe (with_hang h hg y) kg = hang_safe y kg" for kg by (simp add: hang_safe_def gps)
  have "hang_safe y hg" using assms(5-7) by (auto simp: hang_safe_def pipe_gps_def)
  then show "hangs_safe (with_hang h hg y)" using assms(1) unfolding hangs_safe_def hs by (auto split: if_splits)
  have "hangs y k = Some kg \<Longrightarrow> hang_gps y hg \<inter> hang_gps y kg = {}" for k kg
    using in_hang_gps [OF assms(4), of k kg] assms(7) by blast
  then show "hangs_apart (with_hang h hg y)" using assms(2) unfolding hangs_apart_def gps by (auto split: if_splits)
qed

lemma pipe_list_safe:
  assumes safe: "pipe_safe B (x, M, s)" and room: "room_for B h g x s" and live: "args_live B av"
    and delay: "delay_ms (new_delay x av) \<noteq> None"
  shows "\<exists>x' M' s'. pipe_list h g av (x, M, s) = Some (x', M', s') \<and> pipe_safe B (x', M', s') \<and> same_owners M M' \<and>
    x_hang x' = h # x_hang x"
proof -
  note d = pipe_safeD [OF safe]
  define x1 where "x1 = (if length (x_vec x) < length av then
                  (case av ! length (x_vec x) of A_FLOAT f \<Rightarrow> x\<lparr>x_deltime := f\<rparr>
                   | _ \<Rightarrow> pipe_error ''pipe: symbol or pointer in time inlet'' x)
                else x)"
  have x1: "x_deltime x1 = new_delay x av" "x_vec x1 = x_vec x" "p_gp x1 = p_gp x" "x_hang x1 = x_hang x" "hangs x1 = hangs x"
    "x_nptr x1 = x_nptr x" by (auto simp: x1_def new_delay_def pipe_error_def split: atom.splits)
  obtain dl where dl: "delay_ms (new_delay x av) = Some dl" using delay by blast
  have r: "room_for B h g x s \<Longrightarrow> hangs x h = None \<and> settime s h < 0 \<and> range_of g (x_nptr x) \<inter> (B \<union> pipe_gps x) = {}"
    by (simp add: room_for_def)
  note r = r [OF room]
  have sub: "range_of (p_gp x) (x_nptr x) \<subseteq> B \<union> pipe_gps x" by (auto simp: pipe_gps_def)
  from fill_slots_live [OF d(6), of "p_gp x" "x_vec x" "take (length (x_vec x)) av"] args_live_take [OF live] sub
  obtain ps M1 errs where M1: "fill_slots (p_gp x) (x_vec x) (take (length (x_vec x)) av) M = Some (ps, M1, errs)"
    "gmem_inv (B \<union> pipe_gps x) M1" "same_owners M M1" "map is_ptr ps = map is_ptr (x_vec x)"
    unfolding d(4) by blast
  have n: "nptrs ps = x_nptr x" using nptrs_cong [OF M1(4)] d(4) by simp
  from copy_slots_live [OF M1(2), of "p_gp x" ps g] sub r obtain ws M2 where M2:
    "copy_slots (p_gp x) g ps M1 = Some (ws, M2)" "gmem_inv (B \<union> pipe_gps x \<union> range_of g (x_nptr x)) M2" "same_owners M1 M2"
    "map is_ptr ws = map is_ptr ps" "args_live (range_of g (x_nptr x)) ws" unfolding n by blast
  have c: "clock_inv (clock_create h s)" using clock_create_inv(1) [OF d(1)] r by blast
  obtain s' where s': "clock_delay h dl (clock_create h s) = Some s'" "clock_inv s'" using clock_delay_spec [OF c, of h dl] by blast
  define hg where "hg = \<lparr>h_gp = g, h_vec = ws\<rparr>"
  define y where "y = x1\<lparr>x_vec := ps, p_errors := p_errors x1 @ errs\<rparr>"
  have y: "hangs y = hangs x" "x_hang y = x_hang x" "x_vec y = ps" "x_deltime y = new_delay x av" "x_nptr y = x_nptr x" "p_gp y = p_gp x"
    by (simp_all add: y_def x1)
  have gps: "pipe_gps y = pipe_gps x" "hang_gps y hg = range_of g (x_nptr x)" "hang_gps x hg = range_of g (x_nptr x)" "hang_gps y = hang_gps x"
    by (simp_all add: pipe_gps_def hang_gps_def y hg_def fun_eq_iff)
  have hy: "hangs_safe y" "hangs_apart y" using d(8,9) M1(4)
    unfolding hangs_safe_def hangs_apart_def hang_safe_def gps y by simp_all
  have dy: "dom (hangs y) = set (x_hang y)" "hangs y h = None" "map is_ptr (h_vec hg) = map is_ptr (x_vec y)"
    "args_live (hang_gps y hg) (h_vec hg)" "hang_gps y hg \<inter> pipe_gps y = {}"
    using d(3) r M2(4,5) unfolding y gps(4) gps(3) gps(1) by (auto simp: hg_def)
  note w = hangs_with [OF hy dy(2,1,3-5)]
  have pg: "pipe_gps (with_hang h hg y) = pipe_gps x \<union> range_of g (x_nptr x)"
    using pipe_gps_with [OF dy(2,1)] gps by simp
  have "pipe_safe B (with_hang h hg y, M2, s')"
  proof (rule pipe_safeI)
    show "gmem_inv (B \<union> pipe_gps (with_hang h hg y)) M2" using M2(2) by (simp add: pg Un_assoc)
    show "B \<inter> pipe_gps (with_hang h hg y) = {}" using d(7) r unfolding pg by blast
    show "distinct (x_hang (with_hang h hg y))" using d(2,3) r by (auto simp: y)
  qed (use s'(2) w dy delay n in \<open>auto simp: y\<close>)
  moreover have "pipe_list h g av (x, M, s) = Some (with_hang h hg y, M2, s')"
    unfolding pipe_list_def Let_def prod.case x1_def [symmetric]
    using M1(1) M2(1) s'(1) dl by (simp add: x1 y_def hg_def)
  moreover have "x_hang (with_hang h hg y) = h # x_hang x" by (simp add: y)
  ultimately show ?thesis using same_owners_trans [OF M1(3) M2(3)] by blast
qed

lemma clear_loop_safe:
  "pipe_safe B (x, M, s) \<Longrightarrow> x_hang x = l \<Longrightarrow>
    \<exists>x' M' s'. clear_loop l (x, M, s) = Some (x', M', s') \<and> pipe_safe B (x', M', s') \<and> same_owners M M' \<and>
      x_hang x' = [] \<and> p_gp x' = p_gp x \<and> x_nptr x' = x_nptr x \<and> (\<forall>p\<in>range_of (p_gp x) (x_nptr x). gptr M' p = gptr M p)"
proof (induction l arbitrary: x M s)
  case (Cons h l)
  from hang_free_safe [OF Cons.prems(1), of h] Cons.prems(2) obtain M1 s1 where
    1: "hang_free h (x\<lparr>x_hang := l\<rparr>, M, s) = Some (without h x, M1, s1)" "pipe_safe B (without h x, M1, s1)" "same_owners M M1"
      "\<forall>p\<in>range_of (p_gp x) (x_nptr x). gptr M1 p = gptr M p" by auto
  have "x_hang (without h x) = l" using Cons.prems(2) by simp
  from Cons.IH [OF 1(2) this] obtain x' M' s' where
    2: "clear_loop l (without h x, M1, s1) = Some (x', M', s')" "pipe_safe B (x', M', s')" "same_owners M1 M'" "x_hang x' = []"
      "p_gp x' = p_gp x" "x_nptr x' = x_nptr x" "\<forall>p\<in>range_of (p_gp x) (x_nptr x). gptr M' p = gptr M1 p" by auto
  show ?case using 1(1,4) 2 same_owners_trans [OF 1(3) 2(3)] by (auto simp del: fun_upd_apply)
qed (use same_owners_refl in auto)

lemma pipe_clear_safe:
  assumes "pipe_safe B (x, M, s)"
  shows "\<exists>x' M' s'. pipe_clear (x, M, s) = Some (x', M', s') \<and> pipe_safe B (x', M', s') \<and> same_owners M M' \<and>
    x_hang x' = [] \<and> gmem_inv (B \<union> range_of (p_gp x) (x_nptr x)) M' \<and> (\<forall>p\<in>range_of (p_gp x) (x_nptr x). gptr M' p = gptr M p)"
proof -
  from clear_loop_safe [OF assms refl] obtain x' M' s' where
    1: "clear_loop (x_hang x) (x, M, s) = Some (x', M', s')" "pipe_safe B (x', M', s')" "same_owners M M'"
      "x_hang x' = []" "p_gp x' = p_gp x" "x_nptr x' = x_nptr x" "\<forall>p\<in>range_of (p_gp x) (x_nptr x). gptr M' p = gptr M p" by blast
  have "pipe_gps x' = range_of (p_gp x) (x_nptr x)" using 1(4-6) by (simp add: pipe_gps_def)
  with pipe_safeD(6) [OF 1(2)] 1 show ?thesis by (simp add: pipe_clear_def)
qed

text \<open>Two counts of the same memory agree.\<close>

lemma counted_same:
  assumes "counted R M" "counted Q M" "s \<noteq> 0" "0 < R s"
  shows "Q s = R s"
proof -
  obtain g where g: "stubs M s = Some g" using countedD(5) [OF assms(1,3,4)] by blast
  show ?thesis using countedD(3) [OF assms(1) g] countedD(3) [OF assms(2) g] by simp
qed

lemma nrefs_less:
  assumes "finite C" "A \<subseteq> C" "p \<in> C" "p \<notin> A"
  shows "nrefs A f (gp_stub (f p)) < nrefs C f (gp_stub (f p))"
  unfolding nrefs_def using assms by (intro psubset_card_mono) auto

section \<open>What a pipe promises of pointers\<close>

text \<open>
  C31: A message with pointers is stored in a pipe and later taken out by clear: both run without a fault, every
  gpointer of the pipe and of its hangs is counted in between, and in the end only those of the pipe are left.
\<close>

theorem pipe_keeps_refs:
  assumes "pipe_safe B (x, M, s)" "room_for B h g x s" "args_live B av" "delay_ms (new_delay x av) \<noteq> None"
  shows "\<exists>x1 M1 s1 x2 M2 s2. pipe_list h g av (x, M, s) = Some (x1, M1, s1) \<and> pipe_safe B (x1, M1, s1) \<and> same_owners M M1 \<and>
    x_hang x1 = h # x_hang x \<and> pipe_clear (x1, M1, s1) = Some (x2, M2, s2) \<and> pipe_safe B (x2, M2, s2) \<and>
    same_owners M1 M2 \<and> x_hang x2 = [] \<and> gmem_inv (B \<union> range_of (p_gp x1) (x_nptr x1)) M2"
  using pipe_list_safe [OF assms] pipe_clear_safe by blast

text \<open>A pipe that is freed leaves the references of its own gpointers counted: if one of them refers to a
  stub, the count of that stub is wrong for the gpointers that are left, so the stub outlives them all.
\<close>

theorem pipe_free_leaks:
  assumes "pipe_safe B (x, M, s)" "p \<in> range_of (p_gp x) (x_nptr x)" "gp_stub (gptr M p) \<noteq> 0"
  shows "\<exists>M' s'. pipe_free (x, M, s) = Some (M', s') \<and> \<not> gmem_inv B M' \<and> gptr M' p = gptr M p"
proof -
  from pipe_clear_safe [OF assms(1)] obtain x' M' s' where
    1: "pipe_clear (x, M, s) = Some (x', M', s')" "gmem_inv (B \<union> range_of (p_gp x) (x_nptr x)) M'" "gptr M' p = gptr M p"
    using assms(2) by blast
  define C where "C = B \<union> range_of (p_gp x) (x_nptr x)"
  have "p \<notin> B" using pipe_safeD(7) [OF assms(1)] assms(2) by (auto simp: pipe_gps_def)
  then have "nrefs B (gptr M') (gp_stub (gptr M' p)) < nrefs C (gptr M') (gp_stub (gptr M' p))"
    using 1(2) assms(2) by (intro nrefs_less) (auto simp: C_def gmem_inv_def)
  then have "\<not> gmem_inv B M'"
    using 1(2,3) assms(3) counted_same [of "nrefs C (gptr M')" M' "nrefs B (gptr M')" "gp_stub (gptr M' p)"]
    by (auto simp: gmem_inv_def C_def)
  with 1 show ?thesis by (simp add: pipe_free_def)
qed

text \<open>A new pipe.\<close>

lemma init_gps_live:
  "gmem_inv B M \<Longrightarrow> range_of gp k \<inter> B = {} \<Longrightarrow> gmem_inv (B \<union> range_of gp k) (init_gps gp k M) \<and> same_owners M (init_gps gp k M)"
proof (induction k arbitrary: gp B M)
  case (Suc k)
  define M1 where "M1 = gpointer_init gp M"
  have gp: "gp \<notin> B" "range_of (Suc gp) k \<inter> insert gp B = {}" using Suc.prems(2) by auto
  have c: "counted (nrefs B (gptr M)) M" "finite B" "owners_ok M" using Suc.prems(1) by (simp_all add: gmem_inv_def)
  have o: "same_owners M M1" by (simp add: M1_def gpointer_init_def)
  have "nrefs (insert gp B) (gptr M1) s = nrefs B (gptr M) s" if "s \<noteq> 0" for s
    using nrefs_insert [OF c(2) gp(1), of "gptr M1"] gp(1) that by (simp add: M1_def gpointer_init_def)
  moreover have "counted (nrefs B (gptr M)) M1" using c(1) by (simp add: M1_def gpointer_init_def)
  ultimately have "counted (nrefs (insert gp B) (gptr M1)) M1" by (metis counted_nonzero)
  with c(2,3) o have inv: "gmem_inv (insert gp B) M1" by (simp add: gmem_inv_def same_owners_ok)
  from Suc.IH [OF inv gp(2)] same_owners_trans [OF o] show ?case by (simp add: M1_def)
qed simp

lemma nptrs_slots: "nptrs (pipe_slots gp args) = length (filter (starts (CHR ''p'')) args)"
  by (induction args arbitrary: gp) (auto simp: pipe_slot_def starts_def split: atom.splits)

lemma pipe_new_safe:
  assumes "pipe_new gp argv M = Some (x, M1)" "gmem_inv B M" "range_of gp (x_nptr x) \<inter> B = {}" "clock_inv s"
    and "delay_ms (x_deltime x) \<noteq> None"
  shows "pipe_safe B (x, M1, s)"
proof -
  define args where "args = (if butlast argv = [] then [A_FLOAT (FFin 0)] else butlast argv)"
  define k where "k = length (filter (starts (CHR ''p'')) args)"
  have x: "x_nptr x = k" "p_gp x = gp" "x_vec x = pipe_slots gp args" "x_hang x = []" "hangs x = (\<lambda>_. None)" "M1 = init_gps gp k M"
    using assms(1) by (auto simp: pipe_new_def bind_eq_Some_conv Let_def args_def k_def)
  have g: "pipe_gps x = range_of gp k" by (simp add: pipe_gps_def x)
  have "gmem_inv (B \<union> range_of gp k) M1" using init_gps_live [OF assms(2)] assms(3) by (simp add: x)
  with assms(3-5) show ?thesis
    by (intro pipe_safeI) (auto simp: g x(1-5) nptrs_slots k_def hangs_safe_def hangs_apart_def)
qed

text \<open>A pipe with one pointer; the pointer at 9 is stored in it.\<close>

definition ptr_pipe :: pipe where
  "ptr_pipe = \<lparr>x_nptr = 1, x_deltime = FFin 10, x_vec = [A_POINTER 20], p_gp = 20, x_hang = [], hangs = (\<lambda>_. None), p_errors = []\<rparr>"

lemma ptr_pipe_new: "pipe_new 20 [A_SYMBOL ''pointer'', A_FLOAT (FFin 10)] demo_mem = Some (ptr_pipe, init_gps 20 1 demo_mem)"
  by (simp add: pipe_new_def ptr_pipe_def pipe_slot_def starts_def slot_errors_def cnth_def)

lemma ptr_pipe_safe: "pipe_safe {9} (ptr_pipe, init_gps 20 1 demo_mem, sched1)"
  by (rule pipe_new_safe [OF ptr_pipe_new reaches_inv [OF demo_reaches] _ sched1_inv])
    (simp_all add: ptr_pipe_def range_of_def delay_ms_def)

lemma ptr_pipe_room:
  "room_for {9} 10 30 ptr_pipe sched1" "args_live {9} [A_POINTER 9]" "delay_ms (new_delay ptr_pipe [A_POINTER 9]) \<noteq> None"
  by (simp_all add: room_for_def ptr_pipe_def pipe_gps_def range_of_def sched1_def settime_def clock_new_def new_delay_def delay_ms_def)

theorem pipe_keeps_refs_witness:
  "\<exists>x1 M1 s1 x2 M2 s2. pipe_list 10 30 [A_POINTER 9] (ptr_pipe, init_gps 20 1 demo_mem, sched1) = Some (x1, M1, s1) \<and>
    pipe_safe {9} (x1, M1, s1) \<and> same_owners (init_gps 20 1 demo_mem) M1 \<and> x_hang x1 = 10 # x_hang ptr_pipe \<and>
    pipe_clear (x1, M1, s1) = Some (x2, M2, s2) \<and> pipe_safe {9} (x2, M2, s2) \<and>
    same_owners M1 M2 \<and> x_hang x2 = [] \<and> gmem_inv ({9} \<union> range_of (p_gp x1) (x_nptr x1)) M2"
  by (rule pipe_keeps_refs [OF ptr_pipe_safe ptr_pipe_room])

text \<open>The message has been sent on; the pipe still refers to stub 1.\<close>

theorem pipe_free_leaks_witness:
  "\<exists>x M s M' s'. pipe_list 10 30 [A_POINTER 9] (ptr_pipe, init_gps 20 1 demo_mem, sched1) = Some (x, M, s) \<and>
    pipe_free (x, M, s) = Some (M', s') \<and> \<not> gmem_inv {9} M'"
proof -
  from pipe_list_safe [OF ptr_pipe_safe ptr_pipe_room] obtain x M s where
    1: "pipe_list 10 30 [A_POINTER 9] (ptr_pipe, init_gps 20 1 demo_mem, sched1) = Some (x, M, s)" "pipe_safe {9} (x, M, s)" by blast
  have "20 \<in> range_of (p_gp x) (x_nptr x)" "gp_stub (gptr M 20) = 1"
    using 1(1) by (auto simp: pipe_list_def ptr_pipe_def demo_mem_eq gpointer_init_def gpointer_unset_def gp_assign_def
        stub_ref_def bump_def range_of_def Let_def delay_ms_def bind_eq_Some_conv split: option.splits)
  with pipe_free_leaks [OF 1(2), of 20] 1(1) show ?thesis by auto
qed

end
