(* ===== verification/Midi.thy ===== *)
theory Midi
  imports Atom Clock
begin

text \<open>
  MIDI: the queues and the parser of \<open>src/pd/src/s_midi.c\<close>, the drivers' conversion of messages into bytes and back
  (\<open>src/pd/src/s_midi_oss.c\<close>, \<open>src/pd/src/s_midi_pm.c\<close>), and the objects of \<open>src/pd/src/x_midi.c\<close> that receive and send
  MIDI. The state is that of the static variables, with the history of what has been written to the driver (\<open>m_put\<close>), of
  the calls of the functions of x_midi.c (\<open>m_calls\<close>), and of the warnings posted. The real time and the logical time
  are arguments. An index outside an array gives \<open>None\<close>.
\<close>

unbundle bit_operations_syntax

section \<open>State\<close>

record midiqelem =
  q_time :: rat
  q_portno :: int
  q_onebyte :: int
  q_byte1 :: int
  q_byte2 :: int
  q_byte3 :: int

record midiparser =
  mp_status :: int
  mp_gotbyte1 :: int
  mp_byte1 :: int

text \<open>What is written to the driver.\<close>

datatype midi_put =
    Put_byte int int
  | Put_mess int int int int

text \<open>The calls of the functions of x_midi.c, by their names after \<open>inmidi_\<close>; the first argument is the port.\<close>

datatype midi_call =
    In_realtime int int
  | In_byte int int
  | In_sysex int int
  | In_noteon int int int int
  | In_controlchange int int int int
  | In_programchange int int int
  | In_pitchbend int int int
  | In_aftertouch int int int
  | In_polyaftertouch int int int int

abbreviation MIDIQSIZE :: nat where "MIDIQSIZE \<equiv> 1024"
abbreviation MAXMIDIINDEV :: nat where "MAXMIDIINDEV \<equiv> 16"

record midi =
  midi_outqueue :: "nat \<Rightarrow> midiqelem"
  midi_outhead :: nat
  midi_outtail :: nat
  midi_inqueue :: "nat \<Rightarrow> midiqelem"
  midi_inhead :: nat
  midi_intail :: nat
  midi_parsers :: "nat \<Rightarrow> midiparser"
  m_put :: "midi_put list"
  m_calls :: "midi_call list"
  m_posts :: "string list"
  dac_diff :: rat
  adc_diff :: rat
  newdac_diff :: rat
  newadc_diff :: rat
  whenupdate :: rat

text \<open>Static variables start as zeros.\<close>

definition no_elem :: midiqelem where
  "no_elem = \<lparr>q_time = 0, q_portno = 0, q_onebyte = 0, q_byte1 = 0, q_byte2 = 0, q_byte3 = 0\<rparr>"

definition no_status :: midiparser where
  "no_status = \<lparr>mp_status = 0, mp_gotbyte1 = 0, mp_byte1 = 0\<rparr>"

definition midi0 :: midi where
  "midi0 = \<lparr>midi_outqueue = (\<lambda>_. no_elem), midi_outhead = 0, midi_outtail = 0, midi_inqueue = (\<lambda>_. no_elem), midi_inhead = 0,
     midi_intail = 0, midi_parsers = (\<lambda>_. no_status), m_put = [], m_calls = [], m_posts = [], dac_diff = 0, adc_diff = 0,
     newdac_diff = - (10 ^ 20), newadc_diff = - (10 ^ 20), whenupdate = 0\<rparr>"

text \<open>The conversion to \<open>unsigned char\<close>.\<close>

definition uchar :: "int \<Rightarrow> int" where
  "uchar n = n mod 256"

section \<open>Time\<close>

definition sys_initmidiqueue :: "midi \<Rightarrow> midi" where
  "sys_initmidiqueue M = M\<lparr>dac_diff := 0, adc_diff := 0\<rparr>"

text \<open>\<open>lt\<close> is the logical time since \<open>sys_midiinittime\<close> in seconds; \<open>r1\<close> to \<open>r4\<close> are the answers of \<open>sys_getrealtime\<close>.\<close>

definition sys_setmiditimediff :: "rat \<Rightarrow> rat \<Rightarrow> rat \<Rightarrow> rat \<Rightarrow> rat \<Rightarrow> rat \<Rightarrow> rat \<Rightarrow> midi \<Rightarrow> midi" where
  "sys_setmiditimediff lt inbuftime outbuftime r1 r2 r3 r4 M =
     (let dac = rd (rd (lt - outbuftime) - r1); adc = rd (rd (lt + inbuftime) - r2);
          M1 = (if dac > newdac_diff M then M\<lparr>newdac_diff := dac\<rparr> else M);
          M2 = (if adc > newadc_diff M1 then M1\<lparr>newadc_diff := adc\<rparr> else M1) in
      if r3 > whenupdate M2 then
        M2\<lparr>dac_diff := newdac_diff M2, adc_diff := newadc_diff M2, newdac_diff := - (10 ^ 20), newadc_diff := - (10 ^ 20),
          whenupdate := rd (r4 + 1)\<rparr>
      else M2)"

definition sys_getmidioutrealtime :: "rat \<Rightarrow> midi \<Rightarrow> rat" where
  "sys_getmidioutrealtime rt M = rd (rt + dac_diff M)"

definition sys_getmidiinrealtime :: "rat \<Rightarrow> midi \<Rightarrow> rat" where
  "sys_getmidiinrealtime rt M = rd (rt + adc_diff M)"

section \<open>The output queue\<close>

definition put_of :: "midiqelem \<Rightarrow> midi_put" where
  "put_of q = (if q_onebyte q \<noteq> 0 then Put_byte (q_portno q) (q_byte1 q)
     else Put_mess (q_portno q) (q_byte1 q) (q_byte2 q) (q_byte3 q))"

definition sys_putnext :: "midi \<Rightarrow> midi option" where
  "sys_putnext M =
     (if midi_outtail M < MIDIQSIZE then
        Some (M\<lparr>m_put := m_put M @ [put_of (midi_outqueue M (midi_outtail M))],
                midi_outtail := (if midi_outtail M + 1 = MIDIQSIZE then 0 else midi_outtail M + 1)\<rparr>)
      else None)"

partial_function (option) out_loop :: "rat \<Rightarrow> midi \<Rightarrow> midi option" where
  "out_loop midirealtime M =
     (if midi_outhead M \<noteq> midi_outtail M then
        (if \<not> midi_outtail M < MIDIQSIZE then None
         else if q_time (midi_outqueue M (midi_outtail M)) \<le> midirealtime then
           Option.bind (sys_putnext M) (out_loop midirealtime)
         else Some M)
      else Some M)"

definition sys_pollmidioutqueue :: "rat \<Rightarrow> midi \<Rightarrow> midi option" where
  "sys_pollmidioutqueue rt M = out_loop (sys_getmidioutrealtime rt M) M"

definition sys_queuemidimess :: "rat \<Rightarrow> rat \<Rightarrow> int \<Rightarrow> int \<Rightarrow> int \<Rightarrow> int \<Rightarrow> int \<Rightarrow> midi \<Rightarrow> midi option" where
  "sys_queuemidimess lt rt portno onebyte a b c M =
     (let newhead = (if midi_outhead M + 1 = MIDIQSIZE then 0 else midi_outhead M + 1) in
      Option.bind (if newhead = midi_outtail M then sys_putnext M else Some M) (\<lambda>M1.
        if midi_outhead M1 < MIDIQSIZE then
          sys_pollmidioutqueue rt
            (M1\<lparr>midi_outqueue := (midi_outqueue M1)(midi_outhead M1 := \<lparr>q_time = lt, q_portno = portno, q_onebyte = uchar onebyte,
                 q_byte1 = uchar a, q_byte2 = uchar b, q_byte3 = uchar c\<rparr>),
               midi_outhead := newhead\<rparr>)
        else None))"

section \<open>Messages sent\<close>

abbreviation MIDI_NOTEON :: int where "MIDI_NOTEON \<equiv> 144"
abbreviation MIDI_POLYAFTERTOUCH :: int where "MIDI_POLYAFTERTOUCH \<equiv> 160"
abbreviation MIDI_CONTROLCHANGE :: int where "MIDI_CONTROLCHANGE \<equiv> 176"
abbreviation MIDI_PROGRAMCHANGE :: int where "MIDI_PROGRAMCHANGE \<equiv> 192"
abbreviation MIDI_AFTERTOUCH :: int where "MIDI_AFTERTOUCH \<equiv> 208"
abbreviation MIDI_PITCHBEND :: int where "MIDI_PITCHBEND \<equiv> 224"

text \<open>The two comparisons that keep an argument from 0 to \<open>m\<close>.\<close>

definition clip :: "int \<Rightarrow> int \<Rightarrow> int" where
  "clip m v = (if v < 0 then 0 else if v > m then m else v)"

definition outmidi_noteon :: "rat \<Rightarrow> rat \<Rightarrow> int \<Rightarrow> int \<Rightarrow> int \<Rightarrow> int \<Rightarrow> midi \<Rightarrow> midi option" where
  "outmidi_noteon lt rt portno channel pitch velo =
     sys_queuemidimess lt rt portno 0 (MIDI_NOTEON + (channel AND 0xf)) (clip 127 pitch) (clip 127 velo)"

definition outmidi_controlchange :: "rat \<Rightarrow> rat \<Rightarrow> int \<Rightarrow> int \<Rightarrow> int \<Rightarrow> int \<Rightarrow> midi \<Rightarrow> midi option" where
  "outmidi_controlchange lt rt portno channel ctl v =
     sys_queuemidimess lt rt portno 0 (MIDI_CONTROLCHANGE + (channel AND 0xf)) (clip 127 ctl) (clip 127 v)"

definition outmidi_programchange :: "rat \<Rightarrow> rat \<Rightarrow> int \<Rightarrow> int \<Rightarrow> int \<Rightarrow> midi \<Rightarrow> midi option" where
  "outmidi_programchange lt rt portno channel v =
     sys_queuemidimess lt rt portno 0 (MIDI_PROGRAMCHANGE + (channel AND 0xf)) (clip 127 v) 0"

definition outmidi_pitchbend :: "rat \<Rightarrow> rat \<Rightarrow> int \<Rightarrow> int \<Rightarrow> int \<Rightarrow> midi \<Rightarrow> midi option" where
  "outmidi_pitchbend lt rt portno channel v =
     sys_queuemidimess lt rt portno 0 (MIDI_PITCHBEND + (channel AND 0xf)) (clip 16383 v AND 127) (drop_bit 7 (clip 16383 v) AND 127)"

definition outmidi_aftertouch :: "rat \<Rightarrow> rat \<Rightarrow> int \<Rightarrow> int \<Rightarrow> int \<Rightarrow> midi \<Rightarrow> midi option" where
  "outmidi_aftertouch lt rt portno channel v =
     sys_queuemidimess lt rt portno 0 (MIDI_AFTERTOUCH + (channel AND 0xf)) (clip 127 v) 0"

definition outmidi_polyaftertouch :: "rat \<Rightarrow> rat \<Rightarrow> int \<Rightarrow> int \<Rightarrow> int \<Rightarrow> int \<Rightarrow> midi \<Rightarrow> midi option" where
  "outmidi_polyaftertouch lt rt portno channel pitch v =
     sys_queuemidimess lt rt portno 0 (MIDI_POLYAFTERTOUCH + (channel AND 0xf)) (clip 127 pitch) (clip 127 v)"

text \<open>A single byte does not go through the queue.\<close>

definition outmidi_byte :: "int \<Rightarrow> int \<Rightarrow> midi \<Rightarrow> midi" where
  "outmidi_byte portno v M = M\<lparr>m_put := m_put M @ [Put_byte portno v]\<rparr>"

section \<open>The parser\<close>

abbreviation MIDINOTEOFF :: int where "MIDINOTEOFF \<equiv> 0x80"
abbreviation MIDINOTEON :: int where "MIDINOTEON \<equiv> 0x90"
abbreviation MIDIPOLYTOUCH :: int where "MIDIPOLYTOUCH \<equiv> 0xa0"
abbreviation MIDICONTROLCHANGE :: int where "MIDICONTROLCHANGE \<equiv> 0xb0"
abbreviation MIDIPROGRAMCHANGE :: int where "MIDIPROGRAMCHANGE \<equiv> 0xc0"
abbreviation MIDICHANNELTOUCH :: int where "MIDICHANNELTOUCH \<equiv> 0xd0"
abbreviation MIDIPITCHBEND :: int where "MIDIPITCHBEND \<equiv> 0xe0"
abbreviation MIDISTARTSYSEX :: int where "MIDISTARTSYSEX \<equiv> 0xf0"
abbreviation MIDIRESERVED1 :: int where "MIDIRESERVED1 \<equiv> 0xf4"
abbreviation MIDIRESERVED2 :: int where "MIDIRESERVED2 \<equiv> 0xf5"
abbreviation MIDITUNEREQUEST :: int where "MIDITUNEREQUEST \<equiv> 0xf6"
abbreviation MIDIENDSYSEX :: int where "MIDIENDSYSEX \<equiv> 0xf7"

text \<open>A message with two data bytes waits for the second.\<close>

definition two_bytes :: "midi_call \<Rightarrow> int \<Rightarrow> midiparser \<Rightarrow> midi_call list \<times> midiparser" where
  "two_bytes call byte p =
     (if mp_gotbyte1 p \<noteq> 0 then ([call], p\<lparr>mp_gotbyte1 := 0\<rparr>)
      else ([], p\<lparr>mp_byte1 := byte, mp_gotbyte1 := 1\<rparr>))"

definition data_byte :: "int \<Rightarrow> int \<Rightarrow> midiparser \<Rightarrow> midi_call list \<times> midiparser" where
  "data_byte portno byte p =
     (let cmd = (if mp_status p \<ge> 0xf0 then mp_status p else mp_status p AND 0xf0);
          chan = mp_status p AND 0xf; byte1 = mp_byte1 p in
      if cmd = MIDINOTEOFF then two_bytes (In_noteon portno chan byte1 0) byte p
      else if cmd = MIDINOTEON then two_bytes (In_noteon portno chan byte1 byte) byte p
      else if cmd = MIDIPOLYTOUCH then two_bytes (In_polyaftertouch portno chan byte1 byte) byte p
      else if cmd = MIDICONTROLCHANGE then two_bytes (In_controlchange portno chan byte1 byte) byte p
      else if cmd = MIDIPROGRAMCHANGE then ([In_programchange portno chan byte], p)
      else if cmd = MIDICHANNELTOUCH then ([In_aftertouch portno chan byte], p)
      else if cmd = MIDIPITCHBEND then two_bytes (In_pitchbend portno chan (push_bit 7 byte + byte1)) byte p
      else if cmd = MIDISTARTSYSEX then ([In_sysex portno byte], p)
      else ([], p))"

definition status_byte :: "int \<Rightarrow> int \<Rightarrow> midiparser \<Rightarrow> midi_call list \<times> midiparser" where
  "status_byte portno byte p =
     (if byte = MIDITUNEREQUEST \<or> byte = MIDIRESERVED1 \<or> byte = MIDIRESERVED2 then ([], p\<lparr>mp_status := 0, mp_gotbyte1 := 0\<rparr>)
      else if byte = MIDISTARTSYSEX then ([In_sysex portno byte], p\<lparr>mp_status := byte, mp_gotbyte1 := 0\<rparr>)
      else if byte = MIDIENDSYSEX then ([In_sysex portno byte], p\<lparr>mp_status := 0, mp_gotbyte1 := 0\<rparr>)
      else ([], p\<lparr>mp_status := byte, mp_gotbyte1 := 0\<rparr>))"

definition parse_byte :: "int \<Rightarrow> int \<Rightarrow> midiparser \<Rightarrow> midi_call list \<times> midiparser" where
  "parse_byte portno byte p =
     (if byte \<ge> 0xf8 then ([In_realtime portno byte], p)
      else
        let (calls, p') = (if byte AND 0x80 \<noteq> 0 then status_byte portno byte p else data_byte portno byte p) in
        (In_byte portno byte # calls, p'))"

section \<open>The input queue\<close>

text \<open>A port that is out of range is reported, and the array of parsers indexed with it.\<close>

definition sys_dispatchnextmidiin :: "midi \<Rightarrow> midi option" where
  "sys_dispatchnextmidiin M =
     (if \<not> midi_intail M < MIDIQSIZE then None
      else
        let q = midi_inqueue M (midi_intail M); portno = q_portno q; byte = q_byte1 q;
            M1 = (if q_onebyte q = 0 then M\<lparr>m_posts := m_posts M @ [''sys_dispatchnextmidiin'']\<rparr> else M) in
        if portno < 0 \<or> int MAXMIDIINDEV \<le> portno then None
        else
          let (calls, p) = parse_byte portno byte (midi_parsers M1 (nat portno)) in
          Some (M1\<lparr>midi_parsers := (midi_parsers M1)(nat portno := p), m_calls := m_calls M1 @ calls,
                   midi_intail := (if midi_intail M1 + 1 = MIDIQSIZE then 0 else midi_intail M1 + 1)\<rparr>))"

partial_function (option) in_loop :: "rat \<Rightarrow> midi \<Rightarrow> midi option" where
  "in_loop logicaltime M =
     (if midi_inhead M \<noteq> midi_intail M then
        (if \<not> midi_intail M < MIDIQSIZE then None
         else if q_time (midi_inqueue M (midi_intail M)) \<le> logicaltime then
           Option.bind (sys_dispatchnextmidiin M) (in_loop logicaltime)
         else Some M)
      else Some M)"

definition sys_pollmidiinqueue :: "rat \<Rightarrow> midi \<Rightarrow> midi option" where
  "sys_pollmidiinqueue lt M = in_loop lt M"

text \<open>The warning is posted once.\<close>

definition fifo_warning :: string where
  "fifo_warning = ''warning: MIDI timing FIFO overflowed''"

definition sys_midibytein :: "rat \<Rightarrow> rat \<Rightarrow> int \<Rightarrow> int \<Rightarrow> midi \<Rightarrow> midi option" where
  "sys_midibytein lt rt portno byte M =
     (let newhead = (if midi_inhead M + 1 = MIDIQSIZE then 0 else midi_inhead M + 1) in
      Option.bind
        (if newhead = midi_intail M then
           sys_dispatchnextmidiin (if fifo_warning \<in> set (m_posts M) then M else M\<lparr>m_posts := m_posts M @ [fifo_warning]\<rparr>)
         else Some M)
        (\<lambda>M1.
          if midi_inhead M1 < MIDIQSIZE then
            sys_pollmidiinqueue lt
              (M1\<lparr>midi_inqueue := (midi_inqueue M1)(midi_inhead M1 := (midi_inqueue M1 (midi_inhead M1))
                    \<lparr>q_time := sys_getmidiinrealtime rt M1, q_portno := portno, q_onebyte := 1, q_byte1 := uchar byte\<rparr>),
                 midi_inhead := newhead\<rparr>)
          else None))"

text \<open>The poll of the driver, which gives the bytes that came in to \<open>sys_midibytein\<close>, is the parameter \<open>poll\<close>.\<close>

definition sys_pollmidiqueue :: "(midi \<Rightarrow> midi option) \<Rightarrow> rat \<Rightarrow> rat \<Rightarrow> midi \<Rightarrow> midi option" where
  "sys_pollmidiqueue poll lt rt M =
     Option.bind (poll M) (\<lambda>M1. Option.bind (sys_pollmidioutqueue rt M1) (sys_pollmidiinqueue lt))"

end
