(* ===== verification/MidiObj.thy ===== *)
theory MidiObj
  imports Midi
begin

text \<open>
  The MIDI objects of \<open>src/pd/src/x_midi.c\<close> that receive and send MIDI, and the drivers of \<open>src/pd/src/s_midi_oss.c\<close> and
  \<open>src/pd/src/s_midi_pm.c\<close>. An input object answers a list with the floats it sends out, in their order, with the number
  of the outlet; an outlet that was not created is a null pointer, on which \<open>outlet_float\<close> is undefined.
\<close>

section \<open>Messages to the input objects\<close>

definition channel_arg :: "int \<Rightarrow> int \<Rightarrow> atom" where
  "channel_arg portno channel = A_FLOAT (float_of_int (int_cast (channel + push_bit 4 portno + 1)))"

text \<open>The symbol to whose bindings the list is sent, and the list.\<close>

definition inmidi_byte :: "int \<Rightarrow> int \<Rightarrow> symbol \<times> atom list" where
  "inmidi_byte portno byte = (''#midiin'', [A_FLOAT (float_of_int byte), A_FLOAT (float_of_int portno)])"

definition inmidi_sysex :: "int \<Rightarrow> int \<Rightarrow> symbol \<times> atom list" where
  "inmidi_sysex portno byte = (''#sysexin'', [A_FLOAT (float_of_int byte), A_FLOAT (float_of_int portno)])"

definition inmidi_noteon :: "int \<Rightarrow> int \<Rightarrow> int \<Rightarrow> int \<Rightarrow> symbol \<times> atom list" where
  "inmidi_noteon portno channel pitch velo =
     (''#notein'', [A_FLOAT (float_of_int pitch), A_FLOAT (float_of_int velo), channel_arg portno channel])"

definition inmidi_controlchange :: "int \<Rightarrow> int \<Rightarrow> int \<Rightarrow> int \<Rightarrow> symbol \<times> atom list" where
  "inmidi_controlchange portno channel ctlnumber v =
     (''#ctlin'', [A_FLOAT (float_of_int ctlnumber), A_FLOAT (float_of_int v), channel_arg portno channel])"

definition inmidi_programchange :: "int \<Rightarrow> int \<Rightarrow> int \<Rightarrow> symbol \<times> atom list" where
  "inmidi_programchange portno channel v = (''#pgmin'', [A_FLOAT (float_of_int (v + 1)), channel_arg portno channel])"

definition inmidi_pitchbend :: "int \<Rightarrow> int \<Rightarrow> int \<Rightarrow> symbol \<times> atom list" where
  "inmidi_pitchbend portno channel v = (''#bendin'', [A_FLOAT (float_of_int v), channel_arg portno channel])"

definition inmidi_aftertouch :: "int \<Rightarrow> int \<Rightarrow> int \<Rightarrow> symbol \<times> atom list" where
  "inmidi_aftertouch portno channel v = (''#touchin'', [A_FLOAT (float_of_int v), channel_arg portno channel])"

definition inmidi_polyaftertouch :: "int \<Rightarrow> int \<Rightarrow> int \<Rightarrow> int \<Rightarrow> symbol \<times> atom list" where
  "inmidi_polyaftertouch portno channel pitch v =
     (''#polytouchin'', [A_FLOAT (float_of_int pitch), A_FLOAT (float_of_int v), channel_arg portno channel])"

definition inmidi_realtimein :: "int \<Rightarrow> int \<Rightarrow> symbol \<times> atom list" where
  "inmidi_realtimein portno msg = (''#midirealtimein'', [A_FLOAT (float_of_int portno), A_FLOAT (float_of_int msg)])"

lemmas inmidi_defs = inmidi_byte_def inmidi_sysex_def inmidi_noteon_def inmidi_controlchange_def inmidi_programchange_def
  inmidi_pitchbend_def inmidi_aftertouch_def inmidi_polyaftertouch_def inmidi_realtimein_def

declare inmidi_defs [simp]

fun inmidi :: "midi_call \<Rightarrow> symbol \<times> atom list" where
  "inmidi (In_byte portno byte) = inmidi_byte portno byte"
| "inmidi (In_sysex portno byte) = inmidi_sysex portno byte"
| "inmidi (In_noteon portno channel pitch velo) = inmidi_noteon portno channel pitch velo"
| "inmidi (In_controlchange portno channel ctlnumber v) = inmidi_controlchange portno channel ctlnumber v"
| "inmidi (In_programchange portno channel v) = inmidi_programchange portno channel v"
| "inmidi (In_pitchbend portno channel v) = inmidi_pitchbend portno channel v"
| "inmidi (In_aftertouch portno channel v) = inmidi_aftertouch portno channel v"
| "inmidi (In_polyaftertouch portno channel pitch v) = inmidi_polyaftertouch portno channel pitch v"
| "inmidi (In_realtime portno msg) = inmidi_realtimein portno msg"

section \<open>Input objects\<close>

type_synonym outputs = "(nat \<times> t_float) list"

definition midiin_list :: "atom list \<Rightarrow> outputs" where
  "midiin_list av = [(2, fadd (atom_getfloatarg 1 av) (FFin 1)), (1, atom_getfloatarg 0 av)]"

definition midirealtimein_list :: "atom list \<Rightarrow> outputs" where
  "midirealtimein_list av = [(2, atom_getfloatarg 0 av), (1, atom_getfloatarg 1 av)]"

text \<open>Sending out of outlet \<open>i\<close>, if it was created.\<close>

definition out_if :: "bool \<Rightarrow> nat \<Rightarrow> t_float \<Rightarrow> outputs option" where
  "out_if created i f = (if created then Some [(i, f)] else None)"

definition then_out :: "outputs option \<Rightarrow> outputs \<Rightarrow> outputs option" where
  "then_out r fs = map_option (\<lambda>l. l @ fs) r"

record notein =
  x_channel :: t_float
  has_outlet3 :: bool

definition notein_new :: "t_float \<Rightarrow> notein" where
  "notein_new f = \<lparr>x_channel = f, has_outlet3 = feq f (FFin 0)\<rparr>"

definition notein_list :: "notein \<Rightarrow> atom list \<Rightarrow> outputs option" where
  "notein_list x argv =
     (let pitch = atom_getfloatarg 0 argv; velo = atom_getfloatarg 1 argv; channel = atom_getfloatarg 2 argv in
      if \<not> feq (x_channel x) (FFin 0) then
        (if \<not> feq channel (x_channel x) then Some [] else Some [(2, velo), (1, pitch)])
      else then_out (out_if (has_outlet3 x) 3 channel) [(2, velo), (1, pitch)])"

record ctlin =
  c_channel :: t_float
  c_ctlno :: t_float
  has_ctlout :: bool
  has_chanout :: bool

definition ctlin_new :: "atom list \<Rightarrow> ctlin" where
  "ctlin_new argv =
     (let ctlno = (if argv = [] then -1 else int_of_float (atom_getfloatarg 0 argv));
          channel = int_of_float (atom_getfloatarg 1 argv) in
      \<lparr>c_channel = float_of_int channel, c_ctlno = float_of_int ctlno,
       has_ctlout = (channel = 0 \<and> flt (float_of_int ctlno) (FFin 0)), has_chanout = (channel = 0)\<rparr>)"

definition ctlin_list :: "ctlin \<Rightarrow> atom list \<Rightarrow> outputs option" where
  "ctlin_list x argv =
     (let ctlnumber = atom_getfloatarg 0 argv; v = atom_getfloatarg 1 argv; channel = atom_getfloatarg 2 argv in
      if (flt (FFin 0) (c_ctlno x) \<or> feq (c_ctlno x) (FFin 0)) \<and> \<not> feq (c_ctlno x) ctlnumber then Some []
      else if flt (FFin 0) (c_channel x) \<and> \<not> feq (c_channel x) channel then Some []
      else
        Option.bind (if feq (c_channel x) (FFin 0) then out_if (has_chanout x) 3 channel else Some []) (\<lambda>o1.
        Option.bind (if flt (c_ctlno x) (FFin 0) then out_if (has_ctlout x) 2 ctlnumber else Some []) (\<lambda>o2.
        Some (o1 @ o2 @ [(1, v)]))))"

record chanin =
  i_channel :: t_float
  i_offs :: t_float
  has_outlet2 :: bool

text \<open>pgmin, bendin and touchin, which differ in the offset of bendin only.\<close>

definition chanin_list :: "(t_float \<Rightarrow> t_float) \<Rightarrow> chanin \<Rightarrow> atom list \<Rightarrow> outputs option" where
  "chanin_list offs x argv =
     (let v = atom_getfloatarg 0 argv; channel = atom_getfloatarg 1 argv in
      if \<not> feq (i_channel x) (FFin 0) then
        (if \<not> feq channel (i_channel x) then Some [] else Some [(1, offs v)])
      else then_out (out_if (has_outlet2 x) 2 channel) [(1, offs v)])"

definition pgmin_new :: "t_float \<Rightarrow> chanin" where
  "pgmin_new f = \<lparr>i_channel = f, i_offs = FFin 0, has_outlet2 = feq f (FFin 0)\<rparr>"

definition pgmin_list :: "chanin \<Rightarrow> atom list \<Rightarrow> outputs option" where
  "pgmin_list = chanin_list (\<lambda>v. v)"

definition touchin_new :: "t_float \<Rightarrow> chanin" where
  "touchin_new f = \<lparr>i_channel = f, i_offs = FFin 0, has_outlet2 = feq f (FFin 0)\<rparr>"

definition touchin_list :: "chanin \<Rightarrow> atom list \<Rightarrow> outputs option" where
  "touchin_list = chanin_list (\<lambda>v. v)"

text \<open>\<open>legacy\<close> is \<open>sys_legacy_bendin\<close>.\<close>

definition bendin_new :: "int \<Rightarrow> atom list \<Rightarrow> chanin" where
  "bendin_new legacy argv =
     (let f = atom_getfloatarg 0 argv;
          g = (if length argv > 1 then atom_getfloatarg 1 argv else float_of_int legacy) in
      \<lparr>i_channel = f, i_offs = (if feq g (FFin 0) then FFin (-8192) else FFin 0), has_outlet2 = feq f (FFin 0)\<rparr>)"

definition bendin_list :: "chanin \<Rightarrow> atom list \<Rightarrow> outputs option" where
  "bendin_list x = chanin_list (\<lambda>v. fadd v (i_offs x)) x"

definition polytouchin_new :: "t_float \<Rightarrow> notein" where
  "polytouchin_new f = \<lparr>x_channel = f, has_outlet3 = feq f (FFin 0)\<rparr>"

definition polytouchin_list :: "notein \<Rightarrow> atom list \<Rightarrow> outputs option" where
  "polytouchin_list x argv =
     (let pitch = atom_getfloatarg 0 argv; v = atom_getfloatarg 1 argv; channel = atom_getfloatarg 2 argv in
      if \<not> feq (x_channel x) (FFin 0) then
        (if \<not> feq channel (x_channel x) then Some [] else Some [(2, pitch), (1, v)])
      else then_out (out_if (has_outlet3 x) 3 channel) [(2, pitch), (1, v)])"

section \<open>Output objects\<close>

text \<open>The channel of an output object, made from its float: at least 1, unless an inlet sets it lower.\<close>

definition out_channel :: "t_float \<Rightarrow> t_float" where
  "out_channel channel = (if flt (FFin 0) channel \<or> channel = FNaN then channel else FFin 1)"

definition noteout_channel :: "t_float \<Rightarrow> t_float" where
  "noteout_channel channel = (if flt channel (FFin 1) then FFin 1 else channel)"

definition binchan :: "t_float \<Rightarrow> int" where
  "binchan channel = (let n = int_of_float (fadd channel (FFin (-1))) in if n < 0 then 0 else n)"

record outobj =
  o_arg :: t_float
  o_channel :: t_float

text \<open>\<open>o_arg\<close> is the value of the second inlet: the velocity, the controller number or the pitch.\<close>

definition noteout_new :: "t_float \<Rightarrow> outobj" where
  "noteout_new channel = \<lparr>o_arg = FFin 0, o_channel = noteout_channel channel\<rparr>"

definition noteout_float :: "rat \<Rightarrow> rat \<Rightarrow> outobj \<Rightarrow> t_float \<Rightarrow> midi \<Rightarrow> midi option" where
  "noteout_float lt rt x f M =
     (let b = binchan (o_channel x) in
      outmidi_noteon lt rt (drop_bit 4 b) (b AND 15) (int_of_float f) (int_of_float (o_arg x)) M)"

definition ctlout_new :: "t_float \<Rightarrow> t_float \<Rightarrow> outobj" where
  "ctlout_new ctl channel = \<lparr>o_arg = ctl, o_channel = out_channel channel\<rparr>"

definition ctlout_float :: "rat \<Rightarrow> rat \<Rightarrow> outobj \<Rightarrow> t_float \<Rightarrow> midi \<Rightarrow> midi option" where
  "ctlout_float lt rt x f M =
     (let b = binchan (o_channel x) in
      outmidi_controlchange lt rt (drop_bit 4 b) (b AND 15) (int_of_float (o_arg x)) (int_of_float f) M)"

definition pgmout_new :: "t_float \<Rightarrow> outobj" where
  "pgmout_new channel = \<lparr>o_arg = FFin 0, o_channel = out_channel channel\<rparr>"

definition pgmout_float :: "rat \<Rightarrow> rat \<Rightarrow> outobj \<Rightarrow> t_float \<Rightarrow> midi \<Rightarrow> midi option" where
  "pgmout_float lt rt x f M =
     (let b = binchan (o_channel x); n = int_of_float (fadd f (FFin (-1))) in
      outmidi_programchange lt rt (drop_bit 4 b) (b AND 15) (clip 127 n) M)"

definition bendout_new :: "t_float \<Rightarrow> outobj" where
  "bendout_new channel = \<lparr>o_arg = FFin 0, o_channel = out_channel channel\<rparr>"

definition bendout_float :: "rat \<Rightarrow> rat \<Rightarrow> outobj \<Rightarrow> t_float \<Rightarrow> midi \<Rightarrow> midi option" where
  "bendout_float lt rt x f M =
     (let b = binchan (o_channel x); n = int_cast (int_of_float f + 8192) in
      outmidi_pitchbend lt rt (drop_bit 4 b) (b AND 15) n M)"

definition touchout_new :: "t_float \<Rightarrow> outobj" where
  "touchout_new channel = \<lparr>o_arg = FFin 0, o_channel = out_channel channel\<rparr>"

definition touchout_float :: "rat \<Rightarrow> rat \<Rightarrow> outobj \<Rightarrow> t_float \<Rightarrow> midi \<Rightarrow> midi option" where
  "touchout_float lt rt x f M =
     (let b = binchan (o_channel x) in outmidi_aftertouch lt rt (drop_bit 4 b) (b AND 15) (int_of_float f) M)"

definition polytouchout_new :: "t_float \<Rightarrow> outobj" where
  "polytouchout_new channel = \<lparr>o_arg = FFin 0, o_channel = out_channel channel\<rparr>"

definition polytouchout_float :: "rat \<Rightarrow> rat \<Rightarrow> outobj \<Rightarrow> t_float \<Rightarrow> midi \<Rightarrow> midi option" where
  "polytouchout_float lt rt x f M =
     (let b = binchan (o_channel x) in
      outmidi_polyaftertouch lt rt (drop_bit 4 b) (b AND 15) (int_of_float (o_arg x)) (int_of_float f) M)"

definition midiout_new :: "t_float \<Rightarrow> t_float" where
  "midiout_new portno = out_channel portno"

definition midiout_float :: "t_float \<Rightarrow> t_float \<Rightarrow> midi \<Rightarrow> midi" where
  "midiout_float x_portno f M = outmidi_byte (int_of_float (fadd x_portno (FFin (-1)))) (int_of_float f) M"

fun midiout_list :: "t_float \<Rightarrow> atom list \<Rightarrow> midi \<Rightarrow> midi" where
  "midiout_list x_portno [] M = M"
| "midiout_list x_portno (a # av) M =
     midiout_list x_portno av (case a of A_FLOAT f \<Rightarrow> midiout_float x_portno f M | _ \<Rightarrow> M)"

section \<open>The driver for OSS\<close>

definition md_msglen :: "int \<Rightarrow> nat" where
  "md_msglen x = (if x < 0xc0 then 2 else if x < 0xe0 then 1 else if x < 0xf0 then 2
     else if x = 0xf2 then 2 else if x < 0xf4 then 1 else 0)"

text \<open>The bytes written, with the port; \<open>n\<close> is \<open>oss_nmidiout\<close>. That a device is unplugged is left out.\<close>

fun oss_put :: "int \<Rightarrow> midi_put \<Rightarrow> (int \<times> int) list" where
  "oss_put n (Put_mess portno a b c) =
     (if portno \<ge> 0 \<and> portno < n then
        (if md_msglen a = 2 then [(portno, uchar a), (portno, uchar b), (portno, uchar c)]
         else if md_msglen a = 1 then [(portno, uchar a), (portno, uchar b)]
         else [(portno, uchar a)])
      else [])"
| "oss_put n (Put_byte portno byte) = (if portno \<ge> 0 \<and> portno < n then [(portno, uchar byte)] else [])"

section \<open>The driver for PortMidi\<close>

text \<open>
  PortMidi takes and gives events of four bytes. The bytes written are put together into events; \<open>pm_written\<close> are those
  written, with the port. The array of streams has \<open>MAXMIDIOUTDEV\<close> elements, and its index is not checked.
\<close>

abbreviation MAXMIDIOUTDEV :: int where "MAXMIDIOUTDEV \<equiv> 16"

type_synonym pm_event = "int \<times> int \<times> int \<times> int"

record pm_out =
  pm_mess :: "nat \<Rightarrow> int"
  pm_nbytes :: nat
  pm_sysex :: bool
  pm_written :: "(int \<times> pm_event) list"

definition writemidi4 :: "int \<Rightarrow> int \<Rightarrow> int \<Rightarrow> int \<Rightarrow> int \<Rightarrow> pm_out \<Rightarrow> pm_out option" where
  "writemidi4 portno a b c d x =
     (if 0 \<le> portno \<and> portno < MAXMIDIOUTDEV then
        Some (x\<lparr>pm_written := pm_written x @ [(portno, uchar a, uchar b, uchar c, uchar d)]\<rparr>)
      else None)"

definition pm_putmidimess :: "int \<Rightarrow> int \<Rightarrow> int \<Rightarrow> int \<Rightarrow> int \<Rightarrow> pm_out \<Rightarrow> pm_out option" where
  "pm_putmidimess ndev portno a b c x =
     (if portno \<ge> 0 \<and> portno < ndev then
        (if portno < MAXMIDIOUTDEV then Some (x\<lparr>pm_written := pm_written x @ [(portno, uchar a, uchar b, uchar c, 0)]\<rparr>) else None)
      else Some x)"

definition pm_putmidibyte :: "int \<Rightarrow> int \<Rightarrow> pm_out \<Rightarrow> pm_out option" where
  "pm_putmidibyte portno byte x =
     (let mess = pm_mess x; nbytes = pm_nbytes x in
      if byte \<ge> 0xf8 then writemidi4 portno byte 0 0 0 x
      else if byte = 0xf0 then Some (x\<lparr>pm_mess := mess(0 := 0xf0), pm_nbytes := 1, pm_sysex := True\<rparr>)
      else if byte = 0xf7 then
        (if nbytes < 4 then
           (let m = (\<lambda>i. if i = nbytes then byte else if nbytes < i then 0 else mess i) in
            map_option (\<lambda>x. x\<lparr>pm_mess := m, pm_sysex := False, pm_nbytes := 0\<rparr>) (writemidi4 portno (m 0) (m 1) (m 2) (m 3) x))
         else None)
      else if byte \<ge> 0x80 then
        (if byte = 0xf4 \<or> byte = 0xf5 \<or> byte = 0xf6 then
           map_option (\<lambda>x. x\<lparr>pm_nbytes := 0\<rparr>) (writemidi4 portno byte 0 0 0 (x\<lparr>pm_sysex := False\<rparr>))
         else Some (x\<lparr>pm_sysex := False, pm_mess := mess(0 := byte), pm_nbytes := 1\<rparr>))
      else if pm_sysex x then
        (if nbytes < 4 then
           (let m = mess(nbytes := byte) in
            if nbytes + 1 = 4 then
              map_option (\<lambda>x. x\<lparr>pm_mess := m, pm_nbytes := 0\<rparr>) (writemidi4 portno (m 0) (m 1) (m 2) (m 3) x)
            else Some (x\<lparr>pm_mess := m, pm_nbytes := nbytes + 1\<rparr>))
         else None)
      else if nbytes \<noteq> 0 then
        (let status = (if mess 0 < 0xf0 then mess 0 AND 0xf0 else mess 0); rest = (if status < 0xf0 then 1 else 0) in
         if status = 0xc0 \<or> status = 0xd0 \<or> status = 0xf1 \<or> status = 0xf3 then
           map_option (\<lambda>x. x\<lparr>pm_nbytes := rest\<rparr>) (writemidi4 portno (mess 0) byte 0 0 x)
         else if nbytes = 1 then Some (x\<lparr>pm_mess := mess(1 := byte), pm_nbytes := 2\<rparr>)
         else map_option (\<lambda>x. x\<lparr>pm_nbytes := rest\<rparr>) (writemidi4 portno (mess 0) (mess 1) byte 0 x))
      else Some x)"

text \<open>The bytes of a word of system exclusive data, up to its end; the flag is \<open>nd_sysex_mode\<close>.\<close>

fun nd_sysex_inword :: "int list \<Rightarrow> bool \<Rightarrow> int list \<times> bool" where
  "nd_sysex_inword [] sysex = ([], sysex)"
| "nd_sysex_inword (b # bs) sysex =
     (if sysex then (let (r, s) = nd_sysex_inword bs (b \<noteq> 0xf7) in (b # r, s)) else nd_sysex_inword bs sysex)"

text \<open>The bytes an event that was read passes to \<open>sys_midibytein\<close>.\<close>

definition pm_event_in :: "pm_event \<Rightarrow> bool \<Rightarrow> int list \<times> bool" where
  "pm_event_in ev sysex =
     (let (status, data1, data2, data3) = ev; msgtype = drop_bit 4 status - 8 in
      if msgtype \<in> {0, 1, 2, 3, 6} then ([status, data1, data2], sysex)
      else if msgtype \<in> {4, 5} then ([status, data1], sysex)
      else if msgtype = 7 then nd_sysex_inword [status, data1, data2, data3] True
      else if sysex then nd_sysex_inword [status, data1, data2, data3] sysex
      else ([], sysex))"

fun pm_events_in :: "pm_event list \<Rightarrow> bool \<Rightarrow> int list \<times> bool" where
  "pm_events_in [] sysex = ([], sysex)"
| "pm_events_in (e # es) sysex = (let (b, s) = pm_event_in e sysex; (bs, s') = pm_events_in es s in (b @ bs, s'))"

end
