(* ===== verification/MidiSpec.thy ===== *)
theory MidiSpec
  imports MidiObj
begin

text \<open>
  MIDI: both queues are bounded queues that lose and reorder nothing (locale \<open>timed_fifo\<close>); the parser recovers the
  messages of a stream of bytes with running status and real-time bytes in between; what the output objects send arrives at
  the input objects.
\<close>

section \<open>Queues that are emptied when the time has come\<close>

text \<open>
  \<open>pending\<close> are the elements of the queue, \<open>consume\<close> what taking one out does to the \<open>result\<close>; \<open>room\<close> takes one out when
  the queue holds \<open>cap\<close> elements.
\<close>

locale timed_fifo =
  fixes ok :: "'s \<Rightarrow> bool" and pending :: "'s \<Rightarrow> 'a list" and result :: "'s \<Rightarrow> 'r" and tm :: "'a \<Rightarrow> rat"
    and legal :: "'a \<Rightarrow> bool" and consume :: "'a \<Rightarrow> 'r \<Rightarrow> 'r" and step :: "'s \<Rightarrow> 's option" and room :: "'s \<Rightarrow> 's option"
    and loop :: "rat \<Rightarrow> 's \<Rightarrow> 's option" and store :: "'a \<Rightarrow> 's \<Rightarrow> 's" and cap :: nat
  assumes bounded: "ok s \<Longrightarrow> length (pending s) \<le> cap"
    and cap_pos: "0 < cap"
    and step_ok: "ok s \<Longrightarrow> pending s = q # l \<Longrightarrow>
      \<exists>s'. step s = Some s' \<and> ok s' \<and> pending s' = l \<and> result s' = consume q (result s)"
    and room_ok: "ok s \<Longrightarrow> pending s = q # l \<Longrightarrow> length (pending s) = cap \<Longrightarrow>
      \<exists>s'. room s = Some s' \<and> ok s' \<and> pending s' = l \<and> result s' = consume q (result s)"
    and loop_eq: "ok s \<Longrightarrow> loop t s =
      (case pending s of [] \<Rightarrow> Some s | q # l \<Rightarrow> if tm q \<le> t then Option.bind (step s) (loop t) else Some s)"
    and store_ok: "ok s \<Longrightarrow> length (pending s) < cap \<Longrightarrow> legal e \<Longrightarrow>
      ok (store e s) \<and> pending (store e s) = pending s @ [e] \<and> result (store e s) = result s"
begin

text \<open>Between two states \<open>new\<close> was put into the queue, and the elements taken out were handled in order.\<close>

definition moved :: "'s \<Rightarrow> 's \<Rightarrow> 'a list \<Rightarrow> bool" where
  "moved s s' new \<longleftrightarrow> ok s' \<and> (\<exists>handled. handled @ pending s' = pending s @ new \<and> result s' = fold consume handled (result s))"

lemma moved_trans: "moved s s1 xs \<Longrightarrow> moved s1 s2 ys \<Longrightarrow> moved s s2 (xs @ ys)"
  unfolding moved_def by (metis append.assoc fold_append o_apply)

lemma moved_ok: "moved s s' new \<Longrightarrow> ok s'"
  by (simp add: moved_def)

lemma loop_ok:
  "ok s \<Longrightarrow> \<exists>s'. loop t s = Some s' \<and> ok s' \<and> pending s' = dropWhile (\<lambda>q. tm q \<le> t) (pending s) \<and>
    result s' = fold consume (takeWhile (\<lambda>q. tm q \<le> t) (pending s)) (result s)"
proof (induction "pending s" arbitrary: s)
  case Nil
  then show ?case using loop_eq [OF Nil.prems, of t] by (simp flip: Nil.hyps)
next
  case (Cons q l)
  note p = Cons.hyps(2) [symmetric]
  show ?case
  proof (cases "tm q \<le> t")
    case True
    from step_ok [OF Cons.prems p] obtain s1 where
      s1: "step s = Some s1" "ok s1" "pending s1 = l" "result s1 = consume q (result s)" by blast
    from Cons.hyps(1) [of s1] s1 obtain s' where "loop t s1 = Some s'" "ok s'" "pending s' = dropWhile (\<lambda>q. tm q \<le> t) l"
      "result s' = fold consume (takeWhile (\<lambda>q. tm q \<le> t) l) (result s1)" by metis
    with True s1 show ?thesis using loop_eq [OF Cons.prems, of t] by (simp add: p)
  qed (use loop_eq [OF Cons.prems, of t] Cons.prems in \<open>simp add: p\<close>)
qed

lemma loop_moved: "ok s \<Longrightarrow> \<exists>s'. loop t s = Some s' \<and> moved s s' []"
  using loop_ok [of s t] unfolding moved_def by (metis append_Nil2 takeWhile_dropWhile_id)

lemma enqueue_moved:
  assumes "ok s" "legal e"
  shows "\<exists>s1 s'. (if length (pending s) = cap then room s else Some s) = Some s1 \<and> loop t (store e s1) = Some s' \<and> moved s s' [e]"
proof -
  have "\<exists>s1. (if length (pending s) = cap then room s else Some s) = Some s1 \<and> moved s s1 [] \<and> length (pending s1) < cap"
  proof (cases "length (pending s) = cap")
    case True
    then obtain q l where p: "pending s = q # l" using cap_pos by (cases "pending s") auto
    with room_ok [OF assms(1) p True] True show ?thesis unfolding moved_def by (force intro: exI [of _ "[q]"])
  next
    case False
    with bounded [OF assms(1)] assms(1) show ?thesis by (auto simp: moved_def)
  qed
  then obtain s1 where s1: "(if length (pending s) = cap then room s else Some s) = Some s1" "moved s s1 []" "length (pending s1) < cap"
    by blast
  note st = store_ok [OF moved_ok [OF s1(2)] s1(3) assms(2)]
  from loop_moved obtain s' where s': "loop t (store e s1) = Some s'" "moved (store e s1) s' []" using st by blast
  have "moved s1 (store e s1) [e]" using st by (simp add: moved_def)
  from moved_trans [OF moved_trans [OF s1(2) this] s'(2)] s1(1) s'(1) show ?thesis by auto
qed

end

section \<open>Ring buffers\<close>

definition step_index :: "nat \<Rightarrow> nat" where
  "step_index i = (if i + 1 = MIDIQSIZE then 0 else i + 1)"

definition ring_of :: "(nat \<Rightarrow> 'a) \<Rightarrow> nat \<Rightarrow> nat \<Rightarrow> 'a list" where
  "ring_of f i j = map (\<lambda>k. f ((i + k) mod MIDIQSIZE)) [0..<(j + MIDIQSIZE - i) mod MIDIQSIZE]"

lemma step_index_mod: "i < MIDIQSIZE \<Longrightarrow> step_index i = Suc i mod MIDIQSIZE"
  by (auto simp: step_index_def mod_Suc)

lemma step_index_less [simp]: "i < MIDIQSIZE \<Longrightarrow> step_index i < MIDIQSIZE"
  by (simp add: step_index_def)

lemma ring_of_length: "length (ring_of f i j) = (j + MIDIQSIZE - i) mod MIDIQSIZE"
  by (simp add: ring_of_def)

lemma ring_of_nth: "k < length (ring_of f i j) \<Longrightarrow> ring_of f i j ! k = f ((i + k) mod MIDIQSIZE)"
  by (simp add: ring_of_def)

lemma ring_of_bounded: "length (ring_of f i j) \<le> 1023"
  using mod_less_divisor [of MIDIQSIZE "j + MIDIQSIZE - i"] by (simp add: ring_of_length)

lemma dist_eq: "i < MIDIQSIZE \<Longrightarrow> j < MIDIQSIZE \<Longrightarrow> (j + MIDIQSIZE - i) mod MIDIQSIZE = (if i \<le> j then j - i else j + MIDIQSIZE - i)"
  by (auto simp: mod_if)

lemma ring_of_empty: "i < MIDIQSIZE \<Longrightarrow> j < MIDIQSIZE \<Longrightarrow> ring_of f i j = [] \<longleftrightarrow> i = j"
  unfolding length_0_conv [symmetric] ring_of_length by (auto simp: dist_eq)

lemma ring_of_full: "i < MIDIQSIZE \<Longrightarrow> j < MIDIQSIZE \<Longrightarrow> length (ring_of f i j) = 1023 \<longleftrightarrow> step_index j = i"
  unfolding ring_of_length by (auto simp: dist_eq step_index_def)

lemma ring_of_Cons:
  assumes "i < MIDIQSIZE" "j < MIDIQSIZE" "i \<noteq> j"
  shows "ring_of f i j = f i # ring_of f (step_index i) j"
proof (rule nth_equalityI)
  show "length (ring_of f i j) = length (f i # ring_of f (step_index i) j)"
    using assms by (auto simp: ring_of_length dist_eq step_index_def)
  fix k
  assume k: "k < length (ring_of f i j)"
  show "ring_of f i j ! k = (f i # ring_of f (step_index i) j) ! k"
  proof (cases k)
    case 0
    with k assms show ?thesis by (simp add: ring_of_def)
  next
    case (Suc n)
    have "n < length (ring_of f (step_index i) j)" using k assms Suc by (auto simp: ring_of_length dist_eq step_index_def split: if_splits)
    moreover have "(step_index i + n) mod MIDIQSIZE = (i + Suc n) mod MIDIQSIZE"
      using assms(1) by (simp add: step_index_mod mod_simps)
    ultimately show ?thesis using k Suc by (simp add: ring_of_nth)
  qed
qed

lemma ring_of_snoc:
  assumes "i < MIDIQSIZE" "j < MIDIQSIZE" "length (ring_of f i j) < 1023"
  shows "ring_of (f(j := e)) i (step_index j) = ring_of f i j @ [e]"
proof (rule nth_equalityI)
  have len: "length (ring_of (f(j := e)) i (step_index j)) = Suc (length (ring_of f i j))"
    using assms by (auto simp: ring_of_length dist_eq step_index_def split: if_splits)
  then show "length (ring_of (f(j := e)) i (step_index j)) = length (ring_of f i j @ [e])" by simp
  fix k
  assume "k < length (ring_of (f(j := e)) i (step_index j))"
  with len have k: "k < Suc (length (ring_of f i j))" by simp
  have 1: "ring_of (f(j := e)) i (step_index j) ! k = (f(j := e)) ((i + k) mod MIDIQSIZE)"
    by (rule ring_of_nth) (use k len in simp)
  have 2: "(i + k) mod MIDIQSIZE = j \<longleftrightarrow> k = length (ring_of f i j)"
    using k assms by (auto simp: ring_of_length dist_eq mod_if split: if_splits)
  show "ring_of (f(j := e)) i (step_index j) ! k = (ring_of f i j @ [e]) ! k"
  proof (cases "k = length (ring_of f i j)")
    case False
    then have "k < length (ring_of f i j)" using k by simp
    with False 1 2 show ?thesis by (simp add: nth_append ring_of_nth)
  qed (use 1 2 in simp)
qed

section \<open>The output queue\<close>

definition out_ok :: "midi \<Rightarrow> bool" where
  "out_ok M \<longleftrightarrow> midi_outhead M < MIDIQSIZE \<and> midi_outtail M < MIDIQSIZE"

definition out_pending :: "midi \<Rightarrow> midiqelem list" where
  "out_pending M = ring_of (midi_outqueue M) (midi_outtail M) (midi_outhead M)"

definition out_store :: "midiqelem \<Rightarrow> midi \<Rightarrow> midi" where
  "out_store e M = M\<lparr>midi_outqueue := (midi_outqueue M)(midi_outhead M := e), midi_outhead := step_index (midi_outhead M)\<rparr>"

lemma ring_of_hd:
  assumes "i < MIDIQSIZE" "j < MIDIQSIZE" "ring_of f i j = q # l"
  shows "i \<noteq> j" "q = f i" "l = ring_of f (step_index i) j"
proof -
  show "i \<noteq> j" using ring_of_empty [OF assms(1,2), of f] assms(3) by auto
  from ring_of_Cons [OF assms(1,2) this, of f] assms(3) show "q = f i" "l = ring_of f (step_index i) j" by auto
qed

lemma sys_putnext_eq:
  "out_ok M \<Longrightarrow> sys_putnext M = Some (M\<lparr>m_put := m_put M @ [put_of (midi_outqueue M (midi_outtail M))], midi_outtail := step_index (midi_outtail M)\<rparr>)"
  by (simp add: out_ok_def sys_putnext_def step_index_def)

interpretation outq: timed_fifo out_ok out_pending m_put q_time "\<lambda>_. True" "\<lambda>q l. l @ [put_of q]" sys_putnext sys_putnext out_loop
  out_store 1023
proof
  fix M q l
  assume ok: "out_ok M" and p: "out_pending M = q # l"
  then have h: "midi_outhead M < MIDIQSIZE" "midi_outtail M < MIDIQSIZE" by (simp_all add: out_ok_def)
  note p = ring_of_hd [OF h(2,1) p [unfolded out_pending_def]]
  show "\<exists>s'. sys_putnext M = Some s' \<and> out_ok s' \<and> out_pending s' = l \<and> m_put s' = m_put M @ [put_of q]"
    unfolding sys_putnext_eq [OF ok] using h by (simp add: p(2,3) out_ok_def out_pending_def)
  then show "\<exists>s'. sys_putnext M = Some s' \<and> out_ok s' \<and> out_pending s' = l \<and> m_put s' = m_put M @ [put_of q]" .
next
  fix M t
  assume "out_ok M"
  then have h: "midi_outhead M < MIDIQSIZE" "midi_outtail M < MIDIQSIZE" by (simp_all add: out_ok_def)
  show "out_loop t M = (case out_pending M of [] \<Rightarrow> Some M
      | q # l \<Rightarrow> if q_time q \<le> t then Option.bind (sys_putnext M) (out_loop t) else Some M)"
  proof (cases "midi_outtail M = midi_outhead M")
    case False
    with ring_of_Cons [OF h(2,1), of "midi_outqueue M"] h show ?thesis by (simp add: out_pending_def out_loop.simps)
  qed (use ring_of_empty [OF h(2,1), of "midi_outqueue M"] in \<open>simp add: out_pending_def out_loop.simps\<close>)
next
  fix M e
  assume "out_ok M" "length (out_pending M) < 1023"
  then show "out_ok (out_store e M) \<and> out_pending (out_store e M) = out_pending M @ [e] \<and> m_put (out_store e M) = m_put M"
    using ring_of_snoc [of "midi_outtail M" "midi_outhead M" "midi_outqueue M" e]
    by (simp add: out_ok_def out_pending_def out_store_def)
qed (simp_all add: out_pending_def ring_of_bounded)

definition out_elem :: "rat \<Rightarrow> int \<Rightarrow> int \<Rightarrow> int \<Rightarrow> int \<Rightarrow> int \<Rightarrow> midiqelem" where
  "out_elem lt portno onebyte a b c = \<lparr>q_time = lt, q_portno = portno, q_onebyte = uchar onebyte, q_byte1 = uchar a, q_byte2 = uchar b,
     q_byte3 = uchar c\<rparr>"

lemma queue_moved:
  assumes "out_ok M"
  shows "\<exists>M'. sys_queuemidimess lt rt portno onebyte a b c M = Some M' \<and> outq.moved M M' [out_elem lt portno onebyte a b c]"
proof -
  define e where "e = out_elem lt portno onebyte a b c"
  have h: "midi_outhead M < MIDIQSIZE" "midi_outtail M < MIDIQSIZE" using assms by (simp_all add: out_ok_def)
  have full: "step_index (midi_outhead M) = midi_outtail M \<longleftrightarrow> length (out_pending M) = 1023"
    using ring_of_full [OF h(2,1), of "midi_outqueue M"] by (simp add: out_pending_def)
  from outq.enqueue_moved [OF assms TrueI] obtain M1 M' where
    1: "(if length (out_pending M) = 1023 then sys_putnext M else Some M) = Some M1"
      "out_loop (sys_getmidioutrealtime rt M) (out_store e M1) = Some M'" "outq.moved M M' [e]" by blast
  have same: "midi_outhead M1 = midi_outhead M" "dac_diff M1 = dac_diff M" using 1(1) sys_putnext_eq [OF assms] by (auto split: if_splits)
  have "sys_queuemidimess lt rt portno onebyte a b c M = Some M'"
    using 1(1,2) h(1) full unfolding sys_queuemidimess_def Let_def step_index_def [symmetric] e_def out_elem_def out_store_def
    by (simp add: same sys_pollmidioutqueue_def sys_getmidioutrealtime_def split: if_splits)
  with 1(3) show ?thesis by (simp add: e_def)
qed

section \<open>The input queue\<close>

text \<open>What the queue keeps of a byte: its time, the port, the byte.\<close>

type_synonym byte_in = "rat \<times> int \<times> int"

definition in_key :: "midiqelem \<Rightarrow> byte_in" where
  "in_key q = (q_time q, q_portno q, q_byte1 q)"

definition port_ok :: "byte_in \<Rightarrow> bool" where
  "port_ok e \<longleftrightarrow> 0 \<le> fst (snd e) \<and> fst (snd e) < int MAXMIDIINDEV"

definition in_pending :: "midi \<Rightarrow> byte_in list" where
  "in_pending M = map in_key (ring_of (midi_inqueue M) (midi_intail M) (midi_inhead M))"

definition in_elem_ok :: "midiqelem \<Rightarrow> bool" where
  "in_elem_ok q \<longleftrightarrow> q_onebyte q \<noteq> 0 \<and> port_ok (in_key q)"

definition in_ok :: "midi \<Rightarrow> bool" where
  "in_ok M \<longleftrightarrow> midi_inhead M < MIDIQSIZE \<and> midi_intail M < MIDIQSIZE \<and>
     list_all in_elem_ok (ring_of (midi_inqueue M) (midi_intail M) (midi_inhead M))"

type_synonym parsed = "(nat \<Rightarrow> midiparser) \<times> midi_call list"

definition in_result :: "midi \<Rightarrow> parsed" where
  "in_result M = (midi_parsers M, m_calls M)"

text \<open>A byte is parsed with the parser of its port.\<close>

definition feed :: "byte_in \<Rightarrow> parsed \<Rightarrow> parsed" where
  "feed e r = (let (t, portno, byte) = e; (ps, calls) = r; (new, p) = parse_byte portno byte (ps (nat portno)) in
     (ps(nat portno := p), calls @ new))"

definition in_warn :: "midi \<Rightarrow> midi" where
  "in_warn M = (if fifo_warning \<in> set (m_posts M) then M else M\<lparr>m_posts := m_posts M @ [fifo_warning]\<rparr>)"

definition in_store :: "byte_in \<Rightarrow> midi \<Rightarrow> midi" where
  "in_store e M = (let (t, portno, byte) = e in
     M\<lparr>midi_inqueue := (midi_inqueue M)(midi_inhead M := (midi_inqueue M (midi_inhead M))
         \<lparr>q_time := t, q_portno := portno, q_onebyte := 1, q_byte1 := byte\<rparr>),
       midi_inhead := step_index (midi_inhead M)\<rparr>)"

lemma dispatch_ok:
  assumes "in_ok M" "in_pending M = e # l"
  shows "\<exists>M'. sys_dispatchnextmidiin M = Some M' \<and> in_ok M' \<and> in_pending M' = l \<and> in_result M' = feed e (in_result M) \<and>
    midi_inhead M' = midi_inhead M \<and> adc_diff M' = adc_diff M \<and> midi_inqueue M' = midi_inqueue M \<and> m_posts M' = m_posts M"
proof -
  have h: "midi_inhead M < MIDIQSIZE" "midi_intail M < MIDIQSIZE" using assms(1) by (simp_all add: in_ok_def)
  define q where "q = midi_inqueue M (midi_intail M)"
  obtain q' l' where r: "ring_of (midi_inqueue M) (midi_intail M) (midi_inhead M) = q' # l'" "e = in_key q'" "l = map in_key l'"
    using assms(2) by (auto simp: in_pending_def)
  note p = ring_of_hd [OF h(2,1) r(1)]
  have q: "q' = q" "e = (q_time q, q_portno q, q_byte1 q)" "in_elem_ok q" "list_all in_elem_ok l'"
    using p(2) r assms(1) by (simp_all add: q_def in_key_def in_ok_def)
  obtain new ps where b: "parse_byte (q_portno q) (q_byte1 q) (midi_parsers M (nat (q_portno q))) = (new, ps)" by fastforce
  have "sys_dispatchnextmidiin M = Some (M\<lparr>midi_parsers := (midi_parsers M)(nat (q_portno q) := ps), m_calls := m_calls M @ new,
      midi_intail := step_index (midi_intail M)\<rparr>)"
    using q(3) h(2) b unfolding sys_dispatchnextmidiin_def Let_def q_def [symmetric]
    by (simp add: in_elem_ok_def port_ok_def in_key_def step_index_def)
  moreover have "feed e (in_result M) = ((midi_parsers M)(nat (q_portno q) := ps), m_calls M @ new)"
    using b by (simp add: feed_def q(2) in_result_def)
  ultimately show ?thesis using h p(3) q(4) r(3) by (simp add: in_ok_def in_pending_def in_result_def)
qed

lemma in_warn_same [simp]:
  "in_ok (in_warn M) = in_ok M" "in_pending (in_warn M) = in_pending M" "in_result (in_warn M) = in_result M"
  "midi_inhead (in_warn M) = midi_inhead M" "midi_intail (in_warn M) = midi_intail M" "adc_diff (in_warn M) = adc_diff M"
  by (simp_all add: in_warn_def in_ok_def in_pending_def in_result_def)

interpretation inq: timed_fifo in_ok in_pending in_result fst port_ok feed sys_dispatchnextmidiin
  "\<lambda>M. sys_dispatchnextmidiin (in_warn M)" in_loop in_store 1023
proof
  fix M q l
  assume ok: "in_ok M" and p: "in_pending M = q # l"
  from dispatch_ok [OF ok p] show "\<exists>s'. sys_dispatchnextmidiin M = Some s' \<and> in_ok s' \<and> in_pending s' = l \<and> in_result s' = feed q (in_result M)"
    by blast
  from dispatch_ok [of "in_warn M" q l] ok p show "\<exists>s'. sys_dispatchnextmidiin (in_warn M) = Some s' \<and> in_ok s' \<and> in_pending s' = l \<and>
      in_result s' = feed q (in_result M)" by auto
next
  fix M t
  assume "in_ok M"
  then have h: "midi_inhead M < MIDIQSIZE" "midi_intail M < MIDIQSIZE" by (simp_all add: in_ok_def)
  show "in_loop t M = (case in_pending M of [] \<Rightarrow> Some M
      | q # l \<Rightarrow> if fst q \<le> t then Option.bind (sys_dispatchnextmidiin M) (in_loop t) else Some M)"
  proof (cases "midi_intail M = midi_inhead M")
    case False
    with ring_of_Cons [OF h(2,1), of "midi_inqueue M"] h show ?thesis by (simp add: in_pending_def in_key_def in_loop.simps)
  qed (use ring_of_empty [OF h(2,1), of "midi_inqueue M"] in \<open>simp add: in_pending_def in_loop.simps\<close>)
next
  fix M e
  assume ok: "in_ok M" and len: "length (in_pending M) < 1023" and e: "port_ok e"
  obtain t p b where e3: "e = (t, p, b)" by (cases e)
  note r = ring_of_snoc [of "midi_intail M" "midi_inhead M" "midi_inqueue M" "(midi_inqueue M (midi_inhead M))
      \<lparr>q_time := t, q_portno := p, q_onebyte := 1, q_byte1 := b\<rparr>"]
  show "in_ok (in_store e M) \<and> in_pending (in_store e M) = in_pending M @ [e] \<and> in_result (in_store e M) = in_result M"
    using ok len e r by (simp add: e3 in_ok_def in_pending_def in_store_def in_key_def in_elem_ok_def port_ok_def in_result_def)
qed (simp_all add: in_pending_def ring_of_bounded)

definition in_elem :: "rat \<Rightarrow> int \<Rightarrow> int \<Rightarrow> midi \<Rightarrow> byte_in" where
  "in_elem rt portno byte M = (sys_getmidiinrealtime rt M, portno, uchar byte)"

lemma bytein_moved:
  assumes ok: "in_ok M" and e: "0 \<le> portno" "portno < int MAXMIDIINDEV"
  shows "\<exists>M'. sys_midibytein lt rt portno byte M = Some M' \<and> inq.moved M M' [in_elem rt portno byte M]"
proof -
  define e where "e = in_elem rt portno byte M"
  have h: "midi_inhead M < MIDIQSIZE" "midi_intail M < MIDIQSIZE" using ok by (simp_all add: in_ok_def)
  have full: "step_index (midi_inhead M) = midi_intail M \<longleftrightarrow> length (in_pending M) = 1023"
    using ring_of_full [OF h(2,1), of "midi_inqueue M"] by (simp add: in_pending_def)
  have legal: "port_ok e" using e by (simp add: e_def port_ok_def in_elem_def)
  from inq.enqueue_moved [OF ok legal] obtain M1 M' where
    1: "(if length (in_pending M) = 1023 then sys_dispatchnextmidiin (in_warn M) else Some M) = Some M1"
      "in_loop lt (in_store e M1) = Some M'" "inq.moved M M' [e]" by blast
  have same: "midi_inhead M1 = midi_inhead M \<and> adc_diff M1 = adc_diff M"
  proof (cases "length (in_pending M) = 1023")
    case True
    then obtain q l where "in_pending (in_warn M) = q # l" by (cases "in_pending M") auto
    from dispatch_ok [OF _ this] ok True 1(1) show ?thesis by auto
  qed (use 1(1) in auto)
  have "sys_midibytein lt rt portno byte M = Some M'"
    using 1(1,2) h(1) full same unfolding sys_midibytein_def Let_def step_index_def [symmetric] in_warn_def [symmetric] e_def in_elem_def in_store_def
    by (simp add: sys_pollmidiinqueue_def sys_getmidiinrealtime_def split: if_splits)
  with 1(3) show ?thesis by (simp add: e_def)
qed

section \<open>Streams of bytes\<close>

fun parse_bytes :: "int \<Rightarrow> int list \<Rightarrow> midiparser \<Rightarrow> midi_call list \<times> midiparser" where
  "parse_bytes portno [] p = ([], p)"
| "parse_bytes portno (b # bs) p =
     (let (c, p1) = parse_byte portno b p; (cs, p2) = parse_bytes portno bs p1 in (c @ cs, p2))"

lemma parse_bytes_append:
  "parse_bytes portno (xs @ ys) p =
    (let (c, p1) = parse_bytes portno xs p; (cs, p2) = parse_bytes portno ys p1 in (c @ cs, p2))"
  by (induction xs arbitrary: p) (auto simp: Let_def split: prod.splits)

fun is_message :: "midi_call \<Rightarrow> bool" where
  "is_message (In_byte _ _) = False"
| "is_message (In_realtime _ _) = False"
| "is_message _ = True"

text \<open>The messages of a port: what it was sent but for single bytes and real-time messages.\<close>

definition messages :: "midi_call list \<Rightarrow> midi_call list" where
  "messages = filter is_message"

lemma messages_append [simp]: "messages [] = []" "messages (xs @ ys) = messages xs @ messages ys"
    "messages (x # xs) = (if is_message x then x # messages xs else messages xs)"
  by (simp_all add: messages_def)

text \<open>MIDI messages: of a channel, with the kind as it is in the status byte; system exclusive; system common.\<close>

datatype midi_msg =
    Voice int int "int list"
  | Sysex "int list"
  | Common int "int list"

definition is_data :: "int \<Rightarrow> bool" where
  "is_data b \<longleftrightarrow> 0 \<le> b \<and> b < 128"

definition data_length :: "int \<Rightarrow> nat" where
  "data_length kind = (if kind = 0xc0 \<or> kind = 0xd0 then 1 else 2)"

fun legal_msg :: "midi_msg \<Rightarrow> bool" where
  "legal_msg (Voice kind ch ds) \<longleftrightarrow> kind \<in> {0x80, 0x90, 0xa0, 0xb0, 0xc0, 0xd0, 0xe0} \<and> 0 \<le> ch \<and> ch < 16 \<and> list_all is_data ds \<and>
     length ds = data_length kind"
| "legal_msg (Sysex ds) \<longleftrightarrow> list_all is_data ds"
| "legal_msg (Common st ds) \<longleftrightarrow> 0xf1 \<le> st \<and> st \<le> 0xf6 \<and> list_all is_data ds"

text \<open>The bytes of a sequence of messages; a message marked so is sent without its status byte if it is the one in force.\<close>

fun encode :: "int \<Rightarrow> (midi_msg \<times> bool) list \<Rightarrow> int list" where
  "encode running [] = []"
| "encode running ((Voice kind ch ds, omit) # ms) =
     (if omit \<and> running = kind + ch then [] else [kind + ch]) @ ds @ encode (kind + ch) ms"
| "encode running ((Sysex ds, _) # ms) = 0xf0 # ds @ 0xf7 # encode 0 ms"
| "encode running ((Common st ds, _) # ms) = st # ds @ encode 0 ms"

text \<open>The call a message leads to.\<close>

fun msg_calls :: "int \<Rightarrow> midi_msg \<Rightarrow> midi_call list" where
  "msg_calls port (Voice kind ch ds) =
     [if kind = 0x80 then In_noteon port ch (ds ! 0) 0
      else if kind = 0x90 then In_noteon port ch (ds ! 0) (ds ! 1)
      else if kind = 0xa0 then In_polyaftertouch port ch (ds ! 0) (ds ! 1)
      else if kind = 0xb0 then In_controlchange port ch (ds ! 0) (ds ! 1)
      else if kind = 0xc0 then In_programchange port ch (ds ! 0)
      else if kind = 0xd0 then In_aftertouch port ch (ds ! 0)
      else In_pitchbend port ch (128 * (ds ! 1) + ds ! 0)]"
| "msg_calls port (Sysex ds) = map (In_sysex port) (0xf0 # ds @ [0xf7])"
| "msg_calls port (Common st ds) = []"

lemma and_0x80: "(b::int) AND 0x80 \<noteq> 0 \<longleftrightarrow> odd (b div 128)"
  using and_exp_eq_0_iff_not_bit [of b 7] by (simp add: bit_iff_odd)

lemma data_and: "is_data b \<Longrightarrow> b AND 0x80 = 0" "128 \<le> b \<Longrightarrow> b < 256 \<Longrightarrow> b AND 0x80 \<noteq> 0"
proof -
  show "is_data b \<Longrightarrow> b AND 0x80 = 0" using and_0x80 [of b] by (simp add: is_data_def div_pos_pos_trivial)
  assume "128 \<le> b" "b < 256"
  then have "b div 128 = 1" by linarith
  then show "b AND 0x80 \<noteq> 0" using and_0x80 [of b] by simp
qed

lemma status_parts:
  assumes "kind \<in> {0x80, 0x90, 0xa0, 0xb0, 0xc0, 0xd0, 0xe0}" "0 \<le> ch" "ch < (16::int)"
  shows "(kind + ch) AND 0xf0 = kind" "(kind + ch) AND 0xf = ch"
proof -
  have "ch = 0 \<or> ch = 1 \<or> ch = 2 \<or> ch = 3 \<or> ch = 4 \<or> ch = 5 \<or> ch = 6 \<or> ch = 7 \<or> ch = 8 \<or> ch = 9 \<or> ch = 10 \<or>
      ch = 11 \<or> ch = 12 \<or> ch = 13 \<or> ch = 14 \<or> ch = 15" using assms(2,3) by presburger
  then have "ch \<in> {0,1,2,3,4,5,6,7,8,9,10,11,12,13,14,15}" by simp
  with assms(1) show "(kind + ch) AND 0xf0 = kind" "(kind + ch) AND 0xf = ch" by auto
qed

text \<open>A status byte, the data of a message.\<close>

lemma parse_status:
  assumes "128 \<le> b" "b < 0xf8"
  shows "parse_byte port b p = (In_byte port b # fst (status_byte port b p), snd (status_byte port b p))"
  using assms data_and(2) [of b] by (simp add: parse_byte_def split: prod.splits)

lemma parse_data:
  assumes "is_data b"
  shows "parse_byte port b p = (In_byte port b # fst (data_byte port b p), snd (data_byte port b p))"
  using assms data_and(1) [of b] by (simp add: parse_byte_def is_data_def split: prod.splits)

lemma data_byte_voice:
  assumes "legal_msg (Voice kind ch ds)" "mp_status p = kind + ch"
  shows "data_byte port b p =
     (if kind = 0x80 then two_bytes (In_noteon port ch (mp_byte1 p) 0) b p
      else if kind = 0x90 then two_bytes (In_noteon port ch (mp_byte1 p) b) b p
      else if kind = 0xa0 then two_bytes (In_polyaftertouch port ch (mp_byte1 p) b) b p
      else if kind = 0xb0 then two_bytes (In_controlchange port ch (mp_byte1 p) b) b p
      else if kind = 0xc0 then ([In_programchange port ch b], p)
      else if kind = 0xd0 then ([In_aftertouch port ch b], p)
      else two_bytes (In_pitchbend port ch (128 * b + mp_byte1 p)) b p)"
proof -
  have kind: "kind \<in> {0x80, 0x90, 0xa0, 0xb0, 0xc0, 0xd0, 0xe0}" "0 \<le> ch" "ch < 16" using assms(1) by simp_all
  have "\<not> 0xf0 \<le> kind + ch" using kind by auto
  then have "(if 0xf0 \<le> mp_status p then mp_status p else mp_status p AND 0xf0) = kind" "mp_status p AND 0xf = ch"
    using status_parts [OF kind] assms(2) by simp_all
  then show ?thesis using kind(1) unfolding data_byte_def Let_def by (simp add: push_bit_eq_mult) (elim disjE; simp add: mult.commute)
qed

lemma parse_voice_data:
  assumes "legal_msg (Voice kind ch ds)" "mp_status p = kind + ch" "mp_gotbyte1 p = 0"
  shows "\<exists>cs p'. parse_bytes port ds p = (cs, p') \<and> messages cs = msg_calls port (Voice kind ch ds) \<and>
    mp_status p' = kind + ch \<and> mp_gotbyte1 p' = 0"
proof (cases "data_length kind = 1")
  case True
  then obtain d where ds: "ds = [d]" "is_data d" using assms(1) by (auto simp: length_Suc_conv)
  have "kind = 0xc0 \<or> kind = 0xd0" using True by (auto simp: data_length_def split: if_splits)
  then show ?thesis using assms(2,3) parse_data [OF ds(2), of port p] data_byte_voice [OF assms(1,2), of port d]
    by (elim disjE) (simp_all add: ds(1))
next
  case False
  then have two: "length ds = 2" "kind \<noteq> 0xc0" "kind \<noteq> 0xd0" using assms(1) by (auto simp: data_length_def split: if_splits)
  then obtain d e where ds: "ds = [d, e]" "is_data d" "is_data e" using assms(1) by (auto simp: length_Suc_conv numeral_2_eq_2)
  define p1 where "p1 = p\<lparr>mp_byte1 := d, mp_gotbyte1 := 1\<rparr>"
  have p1: "mp_status p1 = kind + ch" "mp_gotbyte1 p1 \<noteq> 0" "mp_byte1 p1 = d" using assms(2) by (simp_all add: p1_def)
  have 1: "parse_byte port d p = ([In_byte port d], p1)"
    using data_byte_voice [OF assms(1,2), of port d] assms(3) two(2,3) by (simp add: parse_data [OF ds(2)] two_bytes_def p1_def)
  have 2: "parse_byte port e p1 = (In_byte port e # msg_calls port (Voice kind ch ds), p1\<lparr>mp_gotbyte1 := 0\<rparr>)"
    using data_byte_voice [OF assms(1) p1(1), of port e] two(2,3) p1(2,3) by (simp add: parse_data [OF ds(3)] two_bytes_def ds(1))
  have m: "messages (msg_calls port (Voice kind ch ds)) = msg_calls port (Voice kind ch ds)" by simp
  show ?thesis using 1 2 m p1(1) by (simp add: ds(1) del: msg_calls.simps)
qed

lemma parse_sysex_data:
  "list_all is_data ds \<Longrightarrow> mp_status p = 0xf0 \<Longrightarrow>
    \<exists>cs. parse_bytes port ds p = (cs, p) \<and> messages cs = map (In_sysex port) ds"
proof (induction ds)
  case (Cons d ds)
  then obtain cs where "parse_bytes port ds p = (cs, p)" "messages cs = map (In_sysex port) ds" by auto
  with Cons.prems show ?case by (simp add: parse_data data_byte_def Let_def)
qed simp

text \<open>Data after a system common status byte is dropped.\<close>

lemma parse_dropped_data:
  "list_all is_data ds \<Longrightarrow> mp_status p = 0 \<or> 0xf1 \<le> mp_status p \<Longrightarrow>
    \<exists>cs. parse_bytes port ds p = (cs, p) \<and> messages cs = []"
proof (induction ds)
  case (Cons d ds)
  then obtain cs where "parse_bytes port ds p = (cs, p)" "messages cs = []" by auto
  with Cons.prems show ?case by (auto simp: parse_data data_byte_def Let_def)
qed simp

lemma parse_encode:
  assumes "list_all (\<lambda>m. legal_msg (fst m)) ms" "running = 0 \<or> mp_status p = running \<and> mp_gotbyte1 p = 0" "0 \<le> running" "running \<noteq> 0 \<Longrightarrow> 128 \<le> running"
  shows "\<exists>cs p'. parse_bytes port (encode running ms) p = (cs, p') \<and> messages cs = concat (map (\<lambda>m. msg_calls port (fst m)) ms)"
  using assms
proof (induction ms arbitrary: running p)
  case (Cons m ms)
  obtain msg omit where m: "m = (msg, omit)" by (cases m)
  have legal: "legal_msg msg" "list_all (\<lambda>m. legal_msg (fst m)) ms" using Cons.prems(1) m by simp_all
  show ?case
  proof (cases msg)
    case (Voice kind ch ds)
    note v = legal(1) [unfolded Voice]
    have st: "128 \<le> kind + ch" "kind + ch < 0xf0" using v by auto
    define p1 where "p1 = (if omit \<and> running = kind + ch then p else p\<lparr>mp_status := kind + ch, mp_gotbyte1 := 0\<rparr>)"
    have p1: "mp_status p1 = kind + ch" "mp_gotbyte1 p1 = 0" using Cons.prems(2) st by (auto simp: p1_def)
    have 1: "parse_bytes port (if omit \<and> running = kind + ch then [] else [kind + ch]) p =
        ((if omit \<and> running = kind + ch then [] else [In_byte port (kind + ch)]), p1)"
      using st by (auto simp: p1_def parse_status status_byte_def)
    from parse_voice_data [OF v p1] obtain cs p2 where
      2: "parse_bytes port ds p1 = (cs, p2)" "messages cs = msg_calls port msg" "mp_status p2 = kind + ch" "mp_gotbyte1 p2 = 0"
      unfolding Voice by blast
    from Cons.IH [OF legal(2), of "kind + ch" p2] st 2(3,4) obtain cs' p3 where
      3: "parse_bytes port (encode (kind + ch) ms) p2 = (cs', p3)" "messages cs' = concat (map (\<lambda>m. msg_calls port (fst m)) ms)" by auto
    show ?thesis using 1 2(1,2) 3 by (simp add: m Voice parse_bytes_append split del: if_split) (simp split: if_splits)
  next
    case (Sysex ds)
    define p1 where "p1 = p\<lparr>mp_status := 0xf0, mp_gotbyte1 := 0\<rparr>"
    have "list_all is_data ds" "mp_status p1 = 0xf0" using legal(1) Sysex by (simp_all add: p1_def)
    from parse_sysex_data [OF this] obtain cs where 1: "parse_bytes port ds p1 = (cs, p1)" "messages cs = map (In_sysex port) ds" by blast
    from Cons.IH [OF legal(2), of 0 "p1\<lparr>mp_status := 0, mp_gotbyte1 := 0\<rparr>"] obtain cs' p3 where
      2: "parse_bytes port (encode 0 ms) (p1\<lparr>mp_status := 0, mp_gotbyte1 := 0\<rparr>) = (cs', p3)"
        "messages cs' = concat (map (\<lambda>m. msg_calls port (fst m)) ms)" by auto
    show ?thesis using 1 2 by (simp add: m Sysex parse_bytes_append parse_status status_byte_def p1_def)
  next
    case (Common st ds)
    define p1 where "p1 = snd (status_byte port st p)"
    have st: "0xf1 \<le> st" "st \<le> 0xf6" "list_all is_data ds" using legal(1) Common by simp_all
    have s: "messages (fst (status_byte port st p)) = []" "mp_status p1 = 0 \<or> 0xf1 \<le> mp_status p1"
      using st by (auto simp: p1_def status_byte_def)
    from parse_dropped_data [OF st(3) s(2)] obtain cs where 1: "parse_bytes port ds p1 = (cs, p1)" "messages cs = []" by blast
    from Cons.IH [OF legal(2), of 0 p1] obtain cs' p3 where
      2: "parse_bytes port (encode 0 ms) p1 = (cs', p3)" "messages cs' = concat (map (\<lambda>m. msg_calls port (fst m)) ms)" by auto
    show ?thesis using st(1,2) s(1) 1 2 by (simp add: m Common parse_bytes_append parse_status p1_def)
  qed
qed simp

text \<open>Real-time bytes do not disturb the messages they come in between.\<close>

lemma parse_without_realtime:
  "messages (fst (parse_bytes port (filter (\<lambda>b. b < 0xf8) bs) p)) = messages (fst (parse_bytes port bs p)) \<and>
   snd (parse_bytes port (filter (\<lambda>b. b < 0xf8) bs) p) = snd (parse_bytes port bs p)"
proof (induction bs arbitrary: p)
  case (Cons b bs)
  show ?case
  proof (cases "b < 0xf8")
    case True
    then show ?thesis using Cons.IH by (auto simp: Let_def split: prod.splits) (metis fst_conv snd_conv)+
  next
    case False
    then have "parse_byte port b p = ([In_realtime port b], p)" by (simp add: parse_byte_def)
    with False Cons.IH [of p] show ?thesis by (auto split: prod.splits)
  qed
qed simp

section \<open>Input\<close>

text \<open>What happens at the input: bytes from the driver and polls, each at a logical and a real time.\<close>

datatype midi_ev =
    Byte_in rat rat int int
  | Poll_in rat

fun midi_do :: "midi_ev \<Rightarrow> midi \<Rightarrow> midi option" where
  "midi_do (Byte_in lt rt portno byte) M = sys_midibytein lt rt portno byte M"
| "midi_do (Poll_in lt) M = sys_pollmidiinqueue lt M"

fun midi_run :: "midi_ev list \<Rightarrow> midi \<Rightarrow> midi option" where
  "midi_run [] M = Some M"
| "midi_run (e # es) M = Option.bind (midi_do e M) (midi_run es)"

lemma midi_run_append: "midi_run (xs @ ys) M = Option.bind (midi_run xs M) (midi_run ys)"
  by (induction xs arbitrary: M) (auto split: bind_splits)

text \<open>The ports exist, the bytes are bytes, and all have come by the time \<open>T\<close>.\<close>

fun ev_ok :: "rat \<Rightarrow> midi_ev \<Rightarrow> bool" where
  "ev_ok T (Byte_in lt rt portno byte) \<longleftrightarrow> 0 \<le> portno \<and> portno < int MAXMIDIINDEV \<and> 0 \<le> byte \<and> byte < 256 \<and> rd rt \<le> T"
| "ev_ok T (Poll_in lt) \<longleftrightarrow> True"

fun ev_elems :: "midi_ev list \<Rightarrow> byte_in list" where
  "ev_elems [] = []"
| "ev_elems (Byte_in lt rt portno byte # es) = (rd rt, portno, byte) # ev_elems es"
| "ev_elems (Poll_in lt # es) = ev_elems es"

text \<open>The bytes that come in at a port.\<close>

fun port_bytes :: "int \<Rightarrow> midi_ev list \<Rightarrow> int list" where
  "port_bytes port [] = []"
| "port_bytes port (Byte_in lt rt portno byte # es) = (if portno = port then byte # port_bytes port es else port_bytes port es)"
| "port_bytes port (Poll_in lt # es) = port_bytes port es"

fun call_port :: "midi_call \<Rightarrow> int" where
  "call_port (In_realtime p _) = p"
| "call_port (In_byte p _) = p"
| "call_port (In_sysex p _) = p"
| "call_port (In_noteon p _ _ _) = p"
| "call_port (In_controlchange p _ _ _) = p"
| "call_port (In_programchange p _ _) = p"
| "call_port (In_pitchbend p _ _) = p"
| "call_port (In_aftertouch p _ _) = p"
| "call_port (In_polyaftertouch p _ _ _) = p"

text \<open>No operation on the queue changes the estimate of the input's time.\<close>

lemma dispatch_diff: "sys_dispatchnextmidiin M = Some M' \<Longrightarrow> adc_diff M' = adc_diff M"
  by (auto simp: sys_dispatchnextmidiin_def Let_def split: if_splits prod.splits)

lemma in_loop_diff:
  assumes ret: "in_loop t M = Some M'"
  shows "adc_diff M' = adc_diff M"
proof (rule in_loop.raw_induct [where P = "\<lambda>t M M'. adc_diff M' = adc_diff M", OF _ ret])
  fix loop t M M'
  assume IH: "\<And>t M M'. loop t M = Some M' \<Longrightarrow> adc_diff M' = adc_diff M"
    and eq: "(if midi_inhead M \<noteq> midi_intail M then
        (if \<not> midi_intail M < MIDIQSIZE then None
         else if q_time (midi_inqueue M (midi_intail M)) \<le> t then Option.bind (sys_dispatchnextmidiin M) (loop t) else Some M)
      else Some M) = Some M'"
  show "adc_diff M' = adc_diff M"
    using eq IH dispatch_diff by (fastforce simp: bind_eq_Some_conv split: if_splits)
qed

lemma bytein_diff:
  assumes "sys_midibytein lt rt portno byte M = Some M'"
  shows "adc_diff M' = adc_diff M"
proof -
  obtain M1 M2 where "(if (if midi_inhead M + 1 = MIDIQSIZE then 0 else midi_inhead M + 1) = midi_intail M
      then sys_dispatchnextmidiin (in_warn M) else Some M) = Some M1"
    "in_loop lt M2 = Some M'" "adc_diff M2 = adc_diff M1"
    using assms unfolding sys_midibytein_def Let_def sys_pollmidiinqueue_def in_warn_def [symmetric] by (fastforce split: bind_splits if_splits)
  then show ?thesis using dispatch_diff in_loop_diff by (fastforce split: if_splits)
qed

lemma midi_run_moved:
  "in_ok M \<Longrightarrow> adc_diff M = 0 \<Longrightarrow> list_all (ev_ok T) es \<Longrightarrow>
    \<exists>M'. midi_run es M = Some M' \<and> inq.moved M M' (ev_elems es) \<and> adc_diff M' = 0"
proof (induction es arbitrary: M)
  case (Cons e es)
  have "\<exists>M1. midi_do e M = Some M1 \<and> inq.moved M M1 (ev_elems [e]) \<and> adc_diff M1 = 0"
  proof (cases e)
    case (Byte_in lt rt portno byte)
    with Cons.prems(3) have v: "0 \<le> portno" "portno < int MAXMIDIINDEV" "uchar byte = byte" by (simp_all add: uchar_def)
    from bytein_moved [OF Cons.prems(1) v(1,2), of lt rt byte] Cons.prems(2) v(3) show ?thesis
      using bytein_diff [of lt rt portno byte M] by (auto simp: Byte_in in_elem_def sys_getmidiinrealtime_def)
  next
    case (Poll_in lt)
    from inq.loop_moved [OF Cons.prems(1), of lt] Cons.prems(2) show ?thesis
      using in_loop_diff [of lt M] by (auto simp: Poll_in sys_pollmidiinqueue_def)
  qed
  then obtain M1 where M1: "midi_do e M = Some M1" "inq.moved M M1 (ev_elems [e])" "adc_diff M1 = 0" by blast
  from Cons.IH [OF inq.moved_ok [OF M1(2)] M1(3)] Cons.prems(3) obtain M' where
    M': "midi_run es M1 = Some M'" "inq.moved M1 M' (ev_elems es)" "adc_diff M' = 0" by auto
  have "ev_elems [e] @ ev_elems es = ev_elems (e # es)" by (cases e) simp_all
  with inq.moved_trans [OF M1(2) M'(2)] M1(1) M'(1,3) show ?case by auto
qed (simp add: inq.moved_def)

lemma ev_elems_time: "list_all (ev_ok T) es \<Longrightarrow> e \<in> set (ev_elems es) \<Longrightarrow> fst e \<le> T"
  by (induction es rule: ev_elems.induct) auto

lemma ev_elems_port: "list_all (ev_ok T) es \<Longrightarrow> e \<in> set (ev_elems es) \<Longrightarrow> 0 \<le> fst (snd e)"
  by (induction es rule: ev_elems.induct) auto

lemma port_bytes_elems: "port_bytes port es = map (\<lambda>(t, p, b). b) (filter (\<lambda>(t, p, b). p = port) (ev_elems es))"
  by (induction es rule: ev_elems.induct) auto

text \<open>After a poll late enough all that has come in has been handled, in order.\<close>

lemma midi_run_handled:
  assumes "list_all (ev_ok T) es"
  shows "\<exists>M'. midi_run (es @ [Poll_in T]) midi0 = Some M' \<and> in_pending M' = [] \<and>
    in_result M' = fold feed (ev_elems es) (\<lambda>_. no_status, [])"
proof -
  have ok: "in_ok midi0" "in_pending midi0 = []" "in_result midi0 = (\<lambda>_. no_status, [])"
    by (simp_all add: in_ok_def in_pending_def in_result_def ring_of_def midi0_def)
  from midi_run_moved [OF ok(1) _ assms] obtain M1 where
    M1: "midi_run es midi0 = Some M1" "inq.moved midi0 M1 (ev_elems es)" by (auto simp: midi0_def)
  from M1(2) obtain handled where h: "handled @ in_pending M1 = ev_elems es" "in_result M1 = fold feed handled (\<lambda>_. no_status, [])" "in_ok M1"
    by (auto simp: inq.moved_def ok)
  have t: "\<forall>e\<in>set (in_pending M1). fst e \<le> T" using ev_elems_time [OF assms] unfolding h(1) [symmetric] by simp
  then have "takeWhile (\<lambda>q. fst q \<le> T) (in_pending M1) = in_pending M1" "dropWhile (\<lambda>q. fst q \<le> T) (in_pending M1) = []"
    by (simp_all add: takeWhile_eq_all_conv)
  with inq.loop_ok [OF h(3), of T] obtain M' where
    M': "in_loop T M1 = Some M'" "in_pending M' = []" "in_result M' = fold feed (in_pending M1) (in_result M1)" by auto
  have "in_result M' = fold feed (ev_elems es) (\<lambda>_. no_status, [])"
    using M'(3) h(2) unfolding h(1) [symmetric] by simp
  with M1(1) M'(1,2) show ?thesis by (auto simp: midi_run_append sys_pollmidiinqueue_def)
qed

text \<open>Each port has a parser of its own.\<close>

lemma parse_byte_port: "parse_byte port b p = (cs, p') \<Longrightarrow> c \<in> set cs \<Longrightarrow> call_port c = port"
  by (auto simp: parse_byte_def status_byte_def data_byte_def two_bytes_def Let_def split: if_splits prod.splits)

lemma fold_feed_port:
  assumes "0 \<le> port"
  shows "\<forall>e\<in>set es. 0 \<le> fst (snd e) \<Longrightarrow>
    filter (\<lambda>c. call_port c = port) (snd (fold feed es (ps, calls))) =
      filter (\<lambda>c. call_port c = port) calls @ fst (parse_bytes port (map (\<lambda>(t, p, b). b) (filter (\<lambda>(t, p, b). p = port) es)) (ps (nat port)))"
proof (induction es arbitrary: ps calls)
  case (Cons e es)
  obtain t p b where e: "e = (t, p, b)" by (cases e)
  obtain cs q where pb: "parse_byte p b (ps (nat p)) = (cs, q)" by fastforce
  note own = parse_byte_port [OF pb]
  show ?case
  proof (cases "p = port")
    case True
    have "filter (\<lambda>c. call_port c = port) cs = cs" using own True by (simp add: filter_id_conv)
    with True Cons pb show ?thesis by (simp add: e feed_def split: prod.splits)
  next
    case False
    have "filter (\<lambda>c. call_port c = port) cs = []" using own False by (auto simp: filter_empty_conv)
    moreover have "nat p \<noteq> nat port" using False assms Cons.prems by (auto simp: e)
    ultimately show ?thesis using False Cons pb by (simp add: e feed_def)
  qed
qed simp

lemma input_messages:
  assumes "list_all (ev_ok T) es" "0 \<le> port" "filter (\<lambda>b. b < 0xf8) (port_bytes port es) = encode 0 ms"
    and "list_all (\<lambda>m. legal_msg (fst m)) ms"
  shows "\<exists>M'. midi_run (es @ [Poll_in T]) midi0 = Some M' \<and>
    messages (filter (\<lambda>c. call_port c = port) (m_calls M')) = concat (map (\<lambda>m. msg_calls port (fst m)) ms)"
proof -
  from midi_run_handled [OF assms(1)] obtain M' where
    M': "midi_run (es @ [Poll_in T]) midi0 = Some M'" "in_result M' = fold feed (ev_elems es) (\<lambda>_. no_status, [])" by blast
  have calls: "filter (\<lambda>c. call_port c = port) (m_calls M') = fst (parse_bytes port (port_bytes port es) no_status)"
    using fold_feed_port [OF assms(2), of "ev_elems es" "\<lambda>_. no_status" "[]"] ev_elems_port [OF assms(1)] M'(2)
    by (simp add: port_bytes_elems in_result_def flip: M'(2))
  from parse_encode [OF assms(4), of 0 no_status port] have
    "messages (fst (parse_bytes port (encode 0 ms) no_status)) = concat (map (\<lambda>m. msg_calls port (fst m)) ms)" by auto
  with parse_without_realtime [of port "port_bytes port es" no_status] assms(3) M'(1) calls show ?thesis by auto
qed

section \<open>What the MIDI input promises\<close>

text \<open>
  C22: Whatever bytes come in at the ports, in whatever order, if those of a port without its real-time bytes are the bytes of
  a sequence of legal messages, with running status or without, then the messages that the objects get from the port
  are these, in order, once the input is polled at a time not before any of the bytes; no index leaves the queue.
\<close>

theorem midi_input_messages:
  assumes "list_all (ev_ok T) es" "0 \<le> port" "filter (\<lambda>b. b < 0xf8) (port_bytes port es) = encode 0 ms"
    and "list_all (\<lambda>m. legal_msg (fst m)) ms"
  shows "\<exists>M'. midi_run (es @ [Poll_in T]) midi0 = Some M' \<and>
    messages (filter (\<lambda>c. call_port c = port) (m_calls M')) = concat (map (\<lambda>m. msg_calls port (fst m)) ms)"
  by (rule input_messages [OF assms])

section \<open>Output\<close>

datatype out_msg =
    Out_noteon int int int int
  | Out_controlchange int int int int
  | Out_programchange int int int
  | Out_pitchbend int int int
  | Out_aftertouch int int int
  | Out_polyaftertouch int int int int

fun outmidi :: "rat \<Rightarrow> rat \<Rightarrow> out_msg \<Rightarrow> midi \<Rightarrow> midi option" where
  "outmidi lt rt (Out_noteon port ch pitch velo) M = outmidi_noteon lt rt port ch pitch velo M"
| "outmidi lt rt (Out_controlchange port ch ctl v) M = outmidi_controlchange lt rt port ch ctl v M"
| "outmidi lt rt (Out_programchange port ch v) M = outmidi_programchange lt rt port ch v M"
| "outmidi lt rt (Out_pitchbend port ch v) M = outmidi_pitchbend lt rt port ch v M"
| "outmidi lt rt (Out_aftertouch port ch v) M = outmidi_aftertouch lt rt port ch v M"
| "outmidi lt rt (Out_polyaftertouch port ch pitch v) M = outmidi_polyaftertouch lt rt port ch pitch v M"

datatype out_ev =
    Out rat rat out_msg
  | Poll_out rat

fun out_do :: "out_ev \<Rightarrow> midi \<Rightarrow> midi option" where
  "out_do (Out lt rt m) M = outmidi lt rt m M"
| "out_do (Poll_out rt) M = sys_pollmidioutqueue rt M"

fun out_run :: "out_ev list \<Rightarrow> midi \<Rightarrow> midi option" where
  "out_run [] M = Some M"
| "out_run (e # es) M = Option.bind (out_do e M) (out_run es)"

lemma out_run_append: "out_run (xs @ ys) M = Option.bind (out_run xs M) (out_run ys)"
  by (induction xs arbitrary: M) (auto split: bind_splits)

fun out_port :: "out_msg \<Rightarrow> int" where
  "out_port (Out_noteon p _ _ _) = p"
| "out_port (Out_controlchange p _ _ _) = p"
| "out_port (Out_programchange p _ _) = p"
| "out_port (Out_pitchbend p _ _) = p"
| "out_port (Out_aftertouch p _ _) = p"
| "out_port (Out_polyaftertouch p _ _ _) = p"

text \<open>The message sent, its arguments kept in range.\<close>

fun out_voice :: "out_msg \<Rightarrow> midi_msg" where
  "out_voice (Out_noteon _ ch pitch velo) = Voice 0x90 (ch mod 16) [clip 127 pitch, clip 127 velo]"
| "out_voice (Out_controlchange _ ch ctl v) = Voice 0xb0 (ch mod 16) [clip 127 ctl, clip 127 v]"
| "out_voice (Out_programchange _ ch v) = Voice 0xc0 (ch mod 16) [clip 127 v]"
| "out_voice (Out_pitchbend _ ch v) = Voice 0xe0 (ch mod 16) [clip 16383 v mod 128, clip 16383 v div 128]"
| "out_voice (Out_aftertouch _ ch v) = Voice 0xd0 (ch mod 16) [clip 127 v]"
| "out_voice (Out_polyaftertouch _ ch pitch v) = Voice 0xa0 (ch mod 16) [clip 127 pitch, clip 127 v]"

text \<open>What an input object gets of it, on the other side.\<close>

fun out_call :: "int \<Rightarrow> out_msg \<Rightarrow> midi_call" where
  "out_call port (Out_noteon _ ch pitch velo) = In_noteon port (ch mod 16) (clip 127 pitch) (clip 127 velo)"
| "out_call port (Out_controlchange _ ch ctl v) = In_controlchange port (ch mod 16) (clip 127 ctl) (clip 127 v)"
| "out_call port (Out_programchange _ ch v) = In_programchange port (ch mod 16) (clip 127 v)"
| "out_call port (Out_pitchbend _ ch v) = In_pitchbend port (ch mod 16) (clip 16383 v)"
| "out_call port (Out_aftertouch _ ch v) = In_aftertouch port (ch mod 16) (clip 127 v)"
| "out_call port (Out_polyaftertouch _ ch pitch v) = In_polyaftertouch port (ch mod 16) (clip 127 pitch) (clip 127 v)"

lemma clip_bounds: "0 \<le> m \<Longrightarrow> 0 \<le> clip m v \<and> clip m v \<le> m"
  by (simp add: clip_def)

lemma and_masks: "(c::int) AND 0xf = c mod 16" "c AND 127 = c mod 128"
  using take_bit_eq_mask [of 4 c] take_bit_eq_mask [of 7 c] by (simp_all add: take_bit_eq_mod mask_eq_exp_minus_1)

lemma out_voice_legal: "legal_msg (out_voice m)"
proof -
  have c: "is_data (clip 127 v)" "is_data (clip 16383 v mod 128)" "is_data (clip 16383 v div 128)" for v
    using clip_bounds [of 127 v] clip_bounds [of 16383 v] by (auto simp: is_data_def)
  show ?thesis by (cases m) (simp_all add: c data_length_def)
qed

lemma out_voice_call: "msg_calls port (out_voice m) = [out_call port m]"
  by (cases m) simp_all

definition out_elem_of :: "rat \<Rightarrow> out_msg \<Rightarrow> midiqelem" where
  "out_elem_of lt m = (case out_voice m of Voice kind ch ds \<Rightarrow>
     out_elem lt (out_port m) 0 (kind + ch) (ds ! 0) (if length ds = 2 then ds ! 1 else 0) | _ \<Rightarrow> no_elem)"

lemma outmidi_queue:
  "outmidi lt rt m M = (case out_voice m of Voice kind ch ds \<Rightarrow>
     sys_queuemidimess lt rt (out_port m) 0 (kind + ch) (ds ! 0) (if length ds = 2 then ds ! 1 else 0) M | _ \<Rightarrow> None)"
proof (cases m)
  case (Out_pitchbend p c v)
  have "drop_bit 7 (clip 16383 v) mod 128 = clip 16383 v div 128"
    using clip_bounds [of 16383 v] by (auto simp: drop_bit_eq_div intro!: mod_pos_pos_trivial)
  then show ?thesis by (simp add: Out_pitchbend outmidi_pitchbend_def and_masks)
qed (simp_all add: outmidi_noteon_def outmidi_controlchange_def outmidi_programchange_def outmidi_aftertouch_def
    outmidi_polyaftertouch_def and_masks)

text \<open>The bytes that go out at a port.\<close>

definition sent_bytes :: "int \<Rightarrow> int \<Rightarrow> midi_put list \<Rightarrow> int list" where
  "sent_bytes n port puts = map snd (filter (\<lambda>e. fst e = port) (concat (map (oss_put n) puts)))"

lemma sent_bytes_append [simp]: "sent_bytes n port (xs @ ys) = sent_bytes n port xs @ sent_bytes n port ys" "sent_bytes n port [] = []"
  by (simp_all add: sent_bytes_def)

lemma sent_voice:
  assumes "0 \<le> out_port m" "out_port m < n"
  shows "sent_bytes n port [put_of (out_elem_of lt m)] = (if out_port m = port then encode 0 [(out_voice m, False)] else [])"
proof -
  have u: "is_data b \<Longrightarrow> uchar b = b" for b by (simp add: is_data_def uchar_def)
  obtain kind ch ds where v: "out_voice m = Voice kind ch ds" by (cases m) simp_all
  note l = out_voice_legal [of m, unfolded v, simplified]
  have st: "uchar (kind + ch) = kind + ch" using l by (auto simp: uchar_def)
  show ?thesis
  proof (cases "length ds = 2")
    case True
    then obtain a b where ds: "ds = [a, b]" by (auto simp: length_Suc_conv numeral_2_eq_2)
    have "md_msglen (kind + ch) = 2" using l True by (auto simp: md_msglen_def data_length_def split: if_splits)
    then show ?thesis using assms l st by (simp add: sent_bytes_def out_elem_of_def v out_elem_def put_of_def ds u uchar_def [of 0])
  next
    case False
    then obtain a where ds: "ds = [a]" using l by (auto simp: length_Suc_conv data_length_def split: if_splits)
    have "md_msglen (kind + ch) = 1" using l False by (auto simp: md_msglen_def data_length_def split: if_splits)
    then show ?thesis using assms l st by (simp add: sent_bytes_def out_elem_of_def v out_elem_def put_of_def ds u uchar_def [of 0])
  qed
qed

fun out_ev_ok :: "int \<Rightarrow> rat \<Rightarrow> out_ev \<Rightarrow> bool" where
  "out_ev_ok n T (Out lt rt m) \<longleftrightarrow> 0 \<le> out_port m \<and> out_port m < n \<and> lt \<le> rd T"
| "out_ev_ok n T (Poll_out rt) \<longleftrightarrow> True"

fun out_msgs :: "out_ev list \<Rightarrow> (rat \<times> out_msg) list" where
  "out_msgs [] = []"
| "out_msgs (Out lt rt m # es) = (lt, m) # out_msgs es"
| "out_msgs (Poll_out rt # es) = out_msgs es"

text \<open>The messages sent to a port.\<close>

definition port_msgs :: "int \<Rightarrow> out_ev list \<Rightarrow> out_msg list" where
  "port_msgs port es = filter (\<lambda>m. out_port m = port) (map snd (out_msgs es))"

lemma putnext_diff: "sys_putnext M = Some M' \<Longrightarrow> dac_diff M' = dac_diff M"
  by (auto simp: sys_putnext_def split: if_splits)

lemma out_loop_diff:
  assumes ret: "out_loop t M = Some M'"
  shows "dac_diff M' = dac_diff M"
proof (rule out_loop.raw_induct [where P = "\<lambda>t M M'. dac_diff M' = dac_diff M", OF _ ret])
  fix loop t M M'
  assume IH: "\<And>t M M'. loop t M = Some M' \<Longrightarrow> dac_diff M' = dac_diff M"
    and eq: "(if midi_outhead M \<noteq> midi_outtail M then
        (if \<not> midi_outtail M < MIDIQSIZE then None
         else if q_time (midi_outqueue M (midi_outtail M)) \<le> t then Option.bind (sys_putnext M) (loop t) else Some M)
      else Some M) = Some M'"
  show "dac_diff M' = dac_diff M"
    using eq IH putnext_diff by (fastforce simp: bind_eq_Some_conv split: if_splits)
qed

lemma queue_diff:
  assumes "sys_queuemidimess lt rt portno onebyte a b c M = Some M'"
  shows "dac_diff M' = dac_diff M"
proof -
  obtain M1 M2 where "(if (if midi_outhead M + 1 = MIDIQSIZE then 0 else midi_outhead M + 1) = midi_outtail M
      then sys_putnext M else Some M) = Some M1"
    "out_loop (sys_getmidioutrealtime rt M2) M2 = Some M'" "dac_diff M2 = dac_diff M1"
    using assms unfolding sys_queuemidimess_def Let_def sys_pollmidioutqueue_def by (fastforce split: bind_splits if_splits)
  then show ?thesis using putnext_diff out_loop_diff by (fastforce split: if_splits)
qed

lemma out_run_moved:
  "out_ok M \<Longrightarrow> dac_diff M = 0 \<Longrightarrow>
    \<exists>M'. out_run es M = Some M' \<and> outq.moved M M' (map (\<lambda>(lt, m). out_elem_of lt m) (out_msgs es)) \<and> dac_diff M' = 0"
proof (induction es arbitrary: M)
  case (Cons e es)
  have "\<exists>M1. out_do e M = Some M1 \<and> outq.moved M M1 (map (\<lambda>(lt, m). out_elem_of lt m) (out_msgs [e])) \<and> dac_diff M1 = 0"
  proof (cases e)
    case (Out lt rt m)
    obtain kind ch ds where v: "out_voice m = Voice kind ch ds" by (cases m) simp_all
    from queue_moved [OF Cons.prems(1), of lt rt "out_port m" 0 "kind + ch" "ds ! 0" "if length ds = 2 then ds ! 1 else 0"] Cons.prems(2)
    show ?thesis using queue_diff by (fastforce simp: Out outmidi_queue v out_elem_of_def)
  next
    case (Poll_out rt)
    from outq.loop_moved [OF Cons.prems(1), of "sys_getmidioutrealtime rt M"] Cons.prems(2) show ?thesis
      using out_loop_diff by (fastforce simp: Poll_out sys_pollmidioutqueue_def)
  qed
  then obtain M1 where M1: "out_do e M = Some M1" "outq.moved M M1 (map (\<lambda>(lt, m). out_elem_of lt m) (out_msgs [e]))" "dac_diff M1 = 0"
    by blast
  from Cons.IH [OF outq.moved_ok [OF M1(2)] M1(3)] obtain M' where
    M': "out_run es M1 = Some M'" "outq.moved M1 M' (map (\<lambda>(lt, m). out_elem_of lt m) (out_msgs es))" "dac_diff M' = 0" by blast
  have "out_msgs [e] @ out_msgs es = out_msgs (e # es)" by (cases e) simp_all
  with outq.moved_trans [OF M1(2) M'(2)] M1(1) M'(1,3) show ?case by (auto simp flip: map_append)
qed (simp add: outq.moved_def)

lemma fold_put: "fold (\<lambda>q l. l @ [put_of q]) qs l = l @ map put_of qs"
  by (induction qs arbitrary: l) simp_all

lemma out_msgs_ok: "list_all (out_ev_ok n T) es \<Longrightarrow> (lt, m) \<in> set (out_msgs es) \<Longrightarrow> 0 \<le> out_port m \<and> out_port m < n \<and> lt \<le> rd T"
  by (induction es rule: out_msgs.induct) auto

lemma sent_voices:
  "\<forall>(lt, m)\<in>set ms. 0 \<le> out_port m \<and> out_port m < n \<Longrightarrow>
    sent_bytes n port (map (\<lambda>(lt, m). put_of (out_elem_of lt m)) ms) =
      encode r (map (\<lambda>m. (out_voice m, False)) (filter (\<lambda>m. out_port m = port) (map snd ms)))"
proof (induction ms arbitrary: r)
  case (Cons x ms)
  obtain lt m where x: "x = (lt, m)" by (cases x)
  obtain kind ch ds where v: "out_voice m = Voice kind ch ds" by (cases m) simp_all
  have "sent_bytes n port (map (\<lambda>(lt, m). put_of (out_elem_of lt m)) (x # ms)) =
      sent_bytes n port [put_of (out_elem_of lt m)] @ sent_bytes n port (map (\<lambda>(lt, m). put_of (out_elem_of lt m)) ms)"
    by (simp add: x flip: sent_bytes_append)
  with Cons sent_voice [of m n port lt] show ?case by (auto simp: x v)
qed simp

lemma out_run_sent:
  assumes "list_all (out_ev_ok n T) es"
  shows "\<exists>M'. out_run (es @ [Poll_out T]) midi0 = Some M' \<and> m_put M' = map (\<lambda>(lt, m). put_of (out_elem_of lt m)) (out_msgs es) \<and>
    sent_bytes n port (m_put M') = encode 0 (map (\<lambda>m. (out_voice m, False)) (port_msgs port es))"
proof -
  have ok: "out_ok midi0" "out_pending midi0 = []" "m_put midi0 = []"
    by (simp_all add: out_ok_def out_pending_def ring_of_def midi0_def)
  define qs where "qs = map (\<lambda>(lt, m). out_elem_of lt m) (out_msgs es)"
  from out_run_moved [OF ok(1), of es] obtain M1 where
    M1: "out_run es midi0 = Some M1" "outq.moved midi0 M1 qs" "dac_diff M1 = 0" by (auto simp: midi0_def qs_def)
  from M1(2) obtain handled where h: "handled @ out_pending M1 = qs" "m_put M1 = map put_of handled" "out_ok M1"
    by (auto simp: outq.moved_def ok fold_put)
  have tm: "q_time (out_elem_of lt m) = lt" for lt m
    by (cases m) (simp_all add: out_elem_of_def out_elem_def)
  have "\<forall>e\<in>set qs. q_time e \<le> rd T" using out_msgs_ok [OF assms] by (auto simp: qs_def tm)
  then have "\<forall>e\<in>set (out_pending M1). q_time e \<le> rd T" unfolding h(1) [symmetric] by simp
  then have "takeWhile (\<lambda>q. q_time q \<le> rd T) (out_pending M1) = out_pending M1" by (simp add: takeWhile_eq_all_conv)
  note tw = this
  from outq.loop_ok [OF h(3), of "rd T"] obtain M' where
    M': "out_loop (rd T) M1 = Some M'" "m_put M' = m_put M1 @ map put_of (out_pending M1)" unfolding fold_put tw by blast
  have "m_put M' = map put_of (handled @ out_pending M1)" using M'(2) h(2) by simp
  then have put: "m_put M' = map (\<lambda>(lt, m). put_of (out_elem_of lt m)) (out_msgs es)"
    unfolding h(1) by (simp add: qs_def case_prod_unfold)
  have "sent_bytes n port (m_put M') = encode 0 (map (\<lambda>m. (out_voice m, False)) (port_msgs port es))"
    unfolding put port_msgs_def using out_msgs_ok [OF assms] by (intro sent_voices) auto
  with M1(1,3) M'(1) put show ?thesis
    by (auto simp: out_run_append sys_pollmidioutqueue_def sys_getmidioutrealtime_def)
qed

text \<open>
  C24: MIDI sent comes through: what the output objects send to a port, in any order with what goes to others, and with polls of
  the queue in between, is written to the driver in order and nothing else; when its bytes reach an input port, with real-time
  bytes in between at will, the input objects get the same messages with their arguments in range.
\<close>

theorem midi_loopback:
  assumes "list_all (out_ev_ok n T) outs" "out_run (outs @ [Poll_out T]) midi0 = Some M"
    and "list_all (ev_ok U) es" "0 \<le> q" "filter (\<lambda>b. b < 0xf8) (port_bytes q es) = sent_bytes n port (m_put M)"
  shows "\<exists>M'. midi_run (es @ [Poll_in U]) midi0 = Some M' \<and>
    messages (filter (\<lambda>c. call_port c = q) (m_calls M')) = map (out_call q) (port_msgs port outs)"
proof -
  define ms where "ms = map (\<lambda>m. (out_voice m, False)) (port_msgs port outs)"
  have "sent_bytes n port (m_put M) = encode 0 ms"
    using out_run_sent [OF assms(1), of port] assms(2) unfolding ms_def by (metis option.inject)
  moreover have "list_all (\<lambda>m. legal_msg (fst m)) ms" by (simp add: ms_def list_all_iff out_voice_legal)
  ultimately have "\<exists>M'. midi_run (es @ [Poll_in U]) midi0 = Some M' \<and>
      messages (filter (\<lambda>c. call_port c = q) (m_calls M')) = concat (map (\<lambda>m. msg_calls q (fst m)) ms)"
    using input_messages [OF assms(3,4), of ms] assms(5) by simp
  moreover have "concat (map (\<lambda>m. msg_calls q (fst m)) ms) = map (out_call q) (port_msgs port outs)"
    unfolding ms_def by (induction "port_msgs port outs") (simp_all add: out_voice_call o_def)
  ultimately show ?thesis by simp
qed

text \<open>
  C25: The output queue returns, and every message is written to the driver once, in the order of sending, whatever is full and
  whenever it is polled, when at last it is polled late enough.
\<close>

theorem midi_output_fifo:
  assumes "list_all (out_ev_ok n T) outs"
  shows "\<exists>M'. out_run (outs @ [Poll_out T]) midi0 = Some M' \<and> m_put M' = map (\<lambda>(lt, m). put_of (out_elem_of lt m)) (out_msgs outs)"
  using out_run_sent [OF assms] by blast

end
