(* ===== verification/MidiDrv.thy ===== *)
theory MidiDrv
  imports MidiSpec
begin

text \<open>
  The MIDI objects at both ends, and PortMidi: channel numbers and values on their way from an output object to an input
  object; the bytes that go through PortMidi's events and back; the real-time messages that come in through it.
\<close>

section \<open>Channels and values\<close>

lemma fadd_small:
  assumes "\<bar>a\<bar> < 2 ^ 23" "\<bar>b\<bar> < 2 ^ 23"
  shows "fadd (FFin (of_int a)) (FFin (of_int b)) = FFin (of_int (a + b))"
proof -
  have "fadd (FFin (of_int a)) (FFin (of_int b)) = float_of_int (a + b)"
    by (simp add: fadd_def fval_def float_of_int_def flip: of_int_add)
  with float_of_int_exact [of "a + b"] assms show ?thesis by simp
qed

lemma feq_int [simp]: "feq (FFin (of_int a)) (FFin (of_int b)) \<longleftrightarrow> a = b" "feq (FFin (of_int a)) (FFin 0) \<longleftrightarrow> a = 0"
  by (simp_all add: feq_def fval_def)

lemma binchan_int:
  assumes "1 \<le> c" "c \<le> 256"
  shows "binchan (FFin (of_int c)) = c - 1"
  using fadd_small [of c "-1"] int_of_float_int [of "c - 1"] assms by (simp add: binchan_def Let_def)

lemma channel_arg_int:
  assumes "1 \<le> c" "c \<le> 256"
  shows "channel_arg ((c - 1) div 16) ((c - 1) mod 16) = A_FLOAT (FFin (of_int c))"
proof -
  have "(c - 1) mod 16 + push_bit 4 ((c - 1) div 16) + 1 = c" by (simp add: push_bit_eq_mult)
  moreover have "int_cast c = c" using assms by (simp add: int_cast_def)
  ultimately show ?thesis using float_of_int_exact [of c] assms by (simp add: channel_arg_def)
qed

lemma args3 [simp]: "atom_getfloatarg 0 (A_FLOAT a # l) = a" "atom_getfloatarg (Suc 0) (x # A_FLOAT b # l) = b"
    "atom_getfloatarg 2 [x, y, A_FLOAT d] = d"
  by (simp_all add: atom_getfloatarg_def)

lemma midi_val: "0 \<le> v \<Longrightarrow> v \<le> 127 \<Longrightarrow> int_of_float (FFin (of_int v)) = v" "0 \<le> v \<Longrightarrow> v \<le> 127 \<Longrightarrow> float_of_int v = FFin (of_int v)"
  using int_of_float_int [of v] float_of_int_exact [of v] by simp_all

lemma b15: "(b::int) AND 15 = b mod 16"
  using and_masks(1) [of b] by simp

text \<open>A note sent on channel \<open>c\<close> is one of port \<open>(c - 1) div 16\<close>; when it comes back, the notein objects for that channel send out its
  velocity and pitch, those for all channels the channel too, and others nothing.
\<close>

theorem note_channels:
  assumes "1 \<le> c" "c \<le> 256" "0 \<le> pitch" "pitch \<le> 127" "0 \<le> velo" "velo \<le> 127"
  defines "x \<equiv> (noteout_new (FFin (of_int c)))\<lparr>o_arg := FFin (of_int velo)\<rparr>"
    and "m \<equiv> Out_noteon ((c - 1) div 16) ((c - 1) mod 16) pitch velo"
  shows "noteout_float lt rt x (FFin (of_int pitch)) M = outmidi lt rt m M \<and>
    notein_list (notein_new (FFin (of_int c'))) (snd (inmidi (out_call (out_port m) m))) =
      Some (if c' = 0 then [(3, FFin (of_int c)), (2, FFin (of_int velo)), (1, FFin (of_int pitch))]
            else if c' = c then [(2, FFin (of_int velo)), (1, FFin (of_int pitch))] else [])"
proof -
  have "o_channel x = FFin (of_int c)" using assms(1) by (simp add: x_def noteout_new_def noteout_channel_def flt_def fval_def)
  then have "noteout_float lt rt x (FFin (of_int pitch)) M = outmidi lt rt m M"
    using assms(3-6) by (simp add: noteout_float_def Let_def binchan_int [OF assms(1,2)] drop_bit_eq_div b15 x_def m_def midi_val)
  moreover have "clip 127 pitch = pitch" "clip 127 velo = velo" using assms(3-6) by (simp_all add: clip_def)
  ultimately show ?thesis using assms(3-6)
    by (simp add: m_def channel_arg_int [OF assms(1,2)] midi_val notein_list_def notein_new_def Let_def out_if_def then_out_def)
qed

text \<open>A pitch bend from -8192 to 8191 sent by bendout comes out of bendin as it was, in the default mode, and from 0 to
  16383 in the legacy mode.
\<close>

theorem bend_values:
  assumes "1 \<le> c" "c \<le> 256" "- 8192 \<le> v" "v \<le> 8191" "\<bar>legacy\<bar> < 2 ^ 24"
  defines "m \<equiv> Out_pitchbend ((c - 1) div 16) ((c - 1) mod 16) (v + 8192)"
  shows "bendout_float lt rt (bendout_new (FFin (of_int c))) (FFin (of_int v)) M = outmidi lt rt m M \<and>
    bendin_list (bendin_new legacy [A_FLOAT (FFin (of_int c))]) (snd (inmidi (out_call (out_port m) m))) =
      Some [(1, FFin (of_int (if legacy = 0 then v else v + 8192)))]"
proof -
  have "o_channel (bendout_new (FFin (of_int c))) = FFin (of_int c)" using assms(1)
    by (simp add: bendout_new_def out_channel_def flt_def fval_def)
  moreover have "int_of_float (FFin (of_int v)) = v" using int_of_float_int [of v] assms(3,4) by simp
  moreover have "int_cast (v + 8192) = v + 8192" using assms(3,4) by (simp add: int_cast_small)
  ultimately have 1: "bendout_float lt rt (bendout_new (FFin (of_int c))) (FFin (of_int v)) M = outmidi lt rt m M"
    by (simp add: bendout_float_def Let_def binchan_int [OF assms(1,2)] drop_bit_eq_div b15 m_def)
  have clip: "clip 16383 (v + 8192) = v + 8192" using assms(3,4) by (simp add: clip_def)
  have val: "float_of_int (v + 8192) = FFin (of_int (v + 8192))" using float_of_int_exact [of "v + 8192"] assms(3,4) by simp
  have add: "fadd (FFin (of_int (v + 8192))) (FFin (of_int (-8192))) = FFin (of_int v)"
      "fadd (FFin (of_int (v + 8192))) (FFin (of_int 0)) = FFin (of_int (v + 8192))"
    using fadd_small [of "v + 8192" "-8192"] fadd_small [of "v + 8192" 0] assms(3,4) by simp_all
  have z: "feq (float_of_int legacy) (FFin 0) \<longleftrightarrow> legacy = 0" using float_of_int_exact [OF assms(5)] by simp
  show ?thesis using assms(1) 1 add
    by (simp add: m_def clip val channel_arg_int [OF assms(1,2)] bendin_list_def chanin_list_def bendin_new_def Let_def z del: of_int_add)
qed

text \<open>A ctlin made with a negative controller number and a channel has a null outlet, that the first message for the channel sends to.
\<close>

theorem ctlin_null_outlet:
  assumes "1 \<le> c" "c \<le> 256" "- 1000 \<le> k" "k < 0"
  shows "ctlin_list (ctlin_new [A_FLOAT (FFin (of_int k)), A_FLOAT (FFin (of_int c))])
    (snd (inmidi (In_controlchange ((c - 1) div 16) ((c - 1) mod 16) ctl v))) = None"
proof -
  have "int_of_float (FFin (of_int k)) = k" "int_of_float (FFin (of_int c)) = c"
    using int_of_float_int [of k] int_of_float_int [of c] assms by simp_all
  moreover have "float_of_int k = FFin (of_int k)" "float_of_int c = FFin (of_int c)"
    using float_of_int_exact [of k] float_of_int_exact [of c] assms by simp_all
  ultimately show ?thesis using assms
    by (simp add: ctlin_list_def ctlin_new_def Let_def channel_arg_int [OF assms(1,2)] flt_def fval_def out_if_def)
qed

section \<open>PortMidi\<close>

text \<open>
  C40: A real-time message that comes in through PortMidi is followed by the three zeros of its event, which are taken for data of the
  message in progress: after a note on, a clock tick makes another one, with pitch and velocity 0, and leaves the parser in the middle of a next.
\<close>

theorem pm_clock_injects:
  assumes "mp_status p = 0x90 + ch" "0 \<le> ch" "ch < 16" "mp_gotbyte1 p = 0" "0xf8 \<le> rt"
    "drop_bit 4 rt = 15"
  shows "pm_event_in (rt, 0, 0, 0) sysex = ([rt, 0, 0, 0], True) \<and>
    messages (fst (parse_bytes port [rt, 0, 0, 0] p)) = [In_noteon port ch 0 0] \<and>
    mp_gotbyte1 (snd (parse_bytes port [rt, 0, 0, 0] p)) = 1"
proof -
  have l: "legal_msg (Voice 0x90 ch [0, 0])" using assms(2,3) by (simp add: is_data_def data_length_def)
  have r: "parse_byte port rt p = ([In_realtime port rt], p)" using assms(5) by (simp add: parse_byte_def)
  define p1 where "p1 = p\<lparr>mp_byte1 := 0, mp_gotbyte1 := 1\<rparr>"
  have p1: "mp_status p1 = 0x90 + ch" using assms(1) by (simp add: p1_def)
  have z: "is_data 0" by (simp add: is_data_def)
  have 1: "parse_byte port 0 p = ([In_byte port 0], p1)"
    using data_byte_voice [OF l assms(1), of port 0] assms(4) by (simp add: parse_data [OF z] two_bytes_def p1_def)
  have 2: "parse_byte port 0 p1 = ([In_byte port 0, In_noteon port ch 0 0], p1\<lparr>mp_gotbyte1 := 0\<rparr>)"
    using data_byte_voice [OF l p1, of port 0] by (simp add: parse_data [OF z] two_bytes_def p1_def)
  have 3: "parse_byte port 0 (p1\<lparr>mp_gotbyte1 := 0\<rparr>) = ([In_byte port 0], p1)"
    using data_byte_voice [OF l, of "p1\<lparr>mp_gotbyte1 := 0\<rparr>" port 0] p1 by (simp add: parse_data [OF z] two_bytes_def p1_def)
  have "pm_event_in (rt, 0, 0, 0) sysex = ([rt, 0, 0, 0], True)"
    using assms(5,6) by (simp add: pm_event_in_def)
  then show ?thesis using r 1 2 3 by (simp add: p1_def)
qed

text \<open>Bytes put one after the other.\<close>

fun pm_put_bytes :: "int \<Rightarrow> int list \<Rightarrow> pm_out \<Rightarrow> pm_out option" where
  "pm_put_bytes portno [] x = Some x"
| "pm_put_bytes portno (b # bs) x = Option.bind (pm_putmidibyte portno b x) (pm_put_bytes portno bs)"

lemma pm_put_bytes_append: "pm_put_bytes q (xs @ ys) x = Option.bind (pm_put_bytes q xs x) (pm_put_bytes q ys)"
  by (induction xs arbitrary: x) (auto split: bind_splits)

lemma pm_events_in_append:
  "pm_events_in (xs @ ys) s = (let (b, s1) = pm_events_in xs s; (c, s2) = pm_events_in ys s1 in (b @ c, s2))"
  by (induction xs arbitrary: s) (auto simp: Let_def split: prod.splits)

text \<open>What has been written, read back.\<close>

definition pm_back :: "pm_out \<Rightarrow> int list \<times> bool" where
  "pm_back x = pm_events_in (map snd (pm_written x)) False"

lemma writemidi4_ok:
  assumes "0 \<le> q" "q < MAXMIDIOUTDEV"
  shows "writemidi4 q a b c d x = Some (x\<lparr>pm_written := pm_written x @ [(q, uchar a, uchar b, uchar c, uchar d)]\<rparr>)"
  using assms by (simp add: writemidi4_def)

lemma uchar_small [simp]: "0 \<le> b \<Longrightarrow> b < 256 \<Longrightarrow> uchar b = b"
  by (simp add: uchar_def)

lemma pm_back_snoc:
  "pm_back (x\<lparr>pm_written := pm_written x @ [(q, e)]\<rparr>) = (let (b, s) = pm_back x; (c, s') = pm_event_in e s in (b @ c, s'))"
  by (simp add: pm_back_def pm_events_in_append Let_def split: prod.splits)

lemma voice_nibble:
  assumes "kind \<in> {0x80, 0x90, 0xa0, 0xb0, 0xc0, 0xd0, 0xe0}" "0 \<le> ch" "ch < (16::int)"
  shows "drop_bit 4 (kind + ch) = kind div 16"
  using assms by (auto simp: drop_bit_eq_div)

text \<open>Between messages: no system exclusive message in progress, and the running status in the first byte, if there is one.\<close>

definition pm_ready :: "int \<Rightarrow> pm_out \<Rightarrow> bool" where
  "pm_ready running x \<longleftrightarrow> \<not> pm_sysex x \<and> (running \<noteq> 0 \<longrightarrow> pm_nbytes x = 1 \<and> pm_mess x 0 = running)"

lemma pm_voice_data:
  assumes l: "legal_msg (Voice kind ch ds)" and x: "pm_ready (kind + ch) x" and q: "0 \<le> q" "q < MAXMIDIOUTDEV"
    and bk: "pm_back x = (out, False)"
  shows "\<exists>x'. pm_put_bytes q ds x = Some x' \<and> pm_ready (kind + ch) x' \<and> pm_back x' = (out @ (kind + ch) # ds, False)"
proof -
  have kind: "kind \<in> {0x80, 0x90, 0xa0, 0xb0, 0xc0, 0xd0, 0xe0}" "0 \<le> ch" "ch < 16" using l by simp_all
  have st: "128 \<le> kind + ch" "kind + ch < 0xf0" using kind by auto
  have x: "\<not> pm_sysex x" "pm_nbytes x = 1" "pm_mess x 0 = kind + ch" using x st(1) by (auto simp: pm_ready_def)
  note parts = status_parts(1) [OF kind] voice_nibble [OF kind]
  show ?thesis
  proof (cases "data_length kind = 1")
    case True
    then obtain d where ds: "ds = [d]" "is_data d" using l by (auto simp: length_Suc_conv)
    have k: "kind = 0xc0 \<or> kind = 0xd0" using True by (auto simp: data_length_def split: if_splits)
    define x' where "x' = x\<lparr>pm_written := pm_written x @ [(q, kind + ch, d, 0, 0)], pm_nbytes := 1\<rparr>"
    have "pm_putmidibyte q d x = Some x'"
      using ds(2) x st k parts by (auto simp: pm_putmidibyte_def Let_def is_data_def writemidi4_ok [OF q] x'_def)
    moreover have "pm_event_in (kind + ch, d, 0, 0) False = ([kind + ch, d], False)"
      using k parts by (auto simp: pm_event_in_def)
    then have "pm_back x' = (out @ (kind + ch) # ds, False)"
      using pm_back_snoc [of x q "(kind + ch, d, 0, 0)"] bk by (simp add: x'_def ds pm_back_def)
    ultimately show ?thesis using x by (auto simp: ds(1) pm_ready_def x'_def)
  next
    case False
    then have two: "length ds = 2" "kind \<noteq> 0xc0" "kind \<noteq> 0xd0" using l by (auto simp: data_length_def split: if_splits)
    then obtain d e where ds: "ds = [d, e]" "is_data d" "is_data e" using l by (auto simp: length_Suc_conv numeral_2_eq_2)
    define x1 where "x1 = x\<lparr>pm_mess := (pm_mess x)(1 := d), pm_nbytes := 2\<rparr>"
    define x' where "x' = x1\<lparr>pm_written := pm_written x1 @ [(q, kind + ch, d, e, 0)], pm_nbytes := 1\<rparr>"
    have 1: "pm_putmidibyte q d x = Some x1"
      using ds(2) x st two parts kind(1) by (auto simp: pm_putmidibyte_def Let_def is_data_def x1_def)
    have 2: "pm_putmidibyte q e x1 = Some x'"
      using ds(2,3) x st two parts kind(1) by (auto simp: pm_putmidibyte_def Let_def is_data_def x1_def writemidi4_ok [OF q] x'_def)
    have "kind div 16 - 8 \<in> {0, 1, 2, 3, 6}" using kind(1) two by auto
    then have "pm_event_in (kind + ch, d, e, 0) False = ([kind + ch, d, e], False)" using parts by (auto simp: pm_event_in_def)
    then have "pm_back x' = (out @ (kind + ch) # ds, False)"
      using pm_back_snoc [of x1 q "(kind + ch, d, e, 0)"] bk by (simp add: x'_def x1_def ds pm_back_def)
    with 1 2 x show ?thesis by (auto simp: ds(1) pm_ready_def x1_def x'_def)
  qed
qed

text \<open>
  In a system exclusive message: of the bytes \<open>bs\<close> so far, the events of \<open>old\<close> have been written, the rest are kept.
\<close>

definition pm_in_sysex :: "int list \<Rightarrow> int list \<Rightarrow> int list \<Rightarrow> pm_out \<Rightarrow> bool" where
  "pm_in_sysex out old bs x \<longleftrightarrow> pm_sysex x \<and> pm_nbytes x < 4 \<and> bs = old @ map (pm_mess x) [0..<pm_nbytes x] \<and>
     pm_back x = (out @ old, old \<noteq> [])"

definition sysex_start :: "int list \<Rightarrow> bool" where
  "sysex_start bs \<longleftrightarrow> (\<exists>ds. bs = 0xf0 # ds \<and> list_all is_data ds)"

lemma data_nibble: "is_data d \<Longrightarrow> drop_bit 4 d < 8"
  by (simp add: is_data_def drop_bit_eq_div) linarith

lemma data_nibble': "is_data d \<Longrightarrow> 0 \<le> drop_bit 4 d"
  by (simp add: is_data_def)

lemma sysex_word:
  assumes "w0 = 0xf0 \<or> sysex \<and> is_data w0" "is_data w1" "is_data w2" "is_data w3"
  shows "pm_event_in (w0, w1, w2, w3) sysex = ([w0, w1, w2, w3], True)"
  using assms data_nibble [of w0] data_nibble' [of w0] by (auto simp: pm_event_in_def is_data_def Let_def)

text \<open>The word with the end: what is kept of the message, then \<open>0xf7\<close>, then zeros.\<close>

definition end_word :: "int list \<Rightarrow> pm_event" where
  "end_word ws = (let v = ws @ [0xf7] @ replicate (3 - length ws) 0 in (v ! 0, v ! 1, v ! 2, v ! 3))"

lemma short_list: "length ws < 4 \<Longrightarrow> ws = [] \<or> (\<exists>a. ws = [a]) \<or> (\<exists>a b. ws = [a, b]) \<or> (\<exists>a b c. ws = [a, b, c])"
  by (cases ws; cases "tl ws"; cases "tl (tl ws)"; cases "tl (tl (tl ws))") auto

lemma sysex_end:
  assumes "length ws < 4" "ws \<noteq> [] \<Longrightarrow> ws ! 0 = 0xf0 \<or> sysex \<and> is_data (ws ! 0)" "list_all is_data (tl ws)"
  shows "pm_event_in (end_word ws) sysex = (ws @ [0xf7], False)"
proof -
  have f7: "\<not> is_data 0xf7" by (simp add: is_data_def)
  have n: "ws \<noteq> [] \<Longrightarrow> ws ! 0 \<noteq> 0xf7" using assms(2) f7 by auto
  from short_list [OF assms(1)] show ?thesis
  proof (elim disjE exE)
    assume "ws = []"
    then show ?thesis by (simp add: end_word_def pm_event_in_def)
  next
    fix a
    assume "ws = [a]"
    with assms(2) n show ?thesis using data_nibble [of a] data_nibble' [of a] by (auto simp: end_word_def pm_event_in_def Let_def numeral_2_eq_2 numeral_3_eq_3)
  next
    fix a b
    assume "ws = [a, b]"
    with assms(2,3) n f7 show ?thesis using data_nibble [of a] data_nibble' [of a]
      by (auto simp: end_word_def pm_event_in_def Let_def is_data_def numeral_2_eq_2 numeral_3_eq_3)
  next
    fix a b c
    assume "ws = [a, b, c]"
    with assms(2,3) n f7 show ?thesis using data_nibble [of a] data_nibble' [of a]
      by (auto simp: end_word_def pm_event_in_def Let_def is_data_def numeral_2_eq_2 numeral_3_eq_3)
  qed
qed

lemma sysex_parts:
  assumes "sysex_start (old @ ws)"
  shows "ws \<noteq> [] \<Longrightarrow> ws ! 0 = 0xf0 \<or> old \<noteq> [] \<and> is_data (ws ! 0)" "list_all is_data (tl ws)" "\<And>b. b \<in> set ws \<Longrightarrow> 0 \<le> b \<and> b < 256"
proof -
  obtain ds where ds: "old @ ws = 0xf0 # ds" "list_all is_data ds" using assms by (auto simp: sysex_start_def)
  have sub: "set (tl ws) \<subseteq> set ws" by (cases ws) auto
  have "(old = [] \<and> ws = 0xf0 # ds) \<or> (\<exists>o'. old = 0xf0 # o' \<and> ds = o' @ ws)" using ds(1) by (cases old) auto
  then show "ws \<noteq> [] \<Longrightarrow> ws ! 0 = 0xf0 \<or> old \<noteq> [] \<and> is_data (ws ! 0)" "list_all is_data (tl ws)"
    using ds(2) sub by (auto simp: list_all_iff neq_Nil_conv)
  have "set ws \<subseteq> set (old @ ws)" by simp
  then have "b \<in> set ws \<Longrightarrow> b = 0xf0 \<or> is_data b" for b using ds(2) unfolding ds(1) by (auto simp: list_all_iff)
  then show "\<And>b. b \<in> set ws \<Longrightarrow> 0 \<le> b \<and> b < 256" by (force simp: is_data_def)
qed

lemma pm_sysex_data:
  assumes x: "pm_in_sysex out old bs x" and bs: "sysex_start bs" and d: "is_data d" and q: "0 \<le> q" "q < MAXMIDIOUTDEV"
  shows "\<exists>x' old'. pm_putmidibyte q d x = Some x' \<and> pm_in_sysex out old' (bs @ [d]) x'"
proof -
  define n where "n = pm_nbytes x"
  define ws where "ws = map (pm_mess x) [0..<n]"
  have x: "pm_sysex x" "n < 4" "bs = old @ ws" "pm_back x = (out @ old, old \<noteq> [])" using x by (simp_all add: pm_in_sysex_def n_def ws_def)
  have d': "0 \<le> d" "d < 128" using d by (simp_all add: is_data_def)
  have m: "map ((pm_mess x)(n := d)) [0..<Suc n] = ws @ [d]" by (simp add: ws_def)
  show ?thesis
  proof (cases "n = 3")
    case False
    define x' where "x' = x\<lparr>pm_mess := (pm_mess x)(n := d), pm_nbytes := n + 1\<rparr>"
    have "pm_putmidibyte q d x = Some x'" using x(1,2) False d' by (simp add: pm_putmidibyte_def Let_def n_def x'_def)
    moreover have "pm_in_sysex out old (bs @ [d]) x'"
      using x(1-4) False m by (simp add: pm_in_sysex_def x'_def pm_back_def)
    ultimately show ?thesis by blast
  next
    case True
    obtain a b c where ws: "ws = [a, b, c]" "pm_mess x 0 = a" "pm_mess x 1 = b" "pm_mess x 2 = c"
      by (simp add: ws_def True upt_conv_Cons numeral_3_eq_3 numeral_2_eq_2)
    note parts = sysex_parts [OF bs [unfolded x(3)]]
    have r: "uchar a = a" "uchar b = b" "uchar c = c" "uchar d = d" using parts(3) d' by (simp_all add: ws(1))
    define x1 where "x1 = x\<lparr>pm_written := pm_written x @ [(q, a, b, c, d)]\<rparr>"
    define x' where "x' = x1\<lparr>pm_mess := (pm_mess x)(3 := d), pm_nbytes := 0\<rparr>"
    have "pm_putmidibyte q d x = Some x'"
      using x(1) True d' ws(2-4) r by (simp add: pm_putmidibyte_def Let_def n_def [symmetric] writemidi4_ok [OF q] x1_def x'_def)
    moreover have "pm_event_in (a, b, c, d) (old \<noteq> []) = ([a, b, c, d], True)"
      using parts(1,2) d by (intro sysex_word) (simp_all add: ws(1))
    then have "pm_back x1 = (out @ old @ [a, b, c, d], True)"
      using pm_back_snoc [of x q "(a, b, c, d)"] x(4) by (simp add: x1_def)
    then have "pm_in_sysex out (old @ ws @ [d]) (bs @ [d]) x'"
      using x(1,3) by (simp add: pm_in_sysex_def x'_def x1_def pm_back_def ws(1))
    ultimately show ?thesis by blast
  qed
qed

lemma pm_sysex_datas:
  "pm_in_sysex out old bs x \<Longrightarrow> sysex_start bs \<Longrightarrow> list_all is_data ds \<Longrightarrow> 0 \<le> q \<Longrightarrow> q < MAXMIDIOUTDEV \<Longrightarrow>
    \<exists>x' old'. pm_put_bytes q ds x = Some x' \<and> pm_in_sysex out old' (bs @ ds) x'"
proof (induction ds arbitrary: old bs x)
  case (Cons d ds)
  then have d: "is_data d" "list_all is_data ds" by simp_all
  from pm_sysex_data [OF Cons.prems(1,2) d(1) Cons.prems(4,5)] obtain x1 old1 where
    1: "pm_putmidibyte q d x = Some x1" "pm_in_sysex out old1 (bs @ [d]) x1" by blast
  have "sysex_start (bs @ [d])" using Cons.prems(2) d(1) by (auto simp: sysex_start_def)
  from Cons.IH [OF 1(2) this d(2) Cons.prems(4,5)] 1(1) show ?case by auto
qed auto

lemma pm_sysex_finish:
  assumes x: "pm_in_sysex out old bs x" and bs: "sysex_start bs" and q: "0 \<le> q" "q < MAXMIDIOUTDEV"
  shows "\<exists>x'. pm_putmidibyte q 0xf7 x = Some x' \<and> pm_ready 0 x' \<and> pm_back x' = (out @ bs @ [0xf7], False)"
proof -
  define n where "n = pm_nbytes x"
  define ws where "ws = map (pm_mess x) [0..<n]"
  define m where "m = (\<lambda>i. if i = n then 0xf7 else if n < i then 0 else pm_mess x i)"
  have x: "pm_sysex x" "n < 4" "bs = old @ ws" "pm_back x = (out @ old, old \<noteq> [])" using x by (simp_all add: pm_in_sysex_def n_def ws_def)
  note parts = sysex_parts [OF bs [unfolded x(3)]]
  have v: "m i = (ws @ [0xf7] @ replicate (3 - length ws) 0) ! i" if "i < 4" for i
    using that x(2) by (auto simp: m_def ws_def nth_append nth_Cons')
  then have e: "(m 0, m 1, m 2, m 3) = end_word ws" by (simp add: end_word_def Let_def)
  have "0 \<le> m i \<and> m i < 256" for i
    using parts(3) by (auto simp: m_def ws_def)
  then have u: "uchar (m i) = m i" for i by simp
  define x1 where "x1 = x\<lparr>pm_written := pm_written x @ [(q, end_word ws)]\<rparr>"
  have "pm_putmidibyte q 0xf7 x = map_option (\<lambda>x. x\<lparr>pm_mess := m, pm_sysex := False, pm_nbytes := 0\<rparr>)
      (writemidi4 q (m 0) (m 1) (m 2) (m 3) x)"
    using x(2) unfolding pm_putmidibyte_def Let_def m_def n_def by simp
  also have "\<dots> = Some (x1\<lparr>pm_mess := m, pm_sysex := False, pm_nbytes := 0\<rparr>)"
    unfolding writemidi4_ok [OF q] u e by (simp add: x1_def)
  finally have "pm_putmidibyte q 0xf7 x = Some (x1\<lparr>pm_mess := m, pm_sysex := False, pm_nbytes := 0\<rparr>)" .
  moreover have "pm_event_in (end_word ws) (old \<noteq> []) = (ws @ [0xf7], False)"
    using x(2) parts(1,2) by (intro sysex_end) (auto simp: ws_def)
  then have "pm_back x1 = (out @ bs @ [0xf7], False)"
    using pm_back_snoc [of x q "end_word ws"] x(3,4) by (simp add: x1_def)
  ultimately show ?thesis by (auto simp: pm_ready_def pm_back_def x1_def)
qed

lemma encode_full: "encode r (map (\<lambda>m. (fst m, False)) ms) = concat (map (\<lambda>m. encode 0 [(fst m, False)]) ms)"
proof (induction ms arbitrary: r)
  case (Cons m ms)
  then show ?case by (cases "fst m") auto
qed simp

fun no_common :: "midi_msg \<Rightarrow> bool" where
  "no_common (Common _ _) = False"
| "no_common _ = True"

lemma pm_put_encode:
  assumes "list_all (\<lambda>m. legal_msg (fst m) \<and> no_common (fst m)) ms" "0 \<le> q" "q < MAXMIDIOUTDEV"
  shows "pm_ready running x \<Longrightarrow> pm_back x = (out, False) \<Longrightarrow>
    \<exists>x'. pm_put_bytes q (encode running ms) x = Some x' \<and> pm_back x' = (out @ concat (map (\<lambda>m. encode 0 [(fst m, False)]) ms), False)"
  using assms(1)
proof (induction ms arbitrary: running x out)
  case (Cons m ms)
  obtain msg omit where m: "m = (msg, omit)" by (cases m)
  have legal: "legal_msg msg" "no_common msg" "list_all (\<lambda>m. legal_msg (fst m) \<and> no_common (fst m)) ms" using Cons.prems(3) m by simp_all
  show ?case
  proof (cases msg)
    case (Voice kind ch ds)
    note v = legal(1) [unfolded Voice]
    have st: "128 \<le> kind + ch" "kind + ch < 0xf0" using v by auto
    have "\<exists>x1. pm_put_bytes q (if omit \<and> running = kind + ch then [] else [kind + ch]) x = Some x1 \<and> pm_ready (kind + ch) x1 \<and>
        pm_back x1 = (out, False)"
      using Cons.prems(1,2) st by (auto simp: pm_putmidibyte_def Let_def pm_ready_def pm_back_def)
    then obtain x1 where 1: "pm_put_bytes q (if omit \<and> running = kind + ch then [] else [kind + ch]) x = Some x1"
      "pm_ready (kind + ch) x1" "pm_back x1 = (out, False)" by blast
    from pm_voice_data [OF v 1(2) assms(2,3) 1(3)] obtain x2 where
      2: "pm_put_bytes q ds x1 = Some x2" "pm_ready (kind + ch) x2" "pm_back x2 = (out @ (kind + ch) # ds, False)" by blast
    from Cons.IH [OF 2(2,3) legal(3)] obtain x' where
      3: "pm_put_bytes q (encode (kind + ch) ms) x2 = Some x'"
        "pm_back x' = ((out @ (kind + ch) # ds) @ concat (map (\<lambda>m. encode 0 [(fst m, False)]) ms), False)" by blast
    have "pm_put_bytes q (encode running (m # ms)) x = Some x'"
      using 1(1) 2(1) 3(1) by (simp add: m Voice pm_put_bytes_append del: pm_put_bytes.simps(2))
    with 3(2) show ?thesis by (simp add: m Voice)
  next
    case (Sysex ds)
    define x1 where "x1 = x\<lparr>pm_mess := (pm_mess x)(0 := 0xf0), pm_nbytes := 1, pm_sysex := True\<rparr>"
    have 1: "pm_putmidibyte q 0xf0 x = Some x1" by (simp add: pm_putmidibyte_def Let_def x1_def)
    have s: "pm_in_sysex out [] [0xf0] x1" "sysex_start [0xf0]" "list_all is_data ds"
      using Cons.prems(2) legal(1) by (simp_all add: pm_in_sysex_def x1_def pm_back_def sysex_start_def Sysex)
    from pm_sysex_datas [OF s assms(2,3)] obtain x2 old where
      2: "pm_put_bytes q ds x1 = Some x2" "pm_in_sysex out old ([0xf0] @ ds) x2" by blast
    have "sysex_start ([0xf0] @ ds)" using s(3) by (simp add: sysex_start_def)
    from pm_sysex_finish [OF 2(2) this assms(2,3)] obtain x3 where
      3: "pm_putmidibyte q 0xf7 x2 = Some x3" "pm_ready 0 x3" "pm_back x3 = (out @ ([0xf0] @ ds) @ [0xf7], False)" by blast
    from Cons.IH [OF 3(2,3) legal(3)] obtain x' where
      4: "pm_put_bytes q (encode 0 ms) x3 = Some x'"
        "pm_back x' = ((out @ ([0xf0] @ ds) @ [0xf7]) @ concat (map (\<lambda>m. encode 0 [(fst m, False)]) ms), False)" by blast
    show ?thesis using 1 2(1) 3(1) 4 by (simp add: m Sysex pm_put_bytes_append)
  qed (use legal(2) in simp)
qed simp

definition pm_out0 :: pm_out where
  "pm_out0 = \<lparr>pm_mess = (\<lambda>_. 0), pm_nbytes = 0, pm_sysex = False, pm_written = []\<rparr>"


lemma midi_rd: "rd 0 = 0" "rd 1 = 1"
  using rd_nat [of 0] rd_nat [of 1] by simp_all

text \<open>Two notes on port 2, the second with running status, with a clock tick in the first; port 0 sends in between.\<close>

definition two_notes :: "midi_ev list" where
  "two_notes = [Byte_in 0 0 2 0x90, Byte_in 0 0 0 0xc0, Byte_in 0 0 2 60, Byte_in 0 0 2 0xf8, Byte_in 0 0 2 100, Poll_in 0,
     Byte_in 0 0 2 62, Byte_in 0 0 0 5, Byte_in 0 0 2 0]"

theorem midi_input_messages_witness:
  "\<exists>M'. midi_run (two_notes @ [Poll_in 1]) midi0 = Some M' \<and>
    messages (filter (\<lambda>c. call_port c = 2) (m_calls M')) = [In_noteon 2 0 60 100, In_noteon 2 0 62 0]"
  using midi_input_messages [of 1 two_notes 2 "[(Voice 0x90 0 [60, 100], False), (Voice 0x90 0 [62, 0], True)]"]
  by (simp add: two_notes_def data_length_def is_data_def midi_rd del: midi_run.simps)

definition note_and_bend :: "out_ev list" where
  "note_and_bend = [Out 0 0 (Out_noteon 1 3 60 200), Out 0 0 (Out_programchange 0 3 7), Poll_out 0, Out 0 0 (Out_pitchbend 1 3 9000)]"

lemma note_and_bend_ok: "list_all (out_ev_ok 2 1) note_and_bend"
  by (simp add: note_and_bend_def midi_rd)

definition bytes_back :: "midi_ev list" where
  "bytes_back = map (Byte_in 0 0 5) [0x93, 60, 127, 0xe3, 40, 70]"

theorem midi_loopback_witness:
  "\<exists>M M'. out_run (note_and_bend @ [Poll_out 1]) midi0 = Some M \<and> midi_run (bytes_back @ [Poll_in 1]) midi0 = Some M' \<and>
    messages (filter (\<lambda>c. call_port c = 5) (m_calls M')) = [In_noteon 5 3 60 127, In_pitchbend 5 3 9000]"
proof -
  from out_run_sent [OF note_and_bend_ok, of 1] obtain M where
    M: "out_run (note_and_bend @ [Poll_out 1]) midi0 = Some M"
      "sent_bytes 2 1 (m_put M) = encode 0 (map (\<lambda>m. (out_voice m, False)) (port_msgs 1 note_and_bend))" by blast
  have "sent_bytes 2 1 (m_put M) = [0x93, 60, 127, 0xe3, 40, 70]"
    unfolding M(2) by (simp add: port_msgs_def note_and_bend_def clip_def)
  moreover have "list_all (ev_ok 1) bytes_back" by (simp add: bytes_back_def midi_rd)
  moreover have "filter (\<lambda>b. b < 0xf8) (port_bytes 5 bytes_back) = [0x93, 60, 127, 0xe3, 40, 70]" by (simp add: bytes_back_def)
  ultimately have "\<exists>M'. midi_run (bytes_back @ [Poll_in 1]) midi0 = Some M' \<and>
      messages (filter (\<lambda>c. call_port c = 5) (m_calls M')) = map (out_call 5) (port_msgs 1 note_and_bend)"
    by (intro midi_loopback [OF note_and_bend_ok M(1)]) simp_all
  with M(1) show ?thesis by (simp add: port_msgs_def note_and_bend_def clip_def)
qed

theorem midi_output_fifo_witness:
  "\<exists>M'. out_run (note_and_bend @ [Poll_out 1]) midi0 = Some M' \<and>
    m_put M' = [Put_mess 1 0x93 60 127, Put_mess 0 0xc3 7 0, Put_mess 1 0xe3 40 70]"
  using midi_output_fifo [OF note_and_bend_ok]
  by (simp add: note_and_bend_def out_elem_of_def put_of_def out_elem_def clip_def uchar_def)

theorem note_channels_witness:
  "noteout_float 0 0 ((noteout_new (FFin 18))\<lparr>o_arg := FFin 100\<rparr>) (FFin 60) midi0 = outmidi 0 0 (Out_noteon 1 1 60 100) midi0 \<and>
    notein_list (notein_new (FFin 18)) (snd (inmidi (In_noteon 1 1 60 100))) = Some [(2, FFin 100), (1, FFin 60)]"
  using note_channels [of 18 60 100 0 0 midi0 18] by (simp add: clip_def)

theorem bend_values_witness:
  "bendout_float 0 0 (bendout_new (FFin 1)) (FFin (-8192)) midi0 = outmidi 0 0 (Out_pitchbend 0 0 0) midi0 \<and>
    bendin_list (bendin_new 0 [A_FLOAT (FFin 1)]) (snd (inmidi (In_pitchbend 0 0 0))) = Some [(1, FFin (-8192))]"
  using bend_values [where c = 1 and v = "-8192" and legacy = 0 and lt = 0 and rt = 0 and M = midi0] by (simp add: clip_def)

theorem ctlin_null_outlet_witness:
  "ctlin_list (ctlin_new [A_FLOAT (FFin (-1)), A_FLOAT (FFin 2)]) (snd (inmidi (In_controlchange 0 1 7 64))) = None"
  using ctlin_null_outlet [of 2 "-1" 7 64] by simp

theorem pm_clock_injects_witness:
  "pm_event_in (0xf8, 0, 0, 0) False = ([0xf8, 0, 0, 0], True) \<and>
    messages (fst (parse_bytes 0 [0xf8, 0, 0, 0] \<lparr>mp_status = 0x95, mp_gotbyte1 = 0, mp_byte1 = 60\<rparr>)) = [In_noteon 0 5 0 0]"
  using pm_clock_injects [where p = "\<lparr>mp_status = 0x95, mp_gotbyte1 = 0, mp_byte1 = 60\<rparr>" and ch = 5 and rt = "0xf8" and sysex = False and port = 0] by simp


end
