(* ===== verification/Notes.thy ===== *)
theory Notes
  imports MidiObj Time
begin

text \<open>
  The objects of \<open>src/pd/src/x_midi.c\<close> that keep notes: makenote, stripnote, poly and bag. What is sent out of an outlet goes to the
  parameter \<open>out\<close>, with the number of the outlet; it can send messages back to the object, and \<open>'e\<close> is the state of the
  other objects. The hangs of makenote are cells of a heap, linked by their \<open>nh_next\<close> (0 is the null pointer); the clock of a hang
  has the number of the hang. Using a cell that has been freed gives \<open>None\<close>.
\<close>

section \<open>makenote\<close>

record note_hang =
  nh_pitch :: t_float
  nh_next :: nat

record makenote =
  mn_velo :: t_float
  mn_dur :: rat
  mn_first :: nat
  mn_hangs :: "nat \<Rightarrow> note_hang option"

type_synonym 'e note_world = "'e \<times> makenote \<times> sched"
type_synonym 'e note_out = "nat \<Rightarrow> t_float \<Rightarrow> 'e note_world \<Rightarrow> 'e note_world option"

abbreviation pitchout :: nat where "pitchout \<equiv> 1"
abbreviation velout :: nat where "velout \<equiv> 2"

definition makenote_new :: "t_float \<Rightarrow> rat \<Rightarrow> makenote" where
  "makenote_new velo dur = \<lparr>mn_velo = velo, mn_dur = dur, mn_first = 0, mn_hangs = (\<lambda>_. None)\<rparr>"

text \<open>The search from \<open>h2\<close> on for the hang before \<open>h\<close>, which is made to point past it.\<close>

partial_function (option) note_unlink :: "nat \<Rightarrow> nat \<Rightarrow> (nat \<Rightarrow> note_hang option) \<Rightarrow> (nat \<Rightarrow> note_hang option) option" where
  "note_unlink h h2 hs =
     (case hs h2 of
        None \<Rightarrow> None
      | Some n2 \<Rightarrow>
          if nh_next n2 = 0 then Some hs
          else if nh_next n2 = h then
            (case hs h of None \<Rightarrow> None | Some n3 \<Rightarrow> Some (hs(h2 \<mapsto> n2\<lparr>nh_next := nh_next n3\<rparr>)))
          else note_unlink h (nh_next n2) hs)"

definition note_pitch :: "nat \<Rightarrow> makenote \<Rightarrow> t_float option" where
  "note_pitch h x = map_option nh_pitch (mn_hangs x h)"

text \<open>A hang is freed together with its clock.\<close>

definition note_free :: "nat \<Rightarrow> makenote \<times> sched \<Rightarrow> (makenote \<times> sched) option" where
  "note_free h w =
     (let (x, s) = w in
      if mn_hangs x h = None then None
      else map_option (\<lambda>s1. (x\<lparr>mn_hangs := (mn_hangs x)(h := None)\<rparr>, s1)) (clock_free h s))"

text \<open>The velocity 0 and the pitch of a hang, which is read between the two.\<close>

definition note_off :: "'e note_out \<Rightarrow> nat \<Rightarrow> 'e note_world \<Rightarrow> 'e note_world option" where
  "note_off out h w =
     Option.bind (out velout (FFin 0) w) (\<lambda>w1.
     Option.bind (note_pitch h (fst (snd w1))) (\<lambda>p. out pitchout p w1))"

definition makenote_tick :: "'e note_out \<Rightarrow> nat \<Rightarrow> 'e note_world \<Rightarrow> 'e note_world option" where
  "makenote_tick out h w =
     Option.bind (note_off out h w) (\<lambda>(e, x, s).
     case mn_hangs x h of
       None \<Rightarrow> None
     | Some hg \<Rightarrow>
         Option.bind
           (if mn_first x = h then Some (x\<lparr>mn_first := nh_next hg\<rparr>)
            else map_option (\<lambda>hs. x\<lparr>mn_hangs := hs\<rparr>) (note_unlink h (mn_first x) (mn_hangs x)))
           (\<lambda>x1. map_option (Pair e) (note_free h (x1, s))))"

text \<open>\<open>h\<close> is where the new hang is put.\<close>

definition makenote_float :: "'e note_out \<Rightarrow> nat \<Rightarrow> t_float \<Rightarrow> 'e note_world \<Rightarrow> 'e note_world option" where
  "makenote_float out h f w =
     (if feq (mn_velo (fst (snd w))) (FFin 0) then Some w
      else
        Option.bind (out velout (mn_velo (fst (snd w))) w) (\<lambda>w1.
        Option.bind (out pitchout f w1) (\<lambda>(e, x, s).
        map_option
          (\<lambda>s1. (e, x\<lparr>mn_first := h, mn_hangs := (mn_hangs x)(h \<mapsto> \<lparr>nh_pitch = f, nh_next = mn_first x\<rparr>)\<rparr>, s1))
          (clock_delay h (if mn_dur x \<ge> 0 then mn_dur x else 0) (clock_create h s)))))"

partial_function (option) makenote_stop :: "'e note_out \<Rightarrow> 'e note_world \<Rightarrow> 'e note_world option" where
  "makenote_stop out w =
     (let h = mn_first (fst (snd w)) in
      if h = 0 then Some w
      else
        Option.bind (note_off out h w) (\<lambda>(e, x, s).
        case mn_hangs x h of
          None \<Rightarrow> None
        | Some hg \<Rightarrow>
            Option.bind (note_free h (x\<lparr>mn_first := nh_next hg\<rparr>, s)) (\<lambda>(x1, s1). makenote_stop out (e, x1, s1))))"

partial_function (option) makenote_clear :: "makenote \<times> sched \<Rightarrow> (makenote \<times> sched) option" where
  "makenote_clear w =
     (let h = mn_first (fst w) in
      if h = 0 then Some w
      else
        (case mn_hangs (fst w) h of
           None \<Rightarrow> None
         | Some hg \<Rightarrow> Option.bind (note_free h ((fst w)\<lparr>mn_first := nh_next hg\<rparr>, snd w)) makenote_clear))"

section \<open>stripnote\<close>

text \<open>Notes whose velocity is 0 are dropped.\<close>

definition stripnote_float :: "(nat \<Rightarrow> t_float \<Rightarrow> 'w \<Rightarrow> 'w option) \<Rightarrow> t_float \<Rightarrow> t_float \<Rightarrow> 'w \<Rightarrow> 'w option" where
  "stripnote_float out velo f w =
     (if feq velo (FFin 0) then Some w else Option.bind (out velout velo w) (out pitchout f))"

section \<open>poly\<close>

record voice =
  v_pitch :: t_float
  v_used :: bool
  v_serial :: nat

record poly =
  p_vec :: "voice list"
  p_vel :: t_float
  p_serial :: nat
  p_steal :: bool

type_synonym 'e poly_out = "nat \<Rightarrow> t_float \<Rightarrow> 'e \<times> poly \<Rightarrow> 'e \<times> poly"

abbreviation NOSERIAL :: nat where "NOSERIAL \<equiv> 0xffffffff"

definition poly_new :: "t_float \<Rightarrow> t_float \<Rightarrow> poly" where
  "poly_new fnvoice fsteal =
     (let n = (if int_of_float fnvoice < 1 then 1 else int_of_float fnvoice) in
      \<lparr>p_vec = replicate (nat n) \<lparr>v_pitch = FFin 0, v_used = False, v_serial = 0\<rparr>, p_vel = FFin 0, p_serial = 0,
       p_steal = (\<not> feq fsteal (FFin 0))\<rparr>)"

text \<open>The scan of the voices for the oldest that satisfies \<open>P\<close>: the best so far, its serial number, the index.\<close>

fun oldest :: "(voice \<Rightarrow> bool) \<Rightarrow> voice list \<Rightarrow> nat \<Rightarrow> nat option \<Rightarrow> nat \<Rightarrow> nat option" where
  "oldest P [] i best serial = best"
| "oldest P (v # vs) i best serial =
     (if P v \<and> v_serial v < serial then oldest P vs (i + 1) (Some i) (v_serial v) else oldest P vs (i + 1) best serial)"

text \<open>The scan for a note on looks for the oldest voice that is on and the oldest that is off.\<close>

definition firston :: "poly \<Rightarrow> nat option" where
  "firston x = oldest v_used (p_vec x) 0 None NOSERIAL"

definition firstoff :: "poly \<Rightarrow> nat option" where
  "firstoff x = oldest (\<lambda>v. \<not> v_used v) (p_vec x) 0 None NOSERIAL"

definition firstmatch :: "t_float \<Rightarrow> poly \<Rightarrow> nat option" where
  "firstmatch f x = oldest (\<lambda>v. v_used v \<and> feq (v_pitch v) f) (p_vec x) 0 None NOSERIAL"

definition put_voice :: "nat \<Rightarrow> (voice \<Rightarrow> voice) \<Rightarrow> poly \<Rightarrow> poly" where
  "put_voice i g x = x\<lparr>p_vec := (p_vec x)[i := g (p_vec x ! i)]\<rparr>"

text \<open>\<open>v_serial = x_serial++\<close> of an \<open>unsigned long\<close>.\<close>

definition stamp :: "nat \<Rightarrow> poly \<Rightarrow> poly" where
  "stamp i x = (put_voice i (\<lambda>v. v\<lparr>v_serial := p_serial x\<rparr>) x)\<lparr>p_serial := (p_serial x + 1) mod 2 ^ 64\<rparr>"

definition index_out :: "nat \<Rightarrow> t_float" where
  "index_out i = float_of_int (int (i + 1))"

definition poly_float :: "'e poly_out \<Rightarrow> t_float \<Rightarrow> 'e \<times> poly \<Rightarrow> 'e \<times> poly" where
  "poly_float out f w =
     (let x = snd w in
      if flt (FFin 0) (p_vel x) then
        (case firstoff x of
           Some i \<Rightarrow>
             let w1 = out velout (p_vel x) w;
                 w2 = out pitchout f (fst w1, put_voice i (\<lambda>v. v\<lparr>v_pitch := f\<rparr>) (snd w1));
                 w3 = out 0 (index_out i) w2 in
             (fst w3, stamp i (put_voice i (\<lambda>v. v\<lparr>v_used := True\<rparr>) (snd w3)))
         | None \<Rightarrow>
             (case firston x of
                Some i \<Rightarrow>
                  if p_steal x then
                    let w1 = out velout (FFin 0) w;
                        w2 = out pitchout (v_pitch (p_vec (snd w1) ! i)) w1;
                        w3 = out 0 (index_out i) w2;
                        w4 = out velout (p_vel (snd w3)) w3;
                        w5 = out pitchout f (fst w4, put_voice i (\<lambda>v. v\<lparr>v_pitch := f\<rparr>) (snd w4));
                        w6 = out 0 (index_out i) w5 in
                    (fst w6, stamp i (snd w6))
                  else w
              | None \<Rightarrow> w))
      else
        (case firstmatch f x of
           Some i \<Rightarrow>
             let w0 = (fst w, stamp i (put_voice i (\<lambda>v. v\<lparr>v_used := False\<rparr>) x));
                 w1 = out velout (FFin 0) w0;
                 w2 = out pitchout (v_pitch (p_vec (snd w1) ! i)) w1 in
             out 0 (index_out i) w2
         | None \<Rightarrow> w))"

fun poly_stop_loop :: "'e poly_out \<Rightarrow> nat list \<Rightarrow> 'e \<times> poly \<Rightarrow> 'e \<times> poly" where
  "poly_stop_loop out [] w = w"
| "poly_stop_loop out (i # is) w =
     poly_stop_loop out is
       (if v_used (p_vec (snd w) ! i) then
          let w1 = out velout (FFin 0) w;
              w2 = out pitchout (v_pitch (p_vec (snd w1) ! i)) w1;
              w3 = out 0 (index_out i) w2 in
          (fst w3, stamp i (put_voice i (\<lambda>v. v\<lparr>v_used := False\<rparr>) (snd w3)))
        else w)"

definition poly_stop :: "'e poly_out \<Rightarrow> 'e \<times> poly \<Rightarrow> 'e \<times> poly" where
  "poly_stop out w = poly_stop_loop out [0..<length (p_vec (snd w))] w"

definition poly_clear :: "poly \<Rightarrow> poly" where
  "poly_clear x = x\<lparr>p_vec := map (\<lambda>v. v\<lparr>v_used := False, v_serial := 0\<rparr>) (p_vec x)\<rparr>"

section \<open>bag\<close>

text \<open>The elements, each with the number of its cell, in the order of the list; new ones are put at its end.\<close>

record bag =
  b_velo :: t_float
  b_elems :: "(nat \<times> t_float) list"

type_synonym 'e bag_out = "t_float \<Rightarrow> 'e \<times> bag \<Rightarrow> ('e \<times> bag) option"

definition bag_new :: bag where
  "bag_new = \<lparr>b_velo = FFin 0, b_elems = []\<rparr>"

fun bag_remove :: "t_float \<Rightarrow> (nat \<times> t_float) list \<Rightarrow> (nat \<times> t_float) list" where
  "bag_remove f [] = []"
| "bag_remove f (e # es) = (if feq (snd e) f then es else e # bag_remove f es)"

definition bag_float :: "nat \<Rightarrow> t_float \<Rightarrow> bag \<Rightarrow> bag" where
  "bag_float c f x =
     (if \<not> feq (b_velo x) (FFin 0) then x\<lparr>b_elems := b_elems x @ [(c, f)]\<rparr>
      else x\<lparr>b_elems := bag_remove f (b_elems x)\<rparr>)"

text \<open>After the element has been sent out, the list goes on from its link; an element no longer in the list has been freed.\<close>

partial_function (option) bag_flush :: "'e bag_out \<Rightarrow> 'e \<times> bag \<Rightarrow> ('e \<times> bag) option" where
  "bag_flush out w =
     (case b_elems (snd w) of
        [] \<Rightarrow> Some w
      | (c, f) # _ \<Rightarrow>
          Option.bind (out f w) (\<lambda>(e, x).
          case b_elems x of
            [] \<Rightarrow> None
          | (c1, f1) # es \<Rightarrow> if c1 = c then bag_flush out (e, x\<lparr>b_elems := es\<rparr>) else None))"

definition bag_clear :: "bag \<Rightarrow> bag" where
  "bag_clear x = x\<lparr>b_elems := []\<rparr>"

end
