(* ===== verification/NotesSpec.thy ===== *)
theory NotesSpec
  imports Notes
begin

text \<open>
  poly is an allocator of voices: those that are free wait in a queue, those that sound in another, as long as the serial numbers
  fit into 32 bits; then it falls silent.
\<close>

section \<open>The oldest voice\<close>

text \<open>The order of the scan: by serial number, then by index.\<close>

definition older :: "voice list \<Rightarrow> nat \<Rightarrow> nat \<Rightarrow> bool" where
  "older vs i j \<longleftrightarrow> v_serial (vs ! i) < v_serial (vs ! j) \<or> v_serial (vs ! i) = v_serial (vs ! j) \<and> i < j"

lemma older_trans: "older vs i j \<Longrightarrow> older vs j k \<Longrightarrow> older vs i k"
  by (auto simp: older_def)

lemma oldest_none: "(\<And>v. v \<in> set vs \<Longrightarrow> \<not> (P v \<and> v_serial v < serial)) \<Longrightarrow> oldest P vs i best serial = best"
  by (induction vs arbitrary: i) auto

lemma oldest_from:
  "k < length vs \<Longrightarrow> P (vs ! k) \<Longrightarrow> v_serial (vs ! k) < serial \<Longrightarrow>
    (\<And>j. j < length vs \<Longrightarrow> P (vs ! j) \<Longrightarrow> j \<noteq> k \<Longrightarrow> older vs k j) \<Longrightarrow>
    oldest P vs i best serial = Some (i + k)"
proof (induction vs arbitrary: k i best serial)
  case (Cons v vs)
  note rest = Cons.prems(4)
  show ?case
  proof (cases k)
    case 0
    have "\<not> (P w \<and> v_serial w < v_serial v)" if "w \<in> set vs" for w
    proof -
      obtain j where "j < length vs" "w = vs ! j" using \<open>w \<in> set vs\<close> by (auto simp: in_set_conv_nth)
      then show ?thesis using rest [of "Suc j"] 0 by (auto simp: older_def)
    qed
    then show ?thesis using Cons.prems(2,3) 0 oldest_none [of vs P "v_serial v"] by simp
  next
    case (Suc n)
    have n: "n < length vs" "P (vs ! n)" using Cons.prems(1,2) Suc by simp_all
    have o: "older vs n j" if "j < length vs" "P (vs ! j)" "j \<noteq> n" for j
      using rest [of "Suc j"] that Suc by (simp add: older_def)
    have s: "v_serial (vs ! n) < v_serial v" if "P v" using rest [of 0] that Suc by (auto simp: older_def)
    have "v_serial (vs ! n) < serial" using Cons.prems(3) Suc by simp
    then show ?thesis
      using Cons.IH [OF n s o] Cons.IH [OF n _ o] Suc by (cases "P v") auto
  qed
qed simp

lemma oldest_hd:
  assumes "sorted_wrt (older vs) (k # ks)" "set (k # ks) = {j. j < length vs \<and> P (vs ! j)}" "v_serial (vs ! k) < serial"
  shows "oldest P vs 0 None serial = Some k"
proof -
  have "k \<in> {j. j < length vs \<and> P (vs ! j)}" unfolding assms(2) [symmetric] by simp
  moreover have "older vs k j" if "j < length vs" "P (vs ! j)" "j \<noteq> k" for j
  proof -
    have "j \<in> set (k # ks)" unfolding assms(2) using that by simp
    with that(3) assms(1) show ?thesis by auto
  qed
  ultimately show ?thesis using oldest_from [of k vs P serial 0 None] assms(3) by auto
qed

section \<open>An allocator of voices\<close>

record alloc =
  free_voices :: "nat list"
  sounding :: "(nat \<times> t_float) list"

datatype note_ev =
    Note t_float t_float
  | Stop
  | Clear

text \<open>The first sounding voice with the pitch is taken out.\<close>

fun take_match :: "t_float \<Rightarrow> (nat \<times> t_float) list \<Rightarrow> ((nat \<times> t_float) \<times> (nat \<times> t_float) list) option" where
  "take_match f [] = None"
| "take_match f (b # bs) = (if feq (snd b) f then Some (b, bs) else map_option (\<lambda>(c, r). (c, b # r)) (take_match f bs))"

definition voice_out :: "nat \<Rightarrow> t_float \<Rightarrow> t_float \<Rightarrow> outputs" where
  "voice_out i vel f = [(velout, vel), (pitchout, f), (0, index_out i)]"

text \<open>A note on takes the voice that has been free for longest, or steals the one that has sounded for longest.\<close>

definition alloc_do :: "bool \<Rightarrow> nat \<Rightarrow> note_ev \<Rightarrow> alloc \<Rightarrow> outputs \<times> alloc" where
  "alloc_do steal n ev a =
     (case ev of
        Note vel f \<Rightarrow>
          if flt (FFin 0) vel then
            (case free_voices a of
               i # is \<Rightarrow> (voice_out i vel f, \<lparr>free_voices = is, sounding = sounding a @ [(i, f)]\<rparr>)
             | [] \<Rightarrow>
                 (case sounding a of
                    (i, p) # bs \<Rightarrow>
                      if steal then (voice_out i (FFin 0) p @ voice_out i vel f, a\<lparr>sounding := bs @ [(i, f)]\<rparr>) else ([], a)
                  | [] \<Rightarrow> ([], a)))
          else
            (case take_match f (sounding a) of
               Some ((i, p), bs) \<Rightarrow> (voice_out i (FFin 0) p, \<lparr>free_voices = free_voices a @ [i], sounding = bs\<rparr>)
             | None \<Rightarrow> ([], a))
      | Stop \<Rightarrow>
          let l = concat (map (\<lambda>i. filter (\<lambda>b. fst b = i) (sounding a)) [0..<n]) in
          (concat (map (\<lambda>(i, p). voice_out i (FFin 0) p) l), \<lparr>free_voices = free_voices a @ map fst l, sounding = []\<rparr>)
      | Clear \<Rightarrow> ([], \<lparr>free_voices = [0..<n], sounding = []\<rparr>))"

fun alloc_run :: "bool \<Rightarrow> nat \<Rightarrow> note_ev list \<Rightarrow> alloc \<Rightarrow> outputs \<times> alloc" where
  "alloc_run steal n [] a = ([], a)"
| "alloc_run steal n (ev # evs) a =
     (let (o1, a1) = alloc_do steal n ev a; (o2, a2) = alloc_run steal n evs a1 in (o1 @ o2, a2))"

text \<open>The object, with its output recorded. The velocity is what its inlet was last sent.\<close>

definition log_out :: "nat \<Rightarrow> t_float \<Rightarrow> outputs \<times> poly \<Rightarrow> outputs \<times> poly" where
  "log_out i f w = (fst w @ [(i, f)], snd w)"

lemma log_out_simps [simp]: "fst (log_out i f w) = fst w @ [(i, f)]" "snd (log_out i f w) = snd w"
    "log_out i f (l, x) = (l @ [(i, f)], x)"
  by (simp_all add: log_out_def)

definition poly_do :: "note_ev \<Rightarrow> outputs \<times> poly \<Rightarrow> outputs \<times> poly" where
  "poly_do ev w =
     (case ev of
        Note vel f \<Rightarrow> poly_float log_out f (fst w, (snd w)\<lparr>p_vel := vel\<rparr>)
      | Stop \<Rightarrow> poly_stop log_out w
      | Clear \<Rightarrow> (fst w, poly_clear (snd w)))"

definition poly_run :: "note_ev list \<Rightarrow> outputs \<times> poly \<Rightarrow> outputs \<times> poly" where
  "poly_run = fold poly_do"

section \<open>The refinement\<close>

text \<open>\<open>L\<close> bounds the serial numbers given so far.\<close>

definition poly_rel :: "nat \<Rightarrow> poly \<Rightarrow> alloc \<Rightarrow> bool" where
  "poly_rel L x a \<longleftrightarrow>
     p_serial x \<le> L \<and>
     sorted_wrt (older (p_vec x)) (free_voices a) \<and>
     set (free_voices a) = {j. j < length (p_vec x) \<and> \<not> v_used (p_vec x ! j)} \<and>
     sorted_wrt (older (p_vec x)) (map fst (sounding a)) \<and>
     set (map fst (sounding a)) = {j. j < length (p_vec x) \<and> v_used (p_vec x ! j)} \<and>
     list_all (\<lambda>b. v_pitch (p_vec x ! fst b) = snd b) (sounding a) \<and>
     list_all (\<lambda>v. v_serial v < p_serial x \<or> \<not> v_used v \<and> v_serial v = 0) (p_vec x)"

lemma poly_relD:
  assumes "poly_rel L x a"
  shows "p_serial x \<le> L" "sorted_wrt (older (p_vec x)) (free_voices a)"
    "set (free_voices a) = {j. j < length (p_vec x) \<and> \<not> v_used (p_vec x ! j)}"
    "sorted_wrt (older (p_vec x)) (map fst (sounding a))"
    "set (map fst (sounding a)) = {j. j < length (p_vec x) \<and> v_used (p_vec x ! j)}"
    "\<And>b. b \<in> set (sounding a) \<Longrightarrow> v_pitch (p_vec x ! fst b) = snd b"
    "\<And>j. j < length (p_vec x) \<Longrightarrow> v_serial (p_vec x ! j) < p_serial x \<or> \<not> v_used (p_vec x ! j) \<and> v_serial (p_vec x ! j) = 0"
    "\<And>j. j < length (p_vec x) \<Longrightarrow> v_serial (p_vec x ! j) \<le> L"
proof -
  note d = assms [unfolded poly_rel_def]
  show 7: "\<And>j. j < length (p_vec x) \<Longrightarrow> v_serial (p_vec x ! j) < p_serial x \<or> \<not> v_used (p_vec x ! j) \<and> v_serial (p_vec x ! j) = 0"
    using d by (simp add: list_all_length)
  show "p_serial x \<le> L" using d by simp
  then show "\<And>j. j < length (p_vec x) \<Longrightarrow> v_serial (p_vec x ! j) \<le> L" using 7 by fastforce
qed (use assms in \<open>simp_all add: poly_rel_def list_all_iff\<close>)

lemma poly_relI:
  assumes "p_serial x \<le> L" "sorted_wrt (older (p_vec x)) (free_voices a)"
    "set (free_voices a) = {j. j < length (p_vec x) \<and> \<not> v_used (p_vec x ! j)}"
    "sorted_wrt (older (p_vec x)) (map fst (sounding a))"
    "set (map fst (sounding a)) = {j. j < length (p_vec x) \<and> v_used (p_vec x ! j)}"
    "\<And>b. b \<in> set (sounding a) \<Longrightarrow> v_pitch (p_vec x ! fst b) = snd b"
    "\<And>j. j < length (p_vec x) \<Longrightarrow> v_serial (p_vec x ! j) < p_serial x \<or> \<not> v_used (p_vec x ! j) \<and> v_serial (p_vec x ! j) = 0"
  shows "poly_rel L x a"
proof -
  have "list_all (\<lambda>b. v_pitch (p_vec x ! fst b) = snd b) (sounding a)" using assms(6) unfolding list_all_iff by blast
  moreover have "list_all (\<lambda>v. v_serial v < p_serial x \<or> \<not> v_used v \<and> v_serial v = 0) (p_vec x)"
    using assms(7) unfolding list_all_length by blast
  ultimately show ?thesis using assms(1-5) unfolding poly_rel_def by blast
qed

lemma sorted_older_distinct: "sorted_wrt (older vs) l \<Longrightarrow> distinct l"
  by (induction l) (auto simp: older_def)

text \<open>The order of voices that are not touched is kept; the one that gets a new number is the youngest.\<close>

lemma sorted_older_upd:
  "sorted_wrt (older vs) l \<Longrightarrow> i \<notin> set l \<Longrightarrow> sorted_wrt (older (vs[i := v])) l"
proof -
  assume s: "sorted_wrt (older vs) l" and i: "i \<notin> set l"
  have "older (vs[i := v]) x y" if "x \<in> set l" "y \<in> set l" "older vs x y" for x y
  proof -
    have "x \<noteq> i" "y \<noteq> i" using that i by auto
    with that(3) show ?thesis by (simp add: older_def)
  qed
  then show ?thesis using sorted_wrt_mono_rel [OF _ s] by blast
qed

lemma sorted_older_snoc:
  assumes "sorted_wrt (older vs) l" "i \<notin> set l" "i < length vs" "\<And>j. j \<in> set l \<Longrightarrow> v_serial (vs ! j) < v_serial v"
  shows "sorted_wrt (older (vs[i := v])) (l @ [i])"
proof -
  have "older (vs[i := v]) j i" if "j \<in> set l" for j
  proof -
    have "j \<noteq> i" using that assms(2) by auto
    then show ?thesis using assms(4) [OF that] assms(3) by (simp add: older_def)
  qed
  then show ?thesis using sorted_older_upd [OF assms(1,2)] by (simp add: sorted_wrt_append)
qed

text \<open>Giving voice \<open>i\<close> a new state and the next serial number.\<close>

definition renew :: "nat \<Rightarrow> (voice \<Rightarrow> voice) \<Rightarrow> poly \<Rightarrow> poly" where
  "renew i g x = stamp i (put_voice i g x)"

lemma renew_simps:
  assumes "i < length (p_vec x)" "p_serial x < NOSERIAL"
  shows "p_vec (renew i g x) = (p_vec x)[i := (g (p_vec x ! i))\<lparr>v_serial := p_serial x\<rparr>]" "p_serial (renew i g x) = p_serial x + 1"
    "p_vel (renew i g x) = p_vel x" "p_steal (renew i g x) = p_steal x"
  using assms by (simp_all add: renew_def stamp_def put_voice_def)

lemma renew_vec:
  assumes "i < length (p_vec x)" "p_serial x < NOSERIAL" "\<And>v. v_serial (g v) = v_serial v"
  shows "j < length (p_vec x) \<Longrightarrow> v_serial (p_vec (renew i g x) ! j) = (if j = i then p_serial x else v_serial (p_vec x ! j))"
    "j < length (p_vec x) \<Longrightarrow> v_used (p_vec (renew i g x) ! j) = (if j = i then v_used (g (p_vec x ! i)) else v_used (p_vec x ! j))"
    "j < length (p_vec x) \<Longrightarrow> v_pitch (p_vec (renew i g x) ! j) = (if j = i then v_pitch (g (p_vec x ! i)) else v_pitch (p_vec x ! j))"
    "length (p_vec (renew i g x)) = length (p_vec x)"
  using assms renew_simps [OF assms(1,2), of g] by (auto simp: nth_list_update)

text \<open>A voice starts to sound, one that sounds gets a new note, one ends.\<close>

lemma in_free: "poly_rel L x a \<Longrightarrow> i \<in> set (free_voices a) \<longleftrightarrow> i < length (p_vec x) \<and> \<not> v_used (p_vec x ! i)"
  using poly_relD(3) [of L x a] by auto

lemma in_sounding: "poly_rel L x a \<Longrightarrow> i \<in> fst ` set (sounding a) \<longleftrightarrow> i < length (p_vec x) \<and> v_used (p_vec x ! i)"
  using poly_relD(5) [of L x a] by auto

lemma rel_stamped:
  assumes r: "poly_rel L x a" and L: "L < NOSERIAL" and i: "i < length (p_vec x)"
    and g: "\<And>v. v_serial (g v) = v_serial v"
    and free: "free' = (if v_used (g (p_vec x ! i)) then l1 else l1 @ [i])" "sorted_wrt (older (p_vec x)) l1" "i \<notin> set l1"
      "set l1 = set (free_voices a) - {i}"
    and snd: "map fst sound' = (if v_used (g (p_vec x ! i)) then l2 @ [i] else l2)" "sorted_wrt (older (p_vec x)) l2" "i \<notin> set l2"
      "set l2 = set (map fst (sounding a)) - {i}"
    and pitch: "\<And>b. b \<in> set sound' \<Longrightarrow> snd b = (if fst b = i then v_pitch (g (p_vec x ! i)) else v_pitch (p_vec x ! fst b))"
    and used: "\<not> v_used (g (p_vec x ! i)) \<Longrightarrow> v_used (p_vec x ! i)"
  shows "poly_rel (L + 1) (renew i g x) \<lparr>free_voices = free', sounding = sound'\<rparr>"
proof -
  note d = poly_relD [OF r]
  have p: "p_serial x < NOSERIAL" using d(1) L by simp
  note v = renew_vec [OF i p g] and q = renew_simps [OF i p, of g]
  have l1: "j < length (p_vec x) \<and> \<not> v_used (p_vec x ! j)" if "j \<in> set l1" for j using that free(4) d(3) by auto
  have l2: "j < length (p_vec x) \<and> v_used (p_vec x ! j)" if "j \<in> set l2" for j using that snd(4) d(5) by auto
  have "v_serial (p_vec x ! j) < p_serial x" if "j \<in> set l2" for j using l2 [OF that] d(7) by auto
  then have s2: "sorted_wrt (older (p_vec (renew i g x))) (l2 @ [i])"
    unfolding q(1) by (intro sorted_older_snoc snd(2,3) i) simp
  have s1: "sorted_wrt (older (p_vec (renew i g x))) (l1 @ [i])" if "\<not> v_used (g (p_vec x ! i))"
  proof -
    have "v_serial (p_vec x ! i) < p_serial x" using used [OF that] d(7) [OF i] by simp
    then have "v_serial (p_vec x ! j) < p_serial x" if "j \<in> set l1" for j using l1 [OF that] d(7) [of j] by auto
    then show ?thesis unfolding q(1) by (intro sorted_older_snoc free(2,3) i) simp
  qed
  have s1': "sorted_wrt (older (p_vec (renew i g x))) l1" "sorted_wrt (older (p_vec (renew i g x))) l2"
    unfolding q(1) by (rule sorted_older_upd [OF free(2,3)], rule sorted_older_upd [OF snd(2,3)])
  have f: "set free' = {j. j < length (p_vec (renew i g x)) \<and> \<not> v_used (p_vec (renew i g x) ! j)}"
  proof (rule set_eqI)
    fix j
    have "j \<in> set free' \<longleftrightarrow> (if j = i then \<not> v_used (g (p_vec x ! i)) else j \<in> set (free_voices a))"
      using free(1,4) by (cases "v_used (g (p_vec x ! i))") auto
    then show "j \<in> set free' \<longleftrightarrow> j \<in> {j. j < length (p_vec (renew i g x)) \<and> \<not> v_used (p_vec (renew i g x) ! j)}"
      unfolding d(3) v(4) mem_Collect_eq using v(2) [of j] i by (cases "j = i"; cases "j < length (p_vec x)") simp_all
  qed
  have u: "set (map fst sound') = {j. j < length (p_vec (renew i g x)) \<and> v_used (p_vec (renew i g x) ! j)}"
  proof (rule set_eqI)
    fix j
    have "j \<in> set (map fst sound') \<longleftrightarrow> (if j = i then v_used (g (p_vec x ! i)) else j \<in> set (map fst (sounding a)))"
      unfolding snd(1) using snd(4) by (cases "v_used (g (p_vec x ! i))") auto
    then show "j \<in> set (map fst sound') \<longleftrightarrow> j \<in> {j. j < length (p_vec (renew i g x)) \<and> v_used (p_vec (renew i g x) ! j)}"
      unfolding d(5) v(4) mem_Collect_eq using v(2) [of j] i by (cases "j = i"; cases "j < length (p_vec x)") simp_all
  qed
  have pp: "v_pitch (p_vec (renew i g x) ! fst b) = snd b" if "b \<in> set sound'" for b
  proof -
    have "fst b \<in> set (map fst sound')" using that by simp
    then have "fst b < length (p_vec x)" unfolding u v(4) by simp
    then show ?thesis using pitch [OF that] v(3) by simp
  qed
  have "v_serial (p_vec (renew i g x) ! j) < p_serial (renew i g x) \<or>
      \<not> v_used (p_vec (renew i g x) ! j) \<and> v_serial (p_vec (renew i g x) ! j) = 0" if "j < length (p_vec x)" for j
    using d(7) [OF that] v(1,2) [OF that] q(2) by auto
  note serial = this
  show ?thesis
  proof (rule poly_relI)
    show "p_serial (renew i g x) \<le> L + 1" using q(2) d(1) by simp
    show "sorted_wrt (older (p_vec (renew i g x))) (free_voices \<lparr>free_voices = free', sounding = sound'\<rparr>)"
      using s1 s1'(1) by (simp add: free(1))
    show "sorted_wrt (older (p_vec (renew i g x))) (map fst (sounding \<lparr>free_voices = free', sounding = sound'\<rparr>))"
      using s2 s1'(2) by (simp add: snd(1))
    show "v_pitch (p_vec (renew i g x) ! fst b) = snd b" if "b \<in> set (sounding \<lparr>free_voices = free', sounding = sound'\<rparr>)" for b
      using pp that by simp
    show "v_serial (p_vec (renew i g x) ! j) < p_serial (renew i g x) \<or>
      \<not> v_used (p_vec (renew i g x) ! j) \<and> v_serial (p_vec (renew i g x) ! j) = 0" if "j < length (p_vec (renew i g x))" for j
      using serial that by (simp add: v(4))
  qed (use f u in simp_all)
qed

text \<open>The scans find what the queues have first.\<close>

lemma first_search:
  assumes "poly_rel L x a" "L < NOSERIAL"
  shows "firstoff x = (case free_voices a of [] \<Rightarrow> None | i # is \<Rightarrow> Some i)"
    "firston x = (case sounding a of [] \<Rightarrow> None | b # bs \<Rightarrow> Some (fst b))"
proof -
  note d = poly_relD [OF assms(1)]
  have low: "j < length (p_vec x) \<Longrightarrow> v_serial (p_vec x ! j) < NOSERIAL" for j using d(8) assms(2) le_less_trans by blast
  show "firstoff x = (case free_voices a of [] \<Rightarrow> None | i # is \<Rightarrow> Some i)"
  proof (cases "free_voices a")
    case Nil
    with d(3) show ?thesis by (auto simp: firstoff_def in_set_conv_nth intro!: oldest_none)
  next
    case (Cons i js)
    with d(2,3) low show ?thesis unfolding firstoff_def
      by (simp, intro oldest_hd [of _ _ js]) auto
  qed
  show "firston x = (case sounding a of [] \<Rightarrow> None | b # bs \<Rightarrow> Some (fst b))"
  proof (cases "sounding a")
    case Nil
    with d(5) show ?thesis by (auto simp: firston_def in_set_conv_nth intro!: oldest_none)
  next
    case (Cons b bs)
    with d(4,5) low show ?thesis unfolding firston_def
      by (simp, intro oldest_hd [of _ _ "map fst bs"]) auto
  qed
qed

lemma take_match_split:
  "take_match f bs = None \<Longrightarrow> b \<in> set bs \<Longrightarrow> \<not> feq (snd b) f"
  "take_match f bs = Some (b, r) \<Longrightarrow> \<exists>l1 l2. bs = l1 @ b # l2 \<and> r = l1 @ l2 \<and> feq (snd b) f \<and> (\<forall>c\<in>set l1. \<not> feq (snd c) f)"
proof (induction bs arbitrary: r)
  case (Cons c bs)
  { case 1 then show ?case using Cons.IH(1) by (auto split: if_splits) }
  { case 2
    show ?case
    proof (cases "feq (snd c) f")
      case True
      with 2 show ?thesis by (intro exI [of _ "[]"] exI [of _ bs]) auto
    next
      case False
      with 2 obtain r' where r': "take_match f bs = Some (b, r')" "r = c # r'" by auto
      from Cons.IH(2) [OF r'(1)] obtain l1 l2 where "bs = l1 @ b # l2" "r' = l1 @ l2" "feq (snd b) f" "\<forall>c\<in>set l1. \<not> feq (snd c) f" by blast
      with False r'(2) show ?thesis by (intro exI [of _ "c # l1"] exI [of _ l2]) auto
    qed }
qed simp_all

lemma match_search:
  assumes "poly_rel L x a" "L < NOSERIAL"
  shows "firstmatch f x = map_option (\<lambda>(b, r). fst b) (take_match f (sounding a))"
proof -
  note d = poly_relD [OF assms(1)]
  have low: "j < length (p_vec x) \<Longrightarrow> v_serial (p_vec x ! j) < NOSERIAL" for j using d(8) assms(2) le_less_trans by blast
  have used: "j < length (p_vec x) \<Longrightarrow> v_used (p_vec x ! j) \<Longrightarrow> \<exists>b\<in>set (sounding a). j = fst b \<and> v_pitch (p_vec x ! j) = snd b" for j
  proof -
    assume "j < length (p_vec x)" "v_used (p_vec x ! j)"
    then have "j \<in> set (map fst (sounding a))" unfolding d(5) by simp
    then show ?thesis using d(6) by auto
  qed
  show ?thesis
  proof (cases "take_match f (sounding a)")
    case None
    have "\<not> (v_used v \<and> feq (v_pitch v) f)" if "v \<in> set (p_vec x)" for v
      using that used take_match_split(1) [OF None] by (fastforce simp: in_set_conv_nth)
    then have "oldest (\<lambda>v. v_used v \<and> feq (v_pitch v) f) (p_vec x) 0 None NOSERIAL = None" by (intro oldest_none) blast
    then show ?thesis by (simp add: None firstmatch_def)
  next
    case (Some br)
    obtain b r where br: "br = (b, r)" by (cases br)
    from take_match_split(2) Some br obtain l1 l2 where l: "sounding a = l1 @ b # l2" "feq (snd b) f" "\<forall>c\<in>set l1. \<not> feq (snd c) f" by blast
    have b: "fst b < length (p_vec x)" "v_used (p_vec x ! fst b)" "v_pitch (p_vec x ! fst b) = snd b"
      using d(5,6) by (auto simp: l(1))
    have o: "older (p_vec x) (fst b) j" if j: "j < length (p_vec x)" "v_used (p_vec x ! j) \<and> feq (v_pitch (p_vec x ! j)) f" "j \<noteq> fst b" for j
    proof -
      obtain c where c: "c \<in> set (sounding a)" "j = fst c" "feq (snd c) f" using used [OF j(1)] j(2) by force
      then have "c \<in> set l2" using l j(3) by auto
      then show ?thesis using d(4) c(2) by (auto simp: l(1) sorted_wrt_append)
    qed
    have "oldest (\<lambda>v. v_used v \<and> feq (v_pitch v) f) (p_vec x) 0 None NOSERIAL = Some (0 + fst b)"
      using b l(2) low o by (intro oldest_from) auto
    then show ?thesis by (simp add: Some br firstmatch_def)
  qed
qed

section \<open>Each message\<close>

lemma rel_vel [simp]: "poly_rel L (x\<lparr>p_vel := v\<rparr>) a = poly_rel L x a"
  by (simp add: poly_rel_def)

lemma rel_weaken: "poly_rel L x a \<Longrightarrow> L \<le> K \<Longrightarrow> poly_rel K x a"
  by (simp add: poly_rel_def)

lemma note_refines:
  assumes r: "poly_rel L x a" and L: "L < NOSERIAL"
  shows "\<exists>x'. poly_float log_out f (out, x) = (out @ fst (alloc_do (p_steal x) n (Note (p_vel x) f) a), x') \<and>
    poly_rel (L + 1) x' (snd (alloc_do (p_steal x) n (Note (p_vel x) f) a)) \<and> length (p_vec x') = length (p_vec x) \<and> p_steal x' = p_steal x"
proof -
  note d = poly_relD [OF r]
  have p: "p_serial x < NOSERIAL" using d(1) L by simp
  have df: "distinct (free_voices a)" "distinct (map fst (sounding a))" using d(2,4) by (simp_all add: sorted_older_distinct)
  have disj: "set (free_voices a) \<inter> set (map fst (sounding a)) = {}" using d(3,5) by auto
  note search = first_search [OF r L] match_search [OF r L]
  note stay = rel_weaken [OF r, of "L + 1"]
  show ?thesis
  proof (cases "flt (FFin 0) (p_vel x)")
    case on: True
    show ?thesis
    proof (cases "free_voices a")
      case (Cons i js)
      have i: "i < length (p_vec x)" using d(3) Cons by auto
      define g :: "voice \<Rightarrow> voice" where "g = (\<lambda>v. v\<lparr>v_pitch := f, v_used := True\<rparr>)"
      have "poly_rel (L + 1) (renew i g x) \<lparr>free_voices = js, sounding = sounding a @ [(i, f)]\<rparr>"
        using Cons d df disj by (intro rel_stamped [OF r L i, of _ _ js _ "map fst (sounding a)"]) (auto simp: g_def)
      moreover have "poly_float log_out f (out, x) = (out @ voice_out i (p_vel x) f, renew i g x)"
        using on Cons i by (simp add: poly_float_def Let_def search g_def voice_out_def put_voice_def renew_def)
      ultimately show ?thesis using on Cons renew_vec(4) [OF i p, of g] renew_simps [OF i p, of g]
        by (simp add: alloc_do_def g_def)
    next
      case free: Nil
      show ?thesis
      proof (cases "sounding a")
        case Nil
        with on free stay show ?thesis by (simp add: alloc_do_def poly_float_def search)
      next
        case (Cons b bs)
        obtain i q where b: "b = (i, q)" by (cases b)
        show ?thesis
        proof (cases "p_steal x")
          case True
          have i: "i < length (p_vec x)" "v_used (p_vec x ! i)" "v_pitch (p_vec x ! i) = q"
            using d(5) d(6) [of b] Cons b by auto
          define g :: "voice \<Rightarrow> voice" where "g = (\<lambda>v. v\<lparr>v_pitch := f\<rparr>)"
          have "poly_rel (L + 1) (renew i g x) \<lparr>free_voices = [], sounding = bs @ [(i, f)]\<rparr>"
            using Cons b d df i free by (intro rel_stamped [OF r L i(1), of _ _ "[]" _ "map fst bs"]) (auto simp: g_def)
          moreover have "poly_float log_out f (out, x) = (out @ voice_out i (FFin 0) q @ voice_out i (p_vel x) f, renew i g x)"
            using on Cons True free i(3) by (simp add: poly_float_def Let_def search b g_def voice_out_def put_voice_def renew_def)
          moreover have "poly_rel (L + 1) (renew i g x) (a\<lparr>sounding := bs @ [(i, f)]\<rparr>)"
            using calculation(1) free by (simp add: poly_rel_def)
          ultimately show ?thesis using on Cons True free b renew_vec(4) [OF i(1) p, of g] renew_simps [OF i(1) p, of g]
            by (simp add: alloc_do_def g_def)
        next
          case False
          with on free Cons stay show ?thesis by (simp add: alloc_do_def poly_float_def search b)
        qed
      qed
    qed
  next
    case off: False
    show ?thesis
    proof (cases "take_match f (sounding a)")
      case None
      with off stay show ?thesis by (simp add: alloc_do_def poly_float_def search)
    next
      case (Some br)
      obtain i q bs where br: "br = ((i, q), bs)" by (metis prod.exhaust)
      from take_match_split(2) Some br obtain l1 l2 where l: "sounding a = l1 @ (i, q) # l2" "bs = l1 @ l2" by blast
      have i: "i < length (p_vec x)" "v_used (p_vec x ! i)" "v_pitch (p_vec x ! i) = q"
        using d(5) d(6) [of "(i, q)"] l(1) by auto
      define g :: "voice \<Rightarrow> voice" where "g = (\<lambda>v. v\<lparr>v_used := False\<rparr>)"
      have "i \<notin> set (free_voices a)" using disj l(1) by auto
      then have "poly_rel (L + 1) (renew i g x) \<lparr>free_voices = free_voices a @ [i], sounding = bs\<rparr>"
        using d df i l by (intro rel_stamped [OF r L i(1), of _ _ "free_voices a" _ "map fst bs"]) (auto simp: g_def sorted_wrt_append)
      moreover have v: "v_pitch (p_vec (renew i g x) ! i) = q" using renew_vec(3) [OF i(1) p, of g i] i by (simp add: g_def)
      then have "poly_float log_out f (out, x) = (out @ voice_out i (FFin 0) q, renew i g x)"
        using off Some br by (simp add: poly_float_def Let_def search voice_out_def g_def flip: renew_def)
      ultimately show ?thesis using off Some br renew_vec(4) [OF i(1) p, of g] renew_simps [OF i(1) p, of g]
        by (simp add: alloc_do_def g_def)
    qed
  qed
qed

text \<open>stop ends the voices one by one.\<close>

definition end_voice :: "nat \<Rightarrow> alloc \<Rightarrow> outputs \<times> alloc" where
  "end_voice i a =
     (let l = filter (\<lambda>b. fst b = i) (sounding a) in
      (concat (map (\<lambda>(i, p). voice_out i (FFin 0) p) l),
       \<lparr>free_voices = free_voices a @ map fst l, sounding = filter (\<lambda>b. fst b \<noteq> i) (sounding a)\<rparr>))"

fun end_voices :: "nat list \<Rightarrow> alloc \<Rightarrow> outputs \<times> alloc" where
  "end_voices [] a = ([], a)"
| "end_voices (i # is) a = (let (o1, a1) = end_voice i a; (o2, a2) = end_voices is a1 in (o1 @ o2, a2))"

lemma end_voices_eq:
  "distinct is \<Longrightarrow> end_voices is a =
    (let l = concat (map (\<lambda>i. filter (\<lambda>b. fst b = i) (sounding a)) is) in
     (concat (map (\<lambda>(i, p). voice_out i (FFin 0) p) l),
      \<lparr>free_voices = free_voices a @ map fst l, sounding = filter (\<lambda>b. fst b \<notin> set is) (sounding a)\<rparr>))"
proof (induction "is" arbitrary: a)
  case (Cons i js)
  define a1 where "a1 = snd (end_voice i a)"
  have s: "sounding a1 = filter (\<lambda>b. fst b \<noteq> i) (sounding a)" by (simp add: a1_def end_voice_def Let_def)
  have m: "map (\<lambda>k. filter (\<lambda>b. fst b = k) (sounding a1)) js = map (\<lambda>k. filter (\<lambda>b. fst b = k) (sounding a)) js"
    unfolding s filter_filter using Cons.prems by (intro map_cong filter_cong) auto
  have "filter (\<lambda>b. fst b \<notin> set js) (sounding a1) = filter (\<lambda>b. fst b \<notin> set (i # js)) (sounding a)"
    by (simp add: s filter_filter conj_commute)
  with Cons.IH [of a1, unfolded m] Cons.prems show ?case by (simp add: a1_def end_voice_def Let_def)
qed (simp add: Let_def)

lemma filter_one: "distinct (map fst bs) \<Longrightarrow> b \<in> set bs \<Longrightarrow> filter (\<lambda>c. fst c = fst b) bs = [b]"
  by (induction bs) (auto simp: filter_empty_conv image_iff)

lemma end_voice_refines:
  assumes r: "poly_rel L x a" and L: "L < NOSERIAL" and i: "i < length (p_vec x)"
  shows "\<exists>x'. poly_stop_loop log_out [i] (out, x) = (out @ fst (end_voice i a), x') \<and> poly_rel (L + 1) x' (snd (end_voice i a)) \<and>
    length (p_vec x') = length (p_vec x) \<and> p_steal x' = p_steal x"
proof -
  note d = poly_relD [OF r]
  have p: "p_serial x < NOSERIAL" using d(1) L by simp
  show ?thesis
  proof (cases "v_used (p_vec x ! i)")
    case True
    then have "i \<in> set (map fst (sounding a))" using d(5) i by simp
    then obtain q where q: "(i, q) \<in> set (sounding a)" by auto
    have df: "distinct (map fst (sounding a))" using d(4) by (rule sorted_older_distinct)
    from filter_one [OF df q] have f: "filter (\<lambda>b. fst b = i) (sounding a) = [(i, q)]" by simp
    define g :: "voice \<Rightarrow> voice" where "g = (\<lambda>v. v\<lparr>v_used := False\<rparr>)"
    have m: "map fst (filter (\<lambda>b. fst b \<noteq> i) (sounding a)) = filter (\<lambda>j. j \<noteq> i) (map fst (sounding a))"
      by (simp add: filter_map o_def)
    have "i \<notin> set (free_voices a)" using d(3) True by simp
    then have "poly_rel (L + 1) (renew i g x) \<lparr>free_voices = free_voices a @ [i], sounding = filter (\<lambda>b. fst b \<noteq> i) (sounding a)\<rparr>"
      using d True by (intro rel_stamped [OF r L i, of _ _ "free_voices a" _ "map fst (filter (\<lambda>b. fst b \<noteq> i) (sounding a))"])
        (auto simp: g_def m sorted_wrt_filter)
    moreover have "v_pitch (p_vec x ! i) = q" using d(6) [OF q] by simp
    then have "poly_stop_loop log_out [i] (out, x) = (out @ voice_out i (FFin 0) q, renew i g x)"
      using True by (simp add: Let_def voice_out_def renew_def g_def)
    ultimately show ?thesis using f renew_vec(4) [OF i p, of g] renew_simps [OF i p, of g]
      by (simp add: end_voice_def Let_def g_def)
  next
    case False
    then have n: "i \<notin> set (map fst (sounding a))" using d(5) by simp
    have "filter (\<lambda>b. fst b = i) (sounding a) = []" "filter (\<lambda>b. fst b \<noteq> i) (sounding a) = sounding a"
      using n by (auto simp: filter_empty_conv filter_id_conv)
    then have "end_voice i a = ([], a)" by (simp add: end_voice_def Let_def)
    with False rel_weaken [OF r, of "L + 1"] show ?thesis by simp
  qed
qed

lemma stop_loop_refines:
  "poly_rel L x a \<Longrightarrow> L + length is < NOSERIAL \<Longrightarrow> list_all (\<lambda>i. i < length (p_vec x)) is \<Longrightarrow>
    \<exists>x'. poly_stop_loop log_out is (out, x) = (out @ fst (end_voices is a), x') \<and> poly_rel (L + length is) x' (snd (end_voices is a)) \<and>
      length (p_vec x') = length (p_vec x) \<and> p_steal x' = p_steal x"
proof (induction "is" arbitrary: L x a out)
  case (Cons i js)
  from end_voice_refines [OF Cons.prems(1), of i out] Cons.prems(2,3) obtain x1 where
    1: "poly_stop_loop log_out [i] (out, x) = (out @ fst (end_voice i a), x1)" "poly_rel (L + 1) x1 (snd (end_voice i a))"
      "length (p_vec x1) = length (p_vec x)" "p_steal x1 = p_steal x" by auto
  from Cons.IH [OF 1(2), of "out @ fst (end_voice i a)"] Cons.prems(2,3) 1(3) obtain x' where
    2: "poly_stop_loop log_out js (out @ fst (end_voice i a), x1) = ((out @ fst (end_voice i a)) @ fst (end_voices js (snd (end_voice i a))), x')"
      "poly_rel (L + 1 + length js) x' (snd (end_voices js (snd (end_voice i a))))" "length (p_vec x') = length (p_vec x1)" "p_steal x' = p_steal x1"
    by auto
  have "poly_stop_loop log_out (i # js) (out, x) = poly_stop_loop log_out js (poly_stop_loop log_out [i] (out, x))" by simp
  also have "\<dots> = (out @ fst (end_voices (i # js) a), x')" unfolding 1(1) 2(1) by (simp add: case_prod_unfold Let_def)
  finally show ?case using 2(2-4) 1(3,4) by (simp add: case_prod_unfold Let_def)
qed simp

lemma stop_refines:
  assumes r: "poly_rel L x a" and L: "L + length (p_vec x) < NOSERIAL"
  shows "\<exists>x'. poly_stop log_out (out, x) = (out @ fst (alloc_do (p_steal x) (length (p_vec x)) Stop a), x') \<and>
    poly_rel (L + length (p_vec x)) x' (snd (alloc_do (p_steal x) (length (p_vec x)) Stop a)) \<and>
    length (p_vec x') = length (p_vec x) \<and> p_steal x' = p_steal x"
proof -
  have "b \<in> set (sounding a) \<Longrightarrow> fst b < length (p_vec x)" for b using poly_relD(5) [OF r] by auto
  then have "filter (\<lambda>b. fst b \<notin> set [0..<length (p_vec x)]) (sounding a) = []" by (auto simp: filter_empty_conv)
  then have "end_voices [0..<length (p_vec x)] a = alloc_do (p_steal x) (length (p_vec x)) Stop a"
    using end_voices_eq [of "[0..<length (p_vec x)]" a] by (simp add: alloc_do_def Let_def)
  with stop_loop_refines [OF r, of "[0..<length (p_vec x)]" out] L show ?thesis
    by (simp add: poly_stop_def list_all_iff)
qed

lemma clear_rel: "p_serial x \<le> L \<Longrightarrow> poly_rel L (poly_clear x) \<lparr>free_voices = [0..<length (p_vec x)], sounding = []\<rparr>"
proof (rule poly_relI)
  show "sorted_wrt (older (p_vec (poly_clear x))) (free_voices \<lparr>free_voices = [0..<length (p_vec x)], sounding = []\<rparr>)"
    by (auto simp: sorted_wrt_iff_nth_less older_def poly_clear_def)
qed (auto simp: poly_clear_def)

text \<open>How many serial numbers a message can use.\<close>

fun serials :: "nat \<Rightarrow> note_ev \<Rightarrow> nat" where
  "serials n (Note _ _) = 1"
| "serials n Stop = n"
| "serials n Clear = 0"

lemma poly_do_refines:
  assumes r: "poly_rel L x a" and L: "L + serials (length (p_vec x)) ev < NOSERIAL"
  shows "\<exists>x'. poly_do ev (out, x) = (out @ fst (alloc_do (p_steal x) (length (p_vec x)) ev a), x') \<and>
    poly_rel (L + serials (length (p_vec x)) ev) x' (snd (alloc_do (p_steal x) (length (p_vec x)) ev a)) \<and>
    length (p_vec x') = length (p_vec x) \<and> p_steal x' = p_steal x"
proof (cases ev)
  case (Note vel f)
  with note_refines [of L "x\<lparr>p_vel := vel\<rparr>" a f out "length (p_vec x)"] r L show ?thesis by (simp add: poly_do_def)
next
  case Stop
  with stop_refines [OF r, of out] L show ?thesis by (simp add: poly_do_def)
next
  case Clear
  with clear_rel [of x L] poly_relD(1) [OF r] show ?thesis by (simp add: poly_do_def alloc_do_def poly_clear_def)
qed

lemma poly_run_refines:
  "poly_rel L x a \<Longrightarrow> L + (\<Sum>ev\<leftarrow>evs. serials (length (p_vec x)) ev) < NOSERIAL \<Longrightarrow>
    \<exists>x'. poly_run evs (out, x) = (out @ fst (alloc_run (p_steal x) (length (p_vec x)) evs a), x')"
proof (induction evs arbitrary: L x a out)
  case (Cons ev evs)
  from poly_do_refines [OF Cons.prems(1), of ev out] Cons.prems(2) obtain x1 where
    1: "poly_do ev (out, x) = (out @ fst (alloc_do (p_steal x) (length (p_vec x)) ev a), x1)"
      "poly_rel (L + serials (length (p_vec x)) ev) x1 (snd (alloc_do (p_steal x) (length (p_vec x)) ev a))"
      "length (p_vec x1) = length (p_vec x)" "p_steal x1 = p_steal x" by auto
  from Cons.IH [OF 1(2), of "out @ fst (alloc_do (p_steal x) (length (p_vec x)) ev a)"] Cons.prems(2) 1 show ?case
    by (auto simp: poly_run_def case_prod_unfold Let_def)
qed (simp add: poly_run_def)

section \<open>What poly promises\<close>

text \<open>
  C29: poly is an allocator of voices: for every sequence of notes, stops and clears that uses less than \<open>2 ^ 32 - 1\<close> serial numbers,
  what it sends out is what the allocator with its two queues does.
\<close>

theorem poly_refines:
  assumes "(\<Sum>ev\<leftarrow>evs. serials (length (p_vec (poly_new fn fs))) ev) < NOSERIAL"
  defines "n \<equiv> length (p_vec (poly_new fn fs))"
  shows "fst (poly_run evs ([], poly_new fn fs)) =
    fst (alloc_run (\<not> feq fs (FFin 0)) n evs \<lparr>free_voices = [0..<n], sounding = []\<rparr>)"
proof -
  define x where "x = poly_new fn fs"
  have "poly_clear x = x" "p_serial x = 0" "p_steal x = (\<not> feq fs (FFin 0))"
    by (simp_all add: x_def poly_new_def Let_def poly_clear_def)
  with clear_rel [of x 0] have "poly_rel 0 x \<lparr>free_voices = [0..<n], sounding = []\<rparr>" by (simp add: n_def x_def)
  from poly_run_refines [OF this, of evs "[]"] assms(1) \<open>p_steal x = _\<close> show ?thesis by (auto simp: n_def x_def)
qed

lemma poly_refines_witness:
  "fst (poly_run [Note (FFin 1) (FFin 60), Note (FFin 1) (FFin 62), Stop] ([], poly_new (FFin 1) (FFin 1))) =
    voice_out 0 (FFin 1) (FFin 60) @ voice_out 0 (FFin 0) (FFin 60) @ voice_out 0 (FFin 1) (FFin 62) @ voice_out 0 (FFin 0) (FFin 62)"
proof -
  have n: "length (p_vec (poly_new (FFin 1) (FFin 1))) = 1" by code_simp
  have "(\<Sum>ev\<leftarrow>[Note (FFin 1) (FFin 60), Note (FFin 1) (FFin 62), Stop]. serials (length (p_vec (poly_new (FFin 1) (FFin 1)))) ev) < NOSERIAL"
    unfolding n by simp
  note r = poly_refines [OF this, unfolded n]
  have "fst (alloc_run (\<not> feq (FFin 1) (FFin 0)) 1 [Note (FFin 1) (FFin 60), Note (FFin 1) (FFin 62), Stop] \<lparr>free_voices = [0..<1], sounding = []\<rparr>) =
      voice_out 0 (FFin 1) (FFin 60) @ voice_out 0 (FFin 0) (FFin 60) @ voice_out 0 (FFin 1) (FFin 62) @ voice_out 0 (FFin 0) (FFin 62)" by code_simp
  with r show ?thesis by (rule trans)
qed

text \<open>A voice of which all numbers are used up is no longer found.\<close>

definition note_pair :: "t_float \<Rightarrow> note_ev list" where
  "note_pair f = [Note (FFin 1) f, Note (FFin 0) f]"

definition pair_out :: "t_float \<Rightarrow> outputs" where
  "pair_out f = voice_out 0 (FFin 1) f @ voice_out 0 (FFin 0) f"

lemma note_cmp [simp]: "flt (FFin 0) (FFin 1)" "\<not> flt (FFin 0) (FFin 0)" "feq (FFin q) (FFin q)" "int_of_float (FFin 1) = 1"
  by (simp_all add: flt_def feq_def fval_def int_of_float_def)

lemma pair_step:
  assumes "p_vec x = [v]" "\<not> v_used v" "v_serial v < NOSERIAL" "p_serial x < NOSERIAL"
  shows "poly_run (note_pair (FFin q)) (l, x) = (l @ pair_out (FFin q),
    x\<lparr>p_vec := [\<lparr>v_pitch = FFin q, v_used = False, v_serial = p_serial x + 1\<rparr>], p_vel := FFin 0, p_serial := p_serial x + 2\<rparr>)"
proof -
  define x1 where "x1 = x\<lparr>p_vec := [\<lparr>v_pitch = FFin q, v_used = True, v_serial = p_serial x\<rparr>], p_vel := FFin 1, p_serial := p_serial x + 1\<rparr>"
  have "poly_do (Note (FFin 1) (FFin q)) (l, x) = (l @ voice_out 0 (FFin 1) (FFin q), x1)"
    using assms by (simp add: poly_do_def poly_float_def firstoff_def voice_out_def stamp_def put_voice_def Let_def x1_def)
  moreover have "poly_do (Note (FFin 0) (FFin q)) (l1, x1) = (l1 @ voice_out 0 (FFin 0) (FFin q),
      x\<lparr>p_vec := [\<lparr>v_pitch = FFin q, v_used = False, v_serial = p_serial x + 1\<rparr>], p_vel := FFin 0, p_serial := p_serial x + 2\<rparr>)" for l1
    using assms by (simp add: poly_do_def poly_float_def firstmatch_def voice_out_def stamp_def put_voice_def Let_def x1_def)
  ultimately show ?thesis by (simp add: poly_run_def note_pair_def pair_out_def)
qed

lemma concat_replicate_Suc: "concat (replicate (Suc k) l) = concat (replicate k l) @ l"
  by (induction k) simp_all

lemma pairs_state:
  "k \<le> 0x80000000 \<Longrightarrow> \<exists>x v. poly_run (concat (replicate k (note_pair (FFin q)))) ([], poly_new (FFin 1) fs) =
      (concat (replicate k (pair_out (FFin q))), x) \<and> p_serial x = 2 * k \<and> p_vec x = [v] \<and> \<not> v_used v \<and> v_serial v = 2 * k - 1"
proof (induction k)
  case 0
  show ?case by (simp add: poly_run_def poly_new_def Let_def)
next
  case (Suc k)
  then obtain x v where x: "poly_run (concat (replicate k (note_pair (FFin q)))) ([], poly_new (FFin 1) fs) =
      (concat (replicate k (pair_out (FFin q))), x)" "p_serial x = 2 * k" "p_vec x = [v]" "\<not> v_used v" "v_serial v = 2 * k - 1" by auto
  then have l: "v_serial v < NOSERIAL" "p_serial x < NOSERIAL" using Suc.prems by simp_all
  have "poly_run (concat (replicate (Suc k) (note_pair (FFin q)))) ([], poly_new (FFin 1) fs) =
      poly_run (note_pair (FFin q)) (poly_run (concat (replicate k (note_pair (FFin q)))) ([], poly_new (FFin 1) fs))"
    unfolding concat_replicate_Suc by (simp add: poly_run_def)
  with pair_step [OF x(3,4) l, of q "concat (replicate k (pair_out (FFin q)))"] x(1,2) show ?case unfolding concat_replicate_Suc by simp
qed

lemma deaf_run:
  "p_vec x = [v] \<Longrightarrow> \<not> v_used v \<Longrightarrow> v_serial v = NOSERIAL \<Longrightarrow> fst (poly_run (filter (\<lambda>ev. ev \<noteq> Clear) evs) (l, x)) = l"
proof (induction evs arbitrary: x)
  case (Cons ev evs)
  note 1 = Cons.prems
  show ?case
  proof (cases ev)
    case (Note vel f)
    with 1 have "poly_do ev (l, x) = (l, x\<lparr>p_vel := vel\<rparr>)"
      by (simp add: poly_do_def poly_float_def firstoff_def firstmatch_def firston_def Let_def)
    with Cons.IH [of "x\<lparr>p_vel := vel\<rparr>"] 1 Note show ?thesis by (simp add: poly_run_def)
  next
    case Stop
    with 1 have "poly_do ev (l, x) = (l, x)" by (simp add: poly_do_def poly_stop_def)
    with Cons.IH [of x] 1 Stop show ?thesis by (simp add: poly_run_def)
  next
    case Clear
    with Cons.IH [OF 1] show ?thesis by simp
  qed
qed (simp add: poly_run_def)

text \<open>
  C35: poly counts its notes and offs, but looks for a voice with a number below \<open>2 ^ 32 - 1\<close>: a poly with one voice plays
  \<open>2 ^ 31\<close> notes and ends each of them, and after that sends out nothing more, whatever notes and stops it gets.
\<close>

theorem poly_goes_deaf:
  "fst (poly_run (concat (replicate 0x80000000 (note_pair (FFin q)))) ([], poly_new (FFin 1) fs)) =
     concat (replicate 0x80000000 (pair_out (FFin q))) \<and>
   fst (poly_run (concat (replicate 0x80000000 (note_pair (FFin q))) @ filter (\<lambda>ev. ev \<noteq> Clear) evs) ([], poly_new (FFin 1) fs)) =
     concat (replicate 0x80000000 (pair_out (FFin q)))"
proof -
  define k :: nat where "k = 0x80000000"
  then have "k \<le> 0x80000000" by simp
  from pairs_state [OF this, of q fs] obtain x v where
    x: "poly_run (concat (replicate k (note_pair (FFin q)))) ([], poly_new (FFin 1) fs) = (concat (replicate k (pair_out (FFin q))), x)"
      "p_vec x = [v]" "\<not> v_used v" "v_serial v = 2 * k - 1" by auto
  have "v_serial v = NOSERIAL" using x(4) by (simp add: k_def)
  from deaf_run [OF x(2,3) this, of evs] have
    "fst (poly_run (filter (\<lambda>ev. ev \<noteq> Clear) evs) (poly_run (concat (replicate k (note_pair (FFin q)))) ([], poly_new (FFin 1) fs))) =
      concat (replicate k (pair_out (FFin q)))" unfolding x(1) .
  with x(1) show ?thesis unfolding k_def [symmetric] by (simp add: poly_run_def)
qed

end
