(* ===== verification/NoteKeeper.thy ===== *)
theory NoteKeeper
  imports Notes Hangs "HOL-Library.Multiset"
begin

text \<open>
  What makenote promises: it is a keeper of the notes that sound. Its heap of hangs is refined to the list of the note offs
  pending; each is sent when it is due, so that what has started ends once. What a message sent back to makenote or bag in the
  middle of its work does.
\<close>

section \<open>The keeper\<close>

text \<open>The notes pending are the times and pitches of their offs, newest first.\<close>

record keeper =
  k_velo :: t_float
  k_dur :: rat
  k_pending :: "(rat \<times> t_float) list"
  k_now :: rat
  k_sent :: "(rat \<times> nat \<times> t_float) list"

definition note_msg :: "t_float \<Rightarrow> rat \<times> t_float \<Rightarrow> (rat \<times> nat \<times> t_float) list" where
  "note_msg v m = [(fst m, velout, v), (fst m, pitchout, snd m)]"

abbreviation note_offs :: "(rat \<times> t_float) list \<Rightarrow> (rat \<times> nat \<times> t_float) list" where
  "note_offs ms \<equiv> concat (map (note_msg (FFin 0)) ms)"

definition k_note :: "t_float \<Rightarrow> keeper \<Rightarrow> keeper" where
  "k_note f k =
     (if feq (k_velo k) (FFin 0) then k
      else k\<lparr>k_sent := k_sent k @ note_msg (k_velo k) (k_now k, f),
             k_pending := (delay_until TIMEUNITPERMSEC 0 (if k_dur k \<ge> 0 then k_dur k else 0) (k_now k), f) # k_pending k\<rparr>)"

definition k_stop :: "keeper \<Rightarrow> keeper" where
  "k_stop k = k\<lparr>k_sent := k_sent k @ note_offs (map (\<lambda>m. (k_now k, snd m)) (k_pending k)), k_pending := []\<rparr>"

definition k_clear :: "keeper \<Rightarrow> keeper" where
  "k_clear k = k\<lparr>k_pending := []\<rparr>"

definition k_run :: "rat \<Rightarrow> keeper \<Rightarrow> keeper" where
  "k_run bnd k =
     k\<lparr>k_sent := k_sent k @ note_offs [m\<leftarrow>sort_key fst (rev (k_pending k)). fst m < bnd],
       k_pending := [m\<leftarrow>k_pending k. bnd \<le> fst m], k_now := bnd\<rparr>"

section \<open>A makenote in a patch\<close>

type_synonym mk_state = "(rat \<times> nat \<times> t_float) list note_world"

definition mk_log :: "(rat \<times> nat \<times> t_float) list note_out" where
  "mk_log i f w = (case w of (e, x, s) \<Rightarrow> Some (e @ [(systime s, i, f)], x, s))"

definition mk_patch ::
  "(nat \<Rightarrow> rat \<Rightarrow> clock_op list) \<Rightarrow> nat \<Rightarrow> (rat \<times> nat \<times> t_float) list \<times> makenote \<Rightarrow> sched \<Rightarrow>
    (((rat \<times> nat \<times> t_float) list \<times> makenote) \<times> sched) option" where
  "mk_patch other c w s =
     (if mn_hangs (snd w) c \<noteq> None then map_option (\<lambda>(e, x, s). ((e, x), s)) (makenote_tick mk_log c (fst w, snd w, s))
      else map_option (Pair w) (clock_ops (other c (systime s)) s))"

datatype mk_ev = M_note nat t_float | M_stop | M_clear | M_set t_float rat | M_run rat "nat \<Rightarrow> rat \<Rightarrow> clock_op list"

text \<open>
  What happens to a makenote: a pitch, the hang put at \<open>h\<close>; stop; clear; a velocity and a duration at its inlets; and time
  passing while the other clocks make requests.
\<close>

fun mk_do :: "mk_ev \<Rightarrow> mk_state \<Rightarrow> mk_state option" where
  "mk_do (M_note h f) w = makenote_float mk_log h f w"
| "mk_do M_stop w = makenote_stop mk_log w"
| "mk_do M_clear w = map_option (Pair (fst w)) (makenote_clear (snd w))"
| "mk_do (M_set v d) (e, x, s) = Some (e, x\<lparr>mn_velo := v, mn_dur := d\<rparr>, s)"
| "mk_do (M_run bnd other) (e, x, s) =
     map_option (\<lambda>((e, x), s). (e, x, s\<lparr>systime := bnd\<rparr>)) (run_clocks (mk_patch other) bnd (e, x) s)"

fun k_do :: "mk_ev \<Rightarrow> keeper \<Rightarrow> keeper" where
  "k_do (M_note h f) k = k_note f k"
| "k_do M_stop k = k_stop k"
| "k_do M_clear k = k_clear k"
| "k_do (M_set v d) k = k\<lparr>k_velo := v, k_dur := d\<rparr>"
| "k_do (M_run bnd other) k = k_run bnd k"

section \<open>The list of the hangs\<close>

text \<open>From \<open>a\<close> on, the links go through \<open>l\<close>.\<close>

fun hang_chain :: "(nat \<Rightarrow> note_hang option) \<Rightarrow> nat \<Rightarrow> nat list \<Rightarrow> bool" where
  "hang_chain hs a [] \<longleftrightarrow> a = 0"
| "hang_chain hs a (h # l) \<longleftrightarrow> a = h \<and> h \<noteq> 0 \<and> (case hs h of None \<Rightarrow> False | Some n \<Rightarrow> hang_chain hs (nh_next n) l)"

lemma hang_chain_frame: "(\<And>y. y \<in> set l \<Longrightarrow> hs' y = hs y) \<Longrightarrow> hang_chain hs' a l = hang_chain hs a l"
  by (induction l arbitrary: a) (auto split: option.splits)

lemma note_unlink_chain:
  "hang_chain hs a l \<Longrightarrow> distinct l \<Longrightarrow> h \<in> set (tl l) \<Longrightarrow>
    \<exists>hs'. note_unlink h a hs = Some hs' \<and> hang_chain (hs'(h := None)) a (remove1 h l) \<and>
      (\<forall>y. map_option nh_pitch (hs' y) = map_option nh_pitch (hs y)) \<and> (\<forall>y. y \<notin> set l \<longrightarrow> hs' y = hs y)"
proof (induction l arbitrary: a)
  case (Cons b l)
  then obtain n where n: "a = b" "b \<noteq> 0" "hs b = Some n" "hang_chain hs (nh_next n) l" by (auto split: option.splits)
  from Cons.prems(3) obtain c l' where l: "l = c # l'" by (cases l) auto
  with n(4) obtain n3 where n3: "nh_next n = c" "c \<noteq> 0" "hs c = Some n3" "hang_chain hs (nh_next n3) l'" by (auto split: option.splits)
  show ?case
  proof (cases "c = h")
    case True
    define hs' where "hs' = hs(b \<mapsto> n\<lparr>nh_next := nh_next n3\<rparr>)"
    have "note_unlink h a hs = Some hs'" using n n3 True by (subst note_unlink.simps) (simp add: hs'_def)
    moreover have "hang_chain (hs'(h := None)) (nh_next n3) l'"
      using n3(4) Cons.prems(2) l True by (subst hang_chain_frame) (auto simp: hs'_def)
    then have "hang_chain (hs'(h := None)) a (remove1 h (b # l))" using n Cons.prems(2) l True by (simp add: hs'_def)
    moreover have "map_option nh_pitch (hs' y) = map_option nh_pitch (hs y)" for y using n(3) by (simp add: hs'_def)
    moreover have "hs' y = hs y" if "y \<notin> set (b # l)" for y using that by (simp add: hs'_def)
    ultimately show ?thesis by blast
  next
    case False
    then have t: "h \<in> set (tl l)" using Cons.prems(3) l by simp
    have d: "distinct l" using Cons.prems(2) by simp
    from Cons.IH [OF n(4) d t] obtain hs' where
      hs': "note_unlink h (nh_next n) hs = Some hs'" "hang_chain (hs'(h := None)) (nh_next n) (remove1 h l)"
        "\<forall>y. map_option nh_pitch (hs' y) = map_option nh_pitch (hs y)" "\<forall>y. y \<notin> set l \<longrightarrow> hs' y = hs y" by blast
    have "b \<notin> set l" "b \<noteq> h" using Cons.prems(2,3) by auto
    then have "hs' b = Some n" using hs'(4) n(3) by simp
    moreover have "note_unlink h a hs = Some hs'" using n n3 False hs'(1) by (subst note_unlink.simps) simp
    ultimately have "hang_chain (hs'(h := None)) a (remove1 h (b # l))" "note_unlink h a hs = Some hs'"
      using n hs'(2) \<open>b \<noteq> h\<close> by simp_all
    moreover have "\<forall>y. y \<notin> set (b # l) \<longrightarrow> hs' y = hs y" using hs'(4) by simp
    ultimately show ?thesis using hs'(3) by blast
  qed
qed simp

text \<open>The hangs are those of the list, and the clocks of those are set.\<close>

fun mk_ok :: "nat set \<Rightarrow> nat list \<Rightarrow> mk_state \<Rightarrow> bool" where
  "mk_ok H l (e, x, s) \<longleftrightarrow>
     hang_chain (mn_hangs x) (mn_first x) l \<and> hangs_set H l s \<and> (\<forall>h. mn_hangs x h = None \<longleftrightarrow> h \<notin> set l)"

definition pending_note :: "makenote \<Rightarrow> sched \<Rightarrow> nat \<Rightarrow> rat \<times> t_float" where
  "pending_note x s h = (settime s h, nh_pitch (the (mn_hangs x h)))"

definition mk_abs :: "nat list \<Rightarrow> mk_state \<Rightarrow> keeper" where
  "mk_abs l w =
     (case w of (e, x, s) \<Rightarrow>
        \<lparr>k_velo = mn_velo x, k_dur = mn_dur x, k_pending = map (pending_note x s) l, k_now = systime s, k_sent = e\<rparr>)"

lemma mk_okD:
  assumes "mk_ok H l (e, x, s)"
  shows "hangs_set H l s" "h \<in> set l \<Longrightarrow> \<exists>n. mn_hangs x h = Some n" "h \<notin> set l \<Longrightarrow> mn_hangs x h = None" "distinct l"
  using assms by (auto simp: hangs_set_def)

text \<open>A hang goes: from the front of the list, or from further on.\<close>

lemma hang_unlinked:
  assumes "mk_ok H l (e, x, s)" "h \<in> set l" "mn_hangs x h = Some n"
  defines "r \<equiv> (if mn_first x = h then Some (x\<lparr>mn_first := nh_next n\<rparr>)
    else map_option (\<lambda>hs. x\<lparr>mn_hangs := hs\<rparr>) (note_unlink h (mn_first x) (mn_hangs x)))"
  shows "\<exists>x1. r = Some x1 \<and> hang_chain ((mn_hangs x1)(h := None)) (mn_first x1) (remove1 h l) \<and>
    (\<forall>y. map_option nh_pitch (mn_hangs x1 y) = map_option nh_pitch (mn_hangs x y)) \<and> mn_velo x1 = mn_velo x \<and> mn_dur x1 = mn_dur x"
proof -
  from assms(2) obtain b k where l: "l = b # k" by (cases l) auto
  have c: "hang_chain (mn_hangs x) (mn_first x) l" "distinct l" using assms(1) mk_okD(4) [OF assms(1)] by simp_all
  with l have b: "mn_first x = b" by simp
  show ?thesis
  proof (cases "b = h")
    case True
    have "hang_chain ((mn_hangs x)(h := None)) (nh_next n) k"
      using c l True assms(3) by (subst hang_chain_frame [where hs = "mn_hangs x"]) auto
    then show ?thesis using b True l unfolding r_def by simp
  next
    case False
    then have "h \<in> set (tl l)" using assms(2) l by simp
    from note_unlink_chain [OF c this] show ?thesis using b False unfolding r_def by auto
  qed
qed

lemma note_gone:
  assumes ok: "mk_ok H l (e, x, s)" and h: "h \<in> set l"
    and x1: "hang_chain ((mn_hangs x1)(h := None)) (mn_first x1) (remove1 h l)"
      "\<forall>y. map_option nh_pitch (mn_hangs x1 y) = map_option nh_pitch (mn_hangs x y)"
    and s1: "clock_inv s1" "settime s1 = (settime s)(h := -1)" "setlist s1 = remove1 h (setlist s)"
  defines "x2 \<equiv> x1\<lparr>mn_hangs := (mn_hangs x1)(h := None)\<rparr>"
  shows "mk_ok H (remove1 h l) (e', x2, s1)" "y \<in> set (remove1 h l) \<Longrightarrow> pending_note x2 s1 y = pending_note x s y"
proof -
  have d: "distinct l" using ok by (rule mk_okD)
  have none: "mn_hangs x1 y = None \<longleftrightarrow> mn_hangs x y = None" for y using x1(2) by (metis option.map_disc_iff)
  show "mk_ok H (remove1 h l) (e', x2, s1)"
    using hangs_set_gone [OF mk_okD(1) [OF ok] h s1] x1(1) none ok d by (auto simp: x2_def)
  show "pending_note x2 s1 y = pending_note x s y" if "y \<in> set (remove1 h l)"
  proof -
    have y: "y \<noteq> h" "y \<in> set l" using that d by auto
    from mk_okD(2) [OF ok y(2)] obtain n where n: "mn_hangs x y = Some n" by blast
    with x1(2) [rule_format, of y] obtain n1 where "mn_hangs x1 y = Some n1" "nh_pitch n1 = nh_pitch n" by auto
    with n y(1) s1(2) show ?thesis by (simp add: pending_note_def x2_def)
  qed
qed

lemma note_off_log:
  "mn_hangs x h = Some n \<Longrightarrow> note_off mk_log h (e, x, s) = Some (e @ note_msg (FFin 0) (systime s, nh_pitch n), x, s)"
  by (simp add: note_off_def mk_log_def note_pitch_def note_msg_def)

text \<open>A hang's clock is called, a new note starts, stop and clear take all hangs out from the front.\<close>

lemma tick_gone:
  assumes ok: "mk_ok H l (e, x, s)" and h: "h \<in> set l" "mn_hangs x h = Some n"
    and s1: "clock_unset h s0 = Some s1" "clock_inv s1" "settime s1 = (settime s)(h := -1)" "setlist s1 = remove1 h (setlist s)"
  shows "\<exists>x2. makenote_tick mk_log h (e, x, s0) = Some (e @ note_msg (FFin 0) (systime s0, nh_pitch n), x2, s1) \<and>
    mk_ok H (remove1 h l) (e', x2, s1) \<and> (\<forall>y\<in>set (remove1 h l). pending_note x2 s1 y = pending_note x s y) \<and>
    mn_velo x2 = mn_velo x \<and> mn_dur x2 = mn_dur x"
proof -
  from hang_unlinked [OF ok h] obtain x1 where
    x1: "(if mn_first x = h then Some (x\<lparr>mn_first := nh_next n\<rparr>)
      else map_option (\<lambda>hs. x\<lparr>mn_hangs := hs\<rparr>) (note_unlink h (mn_first x) (mn_hangs x))) = Some x1"
    "hang_chain ((mn_hangs x1)(h := None)) (mn_first x1) (remove1 h l)"
    "\<forall>y. map_option nh_pitch (mn_hangs x1 y) = map_option nh_pitch (mn_hangs x y)" "mn_velo x1 = mn_velo x" "mn_dur x1 = mn_dur x"
    by blast
  have "mn_hangs x1 h \<noteq> None" using x1(3) h(2) by (metis option.map_disc_iff option.distinct(1))
  then have "makenote_tick mk_log h (e, x, s0) =
      Some (e @ note_msg (FFin 0) (systime s0, nh_pitch n), x1\<lparr>mn_hangs := (mn_hangs x1)(h := None)\<rparr>, s1)"
    unfolding makenote_tick_def note_off_log [OF h(2)] by (simp add: h(2) x1(1) note_free_def clock_free_def s1(1))
  with note_gone [OF ok h(1) x1(2,3) s1(2-4)] x1(4,5) show ?thesis by auto
qed

lemma front_gone:
  assumes ok: "mk_ok H (h # l) (e, x, s)" and n: "mn_hangs x h = Some n"
  shows "\<exists>x2 s1. note_free h (x\<lparr>mn_first := nh_next n\<rparr>, s) = Some (x2, s1) \<and> mk_ok H l (e', x2, s1) \<and>
    map (pending_note x2 s1) l = map (pending_note x s) l \<and> mn_velo x2 = mn_velo x \<and> mn_dur x2 = mn_dur x \<and> systime s1 = systime s"
proof -
  have h: "h \<in> set (h # l)" and f: "mn_first x = h" using ok by auto
  from hangs_set_unset [OF mk_okD(1) [OF ok] h] obtain s1 where
    s1: "clock_unset h s = Some s1" "clock_inv s1" "settime s1 = (settime s)(h := -1)" "setlist s1 = remove1 h (setlist s)"
      "systime s1 = systime s" by blast
  from hang_unlinked [OF ok h n] f have "hang_chain ((mn_hangs x)(h := None)) (nh_next n) l" by simp
  with note_gone [OF ok h _ _ s1(2-4), of "x\<lparr>mn_first := nh_next n\<rparr>"] s1 n show ?thesis
    by (auto simp: note_free_def clock_free_def)
qed

lemma stop_keeps: 
  "mk_ok H l (e, x, s) \<Longrightarrow> \<exists>w'. makenote_stop mk_log (e, x, s) = Some w' \<and> mk_ok H [] w' \<and> mk_abs [] w' = k_stop (mk_abs l (e, x, s))"
proof (induction l arbitrary: e x s)
  case Nil
  then show ?case by (subst makenote_stop.simps) (simp add: mk_abs_def k_stop_def)
next
  case (Cons h l)
  then have f: "mn_first x = h" "h \<noteq> 0" by auto
  from mk_okD(2) [OF Cons.prems, of h] obtain n where n: "mn_hangs x h = Some n" by auto
  define e1 where "e1 = e @ note_msg (FFin 0) (systime s, nh_pitch n)"
  from front_gone [OF Cons.prems n, of e1] obtain x2 s1 where
    1: "note_free h (x\<lparr>mn_first := nh_next n\<rparr>, s) = Some (x2, s1)" "mk_ok H l (e1, x2, s1)"
      "map (pending_note x2 s1) l = map (pending_note x s) l" "mn_velo x2 = mn_velo x" "mn_dur x2 = mn_dur x" "systime s1 = systime s"
    by blast
  from Cons.IH [OF 1(2)] obtain w' where
    w': "makenote_stop mk_log (e1, x2, s1) = Some w'" "mk_ok H [] w'" "mk_abs [] w' = k_stop (mk_abs l (e1, x2, s1))" by blast
  have "makenote_stop mk_log (e, x, s) = Some w'"
    using f n 1(1) w'(1) by (subst makenote_stop.simps) (simp add: note_off_log [OF n] e1_def)
  moreover have "snd (pending_note x s h) = nh_pitch n" by (simp add: pending_note_def n)
  then have "k_stop (mk_abs l (e1, x2, s1)) = k_stop (mk_abs (h # l) (e, x, s))"
    by (simp add: k_stop_def mk_abs_def 1(3-6) e1_def del: map_map)
  ultimately show ?case using w' by simp
qed

lemma clear_keeps:
  "mk_ok H l (e, x, s) \<Longrightarrow> \<exists>w'. makenote_clear (x, s) = Some w' \<and> mk_ok H [] (e, w') \<and> mk_abs [] (e, w') = k_clear (mk_abs l (e, x, s))"
proof (induction l arbitrary: x s)
  case Nil
  then show ?case by (subst makenote_clear.simps) (auto simp: mk_abs_def k_clear_def)
next
  case (Cons h l)
  then have f: "mn_first x = h" "h \<noteq> 0" by auto
  from mk_okD(2) [OF Cons.prems, of h] obtain n where n: "mn_hangs x h = Some n" by auto
  from front_gone [OF Cons.prems n, of e] obtain x2 s1 where
    1: "note_free h (x\<lparr>mn_first := nh_next n\<rparr>, s) = Some (x2, s1)" "mk_ok H l (e, x2, s1)"
      "mn_velo x2 = mn_velo x" "mn_dur x2 = mn_dur x" "systime s1 = systime s" by blast
  from Cons.IH [OF 1(2)] obtain w' where
    w': "makenote_clear (x2, s1) = Some w'" "mk_ok H [] (e, w')" "mk_abs [] (e, w') = k_clear (mk_abs l (e, x2, s1))" by blast
  have "makenote_clear (x, s) = Some w'" using f n 1(1) w'(1) by (subst makenote_clear.simps) simp
  moreover have "k_clear (mk_abs l (e, x2, s1)) = k_clear (mk_abs (h # l) (e, x, s))"
    by (simp add: k_clear_def mk_abs_def 1(3-5))
  ultimately show ?case using w' by auto
qed

lemma note_keeps:
  assumes ok: "mk_ok H l (e, x, s)" and h: "h \<in> H" "h \<noteq> 0" "mn_hangs x h = None"
  shows "\<exists>w' l'. makenote_float mk_log h f (e, x, s) = Some w' \<and> mk_ok H l' w' \<and> mk_abs l' w' = k_note f (mk_abs l (e, x, s))"
proof (cases "feq (mn_velo x) (FFin 0)")
  case True
  then show ?thesis using ok by (auto simp: makenote_float_def k_note_def mk_abs_def)
next
  case False
  have nh: "h \<notin> set l" using mk_okD(2) [OF ok] h(3) by fastforce
  define d where "d = (if mn_dur x \<ge> 0 then mn_dur x else 0)"
  from hangs_set_new [OF mk_okD(1) [OF ok] h(1) nh, of d] obtain s1 where
    s1: "clock_delay h d (clock_create h s) = Some s1" "systime s1 = systime s" "hangs_set H (h # l) s1"
      "settime s1 = (settime s)(h := delay_until TIMEUNITPERMSEC 0 d (systime s))" by blast
  define x2 where "x2 = x\<lparr>mn_first := h, mn_hangs := (mn_hangs x)(h \<mapsto> \<lparr>nh_pitch = f, nh_next = mn_first x\<rparr>)\<rparr>"
  define e1 where "e1 = e @ note_msg (mn_velo x) (systime s, f)"
  have "makenote_float mk_log h f (e, x, s) = Some (e1, x2, s1)"
    using False s1(1) by (simp add: makenote_float_def mk_log_def note_msg_def e1_def x2_def d_def)
  moreover have "hang_chain (mn_hangs x2) (mn_first x) l"
    using ok nh by (subst hang_chain_frame [where hs = "mn_hangs x"]) (auto simp: x2_def)
  then have "mk_ok H (h # l) (e1, x2, s1)" using ok h s1(3) by (auto simp: x2_def)
  moreover have "pending_note x2 s1 y = pending_note x s y" if "y \<in> set l" for y
    using that nh s1(4) by (auto simp: pending_note_def x2_def)
  then have "mk_abs (h # l) (e1, x2, s1) = k_note f (mk_abs l (e, x, s))"
    using False s1(2,4) by (simp add: mk_abs_def k_note_def e1_def x2_def pending_note_def d_def)
  ultimately show ?thesis by blast
qed

text \<open>Time passes.\<close>

lemma k_run_abs:
  "k_run bnd (mk_abs l (e, x, s)) =
    \<lparr>k_velo = mn_velo x, k_dur = mn_dur x, k_pending = later_msgs bnd (pending_note x s) l, k_now = bnd,
     k_sent = e @ note_offs (due_msgs bnd (pending_note x s) l)\<rparr>"
  by (simp add: k_run_def mk_abs_def rev_map sort_key_map filter_map o_def due_msgs_def later_msgs_def)

lemma mk_patch_step:
  assumes ok: "mk_ok H l (e, x, s)" and c: "setlist s = c # r" "settime s c < bnd"
    and f: "foreign H other" "requests_later bnd other (\<lambda>_. [])"
  shows "\<exists>s1 e2 x2 s2 l2. clock_unset c (s\<lparr>systime := settime s c\<rparr>) = Some s1 \<and>
    mk_patch other c (e, x) s1 = Some ((e2, x2), s2) \<and> mk_ok H l2 (e2, x2, s2) \<and>
    k_run bnd (mk_abs l2 (e2, x2, s2)) = k_run bnd (mk_abs l (e, x, s)) \<and> card (set (due bnd s2)) < card (set (due bnd s))"
proof -
  note hs = mk_okD(1) [OF ok]
  from fire_due [OF hangs_setD(1) [OF hs] c] obtain s1 where
    s1: "clock_unset c (s\<lparr>systime := settime s c\<rparr>) = Some s1" "clock_inv s1" "systime s1 = settime s c"
      "setlist s1 = r" "settime s1 = (settime s)(c := -1)" and due1: "set (due bnd s1) \<subset> set (due bnd s)" by blast
  have r1: "setlist s1 = remove1 c (setlist s)" using s1(4) c(1) by simp
  show ?thesis
  proof (cases "c \<in> H")
    case True
    note h = hangs_set_head [OF hs c(1) True]
    from mk_okD(2) [OF ok h(1)] obtain n where n: "mn_hangs x c = Some n" by blast
    have u: "clock_unset c s1 = Some s1" by (simp add: clock_unset_def s1(5))
    define e2 where "e2 = e @ note_msg (FFin 0) (settime s c, nh_pitch n)"
    from tick_gone [OF ok h(1) n u s1(2,5) r1, of e2] s1(3) obtain x2 where
      x2: "makenote_tick mk_log c (e, x, s1) = Some (e2, x2, s1)" "mk_ok H (remove1 c l) (e2, x2, s1)"
        "\<forall>y\<in>set (remove1 c l). pending_note x2 s1 y = pending_note x s y" "mn_velo x2 = mn_velo x" "mn_dur x2 = mn_dur x"
      by (auto simp: e2_def)
    have k: "sort_key (\<lambda>h. fst (pending_note x s h)) (rev l) = c # [y\<leftarrow>r. y \<in> H]" using h(2) by (simp add: pending_note_def)
    have m1: "due_msgs bnd (pending_note x2 s1) (remove1 c l) = due_msgs bnd (pending_note x s) (remove1 c l)"
      "later_msgs bnd (pending_note x2 s1) (remove1 c l) = later_msgs bnd (pending_note x s) (remove1 c l)"
      using x2(3) by (auto intro: msgs_cong)
    have pc: "pending_note x s c = (settime s c, nh_pitch n)" by (simp add: pending_note_def n)
    then have lt: "fst (pending_note x s c) < bnd" using c(2) by simp
    have "k_run bnd (mk_abs (remove1 c l) (e2, x2, s1)) = k_run bnd (mk_abs l (e, x, s))"
      unfolding k_run_abs msgs_first [OF k lt mk_okD(4) [OF ok] h(1)] by (simp add: m1 e2_def pc x2(4,5))
    moreover have "mk_patch other c (e, x) s1 = Some ((e2, x2), s1)" using x2(1) n by (simp add: mk_patch_def)
    ultimately show ?thesis using s1(1) x2(2) due1 by (blast intro: psubset_card_mono [OF finite_set])
  next
    case False
    then have "mn_hangs x c = None" using ok hangs_setD(3) [OF hs] by auto
    from foreign_call [OF s1(1,2) r1 s1(5) False f] obtain s2 where
      s2: "clock_ops (other c (systime s1)) s1 = Some s2" "clock_inv s2" "alike_on H s s2" "set (due bnd s2) \<subseteq> set (due bnd s1)" by blast
    note al = hangs_set_alike [OF hs s2(2,3)]
    have "pending_note x s2 y = pending_note x s y" if "y \<in> set l" for y using al(2) [OF that] by (simp add: pending_note_def)
    note m = msgs_cong [OF this]
    have "k_run bnd (mk_abs l (e, x, s2)) = k_run bnd (mk_abs l (e, x, s))" unfolding k_run_abs by (simp add: m)
    moreover have "mk_ok H l (e, x, s2)" using ok al(1) by simp
    moreover have "mk_patch other c (e, x) s1 = Some ((e, x), s2)" using s2(1) \<open>mn_hangs x c = None\<close> by (simp add: mk_patch_def)
    moreover have "card (set (due bnd s2)) < card (set (due bnd s))" using s2(4) due1 by (intro psubset_card_mono) auto
    ultimately show ?thesis using s1(1) by blast
  qed
qed

lemma run_keeps:
  assumes ok: "mk_ok H l (e, x, s)" and f: "foreign H other" "requests_later bnd other (\<lambda>_. [])" "0 \<le> bnd"
  shows "\<exists>w' l'. mk_do (M_run bnd other) (e, x, s) = Some w' \<and> mk_ok H l' w' \<and> mk_abs l' w' = k_run bnd (mk_abs l (e, x, s))"
proof -
  define I where "I w s' \<longleftrightarrow> (\<exists>l'. mk_ok H l' (fst w, snd w, s') \<and>
    k_run bnd (mk_abs l' (fst w, snd w, s')) = k_run bnd (mk_abs l (e, x, s)))"
    for w :: "(rat \<times> nat \<times> t_float) list \<times> makenote" and s'
  have "I (e, x) s" using ok by (auto simp: I_def)
  then have "\<exists>w' s'. run_clocks (mk_patch other) bnd (e, x) s = Some (w', s') \<and> I w' s' \<and>
      (setlist s' = [] \<or> bnd \<le> settime s' (hd (setlist s')))"
  proof (rule run_clocks_returns [where \<mu> = "\<lambda>w s. card (set (due bnd s))"])
    fix c r w s' assume a: "I w s'" "setlist s' = c # r" "settime s' c < bnd"
    then obtain l' where l': "mk_ok H l' (fst w, snd w, s')" "k_run bnd (mk_abs l' (fst w, snd w, s')) = k_run bnd (mk_abs l (e, x, s))"
      by (auto simp: I_def)
    from mk_patch_step [OF l'(1) a(2,3) f(1,2)] l'(2)
    show "\<exists>s1 w2 s2. clock_unset c (s'\<lparr>systime := settime s' c\<rparr>) = Some s1 \<and> mk_patch other c w s1 = Some (w2, s2) \<and>
        I w2 s2 \<and> card (set (due bnd s2)) < card (set (due bnd s'))" unfolding I_def by fastforce
  qed
  then obtain e2 x2 s2 l2 where
    r: "run_clocks (mk_patch other) bnd (e, x) s = Some ((e2, x2), s2)" "mk_ok H l2 (e2, x2, s2)"
      "k_run bnd (mk_abs l2 (e2, x2, s2)) = k_run bnd (mk_abs l (e, x, s))"
      "setlist s2 = [] \<or> bnd \<le> settime s2 (hd (setlist s2))" by (auto simp: I_def)
  note hs = mk_okD(1) [OF r(2)]
  have "bnd \<le> settime s2 h" if "h \<in> set l2" for h using hangs_late [OF hs r(4) that] .
  then have "due_msgs bnd (pending_note x2 s2) l2 = []" "later_msgs bnd (pending_note x2 s2) l2 = map (pending_note x2 s2) l2"
    unfolding due_msgs_def later_msgs_def by (auto simp: filter_empty_conv pending_note_def not_less intro!: filter_True)
  then have "mk_abs l2 (e2, x2, s2\<lparr>systime := bnd\<rparr>) = k_run bnd (mk_abs l2 (e2, x2, s2))"
    unfolding k_run_abs by (simp add: mk_abs_def pending_note_def)
  with r(3) have "mk_abs l2 (e2, x2, s2\<lparr>systime := bnd\<rparr>) = k_run bnd (mk_abs l (e, x, s))" by simp
  moreover have "mk_ok H l2 (e2, x2, s2\<lparr>systime := bnd\<rparr>)"
    using r(2) end_of_tick [OF hangs_setD(1) [OF hs] r(4) f(3)] by (simp add: hangs_set_def)
  ultimately show ?thesis using r(1) by auto
qed

section \<open>Sequences of messages\<close>

text \<open>Each note gets a hang that is free when it comes.\<close>

fun mk_legal :: "nat set \<Rightarrow> mk_state \<Rightarrow> mk_ev \<Rightarrow> bool" where
  "mk_legal H w (M_note h f) \<longleftrightarrow> h \<in> H \<and> h \<noteq> 0 \<and> mn_hangs (fst (snd w)) h = None"
| "mk_legal H w (M_run bnd other) \<longleftrightarrow> 0 \<le> bnd \<and> foreign H other \<and> requests_later bnd other (\<lambda>_. [])"
| "mk_legal H w _ \<longleftrightarrow> True"

fun mk_dos :: "mk_ev list \<Rightarrow> mk_state \<Rightarrow> mk_state option" where
  "mk_dos [] w = Some w"
| "mk_dos (ev # evs) w = Option.bind (mk_do ev w) (mk_dos evs)"

fun mk_legals :: "nat set \<Rightarrow> mk_ev list \<Rightarrow> mk_state \<Rightarrow> bool" where
  "mk_legals H [] w \<longleftrightarrow> True"
| "mk_legals H (ev # evs) w \<longleftrightarrow> mk_legal H w ev \<and> (case mk_do ev w of None \<Rightarrow> True | Some w' \<Rightarrow> mk_legals H evs w')"

lemma mk_do_keeps:
  assumes ok: "mk_ok H l w" and "mk_legal H w ev"
  shows "\<exists>w' l'. mk_do ev w = Some w' \<and> mk_ok H l' w' \<and> mk_abs l' w' = k_do ev (mk_abs l w)"
proof -
  obtain e x s where w: "w = (e, x, s)" by (cases w)
  show ?thesis
  proof (cases ev)
    case (M_note h f)
    with assms note_keeps [of H l e x s h f] show ?thesis by (simp add: w del: mk_ok.simps)
  next
    case M_stop
    with assms stop_keeps [of H l e x s] show ?thesis by (auto simp: w simp del: mk_ok.simps)
  next
    case M_clear
    with assms clear_keeps [of H l e x s] show ?thesis by (auto simp: w simp del: mk_ok.simps)
  next
    case (M_set v d)
    with assms show ?thesis by (auto simp: w mk_abs_def pending_note_def)
  next
    case (M_run bnd other)
    with assms run_keeps [of H l e x s other bnd] show ?thesis by (simp add: w del: mk_ok.simps mk_do.simps)
  qed
qed

lemma mk_dos_keep:
  "mk_ok H l w \<Longrightarrow> mk_legals H evs w \<Longrightarrow>
    \<exists>w' l'. mk_dos evs w = Some w' \<and> mk_ok H l' w' \<and> mk_abs l' w' = fold k_do evs (mk_abs l w)"
proof (induction evs arbitrary: l w)
  case (Cons ev evs)
  have "mk_legal H w ev" using Cons.prems(2) by simp
  from mk_do_keeps [OF Cons.prems(1) this] obtain w1 l1 where
    w1: "mk_do ev w = Some w1" "mk_ok H l1 w1" "mk_abs l1 w1 = k_do ev (mk_abs l w)" by blast
  with Cons.IH [OF w1(2)] Cons.prems(2) show ?case by simp
qed auto

lemma makenote_new_ok:
  assumes "clock_inv s" "H \<inter> set (setlist s) = {}"
  shows "mk_ok H [] (e, makenote_new v d, s)"
    "mk_abs [] (e, makenote_new v d, s) = \<lparr>k_velo = v, k_dur = d, k_pending = [], k_now = systime s, k_sent = e\<rparr>"
  using hangs_set_empty [OF assms] by (simp_all add: makenote_new_def mk_abs_def)

section \<open>Every note ends\<close>

text \<open>The pitches of the offs (\<open>z\<close>) or of the notes that start, in what was sent: a velocity, then a pitch.\<close>

fun pitches :: "bool \<Rightarrow> (rat \<times> nat \<times> t_float) list \<Rightarrow> t_float multiset" where
  "pitches z ((t, i, v) # (u, j, p) # r) = (if feq v (FFin 0) = z then {#p#} else {#}) + pitches z r"
| "pitches z _ = {#}"

lemma pitches_append: "even (length l) \<Longrightarrow> pitches z (l @ r) = pitches z l + pitches z r"
  by (induction z l rule: pitches.induct) (auto simp: add_ac)

lemma pitches_offs: "pitches z (note_offs ms) = (if z then mset (map snd ms) else {#})" "even (length (note_offs ms))"
  by (induction ms) (auto simp: note_msg_def feq_def fval_def)

definition notes_end :: "keeper \<Rightarrow> bool" where
  "notes_end k \<longleftrightarrow> even (length (k_sent k)) \<and> pitches True (k_sent k) + mset (map snd (k_pending k)) = pitches False (k_sent k)"

lemma k_do_notes:
  assumes k: "notes_end k" and "ev \<noteq> M_clear"
  shows "notes_end (k_do ev k)"
proof (cases ev)
  case (M_note h f)
  then show ?thesis using k by (auto simp: notes_end_def k_note_def pitches_append note_msg_def)
next
  case M_stop
  then show ?thesis using k by (simp add: notes_end_def k_stop_def pitches_append pitches_offs image_mset.compositionality o_def del: map_map)
next
  case M_clear
  with assms(2) show ?thesis by simp
next
  case (M_set v d)
  with k show ?thesis by (simp add: notes_end_def)
next
  case (M_run bnd other)
  have "filter_mset (\<lambda>m. fst m < bnd) (mset (k_pending k)) + filter_mset (\<lambda>m. bnd \<le> fst m) (mset (k_pending k)) = mset (k_pending k)"
    using multiset_partition [of "mset (k_pending k)" "\<lambda>m. fst m < bnd"] by (simp add: not_less)
  then have "image_mset snd (filter_mset (\<lambda>m. fst m < bnd) (mset (k_pending k))) +
      image_mset snd (filter_mset (\<lambda>m. bnd \<le> fst m) (mset (k_pending k))) = image_mset snd (mset (k_pending k))"
    by (metis image_mset_union)
  with M_run k pitches_offs show ?thesis by (simp add: notes_end_def k_run_def pitches_append add.assoc)
qed

lemma fold_notes: "notes_end k \<Longrightarrow> M_clear \<notin> set evs \<Longrightarrow> notes_end (fold k_do evs k)"
  by (induction evs arbitrary: k) (use k_do_notes in auto)

section \<open>What makenote promises\<close>



section \<open>Messages sent back\<close>

text \<open>A note off at the right outlet makes another object send clear to the makenote.\<close>

definition mk_react :: "'e note_out" where
  "mk_react i f w =
     (if i = velout \<and> feq f (FFin 0) then map_option (Pair (fst w)) (makenote_clear (snd w)) else Some w)"

text \<open>The elements of a bag that are sent are taken out of it by a note off, or are only recorded.\<close>

definition bag_react :: "'e bag_out" where
  "bag_react f w = Some (fst w, bag_float 0 f ((snd w)\<lparr>b_velo := FFin 0\<rparr>))"

definition bag_log :: "t_float list bag_out" where
  "bag_log f w = Some (fst w @ [f], snd w)"

lemma note_off_react:
  assumes "mk_ok H l (e, x, s)" shows "note_off mk_react h (e, x, s) = None"
proof -
  from clear_keeps [OF assms] obtain x1 s1 where c: "makenote_clear (x, s) = Some (x1, s1)" "mk_ok H [] (e, x1, s1)" by auto
  then have "mn_hangs x1 h = None" by simp
  with c(1) show ?thesis by (simp add: note_off_def mk_react_def note_pitch_def feq_def fval_def)
qed

lemma bag_flush_elems: "bag_flush bag_log (e, x) = Some (e @ map snd (b_elems x), x\<lparr>b_elems := []\<rparr>)"
proof (induction "b_elems x" arbitrary: e x)
  case Nil
  then show ?case by (subst bag_flush.simps) simp
next
  case (Cons b es)
  obtain c f where b: "b = (c, f)" by (cases b)
  from Cons.hyps(1) [of "x\<lparr>b_elems := es\<rparr>" "e @ [f]"] show ?case
    using Cons.hyps(2) [symmetric] b by (subst bag_flush.simps) (simp add: bag_log_def)
qed

lemma bag_ons: "b_velo x = FFin 1 \<Longrightarrow> fold (\<lambda>(c, f). bag_float c f) cs x = x\<lparr>b_elems := b_elems x @ cs\<rparr>"
proof (induction cs arbitrary: x)
  case (Cons c cs)
  obtain a f where c: "c = (a, f)" by (cases c)
  have "bag_float a f x = x\<lparr>b_elems := b_elems x @ [c]\<rparr>" using Cons.prems by (simp add: c bag_float_def feq_def fval_def)
  with Cons.IH [of "x\<lparr>b_elems := b_elems x @ [c]\<rparr>"] Cons.prems c show ?case by simp
qed simp

text \<open>
  C39: makenote reads the pitch of a hang after it has sent the velocity: when that makes another object send clear, the hang has been
  freed, and a stop and the end of any note use it after that.
\<close>

theorem makenote_feedback:
  assumes "mk_ok H (h # l) (e, x, s)"
  shows "makenote_stop mk_react (e, x, s) = None \<and> makenote_tick mk_react h1 (e, x, s) = None"
proof -
  have "mn_first x = h" "h \<noteq> 0" using assms by auto
  then show ?thesis unfolding makenote_tick_def note_off_react [OF assms]
    by (subst makenote_stop.simps) (simp add: note_off_react [OF assms])
qed

text \<open>A bag sends the notes that are on, in the order they came; when one that is sent comes back as a note off, its element has been
  freed before its link is read.
\<close>

theorem bag_flush_once:
  "bag_flush bag_log ([], fold (\<lambda>(c, f). bag_float c f) (zip [0..<length fs] fs) (bag_new\<lparr>b_velo := FFin 1\<rparr>)) =
     Some (fs, bag_new\<lparr>b_velo := FFin 1\<rparr>) \<and>
   bag_flush bag_react (e, fold (\<lambda>(c, f). bag_float c f) (zip [0..<length fs + 1] (FFin q # fs)) (bag_new\<lparr>b_velo := FFin 1\<rparr>)) = None"
proof -
  have b: "fold (\<lambda>(c, f). bag_float c f) cs (bag_new\<lparr>b_velo := FFin 1\<rparr>) = \<lparr>b_velo = FFin 1, b_elems = cs\<rparr>" for cs
    using bag_ons [of "bag_new\<lparr>b_velo := FFin 1\<rparr>" cs] by (simp add: bag_new_def)
  have z: "zip [0..<length fs + 1] (FFin q # fs) = (0, FFin q) # zip [1..<length fs + 1] fs" by (simp add: upt_conv_Cons del: upt_Suc)
  have n: "\<exists>c1 f1 es. zip [1..<length fs + 1] fs = (c1, f1) # es \<and> c1 \<noteq> 0" if "fs \<noteq> []"
    using that by (cases fs) (auto simp: upt_conv_Cons simp del: upt_Suc)
  have "bag_flush bag_react (e, fold (\<lambda>(c, f). bag_float c f) (zip [0..<length fs + 1] (FFin q # fs)) (bag_new\<lparr>b_velo := FFin 1\<rparr>)) = None"
    unfolding b z using n by (subst bag_flush.simps) (cases "fs = []"; auto simp: bag_new_def bag_react_def bag_float_def feq_def fval_def)
  then show ?thesis unfolding b bag_flush_elems by (simp add: bag_new_def)
qed

section \<open>Witnesses\<close>

definition sched0 :: sched where
  "sched0 = \<lparr>clocks = \<lambda>_. clock_new, setlist = [], systime = 0, dacsr = 44100\<rparr>"

lemma sched0_inv: "clock_inv sched0" "setlist sched0 = []"
  by (simp_all add: clock_inv_def sched0_def settime_def clock_new_def)

abbreviation one_note :: "mk_ev list" where
  "one_note \<equiv> [M_note 5 (FFin 60), M_run 20000000 (\<lambda>_ _. [])]"

lemma one_note_legal: "mk_legals {5} one_note w" if "mn_hangs (fst (snd w)) 5 = None"
  using that by (auto simp: foreign_def requests_later_def split: option.splits)



theorem makenote_feedback_witness:
  "\<exists>e x s. makenote_float mk_log 5 (FFin 60) ([], makenote_new (FFin 1) 1000, sched0) = Some (e, x, s) \<and>
    makenote_stop mk_react (e, x, s) = None \<and> makenote_tick mk_react 5 (e, x, s) = None"
proof -
  have h: "{5} \<inter> set (setlist sched0) = {}" by (simp add: sched0_inv)
  note new = makenote_new_ok [OF sched0_inv(1) h, of "[]" "FFin 1" 1000]
  from note_keeps [OF new(1), of 5 "FFin 60"] obtain e x s l where
    w: "makenote_float mk_log 5 (FFin 60) ([], makenote_new (FFin 1) 1000, sched0) = Some (e, x, s)" "mk_ok {5} l (e, x, s)"
      "mk_abs l (e, x, s) = k_note (FFin 60) (mk_abs [] ([], makenote_new (FFin 1) 1000, sched0))"
    by (auto simp: makenote_new_def)
  have "l \<noteq> []" using w(3) by (auto simp: mk_abs_def k_note_def makenote_new_def feq_def fval_def)
  then obtain h l' where "l = h # l'" by (cases l) auto
  with makenote_feedback [of "{5}" h l' e x s 5] w(1,2) show ?thesis by blast
qed

end
