(* ===== verification/MClass.thy ===== *)
theory MClass
  imports Atom
begin

text \<open>
  Classes and messages, \<open>src/pd/src/m_class.c\<close> and the end of \<open>m_pd.c\<close>: the class structure with
  its special methods and its method table, the functions that build it, and the dispatch of a
  message: the default methods, \<open>pd_typedmess\<close> with its check of the argument types,
  \<open>pd_forwardmess\<close>, \<open>pd_vmess\<close>, and the lookup of methods. A function pointer is a tag of the
  type \<open>fn\<close>; what a message does to an object is the call it leads to, a value of type \<open>call\<close>.
\<close>

section \<open>Classes\<close>

datatype atomtype =
    T_FLOAT | T_SYMBOL | T_POINTER | T_SEMI | T_COMMA | T_DEFFLOAT | T_DEFSYM | T_DOLLAR
  | T_DOLLSYM | T_GIMME | T_CANT | T_BLOB

text \<open>Functions: those of this program that are installed as methods, and any others.\<close>

datatype fn =
    Fn nat
  | New_anything
  | Inlet_bang | Inlet_pointer | Inlet_float | Inlet_symbol | Inlet_list | Inlet_anything
  | Inlet_wrong
  | Pointerinlet_pointer | Floatinlet_float | Symbolinlet_symbol
  | Backtracer_anything

text \<open>
  A special method is the default one (\<open>pd_defaultbang\<close>, ...) or one installed by
  \<open>class_addbang\<close>, ...; the float method may be \<open>pd_floatforsignal\<close>.
\<close>

datatype slot = Default | Method fn
datatype fslot = DefaultFloat | FloatMethod fn | FloatForSignal
datatype savefn = Text_save | Class_nosavefn | Savefn nat
datatype widget = Text_widgetbehavior | Widget nat

record methodentry =
  me_name :: symbol
  me_fun :: fn
  me_arg :: "atomtype list"

record pd_class =
  c_name :: symbol
  c_helpname :: symbol
  c_externdir :: symbol
  c_size :: nat
  c_methods :: "methodentry list"
  c_freemethod :: "fn option"
  c_bangmethod :: slot
  c_pointermethod :: slot
  c_floatmethod :: fslot
  c_symbolmethod :: slot
  c_blobmethod :: slot
  c_listmethod :: slot
  c_anymethod :: slot
  c_wb :: "widget option"
  c_pwb :: "nat option"
  c_savefn :: savefn
  c_propertiesfn :: "nat option"
  c_floatsignalin :: int
  c_gobj :: bool
  c_patchable :: bool
  c_firstin :: bool
  c_drawcommand :: bool
  c_multichannel :: bool
  c_nopromotesig :: bool
  c_nopromoteleft :: bool

abbreviation MAXPDARG :: nat where "MAXPDARG \<equiv> 5"

abbreviation CLASS_PD :: int where "CLASS_PD \<equiv> 1"
abbreviation CLASS_GOBJ :: int where "CLASS_GOBJ \<equiv> 2"
abbreviation CLASS_PATCHABLE :: int where "CLASS_PATCHABLE \<equiv> 3"
abbreviation CLASS_TYPEMASK :: int where "CLASS_TYPEMASK \<equiv> 3"
abbreviation CLASS_NOINLET :: int where "CLASS_NOINLET \<equiv> 8"
abbreviation CLASS_MULTICHANNEL :: int where "CLASS_MULTICHANNEL \<equiv> 0x10"
abbreviation CLASS_NOPROMOTESIG :: int where "CLASS_NOPROMOTESIG \<equiv> 0x20"
abbreviation CLASS_NOPROMOTELEFT :: int where "CLASS_NOPROMOTELEFT \<equiv> 0x40"

datatype class_error =
    BadArgumentTypes symbol symbol
  | ArgsNotTypechecked symbol symbol
  | TooManyArgs symbol
  | AlreadyRegistered symbol
  | SignalOverrides
  | FloatOverwritten symbol

section \<open>Methods\<close>

definition class_addbang :: "fn \<Rightarrow> pd_class \<Rightarrow> pd_class" where
  "class_addbang f c = c\<lparr>c_bangmethod := Method f\<rparr>"

definition class_addpointer :: "fn \<Rightarrow> pd_class \<Rightarrow> pd_class" where
  "class_addpointer f c = c\<lparr>c_pointermethod := Method f\<rparr>"

definition class_doaddfloat :: "fn \<Rightarrow> pd_class \<Rightarrow> pd_class" where
  "class_doaddfloat f c = c\<lparr>c_floatmethod := FloatMethod f\<rparr>"

definition class_addsymbol :: "fn \<Rightarrow> pd_class \<Rightarrow> pd_class" where
  "class_addsymbol f c = c\<lparr>c_symbolmethod := Method f\<rparr>"

definition class_addblob :: "fn \<Rightarrow> pd_class \<Rightarrow> pd_class" where
  "class_addblob f c = c\<lparr>c_blobmethod := Method f\<rparr>"

definition class_addlist :: "fn \<Rightarrow> pd_class \<Rightarrow> pd_class" where
  "class_addlist f c = c\<lparr>c_listmethod := Method f\<rparr>"

definition class_addanything :: "fn \<Rightarrow> pd_class \<Rightarrow> pd_class" where
  "class_addanything f c = c\<lparr>c_anymethod := Method f\<rparr>"

text \<open>
  \<open>class_addmethod\<close>; \<open>ts\<close> holds the argument types before the closing \<open>A_NULL\<close>. The label
  \<open>phooey\<close> leaves the method out.
\<close>

definition class_addmethod :: "pd_class \<Rightarrow> fn \<Rightarrow> symbol \<Rightarrow> atomtype list \<Rightarrow> pd_class \<times> class_error list" where
  "class_addmethod c f sel ts =
     (let warn = (if sel = ''signal'' \<and> c_floatsignalin c \<noteq> 0 then [SignalOverrides] else []);
          c = (if sel = ''signal'' then c\<lparr>c_floatsignalin := -1\<rparr> else c);
          phooey = (c, warn @ [BadArgumentTypes (c_name c) sel]) in
      if sel = ''bang'' then
        if ts \<noteq> [] then phooey else (class_addbang f c, warn)
      else if sel = ''float'' then
        if ts \<noteq> [T_FLOAT] then phooey else (class_doaddfloat f c, warn)
      else if sel = ''symbol'' then
        if ts \<noteq> [T_SYMBOL] then phooey else (class_addsymbol f c, warn)
      else if sel = ''blob'' then
        if ts \<noteq> [T_BLOB] then phooey else (class_addblob f c, warn)
      else if sel = ''list'' then
        if take 1 ts \<noteq> [T_GIMME] then phooey else (class_addlist f c, warn)
      else if sel = ''anything'' then
        if take 1 ts \<noteq> [T_GIMME] then phooey else (class_addanything f c, warn)
      else
        (c\<lparr>c_methods := c_methods c @ [\<lparr>me_name = sel, me_fun = f, me_arg = take MAXPDARG ts\<rparr>]\<rparr>,
         warn @ (if length ts > MAXPDARG then [ArgsNotTypechecked (c_name c) sel] else [])))"

definition class_domainsignalin :: "int \<Rightarrow> pd_class \<Rightarrow> pd_class \<times> class_error list" where
  "class_domainsignalin onset c =
     (if onset \<le> 0 then (c\<lparr>c_floatsignalin := -1\<rparr>, [])
      else (c\<lparr>c_floatmethod := FloatForSignal, c_floatsignalin := onset\<rparr>,
            if c_floatmethod c \<noteq> DefaultFloat then [FloatOverwritten (c_name c)] else []))"

definition class_sethelpsymbol :: "symbol \<Rightarrow> pd_class \<Rightarrow> pd_class" where
  "class_sethelpsymbol s c = c\<lparr>c_helpname := s\<rparr>"

definition class_setdrawcommand :: "pd_class \<Rightarrow> pd_class" where
  "class_setdrawcommand c = c\<lparr>c_drawcommand := True\<rparr>"

definition class_setwidget :: "nat \<Rightarrow> pd_class \<Rightarrow> pd_class" where
  "class_setwidget w c = c\<lparr>c_wb := Some (Widget w)\<rparr>"

definition class_setparentwidget :: "nat \<Rightarrow> pd_class \<Rightarrow> pd_class" where
  "class_setparentwidget pw c = c\<lparr>c_pwb := Some pw\<rparr>"

definition class_setsavefn :: "nat \<Rightarrow> pd_class \<Rightarrow> pd_class" where
  "class_setsavefn f c = c\<lparr>c_savefn := Savefn f\<rparr>"

definition class_setpropertiesfn :: "nat \<Rightarrow> pd_class \<Rightarrow> pd_class" where
  "class_setpropertiesfn f c = c\<lparr>c_propertiesfn := Some f\<rparr>"

definition class_getdspflags :: "pd_class \<Rightarrow> int" where
  "class_getdspflags c =
     (if c_multichannel c then CLASS_MULTICHANNEL else 0) OR
     (if c_nopromotesig c then CLASS_NOPROMOTESIG else 0) OR
     (if c_nopromoteleft c then CLASS_NOPROMOTELEFT else 0)"

section \<open>The table of classes\<close>

text \<open>
  The classes are numbered in the order they were made; \<open>ct\<close> is the list \<open>classtable_register\<close>
  keeps, the last class first. \<open>objectmaker\<close> is \<open>pd_objectmaker\<close>, \<open>None\<close> before \<open>mess_init\<close>.
\<close>

record classes =
  class_of :: "pd_class list"
  ct :: "nat list"
  objectmaker :: "nat option"
  loadsym :: "symbol option"
  class_extern_dir :: symbol
  newest :: "nat option"
  class_log :: "class_error list"

definition add_method :: "nat \<Rightarrow> fn \<Rightarrow> symbol \<Rightarrow> atomtype list \<Rightarrow> classes \<Rightarrow> classes" where
  "add_method i f sel ts w =
     (let (c, es) = class_addmethod (class_of w ! i) f sel ts in
      w\<lparr>class_of := (class_of w)[i := c], class_log := class_log w @ es\<rparr>)"

definition classtable_register :: "nat \<Rightarrow> classes \<Rightarrow> classes" where
  "classtable_register i w =
     w\<lparr>ct := i # ct w,
       class_log := class_log w @ map (\<lambda>_. AlreadyRegistered (c_name (class_of w ! i))) [j\<leftarrow>ct w. j = i]\<rparr>"

definition classtable_size :: "classes \<Rightarrow> nat" where
  "classtable_size w = length (ct w)"

definition classtable_tovec :: "nat \<Rightarrow> classes \<Rightarrow> atom list" where
  "classtable_tovec n w = map (\<lambda>i. A_SYMBOL (c_name (class_of w ! i))) (take n (ct w))"

definition classtable_findbyname :: "symbol \<Rightarrow> classes \<Rightarrow> nat option" where
  "classtable_findbyname s w = List.find (\<lambda>i. c_name (class_of w ! i) = s) (ct w)"

text \<open>Whether \<open>loadstring\<close>, the longer name an extern was invoked by, ends with the class name.\<close>

definition ends_with_name :: "symbol \<Rightarrow> symbol \<Rightarrow> bool" where
  "ends_with_name s loadstring \<longleftrightarrow>
     length s < length loadstring \<and> s = drop (length loadstring - length s) loadstring"

text \<open>
  \<open>vec\<close> holds one type more than can be checked, which \<open>class_addmethod\<close> complains about again.
\<close>

definition add_creators :: "nat \<Rightarrow> fn \<Rightarrow> symbol \<Rightarrow> atomtype list \<Rightarrow> classes \<Rightarrow> classes" where
  "add_creators mk f s vec w =
     (let w = add_method mk f s vec w in
      case loadsym w of
        None \<Rightarrow> w
      | Some l \<Rightarrow> if ends_with_name s l then add_method mk f l vec w else w)"

definition new_class :: "symbol \<Rightarrow> fn option \<Rightarrow> nat \<Rightarrow> int \<Rightarrow> symbol \<Rightarrow> pd_class" where
  "new_class s freemethod sz flags dir =
     (let typeflag = flags AND CLASS_TYPEMASK;
          typeflag = (if typeflag = 0 then CLASS_PATCHABLE else typeflag) in
      \<lparr>c_name = s, c_helpname = s, c_externdir = dir, c_size = sz, c_methods = [],
       c_freemethod = freemethod, c_bangmethod = Default, c_pointermethod = Default,
       c_floatmethod = DefaultFloat, c_symbolmethod = Default, c_blobmethod = Default,
       c_listmethod = Default, c_anymethod = Default,
       c_wb = (if typeflag = CLASS_PATCHABLE then Some Text_widgetbehavior else None), c_pwb = None,
       c_savefn = (if typeflag = CLASS_PATCHABLE then Text_save else Class_nosavefn),
       c_propertiesfn = None, c_floatsignalin = 0, c_gobj = (typeflag \<ge> CLASS_GOBJ),
       c_patchable = (typeflag = CLASS_PATCHABLE), c_firstin = (flags AND CLASS_NOINLET = 0),
       c_drawcommand = False, c_multichannel = (flags AND CLASS_MULTICHANNEL \<noteq> 0),
       c_nopromotesig = (flags AND CLASS_NOPROMOTESIG \<noteq> 0),
       c_nopromoteleft = (flags AND CLASS_NOPROMOTELEFT \<noteq> 0)\<rparr>)"

definition class_new ::
  "symbol \<Rightarrow> fn option \<Rightarrow> fn option \<Rightarrow> nat \<Rightarrow> int \<Rightarrow> atomtype list \<Rightarrow> classes \<Rightarrow> nat \<times> classes" where
  "class_new s newmethod freemethod sz flags ts w =
     (let w = w\<lparr>class_log := class_log w @ (if length ts > MAXPDARG then [TooManyArgs s] else [])\<rparr>;
          vec = take (Suc MAXPDARG) ts;
          w = (case (objectmaker w, newmethod) of
                 (Some mk, Some f) \<Rightarrow> add_creators mk f s vec w
               | _ \<Rightarrow> w);
          i = length (class_of w) in
      (i, classtable_register i
            (w\<lparr>class_of := class_of w @ [new_class s freemethod sz flags (class_extern_dir w)]\<rparr>)))"

definition schar_of_nat :: "nat \<Rightarrow> int" where
  "schar_of_nat n = sint (of_nat n :: 8 word)"

text \<open>
  \<open>class_addcreator\<close> compares the lengths as \<open>char\<close> values, and takes the tail at the difference
  of those values; \<open>None\<close> is a tail outside the string.
\<close>

definition class_addcreator :: "fn \<Rightarrow> symbol \<Rightarrow> atomtype list \<Rightarrow> nat \<Rightarrow> classes \<Rightarrow> classes option" where
  "class_addcreator f s ts mk w =
     (let w = w\<lparr>class_log := class_log w @ (if length ts > MAXPDARG then [TooManyArgs s] else [])\<rparr>;
          vec = take (Suc MAXPDARG) ts;
          w = add_method mk f s vec w in
      case loadsym w of
        None \<Rightarrow> Some w
      | Some l \<Rightarrow>
          let l1 = schar_of_nat (length s); l2 = schar_of_nat (length l) in
          if l2 > l1 then
            if nat (l2 - l1) > length l then None
            else if s = drop (nat (l2 - l1)) l then Some (add_method mk f l vec w)
            else Some w
          else Some w)"

definition no_classes :: classes where
  "no_classes = \<lparr>class_of = [], ct = [], objectmaker = None, loadsym = None, class_extern_dir = [],
     newest = None, class_log = []\<rparr>"

text \<open>\<open>mess_init\<close>, with the numbers of \<open>pd_objectmaker\<close> and \<open>pd_canvasmaker\<close>.\<close>

definition mess_init :: "classes \<Rightarrow> (nat \<times> nat) option \<times> classes" where
  "mess_init w =
     (if objectmaker w \<noteq> None then (None, w)
      else
        let (om, w) = class_new ''objectmaker'' None None 8 0 [] w;
            w = w\<lparr>objectmaker := Some om\<rparr>;
            (cm, w) = class_new ''classmaker'' None None 8 0 [] w in
        (Some (om, cm), w\<lparr>class_of := (class_of w)[om := class_addanything New_anything (class_of w ! om)]\<rparr>))"

section \<open>Messages\<close>

datatype arg = ArgPointer nat | ArgSymbol symbol | ArgBlob nat | ArgUninit

datatype call =
    CallBang fn
  | CallFloat fn t_float
  | CallSymbol fn symbol
  | CallPointer fn nat
  | CallBlob fn nat
  | CallList fn symbol "atom list"
  | CallAny fn symbol "atom list"
  | CallMethod fn "arg list" "t_float list"
  | SignalFloat int t_float
  | Unpack symbol "atom list"
  | NoMethod symbol symbol
  | NoBlobMethod symbol
  | FloatUnexpected symbol
  | BadArguments symbol symbol

text \<open>The default methods, and the call of a special method.\<close>

definition call_any :: "pd_class \<Rightarrow> symbol \<Rightarrow> atom list \<Rightarrow> call" where
  "call_any c s argv = (case c_anymethod c of Method f \<Rightarrow> CallAny f s argv | Default \<Rightarrow> NoMethod (c_name c) s)"

definition list_or_any :: "pd_class \<Rightarrow> symbol \<Rightarrow> atom list \<Rightarrow> call" where
  "list_or_any c s argv =
     (case c_listmethod c of Method f \<Rightarrow> CallList f s argv | Default \<Rightarrow> call_any c s argv)"

definition pd_bang :: "pd_class \<Rightarrow> call" where
  "pd_bang c = (case c_bangmethod c of Method f \<Rightarrow> CallBang f | Default \<Rightarrow> list_or_any c ''bang'' [])"

definition pd_floatforsignal :: "pd_class \<Rightarrow> t_float \<Rightarrow> call" where
  "pd_floatforsignal c f =
     (if c_floatsignalin c > 0 then SignalFloat (c_floatsignalin c) f else FloatUnexpected (c_name c))"

definition pd_float :: "pd_class \<Rightarrow> t_float \<Rightarrow> call" where
  "pd_float c x =
     (case c_floatmethod c of
        FloatMethod f \<Rightarrow> CallFloat f x
      | FloatForSignal \<Rightarrow> pd_floatforsignal c x
      | DefaultFloat \<Rightarrow> list_or_any c ''float'' [A_FLOAT x])"

definition pd_pointer :: "pd_class \<Rightarrow> nat \<Rightarrow> call" where
  "pd_pointer c gp =
     (case c_pointermethod c of
        Method f \<Rightarrow> CallPointer f gp
      | Default \<Rightarrow> list_or_any c ''pointer'' [A_POINTER gp])"

definition pd_symbol :: "pd_class \<Rightarrow> symbol \<Rightarrow> call" where
  "pd_symbol c s =
     (case c_symbolmethod c of
        Method f \<Rightarrow> CallSymbol f s
      | Default \<Rightarrow> list_or_any c ''symbol'' [A_SYMBOL s])"

definition pd_blob :: "pd_class \<Rightarrow> nat \<Rightarrow> call" where
  "pd_blob c b = (case c_blobmethod c of Method f \<Rightarrow> CallBlob f b | Default \<Rightarrow> NoBlobMethod (c_name c))"

definition pd_anything :: "pd_class \<Rightarrow> symbol \<Rightarrow> atom list \<Rightarrow> call" where
  "pd_anything c s argv = call_any c s argv"

definition pd_defaultlist :: "pd_class \<Rightarrow> symbol \<Rightarrow> atom list \<Rightarrow> call" where
  "pd_defaultlist c s argv =
     (if argv = [] \<and> c_bangmethod c \<noteq> Default then pd_bang c
      else
        case (argv, c_floatmethod c, c_symbolmethod c, c_pointermethod c) of
          ([A_FLOAT x], FloatMethod f, _, _) \<Rightarrow> CallFloat f x
        | ([A_FLOAT x], FloatForSignal, _, _) \<Rightarrow> pd_floatforsignal c x
        | ([A_SYMBOL y], _, Method f, _) \<Rightarrow> CallSymbol f y
        | ([A_POINTER g], _, _, Method f) \<Rightarrow> CallPointer f g
        | _ \<Rightarrow>
            if c_anymethod c \<noteq> Default then call_any c ''list'' argv
            else if argv \<noteq> [] \<and> c_patchable c then Unpack s argv
            else NoMethod (c_name c) ''list'')"

definition call_list :: "pd_class \<Rightarrow> symbol \<Rightarrow> atom list \<Rightarrow> call" where
  "call_list c s argv =
     (case c_listmethod c of Method f \<Rightarrow> CallList f s argv | Default \<Rightarrow> pd_defaultlist c s argv)"

definition pd_list :: "pd_class \<Rightarrow> symbol \<Rightarrow> atom list \<Rightarrow> call" where
  "pd_list c s argv = call_list c ''list'' argv"

section \<open>Typed messages\<close>

definition push_int :: "arg \<Rightarrow> (arg list \<times> t_float list) option \<Rightarrow> (arg list \<times> t_float list) option" where
  "push_int a r = map_option (\<lambda>(ai, ad). (a # ai, ad)) r"

definition push_float :: "t_float \<Rightarrow> (arg list \<times> t_float list) option \<Rightarrow> (arg list \<times> t_float list) option" where
  "push_float x r = map_option (\<lambda>(ai, ad). (ai, x # ad)) r"

text \<open>
  The loop over the argument types: \<open>None\<close> is the jump to \<open>badarg\<close>. An atom that is no blob leaves
  the argument of a blob unset. For \<open>pd_objectmaker\<close> (\<open>mk\<close>) a zero may stand for a symbol.
\<close>

fun fill_args :: "bool \<Rightarrow> atomtype list \<Rightarrow> atom list \<Rightarrow> (arg list \<times> t_float list) option" where
  "fill_args mk [] argv = Some ([], [])"
| "fill_args mk (t # ts) argv =
     (case t of
        T_POINTER \<Rightarrow>
          (case argv of A_POINTER g # r \<Rightarrow> push_int (ArgPointer g) (fill_args mk ts r) | _ \<Rightarrow> None)
      | T_FLOAT \<Rightarrow>
          (case argv of A_FLOAT x # r \<Rightarrow> push_float x (fill_args mk ts r) | _ \<Rightarrow> None)
      | T_DEFFLOAT \<Rightarrow>
          (case argv of
             [] \<Rightarrow> push_float (FFin 0) (fill_args mk ts [])
           | A_FLOAT x # r \<Rightarrow> push_float x (fill_args mk ts r)
           | _ \<Rightarrow> None)
      | T_BLOB \<Rightarrow>
          (case argv of
             [] \<Rightarrow> None
           | A_BLOB b # r \<Rightarrow> push_int (ArgBlob b) (fill_args mk ts r)
           | _ # r \<Rightarrow> push_int ArgUninit (fill_args mk ts r))
      | T_SYMBOL \<Rightarrow>
          (case argv of
             A_SYMBOL s # r \<Rightarrow> push_int (ArgSymbol s) (fill_args mk ts r)
           | A_FLOAT x # r \<Rightarrow>
               if mk \<and> (x = FFin 0 \<or> x = FNegZero) then push_int (ArgSymbol []) (fill_args mk ts r) else None
           | _ \<Rightarrow> None)
      | T_DEFSYM \<Rightarrow>
          (case argv of
             [] \<Rightarrow> push_int (ArgSymbol []) (fill_args mk ts [])
           | A_SYMBOL s # r \<Rightarrow> push_int (ArgSymbol s) (fill_args mk ts r)
           | A_FLOAT x # r \<Rightarrow>
               if mk \<and> (x = FFin 0 \<or> x = FNegZero) then push_int (ArgSymbol []) (fill_args mk ts r) else None
           | _ \<Rightarrow> None)
      | _ \<Rightarrow> None)"

definition call_method :: "bool \<Rightarrow> pd_class \<Rightarrow> methodentry \<Rightarrow> symbol \<Rightarrow> atom list \<Rightarrow> call" where
  "call_method mk c m s argv =
     (if take 1 (me_arg m) = [T_GIMME] then CallAny (me_fun m) s argv
      else
        case fill_args mk (me_arg m) (take MAXPDARG argv) of
          None \<Rightarrow> BadArguments (c_name c) s
        | Some (ai, ad) \<Rightarrow> CallMethod (me_fun m) ai ad)"

definition find_method :: "symbol \<Rightarrow> pd_class \<Rightarrow> methodentry option" where
  "find_method s c = List.find (\<lambda>m. me_name m = s) (c_methods c)"

text \<open>
  \<open>pd_typedmess\<close>; \<open>mk\<close> holds for a message to \<open>pd_objectmaker\<close>. The blob method is called with the
  word of the atom, which is a blob's only if the atom is one.
\<close>

definition pd_typedmess :: "bool \<Rightarrow> pd_class \<Rightarrow> symbol \<Rightarrow> atom list \<Rightarrow> call" where
  "pd_typedmess mk c s argv =
     (if s = ''float'' then
        (case argv of [] \<Rightarrow> pd_float c (FFin 0) | A_FLOAT x # _ \<Rightarrow> pd_float c x | _ \<Rightarrow> BadArguments (c_name c) s)
      else if s = ''bang'' then pd_bang c
      else if s = ''list'' then call_list c s argv
      else if s = ''symbol'' then
        (case argv of A_SYMBOL y # _ \<Rightarrow> pd_symbol c y | _ \<Rightarrow> pd_symbol c [])
      else if s = ''blob'' then
        (case argv of
           [A_BLOB b] \<Rightarrow> pd_blob c b
         | [_] \<Rightarrow> (case c_blobmethod c of Method f \<Rightarrow> CallMethod f [ArgUninit] [] | Default \<Rightarrow> NoBlobMethod (c_name c))
         | _ \<Rightarrow> BadArguments (c_name c) s)
      else
        case find_method s c of
          Some m \<Rightarrow> call_method mk c m s argv
        | None \<Rightarrow> call_any c s argv)"

datatype vmess_arg = Vfloat t_float | Vsymbol symbol | Vblob nat | Vint int | Vpointer nat

fun vmess_atom :: "vmess_arg \<Rightarrow> atom" where
  "vmess_atom (Vfloat x) = A_FLOAT x"
| "vmess_atom (Vsymbol s) = A_SYMBOL s"
| "vmess_atom (Vblob b) = A_BLOB b"
| "vmess_atom (Vint i) = A_FLOAT (float_of_int i)"
| "vmess_atom (Vpointer g) = A_POINTER g"

text \<open>\<open>pd_vmess\<close>: the arguments after the tenth are dropped.\<close>

definition pd_vmess :: "pd_class \<Rightarrow> symbol \<Rightarrow> vmess_arg list \<Rightarrow> call" where
  "pd_vmess c sel args = pd_typedmess False c sel (map vmess_atom (take 10 args))"

datatype forwarded = Nothing | Forwarded call | BadForward

definition pd_forwardmess :: "pd_class \<Rightarrow> atom list \<Rightarrow> forwarded" where
  "pd_forwardmess c argv =
     (case argv of
        [] \<Rightarrow> Nothing
      | A_SYMBOL s # r \<Rightarrow> Forwarded (pd_typedmess False c s r)
      | A_POINTER g # r \<Rightarrow> Forwarded (if r = [] then pd_pointer c g else pd_list c ''list'' argv)
      | A_FLOAT x # r \<Rightarrow> Forwarded (if r = [] then pd_float c x else pd_list c ''list'' argv)
      | _ \<Rightarrow> BadForward)"

definition zgetfn :: "pd_class \<Rightarrow> symbol \<Rightarrow> fn option" where
  "zgetfn c s = map_option me_fun (find_method s c)"

definition zcheckgetfn :: "pd_class \<Rightarrow> symbol \<Rightarrow> atomtype list \<Rightarrow> fn option" where
  "zcheckgetfn c s args =
     map_option me_fun (List.find (\<lambda>m. me_name m = s \<and> me_arg m = take MAXPDARG args) (c_methods c))"

section \<open>Arguments are checked\<close>

text \<open>An argument of the word kind fits the declared type; floats are passed apart, in registers of their own.\<close>

fun fits :: "arg \<Rightarrow> atomtype \<Rightarrow> bool" where
  "fits (ArgPointer g) t \<longleftrightarrow> t = T_POINTER"
| "fits (ArgSymbol s) t \<longleftrightarrow> t = T_SYMBOL \<or> t = T_DEFSYM"
| "fits (ArgBlob b) t \<longleftrightarrow> t = T_BLOB"
| "fits ArgUninit t \<longleftrightarrow> False"

definition is_float_type :: "atomtype \<Rightarrow> bool" where
  "is_float_type t \<longleftrightarrow> t = T_FLOAT \<or> t = T_DEFFLOAT"

definition well_passed :: "atomtype list \<Rightarrow> arg list \<Rightarrow> t_float list \<Rightarrow> bool" where
  "well_passed ts ai ad \<longleftrightarrow>
     list_all2 fits ai [t\<leftarrow>ts. \<not> is_float_type t] \<and> length ad = length [t\<leftarrow>ts. is_float_type t]"

lemma well_passed_push:
  assumes "push_int a r = Some (ai, ad)" "\<And>ai' ad'. r = Some (ai', ad') \<Longrightarrow> well_passed ts ai' ad'" "fits a t" "\<not> is_float_type t"
  shows "well_passed (t # ts) ai ad"
  using assms by (auto simp: push_int_def well_passed_def)

lemma well_passed_float:
  assumes "push_float x r = Some (ai, ad)" "\<And>ai' ad'. r = Some (ai', ad') \<Longrightarrow> well_passed ts ai' ad'" "is_float_type t"
  shows "well_passed (t # ts) ai ad"
  using assms by (auto simp: push_float_def well_passed_def)

lemma fill_args_well_passed:
  "fill_args mk ts argv = Some (ai, ad) \<Longrightarrow> T_BLOB \<notin> set ts \<Longrightarrow> well_passed ts ai ad"
proof (induction ts arbitrary: argv ai ad)
  case Nil
  then show ?case by (simp add: well_passed_def)
next
  case (Cons t ts)
  note prems = Cons.prems
  have IH: "\<And>argv ai ad. fill_args mk ts argv = Some (ai, ad) \<Longrightarrow> well_passed ts ai ad" using Cons by auto
  show ?case
    using prems
    by (auto split: atomtype.splits list.splits atom.splits if_splits simp: is_float_type_def
        elim!: well_passed_push well_passed_float intro: IH)
qed

text \<open>The table of a class as \<open>class_addmethod\<close> fills it: at most five argument types each.\<close>

definition class_ok :: "pd_class \<Rightarrow> bool" where
  "class_ok c \<longleftrightarrow> (\<forall>m\<in>set (c_methods c). length (me_arg m) \<le> MAXPDARG)"

lemma class_addmethod_ok: "class_ok c \<Longrightarrow> class_ok (fst (class_addmethod c f sel ts))"
  by (auto simp: class_ok_def class_addmethod_def Let_def class_addbang_def class_doaddfloat_def class_addsymbol_def
      class_addblob_def class_addlist_def class_addanything_def)

lemma new_class_ok: "class_ok (new_class s f n flags d)"
  by (simp add: class_ok_def new_class_def Let_def)

text \<open>Classes a program can build: made by \<open>class_new\<close>, then any methods added.\<close>

inductive built :: "pd_class \<Rightarrow> bool" where
  built_new: "built (new_class s f n flags d)"
| built_method: "built c \<Longrightarrow> built (fst (class_addmethod c f sel ts))"
| built_bang: "built c \<Longrightarrow> built (class_addbang f c)"
| built_pointer: "built c \<Longrightarrow> built (class_addpointer f c)"
| built_float: "built c \<Longrightarrow> built (class_doaddfloat f c)"
| built_symbol: "built c \<Longrightarrow> built (class_addsymbol f c)"
| built_blob: "built c \<Longrightarrow> built (class_addblob f c)"
| built_list: "built c \<Longrightarrow> built (class_addlist f c)"
| built_anything: "built c \<Longrightarrow> built (class_addanything f c)"
| built_signal: "built c \<Longrightarrow> built (fst (class_domainsignalin n c))"

lemma built_class_ok: "built c \<Longrightarrow> class_ok c"
proof (induction rule: built.induct)
  case (built_method c f sel ts)
  then show ?case by (simp add: class_addmethod_ok)
qed (auto simp: new_class_ok class_ok_def new_class_def Let_def class_addbang_def class_addpointer_def class_doaddfloat_def class_addsymbol_def
      class_addblob_def class_addlist_def class_addanything_def class_domainsignalin_def)

lemma special_not_method:
  "pd_bang c \<noteq> CallMethod f ai ad" "pd_float c x \<noteq> CallMethod f ai ad" "pd_pointer c g \<noteq> CallMethod f ai ad"
  "pd_symbol c s \<noteq> CallMethod f ai ad" "pd_blob c b \<noteq> CallMethod f ai ad" "call_any c s argv \<noteq> CallMethod f ai ad"
  "call_list c s argv \<noteq> CallMethod f ai ad" "list_or_any c s argv \<noteq> CallMethod f ai ad"
  by (auto simp: pd_bang_def pd_float_def pd_floatforsignal_def pd_pointer_def pd_symbol_def pd_blob_def call_any_def
      call_list_def pd_defaultlist_def list_or_any_def split: slot.splits fslot.splits if_splits list.splits atom.splits)

lemma find_method_Some: "find_method s c = Some m \<Longrightarrow> m \<in> set (c_methods c) \<and> me_name m = s"
  by (auto simp: find_method_def find_Some_iff)

lemma list_all2_length_le: "list_all2 P xs [t\<leftarrow>ts. Q t] \<Longrightarrow> length xs \<le> length ts"
  by (auto dest: list_all2_lengthD)


text \<open>A class with one method, of a symbol and an optional float.\<close>

definition named_class :: pd_class where
  "named_class = fst (class_addmethod (new_class ''osc'' None 0 0 []) (Fn 7) ''tune'' [T_SYMBOL, T_DEFFLOAT])"


text \<open>A method that wants a blob is called with whatever the argument slot holds, when the atom is of another type.\<close>

lemma typedmess_blob_uninit:
  assumes "s \<notin> {''float'', ''bang'', ''list'', ''symbol'', ''blob'', ''anything''}"
  shows "pd_typedmess mk (fst (class_addmethod (new_class n None z 0 []) f s [T_BLOB])) s [A_FLOAT x] = CallMethod f [ArgUninit] []"
  using assms
  by (auto simp: pd_typedmess_def class_addmethod_def new_class_def Let_def find_method_def call_method_def push_int_def)

end
