(* ===== verification/Obj.thy ===== *)
theory Obj
  imports MClass "HOL-Library.Multiset"
begin

text \<open>
  Patchable objects, \<open>src/pd/src/m_obj.c\<close>: inlets, outlets, the connections between them, and the
  routines that traverse them. Objects, inlets, outlets and backtracers are numbered; the linked
  lists through \<open>i_next\<close>, \<open>o_next\<close> and \<open>oc_next\<close> are lists. A \<open>t_pd *\<close> a connection leads to is
  an object, an inlet or a backtracer. An access through a null pointer is \<open>None\<close>.
\<close>

section \<open>Inlets and outlets\<close>

datatype pd = To_obj nat | To_inlet nat | To_back nat

datatype inletkind = Inlet | Pointerinlet | Floatinlet | Symbolinlet

datatype inletunion =
    Symto symbol | Pointerslot nat | Floatslot nat | Symslot nat | Floatsignalvalue t_float

record inlet =
  i_class :: inletkind
  i_owner :: nat
  i_dest :: "nat option"
  i_symfrom :: "symbol option"
  i_un :: inletunion

record outconnect =
  oc_to :: pd
  oc_vis :: int

record outlet =
  o_owner :: nat
  o_connections :: "outconnect list"
  o_sym :: "symbol option"

record backtracer =
  b_connections :: "outconnect list"
  b_owner :: nat

record tobject =
  ob_class :: pd_class
  ob_inlet :: "nat list"
  ob_outlet :: "nat list"

record patch =
  obj :: "nat \<Rightarrow> tobject"
  inlet :: "nat \<Rightarrow> inlet"
  outlet :: "nat \<Rightarrow> outlet"
  backtracer :: "nat \<Rightarrow> backtracer"
  fresh :: nat
  cantrace :: bool
  dsp_updates :: nat

definition set_inlets :: "nat \<Rightarrow> nat list \<Rightarrow> patch \<Rightarrow> patch" where
  "set_inlets x l p = p\<lparr>obj := (obj p)(x := (obj p x)\<lparr>ob_inlet := l\<rparr>)\<rparr>"

definition set_outlets :: "nat \<Rightarrow> nat list \<Rightarrow> patch \<Rightarrow> patch" where
  "set_outlets x l p = p\<lparr>obj := (obj p)(x := (obj p x)\<lparr>ob_outlet := l\<rparr>)\<rparr>"

definition put_outlet :: "nat \<Rightarrow> outlet \<Rightarrow> patch \<Rightarrow> patch" where
  "put_outlet ou v p = p\<lparr>outlet := (outlet p)(ou := v)\<rparr>"

text \<open>What the functions that make an inlet share: the new inlet goes to the end of its owner's list.\<close>

definition append_inlet :: "inlet \<Rightarrow> patch \<Rightarrow> nat \<times> patch" where
  "append_inlet v p =
     (let i = fresh p; x = i_owner v in
      (i, set_inlets x (ob_inlet (obj p x) @ [i])
            (p\<lparr>inlet := (inlet p)(i := v), fresh := Suc i\<rparr>)))"

definition inlet_new :: "nat \<Rightarrow> nat option \<Rightarrow> symbol option \<Rightarrow> symbol \<Rightarrow> patch \<Rightarrow> nat \<times> patch" where
  "inlet_new owner dest s1 s2 p =
     append_inlet \<lparr>i_class = Inlet, i_owner = owner, i_dest = dest, i_symfrom = s1,
       i_un = (if s1 = Some ''signal'' then Floatsignalvalue (FFin 0) else Symto s2)\<rparr> p"

definition signalinlet_new :: "nat \<Rightarrow> t_float \<Rightarrow> patch \<Rightarrow> nat \<times> patch" where
  "signalinlet_new owner f p =
     (let (i, p) = inlet_new owner (Some owner) (Some ''signal'') ''signal'' p in
      (i, p\<lparr>inlet := (inlet p)(i := (inlet p i)\<lparr>i_un := Floatsignalvalue f\<rparr>)\<rparr>))"

definition pointerinlet_new :: "nat \<Rightarrow> nat \<Rightarrow> patch \<Rightarrow> nat \<times> patch" where
  "pointerinlet_new owner gp p =
     append_inlet \<lparr>i_class = Pointerinlet, i_owner = owner, i_dest = None, i_symfrom = Some ''pointer'',
       i_un = Pointerslot gp\<rparr> p"

definition floatinlet_new :: "nat \<Rightarrow> nat \<Rightarrow> patch \<Rightarrow> nat \<times> patch" where
  "floatinlet_new owner fp p =
     append_inlet \<lparr>i_class = Floatinlet, i_owner = owner, i_dest = None, i_symfrom = Some ''float'',
       i_un = Floatslot fp\<rparr> p"

definition symbolinlet_new :: "nat \<Rightarrow> nat \<Rightarrow> patch \<Rightarrow> nat \<times> patch" where
  "symbolinlet_new owner sp p =
     append_inlet \<lparr>i_class = Symbolinlet, i_owner = owner, i_dest = None, i_symfrom = Some ''symbol'',
       i_un = Symslot sp\<rparr> p"

text \<open>\<open>blobinlet_class\<close> is never made: \<open>pd_new\<close> reads through the null pointer.\<close>

definition blobinlet_new :: "nat \<Rightarrow> nat \<Rightarrow> patch \<Rightarrow> (nat \<times> patch) option" where
  "blobinlet_new owner stp p = None"

definition inlet_free :: "nat \<Rightarrow> patch \<Rightarrow> patch" where
  "inlet_free i p =
     (let y = i_owner (inlet p i) in set_inlets y (remove1 i (ob_inlet (obj p y))) p)"

definition backtracer_new :: "nat \<Rightarrow> patch \<Rightarrow> nat \<times> patch" where
  "backtracer_new owner p =
     (let b = fresh p in
      (b, p\<lparr>backtracer := (backtracer p)(b := \<lparr>b_connections = [], b_owner = owner\<rparr>), fresh := Suc b\<rparr>))"

text \<open>While tracing is enabled a new outlet is connected to a backtracer.\<close>

definition outlet_new :: "nat \<Rightarrow> symbol option \<Rightarrow> patch \<Rightarrow> nat \<times> patch" where
  "outlet_new owner s p =
     (let x = fresh p;
          p = set_outlets owner (ob_outlet (obj p owner) @ [x]) (p\<lparr>fresh := Suc x\<rparr>);
          (conns, p) =
            (if cantrace p then
               let (b, p) = backtracer_new owner p in ([\<lparr>oc_to = To_back b, oc_vis = 0\<rparr>], p)
             else ([], p)) in
      (x, put_outlet x \<lparr>o_owner = owner, o_connections = conns, o_sym = s\<rparr> p))"

definition outlet_free :: "nat \<Rightarrow> patch \<Rightarrow> patch" where
  "outlet_free x p =
     (let y = o_owner (outlet p x) in set_outlets y (remove1 x (ob_outlet (obj p y))) p)"

definition outlet_getsymbol :: "nat \<Rightarrow> patch \<Rightarrow> symbol option" where
  "outlet_getsymbol x p = o_sym (outlet p x)"

text \<open>Moving an inlet or an outlet to the head; one that is not on the list is left alone.\<close>

definition to_front :: "nat \<Rightarrow> nat list \<Rightarrow> nat list" where
  "to_front i l = (if i \<in> set l then i # remove1 i l else l)"

definition obj_moveinletfirst :: "nat \<Rightarrow> nat \<Rightarrow> patch \<Rightarrow> patch" where
  "obj_moveinletfirst x i p = set_inlets x (to_front i (ob_inlet (obj p x))) p"

definition obj_moveoutletfirst :: "nat \<Rightarrow> nat \<Rightarrow> patch \<Rightarrow> patch" where
  "obj_moveoutletfirst x ou p = set_outlets x (to_front ou (ob_outlet (obj p x))) p"

section \<open>Connections\<close>

text \<open>\<open>outlet_getconnectionpointer\<close>: the outlet's connections, or those of the backtracer it leads to.\<close>

definition traced :: "patch \<Rightarrow> nat \<Rightarrow> nat option" where
  "traced p ou =
     (case o_connections (outlet p ou) of
        oc # _ \<Rightarrow> (case oc_to oc of To_back b \<Rightarrow> Some b | _ \<Rightarrow> None)
      | [] \<Rightarrow> None)"

definition connections :: "patch \<Rightarrow> nat \<Rightarrow> outconnect list" where
  "connections p ou =
     (case traced p ou of Some b \<Rightarrow> b_connections (backtracer p b) | None \<Rightarrow> o_connections (outlet p ou))"

definition put_connections :: "nat \<Rightarrow> outconnect list \<Rightarrow> patch \<Rightarrow> patch" where
  "put_connections ou l p =
     (case traced p ou of
        Some b \<Rightarrow> p\<lparr>backtracer := (backtracer p)(b := (backtracer p b)\<lparr>b_connections := l\<rparr>)\<rparr>
      | None \<Rightarrow> put_outlet ou ((outlet p ou)\<lparr>o_connections := l\<rparr>) p)"

text \<open>A change at a signal outlet updates the sorted DSP graph (\<open>canvas_update_dsp\<close>): the calls are counted.\<close>

definition update_dsp :: "nat \<Rightarrow> patch \<Rightarrow> patch" where
  "update_dsp ou p =
     (if o_sym (outlet p ou) = Some ''signal'' then p\<lparr>dsp_updates := Suc (dsp_updates p)\<rparr> else p)"

text \<open>The loops that count an index down along a list.\<close>

fun walk :: "'a list \<Rightarrow> int \<Rightarrow> 'a option" where
  "walk [] n = None"
| "walk (x # xs) n = (if n = 0 then Some x else walk xs (n - 1))"

definition inlet_target :: "patch \<Rightarrow> nat \<Rightarrow> int \<Rightarrow> pd option" where
  "inlet_target p sink inno =
     (if c_firstin (ob_class (obj p sink)) then
        if inno = 0 then Some (To_obj sink) else map_option To_inlet (walk (ob_inlet (obj p sink)) (inno - 1))
      else map_option To_inlet (walk (ob_inlet (obj p sink)) inno))"

text \<open>\<open>obj_connect\<close> answers whether it made a connection, the last of its list.\<close>

definition obj_connect :: "nat \<Rightarrow> int \<Rightarrow> nat \<Rightarrow> int \<Rightarrow> patch \<Rightarrow> bool \<times> patch" where
  "obj_connect source outno sink inno p =
     (if source = sink then (False, p)
      else
        case walk (ob_outlet (obj p source)) outno of
          None \<Rightarrow> (False, p)
        | Some ou \<Rightarrow>
            (case inlet_target p sink inno of
               None \<Rightarrow> (False, p)
             | Some to \<Rightarrow>
                 (True, update_dsp ou (put_connections ou (connections p ou @ [\<lparr>oc_to = to, oc_vis = 0\<rparr>]) p))))"

fun remove_conn :: "pd \<Rightarrow> outconnect list \<Rightarrow> outconnect list" where
  "remove_conn to [] = []"
| "remove_conn to (oc # r) = (if oc_to oc = to then r else oc # remove_conn to r)"

text \<open>
  In \<open>obj_disconnect\<close> the test for an outlet that does not exist became the body of the loop before
  it: such an outlet is a null pointer that is read from once the inlet is found.
\<close>

definition obj_disconnect :: "nat \<Rightarrow> int \<Rightarrow> nat \<Rightarrow> int \<Rightarrow> patch \<Rightarrow> patch option" where
  "obj_disconnect source outno sink inno p =
     (case inlet_target p sink inno of
        None \<Rightarrow> Some p
      | Some to \<Rightarrow>
          (case walk (ob_outlet (obj p source)) outno of
             None \<Rightarrow> None
           | Some ou \<Rightarrow>
               if connections p ou = [] then Some p
               else Some (update_dsp ou (put_connections ou (remove_conn to (connections p ou)) p))))"

section \<open>Traversal\<close>

definition obj_noutlets :: "nat \<Rightarrow> patch \<Rightarrow> nat" where
  "obj_noutlets x p = length (ob_outlet (obj p x))"

definition obj_ninlets :: "nat \<Rightarrow> patch \<Rightarrow> nat" where
  "obj_ninlets x p = length (ob_inlet (obj p x)) + (if c_firstin (ob_class (obj p x)) then 1 else 0)"

definition obj_rightmost_outlet :: "nat \<Rightarrow> patch \<Rightarrow> nat option" where
  "obj_rightmost_outlet x p = (case ob_outlet (obj p x) of [] \<Rightarrow> None | l \<Rightarrow> Some (last l))"

definition obj_starttraverseoutlet :: "nat \<Rightarrow> int \<Rightarrow> patch \<Rightarrow> nat option \<times> outconnect list" where
  "obj_starttraverseoutlet x nout p =
     (case walk (ob_outlet (obj p x)) nout of None \<Rightarrow> (None, []) | Some ou \<Rightarrow> (Some ou, connections p ou))"

text \<open>The place of a list an element is at, its length when it is not there.\<close>

fun position :: "'a \<Rightarrow> 'a list \<Rightarrow> nat" where
  "position x [] = 0"
| "position x (y # ys) = (if x = y then 0 else Suc (position x ys))"

text \<open>\<open>obj_nexttraverseoutlet\<close>: the object, the inlet if any, and the number of the inlet.\<close>

definition obj_nexttraverseoutlet :: "outconnect \<Rightarrow> patch \<Rightarrow> pd \<times> nat option \<times> nat" where
  "obj_nexttraverseoutlet oc p =
     (case oc_to oc of
        To_inlet i \<Rightarrow>
          let dest = i_owner (inlet p i) in
          (To_obj dest, Some i,
           (if c_firstin (ob_class (obj p dest)) then 1 else 0) + position i (ob_inlet (obj p dest)))
      | y \<Rightarrow> (y, None, 0))"

definition pd_checkobject :: "nat \<Rightarrow> patch \<Rightarrow> nat option" where
  "pd_checkobject x p = (if c_patchable (ob_class (obj p x)) then Some x else None)"

section \<open>Signal inlets and outlets\<close>

text \<open>For the sorting of DSP objects, in \<open>d_ugen.c\<close> and \<open>g_canvas.c\<close>.\<close>

definition is_sig :: "patch \<Rightarrow> nat \<Rightarrow> bool" where
  "is_sig p i \<longleftrightarrow> i_symfrom (inlet p i) = Some ''signal''"

definition is_sigout :: "patch \<Rightarrow> nat \<Rightarrow> bool" where
  "is_sigout p ou \<longleftrightarrow> o_sym (outlet p ou) = Some ''signal''"

definition first_sig :: "patch \<Rightarrow> nat \<Rightarrow> bool" where
  "first_sig p x \<longleftrightarrow> c_firstin (ob_class (obj p x)) \<and> c_floatsignalin (ob_class (obj p x)) \<noteq> 0"

definition obj_nsiginlets :: "nat \<Rightarrow> patch \<Rightarrow> nat" where
  "obj_nsiginlets x p =
     length [i\<leftarrow>ob_inlet (obj p x). is_sig p i] + (if first_sig p x then 1 else 0)"

text \<open>The loop of \<open>obj_siginletindex\<close> and \<open>obj_sigoutletindex\<close>: \<open>m\<close> counts down at every element.\<close>

fun sig_index :: "('a \<Rightarrow> bool) \<Rightarrow> 'a list \<Rightarrow> int \<Rightarrow> int \<Rightarrow> int" where
  "sig_index P [] m n = - 1"
| "sig_index P (i # l) m n =
     (if P i then if m = 0 then n else sig_index P l (m - 1) (n + 1) else sig_index P l (m - 1) n)"

definition obj_siginletindex :: "nat \<Rightarrow> int \<Rightarrow> patch \<Rightarrow> int" where
  "obj_siginletindex x m p =
     (let c = ob_class (obj p x) in
      if c_firstin c then
        if m = 0 then 0
        else sig_index (is_sig p) (ob_inlet (obj p x)) (m - 1) (if c_floatsignalin c \<noteq> 0 then 1 else 0)
      else sig_index (is_sig p) (ob_inlet (obj p x)) m 0)"

definition obj_issignalinlet :: "nat \<Rightarrow> int \<Rightarrow> patch \<Rightarrow> bool" where
  "obj_issignalinlet x m p =
     (let c = ob_class (obj p x);
          rest = (\<lambda>m. case walk (ob_inlet (obj p x)) m of Some i \<Rightarrow> is_sig p i | None \<Rightarrow> False) in
      if c_firstin c then if m = 0 then c_floatsignalin c \<noteq> 0 else rest (m - 1) else rest m)"

definition obj_nsigoutlets :: "nat \<Rightarrow> patch \<Rightarrow> nat" where
  "obj_nsigoutlets x p = length [ou\<leftarrow>ob_outlet (obj p x). is_sigout p ou]"

definition obj_sigoutletindex :: "nat \<Rightarrow> int \<Rightarrow> patch \<Rightarrow> int" where
  "obj_sigoutletindex x m p = sig_index (is_sigout p) (ob_outlet (obj p x)) m 0"

definition obj_issignaloutlet :: "nat \<Rightarrow> int \<Rightarrow> patch \<Rightarrow> bool" where
  "obj_issignaloutlet x m p =
     (case walk (ob_outlet (obj p x)) m of Some ou \<Rightarrow> is_sigout p ou | None \<Rightarrow> False)"

text \<open>Where the float of a signal inlet is kept: at an offset in the object, or in the inlet.\<close>

datatype scalar = Offset int | Inletvalue nat

definition obj_findsignalscalar :: "nat \<Rightarrow> int \<Rightarrow> patch \<Rightarrow> scalar option" where
  "obj_findsignalscalar x m p =
     (let sigs = [i\<leftarrow>ob_inlet (obj p x). is_sig p i]; f = c_floatsignalin (ob_class (obj p x)) in
      if first_sig p x then
        if m = 0 then if f > 0 then Some (Offset f) else None
        else map_option Inletvalue (walk sigs (m - 1))
      else map_option Inletvalue (walk sigs m))"

definition inlet_getsignalindex :: "nat \<Rightarrow> patch \<Rightarrow> nat" where
  "inlet_getsignalindex i p =
     length [j\<leftarrow>takeWhile (\<lambda>j. j \<noteq> i) (ob_inlet (obj p (i_owner (inlet p i)))). is_sig p j]"

definition outlet_getsignalindex :: "nat \<Rightarrow> patch \<Rightarrow> nat" where
  "outlet_getsignalindex ou p =
     length [j\<leftarrow>takeWhile (\<lambda>j. j \<noteq> ou) (ob_outlet (obj p (o_owner (outlet p ou)))). is_sigout p j]"

section \<open>Tracing\<close>

text \<open>\<open>obj_dosettracing\<close> for one outlet; \<open>False\<close> reports a bug.\<close>

definition settrace_outlet :: "nat \<Rightarrow> bool \<Rightarrow> nat \<Rightarrow> bool \<times> patch \<Rightarrow> bool \<times> patch" where
  "settrace_outlet ob onoff ou r =
     (let (ok, p) = r in
      if onoff then
        let (b, p) = backtracer_new ob p;
            p = p\<lparr>backtracer := (backtracer p)(b := (backtracer p b)\<lparr>b_connections := o_connections (outlet p ou)\<rparr>)\<rparr> in
        (ok, put_outlet ou ((outlet p ou)\<lparr>o_connections := [\<lparr>oc_to = To_back b, oc_vis = 0\<rparr>]\<rparr>) p)
      else
        case traced p ou of
          Some b \<Rightarrow> (ok, put_outlet ou ((outlet p ou)\<lparr>o_connections := b_connections (backtracer p b)\<rparr>) p)
        | None \<Rightarrow> (False, p))"

definition obj_dosettracing :: "nat \<Rightarrow> bool \<Rightarrow> patch \<Rightarrow> bool \<times> patch" where
  "obj_dosettracing ob onoff p = fold (settrace_outlet ob onoff) (ob_outlet (obj p ob)) (True, p)"

section \<open>The patch after an operation\<close>

lemma patch_simps [simp]:
  "inlet (set_inlets x l p) = inlet p" "outlet (set_inlets x l p) = outlet p" "backtracer (set_inlets x l p) = backtracer p"
  "fresh (set_inlets x l p) = fresh p" "cantrace (set_inlets x l p) = cantrace p"
  "inlet (set_outlets x l p) = inlet p" "outlet (set_outlets x l p) = outlet p" "backtracer (set_outlets x l p) = backtracer p"
  "fresh (set_outlets x l p) = fresh p" "cantrace (set_outlets x l p) = cantrace p"
  "inlet (put_outlet ou v p) = inlet p" "obj (put_outlet ou v p) = obj p" "backtracer (put_outlet ou v p) = backtracer p"
  "fresh (put_outlet ou v p) = fresh p" "outlet (put_outlet ou v p) = (outlet p)(ou := v)"
  "ob_inlet (obj (set_inlets x l p) y) = (if y = x then l else ob_inlet (obj p y))"
  "ob_outlet (obj (set_inlets x l p) y) = ob_outlet (obj p y)"
  "ob_class (obj (set_inlets x l p) y) = ob_class (obj p y)"
  "ob_outlet (obj (set_outlets x l p) y) = (if y = x then l else ob_outlet (obj p y))"
  "ob_inlet (obj (set_outlets x l p) y) = ob_inlet (obj p y)"
  "ob_class (obj (set_outlets x l p) y) = ob_class (obj p y)"
  by (auto simp: set_inlets_def set_outlets_def put_outlet_def)

lemma traced_cong: "outlet p ou = outlet q ou \<Longrightarrow> traced p ou = traced q ou"
  by (simp add: traced_def)

lemma connections_cong:
  assumes "outlet p ou = outlet q ou" "\<And>b. traced q ou = Some b \<Longrightarrow> backtracer p b = backtracer q b"
  shows "connections p ou = connections q ou"
proof -
  have t: "traced p ou = traced q ou" by (rule traced_cong [OF assms(1)])
  show ?thesis unfolding connections_def t using assms by (cases "traced q ou") simp_all
qed

lemma update_dsp_fields [simp]:
  "inlet (update_dsp ou p) = inlet p" "outlet (update_dsp ou p) = outlet p" "backtracer (update_dsp ou p) = backtracer p"
  "obj (update_dsp ou p) = obj p" "fresh (update_dsp ou p) = fresh p"
  by (auto simp: update_dsp_def)

lemma update_dsp_conns [simp]:
  "traced (update_dsp ou p) ou' = traced p ou'" "connections (update_dsp ou p) ou' = connections p ou'"
  by (rule traced_cong, simp) (rule connections_cong, simp_all)

text \<open>Connections never lead to a backtracer, except the one an outlet's own list starts with.\<close>

definition no_back :: "outconnect list \<Rightarrow> bool" where
  "no_back l \<longleftrightarrow> (\<forall>oc\<in>set l. \<forall>b. oc_to oc \<noteq> To_back b)"

lemma put_connections_simps [simp]:
  "inlet (put_connections ou l p) = inlet p" "obj (put_connections ou l p) = obj p" "fresh (put_connections ou l p) = fresh p"
  "o_owner (outlet (put_connections ou l p) ou') = o_owner (outlet p ou')"
  "o_sym (outlet (put_connections ou l p) ou') = o_sym (outlet p ou')"
  by (auto simp: put_connections_def split: option.splits)

lemma traced_put [simp]: "no_back l \<Longrightarrow> traced (put_connections ou l p) ou' = traced p ou'"
  by (cases "ou' = ou"; cases l)
    (auto simp: put_connections_def traced_def no_back_def put_outlet_def split: option.splits list.splits pd.splits)

lemma connections_put: "no_back l \<Longrightarrow> connections (put_connections ou l p) ou = l"
  by (cases l)
    (auto simp: put_connections_def connections_def traced_def no_back_def put_outlet_def split: option.splits list.splits pd.splits)

lemma connections_put_other:
  "ou' \<noteq> ou \<Longrightarrow> no_back l \<Longrightarrow>
    connections (put_connections ou l p) ou' = connections p ou' \<or> connections (put_connections ou l p) ou' = l"
  by (cases "traced p ou'"; cases "traced p ou") (auto simp: connections_def put_connections_def put_outlet_def traced_def)

section \<open>Well-formed patches\<close>

text \<open>A connection leads to an object that has a first inlet, or to an inlet on its owner's list.\<close>

definition target_ok :: "patch \<Rightarrow> pd \<Rightarrow> bool" where
  "target_ok p to \<longleftrightarrow>
     (case to of
        To_obj y \<Rightarrow> c_firstin (ob_class (obj p y))
      | To_inlet i \<Rightarrow> i \<in> set (ob_inlet (obj p (i_owner (inlet p i))))
      | To_back b \<Rightarrow> False)"

lemma target_ok_back [simp]: "\<not> target_ok p (To_back b)"
  by (simp add: target_ok_def)

definition inlets_ok :: "patch \<Rightarrow> bool" where
  "inlets_ok p \<longleftrightarrow>
     (\<forall>x. distinct (ob_inlet (obj p x)) \<and> (\<forall>i\<in>set (ob_inlet (obj p x)). i < fresh p \<and> i_owner (inlet p i) = x))"

definition outlets_ok :: "patch \<Rightarrow> bool" where
  "outlets_ok p \<longleftrightarrow>
     (\<forall>x. distinct (ob_outlet (obj p x)) \<and>
       (\<forall>ou\<in>set (ob_outlet (obj p x)). ou < fresh p \<and> o_owner (outlet p ou) = x \<and>
          (\<forall>b. traced p ou = Some b \<longrightarrow> b < fresh p) \<and> (\<forall>oc\<in>set (connections p ou). target_ok p (oc_to oc))))"

definition patch_inv :: "patch \<Rightarrow> bool" where
  "patch_inv p \<longleftrightarrow> inlets_ok p \<and> outlets_ok p"

lemma patch_invD:
  assumes "patch_inv p"
  shows "distinct (ob_inlet (obj p x))" "i \<in> set (ob_inlet (obj p x)) \<Longrightarrow> i < fresh p"
    "i \<in> set (ob_inlet (obj p x)) \<Longrightarrow> i_owner (inlet p i) = x" "distinct (ob_outlet (obj p x))"
    "ou \<in> set (ob_outlet (obj p x)) \<Longrightarrow> ou < fresh p" "ou \<in> set (ob_outlet (obj p x)) \<Longrightarrow> o_owner (outlet p ou) = x"
    "ou \<in> set (ob_outlet (obj p x)) \<Longrightarrow> traced p ou = Some b \<Longrightarrow> b < fresh p"
    "ou \<in> set (ob_outlet (obj p x)) \<Longrightarrow> oc \<in> set (connections p ou) \<Longrightarrow> target_ok p (oc_to oc)"
  using assms by (auto simp: patch_inv_def inlets_ok_def outlets_ok_def)

lemma patch_invI:
  assumes "\<And>x. distinct (ob_inlet (obj p x))" "\<And>x i. i \<in> set (ob_inlet (obj p x)) \<Longrightarrow> i < fresh p \<and> i_owner (inlet p i) = x"
    "\<And>x. distinct (ob_outlet (obj p x))"
    "\<And>x ou. ou \<in> set (ob_outlet (obj p x)) \<Longrightarrow> ou < fresh p \<and> o_owner (outlet p ou) = x \<and>
        (\<forall>b. traced p ou = Some b \<longrightarrow> b < fresh p) \<and> (\<forall>oc\<in>set (connections p ou). target_ok p (oc_to oc))"
  shows "patch_inv p"
  using assms by (auto simp: patch_inv_def inlets_ok_def outlets_ok_def)

lemma connections_no_back: "patch_inv p \<Longrightarrow> ou \<in> set (ob_outlet (obj p x)) \<Longrightarrow> no_back (connections p ou)"
  by (auto simp: no_back_def target_ok_def dest!: patch_invD(8) split: pd.splits)

text \<open>An operation that adds to the inlets and leaves outlets alone.\<close>

lemma target_ok_mono:
  assumes "target_ok p to" "\<And>y. ob_class (obj q y) = ob_class (obj p y)"
    "\<And>i x. i \<in> set (ob_inlet (obj p x)) \<Longrightarrow> i_owner (inlet p i) = x \<Longrightarrow> i \<in> set (ob_inlet (obj q x)) \<and> i_owner (inlet q i) = x"
  shows "target_ok q to"
  using assms(1,2) assms(3) [OF _ refl] by (cases to) (fastforce simp: target_ok_def)+

lemma append_inlet_inv:
  assumes "patch_inv p"
  shows "patch_inv (snd (append_inlet v p))"
proof (rule patch_invI)
  let ?q = "snd (append_inlet v p)"
  note inv = patch_invD [OF assms]
  have q: "outlet ?q = outlet p" "backtracer ?q = backtracer p" "fresh ?q = Suc (fresh p)" "inlet ?q = (inlet p)(fresh p := v)"
    by (simp_all add: append_inlet_def Let_def)
  have o: "ob_outlet (obj ?q x) = ob_outlet (obj p x)" "ob_class (obj ?q x) = ob_class (obj p x)"
    "ob_inlet (obj ?q x) = (if x = i_owner v then ob_inlet (obj p x) @ [fresh p] else ob_inlet (obj p x))" for x
    by (simp_all add: append_inlet_def Let_def set_inlets_def)
  fix x
  show "distinct (ob_inlet (obj ?q x))" using inv(1) [of x] inv(2) [of "fresh p" x] by (auto simp: o)
  show "distinct (ob_outlet (obj ?q x))" using inv(4) by (simp add: o)
  show "i < fresh ?q \<and> i_owner (inlet ?q i) = x" if "i \<in> set (ob_inlet (obj ?q x))" for i
    using that inv(2,3) [of i x] by (auto simp: q o split: if_splits)
  fix ou assume ou: "ou \<in> set (ob_outlet (obj ?q x))"
  then have ou': "ou \<in> set (ob_outlet (obj p x))" by (simp add: o)
  have c: "connections ?q ou = connections p ou" "traced ?q ou = traced p ou"
    by (rule connections_cong, simp_all add: q) (rule traced_cong, simp add: q)
  have "target_ok ?q to" if "target_ok p to" for to
    using that by (rule target_ok_mono) (use inv(2) in \<open>auto simp: o q\<close>)
  with c inv(5-8) [OF ou'] show "ou < fresh ?q \<and> o_owner (outlet ?q ou) = x \<and>
      (\<forall>b. traced ?q ou = Some b \<longrightarrow> b < fresh ?q) \<and> (\<forall>oc\<in>set (connections ?q ou). target_ok ?q (oc_to oc))"
    by (auto simp: q less_Suc_eq)
qed

lemma inlet_update_inv:
  assumes "patch_inv p"
  shows "patch_inv (p\<lparr>inlet := (inlet p)(i := (inlet p i)\<lparr>i_un := u\<rparr>)\<rparr>)" (is "patch_inv ?q")
proof (rule patch_invI)
  note inv = patch_invD [OF assms]
  have own: "i_owner (inlet ?q j) = i_owner (inlet p j)" for j by simp
  fix x
  show "distinct (ob_inlet (obj ?q x))" "distinct (ob_outlet (obj ?q x))" using inv by simp_all
  show "j < fresh ?q \<and> i_owner (inlet ?q j) = x" if "j \<in> set (ob_inlet (obj ?q x))" for j
    unfolding own using that inv(2,3) by simp
  fix ou assume "ou \<in> set (ob_outlet (obj ?q x))"
  then have ou: "ou \<in> set (ob_outlet (obj p x))" by simp
  have c: "connections ?q ou = connections p ou" "traced ?q ou = traced p ou"
    by (rule connections_cong, simp_all) (rule traced_cong, simp)
  have "target_ok ?q to = target_ok p to" for to by (cases to) (simp_all add: target_ok_def)
  then show "ou < fresh ?q \<and> o_owner (outlet ?q ou) = x \<and>
      (\<forall>b. traced ?q ou = Some b \<longrightarrow> b < fresh ?q) \<and> (\<forall>oc\<in>set (connections ?q ou). target_ok ?q (oc_to oc))"
    using inv(5-8) [OF ou] by (simp add: c)
qed

lemma reorder_inv:
  assumes "patch_inv p" "mset l = mset (ob_inlet (obj p x))"
  shows "patch_inv (set_inlets x l p)"
proof -
  have s: "set l = set (ob_inlet (obj p x))" "distinct l"
    using mset_eq_setD [OF assms(2)] mset_eq_imp_distinct_iff [OF assms(2)] patch_invD(1) [OF assms(1)] by auto
  have c: "connections (set_inlets x l p) ou = connections p ou" "traced (set_inlets x l p) ou = traced p ou" for ou
    by (rule connections_cong, simp_all) (rule traced_cong, simp)
  have t: "target_ok (set_inlets x l p) to = target_ok p to" for to
    by (cases to) (simp_all add: target_ok_def s)
  show ?thesis
    using assms(1) s by (auto simp: patch_inv_def inlets_ok_def outlets_ok_def c t)
qed

lemma outlets_subset_inv:
  assumes "patch_inv p" "set l \<subseteq> set (ob_outlet (obj p x))" "distinct l"
  shows "patch_inv (set_outlets x l p)"
proof -
  have c: "connections (set_outlets x l p) ou = connections p ou" "traced (set_outlets x l p) ou = traced p ou" for ou
    by (rule connections_cong, simp_all) (rule traced_cong, simp)
  have t: "target_ok (set_outlets x l p) to = target_ok p to" for to
    by (cases to) (simp_all add: target_ok_def)
  show ?thesis
    using assms by (auto simp: patch_inv_def inlets_ok_def outlets_ok_def c t)
qed

lemma put_connections_inv:
  assumes "patch_inv p" "\<And>oc. oc \<in> set l \<Longrightarrow> target_ok p (oc_to oc)"
  shows "patch_inv (put_connections ou l p)"
proof (rule patch_invI)
  let ?q = "put_connections ou l p"
  note inv = patch_invD [OF assms(1)]
  have nb: "no_back l" unfolding no_back_def using assms(2) by (metis target_ok_back)
  have t: "target_ok ?q to = target_ok p to" for to by (cases to) (simp_all add: target_ok_def)
  fix x
  show "distinct (ob_inlet (obj ?q x))" "distinct (ob_outlet (obj ?q x))" using inv by simp_all
  show "i < fresh ?q \<and> i_owner (inlet ?q i) = x" if "i \<in> set (ob_inlet (obj ?q x))" for i
    using that inv(2,3) by simp
  fix ou' assume "ou' \<in> set (ob_outlet (obj ?q x))"
  then have ou': "ou' \<in> set (ob_outlet (obj p x))" by simp
  have "\<forall>oc\<in>set (connections ?q ou'). target_ok p (oc_to oc)"
    using connections_put [OF nb, of ou p] connections_put_other [of ou' ou, OF _ nb, of p] assms(2) inv(8) [OF ou']
    by (cases "ou' = ou") auto
  then show "ou' < fresh ?q \<and> o_owner (outlet ?q ou') = x \<and>
      (\<forall>b. traced ?q ou' = Some b \<longrightarrow> b < fresh ?q) \<and> (\<forall>oc\<in>set (connections ?q ou'). target_ok ?q (oc_to oc))"
    using inv(5-7) [OF ou'] nb by (simp add: t)
qed

lemma update_dsp_inv [simp]: "patch_inv (update_dsp ou p) = patch_inv p"
proof -
  have "target_ok (update_dsp ou p) to = target_ok p to" for to by (cases to) (simp_all add: target_ok_def)
  then show ?thesis by (simp add: patch_inv_def inlets_ok_def outlets_ok_def)
qed

lemma walk_in: "walk l n = Some x \<Longrightarrow> x \<in> set l"
proof (induction l arbitrary: n)
  case (Cons y l)
  show ?case
  proof (cases "n = 0")
    case False
    with Cons.prems have "walk l (n - 1) = Some x" by simp
    from Cons.IH [OF this] show ?thesis by simp
  qed (use Cons.prems in simp)
qed simp

lemma inlet_targetD:
  "inlet_target p sink inno = Some to \<Longrightarrow>
    (to = To_obj sink \<and> c_firstin (ob_class (obj p sink))) \<or> (\<exists>i\<in>set (ob_inlet (obj p sink)). to = To_inlet i)"
  by (auto simp: inlet_target_def dest: walk_in split: if_splits)

lemma inlet_target_ok: "patch_inv p \<Longrightarrow> inlet_target p sink inno = Some to \<Longrightarrow> target_ok p to"
  by (drule inlet_targetD) (auto simp: target_ok_def patch_invD(3))

lemma obj_connect_inv:
  assumes "patch_inv p"
  shows "patch_inv (snd (obj_connect source outno sink inno p))"
proof (cases "source = sink \<or> walk (ob_outlet (obj p source)) outno = None \<or> inlet_target p sink inno = None")
  case False
  then obtain ou to where w: "walk (ob_outlet (obj p source)) outno = Some ou" "inlet_target p sink inno = Some to" "source \<noteq> sink"
    by auto
  have "patch_inv (put_connections ou (connections p ou @ [\<lparr>oc_to = to, oc_vis = 0\<rparr>]) p)"
    using patch_invD(8) [OF assms walk_in [OF w(1)]] inlet_target_ok [OF assms w(2)]
    by (intro put_connections_inv [OF assms]) auto
  then show ?thesis using w by (simp add: obj_connect_def)
qed (auto simp: obj_connect_def assms split: option.splits)

lemma remove_conn_subset: "set (remove_conn to l) \<subseteq> set l"
  by (induction l) auto

lemma obj_disconnect_inv:
  assumes "patch_inv p" "obj_disconnect source outno sink inno p = Some q"
  shows "patch_inv q"
proof (cases "inlet_target p sink inno = None \<or> walk (ob_outlet (obj p source)) outno = None")
  case False
  then obtain ou to where w: "walk (ob_outlet (obj p source)) outno = Some ou" "inlet_target p sink inno = Some to" by auto
  have "patch_inv (put_connections ou (remove_conn to (connections p ou)) p)"
    using patch_invD(8) [OF assms(1) walk_in [OF w(1)]] remove_conn_subset
    by (intro put_connections_inv [OF assms(1)]) blast
  then show ?thesis using w assms by (auto simp: obj_disconnect_def split: if_splits)
qed (use assms in \<open>auto simp: obj_disconnect_def split: option.splits if_splits\<close>)

lemma backtracer_new_simps:
  "backtracer_new owner p = (fresh p, p\<lparr>backtracer := (backtracer p)(fresh p := \<lparr>b_connections = [], b_owner = owner\<rparr>), fresh := Suc (fresh p)\<rparr>)"
  by (simp add: backtracer_new_def Let_def)

lemma outlet_new_inv:
  assumes "patch_inv p"
  shows "patch_inv (snd (outlet_new owner s p))"
proof (rule patch_invI)
  let ?q = "snd (outlet_new owner s p)"
  note inv = patch_invD [OF assms]
  have q: "inlet ?q = inlet p" "fresh ?q > fresh p" "\<And>b. b < fresh p \<Longrightarrow> backtracer ?q b = backtracer p b"
    "\<And>ou. ou < fresh p \<Longrightarrow> outlet ?q ou = outlet p ou" "o_owner (outlet ?q (fresh p)) = owner"
    "traced ?q (fresh p) = (if cantrace p then Some (Suc (fresh p)) else None)" "connections ?q (fresh p) = []"
    "cantrace p \<Longrightarrow> Suc (fresh p) < fresh ?q"
    by (auto simp: outlet_new_def Let_def backtracer_new_simps traced_def connections_def)
  have o: "ob_inlet (obj ?q x) = ob_inlet (obj p x)" "ob_class (obj ?q x) = ob_class (obj p x)"
    "ob_outlet (obj ?q x) = (if x = owner then ob_outlet (obj p x) @ [fresh p] else ob_outlet (obj p x))" for x
    by (auto simp: outlet_new_def Let_def backtracer_new_simps set_outlets_def)
  have t: "target_ok ?q to = target_ok p to" for to by (cases to) (simp_all add: target_ok_def o q)
  fix x
  show "distinct (ob_inlet (obj ?q x))" using inv(1) by (simp add: o)
  show "distinct (ob_outlet (obj ?q x))" using inv(4) [of x] inv(5) [of "fresh p" x] by (auto simp: o)
  show "i < fresh ?q \<and> i_owner (inlet ?q i) = x" if "i \<in> set (ob_inlet (obj ?q x))" for i
    using that inv(2,3) [of i x] q(1,2) by (auto simp: o)
  fix ou assume ou: "ou \<in> set (ob_outlet (obj ?q x))"
  show "ou < fresh ?q \<and> o_owner (outlet ?q ou) = x \<and> (\<forall>b. traced ?q ou = Some b \<longrightarrow> b < fresh ?q) \<and>
      (\<forall>oc\<in>set (connections ?q ou). target_ok ?q (oc_to oc))"
  proof (cases "ou \<in> set (ob_outlet (obj p x))")
    case True
    note old = inv(5-8) [OF True]
    have tr: "traced ?q ou = traced p ou" by (rule traced_cong) (simp add: q(4) old(1))
    have "connections ?q ou = connections p ou" by (rule connections_cong) (simp_all add: q(3,4) old(1,3))
    with tr old q(2,4) show ?thesis by (auto simp: t)
  next
    case False
    with ou have "ou = fresh p" "x = owner" by (auto simp: o split: if_splits)
    then show ?thesis using q(2,5-8) by auto
  qed
qed

lemma to_front_mset [simp]: "mset (to_front i l) = mset l"
  by (simp add: to_front_def)

lemma to_front_set [simp]: "set (to_front i l) = set l" "distinct (to_front i l) = distinct l"
  using mset_eq_setD [OF to_front_mset] mset_eq_imp_distinct_iff [OF to_front_mset] by auto

section \<open>Edits\<close>

datatype edit =
    Inlet_new nat "nat option" "symbol option" symbol
  | Signalinlet_new nat t_float
  | Pointerinlet_new nat nat
  | Floatinlet_new nat nat
  | Symbolinlet_new nat nat
  | Outlet_new nat "symbol option"
  | Outlet_free nat
  | Connect nat int nat int
  | Disconnect nat int nat int
  | Inlet_first nat nat
  | Outlet_first nat nat

fun run_edit :: "edit \<Rightarrow> patch \<Rightarrow> patch option" where
  "run_edit (Inlet_new x d s1 s2) p = Some (snd (inlet_new x d s1 s2 p))"
| "run_edit (Signalinlet_new x f) p = Some (snd (signalinlet_new x f p))"
| "run_edit (Pointerinlet_new x g) p = Some (snd (pointerinlet_new x g p))"
| "run_edit (Floatinlet_new x f) p = Some (snd (floatinlet_new x f p))"
| "run_edit (Symbolinlet_new x s) p = Some (snd (symbolinlet_new x s p))"
| "run_edit (Outlet_new x s) p = Some (snd (outlet_new x s p))"
| "run_edit (Outlet_free ou) p = Some (outlet_free ou p)"
| "run_edit (Connect s n t m) p = Some (snd (obj_connect s n t m p))"
| "run_edit (Disconnect s n t m) p = obj_disconnect s n t m p"
| "run_edit (Inlet_first x i) p = Some (obj_moveinletfirst x i p)"
| "run_edit (Outlet_first x ou) p = Some (obj_moveoutletfirst x ou p)"

fun run_edits :: "edit list \<Rightarrow> patch \<Rightarrow> patch option" where
  "run_edits [] p = Some p"
| "run_edits (e # es) p = Option.bind (run_edit e p) (run_edits es)"

lemma signalinlet_new_inv: "patch_inv p \<Longrightarrow> patch_inv (snd (signalinlet_new x f p))"
  by (auto simp: signalinlet_new_def inlet_new_def split_beta intro: inlet_update_inv append_inlet_inv)

lemma run_edit_inv: "patch_inv p \<Longrightarrow> run_edit e p = Some q \<Longrightarrow> patch_inv q"
proof (cases e)
  case (Outlet_free ou)
  assume "patch_inv p" "run_edit e p = Some q"
  with Outlet_free show ?thesis
    using set_remove1_subset [of ou "ob_outlet (obj p (o_owner (outlet p ou)))"]
    by (auto simp: outlet_free_def Let_def intro!: outlets_subset_inv distinct_remove1 patch_invD(4) dest: notin_set_remove1)
qed (auto simp: inlet_new_def pointerinlet_new_def floatinlet_new_def symbolinlet_new_def obj_moveinletfirst_def
    obj_moveoutletfirst_def signalinlet_new_inv append_inlet_inv outlet_new_inv obj_connect_inv patch_invD(4)
    intro!: reorder_inv outlets_subset_inv intro: obj_disconnect_inv)

lemma run_edits_inv:
  "patch_inv p \<Longrightarrow> run_edits es p = Some q \<Longrightarrow> patch_inv q"
proof (induction es arbitrary: p)
  case (Cons e es)
  then show ?case using run_edit_inv by (auto simp: bind_eq_Some_conv)
qed simp


section \<open>Connecting and traversing\<close>

lemma walk_position: "distinct l \<Longrightarrow> walk l n = Some x \<Longrightarrow> int (position x l) = n"
proof (induction l arbitrary: n)
  case (Cons y l)
  show ?case
  proof (cases "n = 0")
    case False
    with Cons.prems have w: "walk l (n - 1) = Some x" "distinct l" "y \<notin> set l" by simp_all
    with Cons.IH have "int (position x l) = n - 1" by blast
    moreover have "x \<noteq> y" using walk_in [OF w(1)] w(3) by blast
    ultimately show ?thesis by simp
  qed (use Cons.prems in simp)
qed simp

lemma remove_conn_last: "to \<notin> oc_to ` set l \<Longrightarrow> remove_conn to (l @ [oc]) = (if oc_to oc = to then l else l @ [oc])"
  by (induction l) auto

text \<open>C13: after a connection is made, traversing the outlet ends with it: the object and the number of the
  inlet come back as they were given. Disconnecting it restores the connections, if there was none like it.\<close>

theorem connect_traverse:
  assumes "patch_inv p" "obj_connect source outno sink inno p = (True, q)"
  shows "\<exists>ou oc. obj_starttraverseoutlet source outno q = (Some ou, connections p ou @ [oc]) \<and>
      fst (obj_nexttraverseoutlet oc q) = To_obj sink \<and> int (snd (snd (obj_nexttraverseoutlet oc q))) = inno \<and>
      (oc_to oc \<notin> oc_to ` set (connections p ou) \<longrightarrow>
        (\<exists>r. obj_disconnect source outno sink inno q = Some r \<and> connections r ou = connections p ou))"
proof -
  obtain ou to where w: "walk (ob_outlet (obj p source)) outno = Some ou" "inlet_target p sink inno = Some to"
    and q: "q = update_dsp ou (put_connections ou (connections p ou @ [\<lparr>oc_to = to, oc_vis = 0\<rparr>]) p)"
    using assms(2) by (auto simp: obj_connect_def split: if_splits option.splits)
  let ?l = "connections p ou @ [\<lparr>oc_to = to, oc_vis = 0\<rparr>]"
  have nb: "no_back ?l"
    using connections_no_back [OF assms(1) walk_in [OF w(1)]] inlet_target_ok [OF assms(1) w(2)]
    by (auto simp: no_back_def target_ok_def)
  have c: "connections q ou = ?l" by (simp add: q connections_put [OF nb])
  have w': "walk (ob_outlet (obj q source)) outno = Some ou" "inlet_target q sink inno = Some to"
  proof -
    show "walk (ob_outlet (obj q source)) outno = Some ou" using w(1) by (simp add: q)
    have "inlet_target q sink inno = inlet_target p sink inno" by (simp add: q inlet_target_def)
    with w(2) show "inlet_target q sink inno = Some to" by simp
  qed
  have n: "fst (obj_nexttraverseoutlet \<lparr>oc_to = to, oc_vis = 0\<rparr> q) = To_obj sink \<and>
      int (snd (snd (obj_nexttraverseoutlet \<lparr>oc_to = to, oc_vis = 0\<rparr> q))) = inno"
  proof -
    have iw: "i_owner (inlet p z) = sink \<and> int (position z (ob_inlet (obj p sink))) = k"
      if "walk (ob_inlet (obj p sink)) k = Some z" for k z
      using patch_invD(3) [OF assms(1) walk_in [OF that]] walk_position [OF patch_invD(1) [OF assms(1)] that] by blast
    show ?thesis
      using w(2) by (auto simp: inlet_target_def obj_nexttraverseoutlet_def Let_def q dest!: iw split: if_splits)
  qed
  have r: "remove_conn to ?l = connections p ou" if "to \<notin> oc_to ` set (connections p ou)"
    using that by (simp add: remove_conn_last)
  show ?thesis
  proof (intro exI conjI impI)
    show "obj_starttraverseoutlet source outno q = (Some ou, ?l)" using w'(1) c by (simp add: obj_starttraverseoutlet_def)
    assume "oc_to \<lparr>oc_to = to, oc_vis = 0\<rparr> \<notin> oc_to ` set (connections p ou)"
    then have rl: "remove_conn to ?l = connections p ou" by (intro r) simp
    show "obj_disconnect source outno sink inno q = Some (update_dsp ou (put_connections ou (connections p ou) q))"
      using w' by (simp add: obj_disconnect_def c rl)
    show "connections (update_dsp ou (put_connections ou (connections p ou) q)) ou = connections p ou"
      using connections_put [OF connections_no_back [OF assms(1) walk_in [OF w(1)]]] by simp
  qed (use n in simp_all)
qed

text \<open>Disconnecting at an outlet that does not exist reads from a null pointer, when the inlet exists.\<close>

lemma disconnect_no_outlet:
  assumes "walk (ob_outlet (obj p source)) outno = None" "inlet_target p sink inno = Some to"
  shows "obj_disconnect source outno sink inno p = None"
  using assms by (simp add: obj_disconnect_def)

section \<open>Signal inlets\<close>

lemma sig_index_spec:
  "walk l m = Some x \<Longrightarrow> P x \<Longrightarrow> sig_index P l m n = n + int (length [y\<leftarrow>take (nat m) l. P y]) \<and> 0 \<le> m"
proof (induction l arbitrary: m n)
  case (Cons y l)
  show ?case
  proof (cases "m = 0")
    case False
    with Cons.prems have w: "walk l (m - 1) = Some x" by simp
    note ih = Cons.IH [OF w Cons.prems(2)]
    have m: "1 \<le> m" using ih [of 0] by linarith
    have s: "sig_index P l (m - 1) k = k + int (length [y\<leftarrow>take (nat (m - 1)) l. P y])" for k using ih [of k] by blast
    have "nat m = Suc (nat (m - 1))" using m by simp
    then show ?thesis using m False by (simp add: s)
  qed (use Cons.prems in simp)
qed simp

section \<open>Witnesses\<close>

text \<open>No inlets, outlets or connections; all objects are of a class with a first inlet.\<close>

definition bare_patch :: patch where
  "bare_patch = \<lparr>obj = (\<lambda>x. \<lparr>ob_class = new_class ''o'' None 0 0 [], ob_inlet = [], ob_outlet = []\<rparr>),
     inlet = (\<lambda>i. \<lparr>i_class = Inlet, i_owner = 0, i_dest = None, i_symfrom = None, i_un = Symto []\<rparr>),
     outlet = (\<lambda>ou. \<lparr>o_owner = 0, o_connections = [], o_sym = None\<rparr>),
     backtracer = (\<lambda>b. \<lparr>b_connections = [], b_owner = 0\<rparr>), fresh = 0, cantrace = False, dsp_updates = 0\<rparr>"

lemma bare_patch_inv: "patch_inv bare_patch"
  by (simp add: patch_inv_def inlets_ok_def outlets_ok_def bare_patch_def)

text \<open>Two objects with an outlet each, the second with an inlet beside its first; the first outlet is connected to both.\<close>

definition two_edits :: "edit list" where
  "two_edits = [Outlet_new 1 None, Outlet_new 2 (Some ''signal''), Inlet_new 2 (Some 2) (Some ''float'') ''ft1'',
     Connect 1 0 2 0, Connect 1 0 2 1, Connect 2 0 1 0, Disconnect 2 0 1 0]"

definition two_objects :: patch where
  "two_objects = the (run_edits two_edits bare_patch)"

lemma two_objects: "run_edits two_edits bare_patch = Some two_objects"
proof -
  have "run_edits two_edits bare_patch \<noteq> None" by code_simp
  then show ?thesis by (auto simp: two_objects_def)
qed


theorem connect_traverse_witness:
  "\<exists>q ou oc. obj_connect 2 0 1 0 two_objects = (True, q) \<and>
      obj_starttraverseoutlet 2 0 q = (Some ou, connections two_objects ou @ [oc]) \<and>
      fst (obj_nexttraverseoutlet oc q) = To_obj 1 \<and> int (snd (snd (obj_nexttraverseoutlet oc q))) = 0"
proof -
  have "patch_inv two_objects" by (rule run_edits_inv [OF bare_patch_inv two_objects])
  moreover have "fst (obj_connect 2 0 1 0 two_objects)" unfolding two_objects_def by code_simp
  then obtain q where "obj_connect 2 0 1 0 two_objects = (True, q)" by (cases "obj_connect 2 0 1 0 two_objects") auto
  ultimately show ?thesis using connect_traverse by blast
qed

end
