(* ===== verification/Messages.thy ===== *)
theory Messages
  imports Obj
begin

text \<open>
  Messages between objects, the other half of \<open>src/pd/src/m_obj.c\<close>: what an inlet does with each
  message, the unpacking of a list over the inlets, outlets with the limit on the depth of the
  message stack, and backtracers. What a message to a connected \<open>t_pd\<close> leads to is a list of
  actions; the methods of the objects are an environment, over a world they may change.
\<close>

datatype msg =
    Bang | Float t_float | Pointer nat | Symbol symbol | Blob nat
  | List "atom list" | Anything symbol "atom list"

text \<open>\<open>pd_bang\<close>, \<open>pd_float\<close>, ..., \<open>pd_list\<close>, and \<open>typedmess\<close> for \<open>Anything\<close>.\<close>

fun pd_msg :: "pd_class \<Rightarrow> msg \<Rightarrow> call" where
  "pd_msg c Bang = pd_bang c"
| "pd_msg c (Float x) = pd_float c x"
| "pd_msg c (Pointer g) = pd_pointer c g"
| "pd_msg c (Symbol s) = pd_symbol c s"
| "pd_msg c (Blob b) = pd_blob c b"
| "pd_msg c (List argv) = pd_list c ''list'' argv"
| "pd_msg c (Anything s argv) = pd_typedmess False c s argv"

section \<open>The classes of inlets and backtracers\<close>

text \<open>As \<open>obj_init\<close> makes them.\<close>

definition bare_class :: "symbol \<Rightarrow> pd_class" where
  "bare_class s = new_class s None 0 CLASS_PD []"

definition inlet_class :: pd_class where
  "inlet_class =
     class_addanything Inlet_anything (class_addlist Inlet_list (class_addsymbol Inlet_symbol
       (class_doaddfloat Inlet_float (class_addpointer Inlet_pointer (class_addbang Inlet_bang
         (bare_class ''inlet''))))))"

definition pointerinlet_class :: pd_class where
  "pointerinlet_class =
     class_addanything Inlet_wrong (class_addpointer Pointerinlet_pointer (bare_class ''inlet''))"

definition floatinlet_class :: pd_class where
  "floatinlet_class =
     class_addanything Inlet_wrong (class_doaddfloat Floatinlet_float (bare_class ''inlet''))"

definition symbolinlet_class :: pd_class where
  "symbolinlet_class =
     class_addanything Inlet_wrong (class_addsymbol Symbolinlet_symbol (bare_class ''inlet''))"

definition backtracer_class :: pd_class where
  "backtracer_class = class_addanything Backtracer_anything (bare_class ''backtracer'')"

fun kind_class :: "inletkind \<Rightarrow> pd_class" where
  "kind_class Inlet = inlet_class"
| "kind_class Pointerinlet = pointerinlet_class"
| "kind_class Floatinlet = floatinlet_class"
| "kind_class Symbolinlet = symbolinlet_class"

section \<open>Inlets\<close>

datatype action =
    Invoke nat call
  | Set_signal nat t_float
  | Set_pointer nat nat
  | Set_float nat t_float
  | Set_symbol nat symbol
  | Wrong nat "symbol option" symbol
  | Refused call

definition symto :: "patch \<Rightarrow> nat \<Rightarrow> symbol" where
  "symto p i = (case i_un (inlet p i) of Symto s \<Rightarrow> s | _ \<Rightarrow> [])"

definition dest :: "patch \<Rightarrow> nat \<Rightarrow> nat" where
  "dest p i = (case i_dest (inlet p i) of Some d \<Rightarrow> d | None \<Rightarrow> 0)"

definition to_dest :: "patch \<Rightarrow> nat \<Rightarrow> msg \<Rightarrow> action" where
  "to_dest p i m = Invoke (dest p i) (pd_msg (ob_class (obj p (dest p i))) m)"

definition inlet_wrong :: "patch \<Rightarrow> nat \<Rightarrow> symbol \<Rightarrow> action" where
  "inlet_wrong p i s = Wrong (i_owner (inlet p i)) (i_symfrom (inlet p i)) s"

text \<open>\<open>inlet_fwd\<close>: \<open>None\<close> when the message is not forwarded.\<close>

definition inlet_fwd :: "patch \<Rightarrow> nat \<Rightarrow> symbol \<Rightarrow> atom list \<Rightarrow> action option" where
  "inlet_fwd p i s argv =
     (if i_symfrom (inlet p i) = Some ''signal'' \<and>
         zcheckgetfn (ob_class (obj p (dest p i))) ''fwd'' [T_GIMME] \<noteq> None
      then Some (to_dest p i (Anything ''fwd'' (A_SYMBOL s # argv)))
      else None)"

definition fwd_or :: "action option \<Rightarrow> action \<Rightarrow> action" where
  "fwd_or r a = (case r of Some b \<Rightarrow> b | None \<Rightarrow> a)"

text \<open>
  An inlet that takes lists passes a bang, a pointer, a float or a symbol to \<open>inlet_list\<close>, whose first
  case sends it on to the destination, as here.
\<close>

definition inlet_bang :: "patch \<Rightarrow> nat \<Rightarrow> action" where
  "inlet_bang p i =
     (let f = i_symfrom (inlet p i) in
      if f = Some ''bang'' then to_dest p i (Anything (symto p i) [])
      else if f = None then to_dest p i Bang
      else if f = Some ''list'' then to_dest p i (Anything (symto p i) [])
      else fwd_or (inlet_fwd p i ''bang'' []) (inlet_wrong p i ''bang''))"

definition inlet_pointer :: "patch \<Rightarrow> nat \<Rightarrow> nat \<Rightarrow> action" where
  "inlet_pointer p i g =
     (let f = i_symfrom (inlet p i) in
      if f = Some ''pointer'' then to_dest p i (Anything (symto p i) [A_POINTER g])
      else if f = None then to_dest p i (Pointer g)
      else if f = Some ''list'' then to_dest p i (Anything (symto p i) [A_POINTER g])
      else fwd_or (inlet_fwd p i ''pointer'' [A_POINTER g]) (inlet_wrong p i ''pointer''))"

definition inlet_float :: "patch \<Rightarrow> nat \<Rightarrow> t_float \<Rightarrow> action" where
  "inlet_float p i x =
     (let f = i_symfrom (inlet p i) in
      if f = Some ''float'' then to_dest p i (Anything (symto p i) [A_FLOAT x])
      else if f = Some ''signal'' then Set_signal i x
      else if f = None then to_dest p i (Float x)
      else if f = Some ''list'' then to_dest p i (Anything (symto p i) [A_FLOAT x])
      else inlet_wrong p i ''float'')"

definition inlet_symbol :: "patch \<Rightarrow> nat \<Rightarrow> symbol \<Rightarrow> action" where
  "inlet_symbol p i s =
     (let f = i_symfrom (inlet p i) in
      if f = Some ''symbol'' then to_dest p i (Anything (symto p i) [A_SYMBOL s])
      else if f = None then to_dest p i (Symbol s)
      else fwd_or (inlet_fwd p i ''symbol'' [A_SYMBOL s])
        (if f = Some ''list'' then to_dest p i (Anything (symto p i) [A_SYMBOL s])
         else inlet_wrong p i ''symbol''))"

definition inlet_list :: "patch \<Rightarrow> nat \<Rightarrow> atom list \<Rightarrow> action" where
  "inlet_list p i argv =
     (let f = i_symfrom (inlet p i) in
      if f = Some ''list'' \<or> f = Some ''float'' \<or> f = Some ''symbol'' \<or> f = Some ''pointer'' then
        to_dest p i (Anything (symto p i) argv)
      else if f = None then to_dest p i (List argv)
      else
        case argv of
          [] \<Rightarrow> inlet_bang p i
        | [A_FLOAT x] \<Rightarrow> inlet_float p i x
        | [A_SYMBOL s] \<Rightarrow> inlet_symbol p i s
        | _ \<Rightarrow> fwd_or (inlet_fwd p i ''list'' argv) (inlet_wrong p i ''list''))"

definition inlet_anything :: "patch \<Rightarrow> nat \<Rightarrow> symbol \<Rightarrow> atom list \<Rightarrow> action" where
  "inlet_anything p i s argv =
     (let f = i_symfrom (inlet p i) in
      if f = Some s then to_dest p i (Anything (symto p i) argv)
      else if f = None then to_dest p i (Anything s argv)
      else fwd_or (inlet_fwd p i s argv) (inlet_wrong p i s))"

definition slot_of :: "patch \<Rightarrow> nat \<Rightarrow> nat" where
  "slot_of p i =
     (case i_un (inlet p i) of Pointerslot a \<Rightarrow> a | Floatslot a \<Rightarrow> a | Symslot a \<Rightarrow> a | _ \<Rightarrow> 0)"

text \<open>The method of an inlet's class that a message leads to; one without a method is refused.\<close>

definition inlet_call :: "patch \<Rightarrow> nat \<Rightarrow> call \<Rightarrow> action" where
  "inlet_call p i c =
     (case c of
        CallBang Inlet_bang \<Rightarrow> inlet_bang p i
      | CallPointer Inlet_pointer g \<Rightarrow> inlet_pointer p i g
      | CallFloat Inlet_float x \<Rightarrow> inlet_float p i x
      | CallSymbol Inlet_symbol s \<Rightarrow> inlet_symbol p i s
      | CallList Inlet_list s argv \<Rightarrow> inlet_list p i argv
      | CallAny Inlet_anything s argv \<Rightarrow> inlet_anything p i s argv
      | CallAny Inlet_wrong s argv \<Rightarrow> inlet_wrong p i s
      | CallPointer Pointerinlet_pointer g \<Rightarrow> Set_pointer (slot_of p i) g
      | CallFloat Floatinlet_float x \<Rightarrow> Set_float (slot_of p i) x
      | CallSymbol Symbolinlet_symbol s \<Rightarrow> Set_symbol (slot_of p i) s
      | _ \<Rightarrow> Refused c)"

definition inlet_msg :: "patch \<Rightarrow> nat \<Rightarrow> msg \<Rightarrow> action" where
  "inlet_msg p i m = inlet_call p i (pd_msg (kind_class (i_class (inlet p i))) m)"

section \<open>Lists\<close>

text \<open>
  An element of a list as \<open>obj_list\<close> sends it; the word of an atom that is neither pointer, float nor
  symbol is taken for a symbol, and that of other atoms is not a symbol's (the empty one here).
\<close>

definition atom_msg :: "atom \<Rightarrow> msg" where
  "atom_msg a =
     (case a of
        A_POINTER g \<Rightarrow> Pointer g
      | A_FLOAT x \<Rightarrow> Float x
      | A_SYMBOL s \<Rightarrow> Symbol s
      | A_DOLLSYM s \<Rightarrow> Symbol s
      | _ \<Rightarrow> Symbol [])"

text \<open>Only a list is unpacked, and only as long as the list it came from.\<close>

lemma list_or_any_unpack [simp]: "list_or_any c s argv \<noteq> Unpack s' argv'" "call_any c s argv \<noteq> Unpack s' argv'"
  by (auto simp: list_or_any_def call_any_def split: slot.splits)

lemma scalar_unpack [simp]:
  "pd_bang c \<noteq> Unpack s argv" "pd_float c x \<noteq> Unpack s argv" "pd_pointer c g \<noteq> Unpack s argv"
  "pd_symbol c y \<noteq> Unpack s argv" "pd_blob c b \<noteq> Unpack s argv" "pd_floatforsignal c x \<noteq> Unpack s argv"
  by (auto simp: pd_bang_def pd_float_def pd_floatforsignal_def pd_pointer_def pd_symbol_def pd_blob_def
      split: slot.splits fslot.splits)

lemma pd_defaultlist_unpack: "pd_defaultlist c s argv = Unpack s' argv' \<Longrightarrow> s' = s \<and> argv' = argv \<and> argv \<noteq> []"
  by (auto simp: pd_defaultlist_def split: if_splits list.splits atom.splits slot.splits fslot.splits)

lemma call_list_unpack: "call_list c s argv = Unpack s' argv' \<Longrightarrow> s' = s \<and> argv' = argv \<and> argv \<noteq> []"
  by (auto simp: call_list_def pd_defaultlist_unpack split: slot.splits)

lemma typedmess_unpack: "pd_typedmess mk c s argv = Unpack s' argv' \<Longrightarrow> s = ''list'' \<and> s' = s \<and> argv' = argv \<and> argv \<noteq> []"
  by (auto simp: pd_typedmess_def call_method_def dest: call_list_unpack
      split: if_splits list.splits atom.splits slot.splits option.splits)

lemma atom_msg_unpack [simp]: "pd_msg c (atom_msg a) \<noteq> Unpack s argv"
  by (auto simp: atom_msg_def split: atom.splits)

lemma to_dest_anything: "to_dest p i (Anything s argv) = Invoke d (Unpack s' argv') \<Longrightarrow> argv' = argv"
  by (auto simp: to_dest_def dest: typedmess_unpack)

lemma fwd_unpack: "fwd_or (inlet_fwd p i s argv) a = Invoke d (Unpack s' argv') \<Longrightarrow> a = Invoke d (Unpack s' argv')"
  by (auto simp: fwd_or_def inlet_fwd_def to_dest_def dest: typedmess_unpack split: if_splits)

lemma inlet_fwd_unpack [simp]: "inlet_fwd p i s argv \<noteq> Some (Invoke d (Unpack s' argv'))"
  by (auto simp: inlet_fwd_def to_dest_def dest: typedmess_unpack)

lemma inlet_wrong_unpack [simp]: "inlet_wrong p i s \<noteq> Invoke d c"
  by (simp add: inlet_wrong_def)

lemma inlet_scalar_unpack:
  "inlet_pointer p i g = Invoke d (Unpack s argv) \<Longrightarrow> length argv \<le> 1"
  "inlet_float p i x = Invoke d (Unpack s argv) \<Longrightarrow> length argv \<le> 1"
  "inlet_symbol p i y = Invoke d (Unpack s argv) \<Longrightarrow> length argv \<le> 1"
  by (auto simp: inlet_pointer_def inlet_float_def inlet_symbol_def fwd_or_def to_dest_def Let_def dest: typedmess_unpack
      split: if_splits option.splits)

lemmas inlet_class_defs = inlet_class_def pointerinlet_class_def floatinlet_class_def symbolinlet_class_def
  backtracer_class_def bare_class_def new_class_def class_addanything_def class_addlist_def class_addsymbol_def
  class_doaddfloat_def class_addpointer_def class_addbang_def

lemma inlet_atom_unpack: "inlet_msg p i (atom_msg a) = Invoke d (Unpack s argv) \<Longrightarrow> length argv \<le> 1"
  by (cases "i_class (inlet p i)")
    (auto simp: inlet_msg_def atom_msg_def inlet_class_defs pd_float_def pd_symbol_def pd_pointer_def list_or_any_def
      call_any_def inlet_call_def dest: inlet_scalar_unpack split: atom.splits)

text \<open>
  \<open>obj_list\<close>: the elements after the first go to the inlets in turn, as many as there are; the first
  one goes to the object itself, last. A list of one element that an inlet sends on may be
  unpacked again, at its destination.
\<close>

function obj_list :: "patch \<Rightarrow> nat \<Rightarrow> atom list \<Rightarrow> action list" where
  "obj_list p x [] = []"
| "obj_list p x (a # as) =
     concat (map (\<lambda>(i, b).
       case inlet_msg p i (atom_msg b) of
         Invoke d (Unpack s argv) \<Rightarrow> obj_list p d argv
       | act \<Rightarrow> [act]) (zip (ob_inlet (obj p x)) as)) @
     [Invoke x (pd_msg (ob_class (obj p x)) (atom_msg a))]"
  by pat_completeness auto
termination
proof (relation "measure (\<lambda>(p, x, argv). length argv)", goal_cases)
  case (2 p x a as z i b d c s argv)
  then have "length argv \<le> 1" "as \<noteq> []" by (auto dest: inlet_atom_unpack)
  then show ?case by (cases as) auto
qed simp

declare obj_list.simps [simp del]

section \<open>Delivery\<close>

definition expand :: "patch \<Rightarrow> action \<Rightarrow> action list" where
  "expand p act =
     (case act of
        Invoke d c \<Rightarrow> (case c of Unpack s argv \<Rightarrow> obj_list p d argv | _ \<Rightarrow> [act])
      | _ \<Rightarrow> [act])"

text \<open>What a message to an object or an inlet leads to.\<close>

definition deliver :: "patch \<Rightarrow> pd \<Rightarrow> msg \<Rightarrow> action list" where
  "deliver p to m =
     (case to of
        To_obj x \<Rightarrow> expand p (Invoke x (pd_msg (ob_class (obj p x)) m))
      | To_inlet i \<Rightarrow> expand p (inlet_msg p i m)
      | To_back b \<Rightarrow> [])"

text \<open>
  A backtracer sends what reaches its method \<open>backtracer_anything\<close> to its own connections, as a
  typed message; they never lead to a backtracer again.
\<close>

definition backtracer_msg :: "patch \<Rightarrow> nat \<Rightarrow> msg \<Rightarrow> action list" where
  "backtracer_msg p b m =
     (case pd_msg backtracer_class m of
        CallAny Backtracer_anything s argv \<Rightarrow>
          concat (map (\<lambda>oc. deliver p (oc_to oc) (Anything s argv)) (b_connections (backtracer p b)))
      | c \<Rightarrow> [Refused c])"

text \<open>The message an outlet sends to each of its connections, in their order.\<close>

definition outlet_actions :: "patch \<Rightarrow> nat \<Rightarrow> msg \<Rightarrow> action list" where
  "outlet_actions p ou m =
     concat (map (\<lambda>oc. case oc_to oc of To_back b \<Rightarrow> backtracer_msg p b m | to \<Rightarrow> deliver p to m)
       (o_connections (outlet p ou)))"

definition obj_sendinlet :: "patch \<Rightarrow> nat \<Rightarrow> int \<Rightarrow> symbol \<Rightarrow> atom list \<Rightarrow> action list option" where
  "obj_sendinlet p x n s argv =
     (case walk (ob_inlet (obj p x)) n of
        Some i \<Rightarrow> Some (deliver p (To_inlet i) (Anything s argv))
      | None \<Rightarrow> None)"

section \<open>Running messages\<close>

text \<open>
  A method runs to its end, or sends a message out of an outlet and goes on with the world the
  message left behind. The patch does not change meanwhile.
\<close>

datatype 'w prog = Return 'w | Send nat msg 'w "'w \<Rightarrow> 'w prog"

record 'w objects =
  run_method :: "nat \<Rightarrow> call \<Rightarrow> 'w \<Rightarrow> 'w prog"
  store :: "action \<Rightarrow> 'w \<Rightarrow> 'w"

record 'w machine =
  stackcount :: nat
  overflows :: "nat list"
  world :: 'w

abbreviation STACKITER :: nat where "STACKITER \<equiv> 1000"

primrec run_prog ::
  "(nat \<Rightarrow> msg \<Rightarrow> 'w machine \<Rightarrow> 'w machine option) \<Rightarrow> 'w prog \<Rightarrow> 'w machine \<Rightarrow> 'w machine option" where
  "run_prog send (Return w) M = Some (M\<lparr>world := w\<rparr>)"
| "run_prog send (Send ou m w k) M =
     (case send ou m (M\<lparr>world := w\<rparr>) of
        None \<Rightarrow> None
      | Some M' \<Rightarrow> run_prog send (k (world M')) M')"

fun run_actions ::
  "(nat \<Rightarrow> msg \<Rightarrow> 'w machine \<Rightarrow> 'w machine option) \<Rightarrow> 'w objects \<Rightarrow> action list \<Rightarrow> 'w machine \<Rightarrow>
     'w machine option" where
  "run_actions send E [] M = Some M"
| "run_actions send E (a # as) M =
     Option.bind
       (case a of
          Invoke x c \<Rightarrow> run_prog send (run_method E x c (world M)) M
        | _ \<Rightarrow> Some (M\<lparr>world := store E a (world M)\<rparr>))
       (run_actions send E as)"

text \<open>
  \<open>outlet_bang\<close>, \<open>outlet_float\<close>, ..., \<open>outlet_anything\<close>. The first argument bounds the nesting of
  the recursion: \<open>None\<close> when it does not suffice.
\<close>

fun outlet_msg :: "nat \<Rightarrow> 'w objects \<Rightarrow> patch \<Rightarrow> nat \<Rightarrow> msg \<Rightarrow> 'w machine \<Rightarrow> 'w machine option" where
  "outlet_msg 0 E p ou m M = None"
| "outlet_msg (Suc n) E p ou m M =
     (let M = M\<lparr>stackcount := Suc (stackcount M)\<rparr> in
      map_option (\<lambda>M. M\<lparr>stackcount := stackcount M - 1\<rparr>)
        (if stackcount M \<ge> STACKITER then Some (M\<lparr>overflows := overflows M @ [o_owner (outlet p ou)]\<rparr>)
         else run_actions (outlet_msg n E p) E (outlet_actions p ou m) M))"

section \<open>The message stack\<close>

text \<open>
  An interface: a computation on the machine that may need more nesting than it was given. It is
  good for a machine when it answers and leaves the depth of the message stack as it was.
\<close>

locale depth_keeping =
  fixes send :: "nat \<Rightarrow> msg \<Rightarrow> 'w machine \<Rightarrow> 'w machine option" and d :: nat
  assumes send_returns: "stackcount M = d \<Longrightarrow> \<exists>M'. send ou m M = Some M' \<and> stackcount M' = d"
begin

lemma prog_returns: "stackcount M = d \<Longrightarrow> \<exists>M'. run_prog send pr M = Some M' \<and> stackcount M' = d"
proof (induction pr arbitrary: M)
  case (Send ou m w k)
  obtain M' where "send ou m (M\<lparr>world := w\<rparr>) = Some M'" "stackcount M' = d"
    using send_returns [of "M\<lparr>world := w\<rparr>"] Send.prems by auto
  then show ?case using Send.IH by auto
qed auto

lemma actions_return: "stackcount M = d \<Longrightarrow> \<exists>M'. run_actions send E as M = Some M' \<and> stackcount M' = d"
proof (induction as arbitrary: M)
  case (Cons a as)
  have "\<exists>M'. (case a of Invoke x c \<Rightarrow> run_prog send (run_method E x c (world M)) M
      | _ \<Rightarrow> Some (M\<lparr>world := store E a (world M)\<rparr>)) = Some M' \<and> stackcount M' = d"
    using prog_returns [OF Cons.prems] Cons.prems by (cases a) auto
  then show ?case using Cons.IH by fastforce
qed simp

end

lemma outlet_msg_depth: "STACKITER - stackcount M \<le> n \<Longrightarrow> stackcount M < STACKITER \<Longrightarrow>
    \<exists>M'. outlet_msg n E p ou m M = Some M' \<and> stackcount M' = stackcount M"
proof (induction n arbitrary: ou m M)
  case (Suc n)
  let ?M = "M\<lparr>stackcount := Suc (stackcount M)\<rparr>"
  show ?case
  proof (cases "stackcount ?M \<ge> STACKITER")
    case False
    have d: "depth_keeping (outlet_msg n E p) (Suc (stackcount M))"
    proof
      fix M' :: "'a machine" and ou m
      assume "stackcount M' = Suc (stackcount M)"
      then show "\<exists>M''. outlet_msg n E p ou m M' = Some M'' \<and> stackcount M'' = Suc (stackcount M)"
        using Suc.IH [of M' ou m] Suc.prems False by auto
    qed
    obtain M' where "run_actions (outlet_msg n E p) E (outlet_actions p ou m) ?M = Some M'" "stackcount M' = Suc (stackcount M)"
      using depth_keeping.actions_return [OF d, of ?M] by auto
    with False show ?thesis by auto
  qed simp
qed simp

interpretation stack: depth_keeping "outlet_msg STACKITER E p" 0 for E p
proof
  fix M :: "'a machine" and ou m
  assume "stackcount M = 0"
  then show "\<exists>M'. outlet_msg STACKITER E p ou m M = Some M' \<and> stackcount M' = 0"
    using outlet_msg_depth [of M STACKITER E p ou m] by simp
qed

lemma run_prog_mono:
  assumes "\<And>ou m M M'. send ou m M = Some M' \<Longrightarrow> send' ou m M = Some M'"
  shows "run_prog send pr M = Some M' \<Longrightarrow> run_prog send' pr M = Some M'"
  by (induction pr arbitrary: M) (auto split: option.splits dest: assms)

lemma run_actions_mono:
  assumes "\<And>ou m M M'. send ou m M = Some M' \<Longrightarrow> send' ou m M = Some M'"
  shows "run_actions send E as M = Some M' \<Longrightarrow> run_actions send' E as M = Some M'"
proof (induction as arbitrary: M)
  case (Cons a as)
  then show ?case using run_prog_mono [OF assms] by (auto simp: bind_eq_Some_conv split: action.splits)
qed simp

lemma outlet_msg_over:
  "STACKITER \<le> Suc (stackcount M) \<Longrightarrow> 0 < n \<Longrightarrow> \<exists>M'. outlet_msg n E p ou m M = Some M' \<and> stackcount M' = stackcount M"
  by (cases n) auto

text \<open>More nesting than needed makes no difference.\<close>

lemma outlet_msg_mono: "outlet_msg n E p ou m M = Some M' \<Longrightarrow> outlet_msg (n + k) E p ou m M = Some M'"
proof (induction n arbitrary: ou m M M')
  case (Suc n)
  have "run_actions (outlet_msg n E p) E as N = Some N' \<Longrightarrow> run_actions (outlet_msg (n + k) E p) E as N = Some N'"
    for as N N' using run_actions_mono [of "outlet_msg n E p" "outlet_msg (n + k) E p"] Suc.IH by blast
  with Suc.prems show ?case by (auto simp: Let_def split: if_splits)
qed simp

text \<open>C12: a message sent out of an outlet always returns, whatever the patch and the methods of its objects do: the
  limit on the message stack bounds the nesting. It leaves the depth as it was, and nothing depends on the bound chosen.\<close>

theorem outlet_returns:
  "\<exists>M'. (\<forall>k. outlet_msg (STACKITER + k) E p ou m M = Some M') \<and> stackcount M' = stackcount M"
proof -
  have "\<exists>M'. outlet_msg STACKITER E p ou m M = Some M' \<and> stackcount M' = stackcount M"
  proof (cases "stackcount M < STACKITER")
    case True
    then show ?thesis by (intro outlet_msg_depth) auto
  next
    case False
    then show ?thesis using outlet_msg_over [of M STACKITER] by simp
  qed
  then show ?thesis using outlet_msg_mono by blast
qed

text \<open>Through the interface: a method called from outside a message always comes back.\<close>

lemma method_returns:
  "stackcount M = 0 \<Longrightarrow> \<exists>M'. run_prog (outlet_msg STACKITER E p) (run_method E x c (world M)) M = Some M' \<and> stackcount M' = 0"
  by (rule stack.prog_returns)

section \<open>Tracing\<close>

text \<open>The messages a backtracer passes on as they are: no pointers, no blobs, no \<open>float\<close> message without a float.\<close>

fun passes :: "msg \<Rightarrow> bool" where
  "passes (Pointer g) \<longleftrightarrow> False"
| "passes (Blob b) \<longleftrightarrow> False"
| "passes (Anything s argv) \<longleftrightarrow>
     s \<noteq> ''blob'' \<and> (s = ''float'' \<longrightarrow> (case argv of [] \<Rightarrow> True | a # _ \<Rightarrow> \<exists>x. a = A_FLOAT x))"
| "passes m \<longleftrightarrow> True"

text \<open>What a backtracer turns a message into.\<close>

definition as_typed :: "msg \<Rightarrow> symbol \<times> atom list" where
  "as_typed m =
     (case pd_msg backtracer_class m of CallAny f s argv \<Rightarrow> (s, argv) | _ \<Rightarrow> ([], []))"

lemma backtracer_slots:
  "c_bangmethod backtracer_class = Default" "c_floatmethod backtracer_class = DefaultFloat"
  "c_symbolmethod backtracer_class = Default" "c_pointermethod backtracer_class = Default"
  "c_listmethod backtracer_class = Default" "c_anymethod backtracer_class = Method Backtracer_anything"
  "c_blobmethod backtracer_class = Default" "c_methods backtracer_class = []"
  by (simp_all add: inlet_class_defs Let_def)

lemma backtracer_list: "pd_defaultlist backtracer_class s argv = CallAny Backtracer_anything ''list'' argv"
  by (auto simp: pd_defaultlist_def backtracer_slots call_any_def split: list.splits atom.splits)

lemma backtracer_passes:
  assumes "passes m"
  shows "pd_msg backtracer_class m = CallAny Backtracer_anything (fst (as_typed m)) (snd (as_typed m))"
  using assms
  by (cases m)
    (auto simp: as_typed_def pd_bang_def pd_float_def pd_symbol_def pd_list_def call_list_def backtracer_list list_or_any_def
      call_any_def backtracer_slots pd_typedmess_def find_method_def split: list.splits atom.splits)

lemma as_typed_simple:
  "as_typed Bang = (''bang'', [])" "as_typed (Float x) = (''float'', [A_FLOAT x])"
  "as_typed (Symbol s) = (''symbol'', [A_SYMBOL s])" "as_typed (List argv) = (''list'', argv)"
  by (simp_all add: as_typed_def pd_bang_def pd_float_def pd_symbol_def pd_list_def call_list_def backtracer_list
      list_or_any_def call_any_def backtracer_slots)

lemma as_typed_anything:
  assumes "passes (Anything s argv)"
  shows "as_typed (Anything s argv) =
    (if s = ''float'' then (s, case argv of [] \<Rightarrow> [A_FLOAT (FFin 0)] | a # _ \<Rightarrow> [a])
     else if s = ''bang'' then (s, [])
     else if s = ''symbol'' then (s, case argv of A_SYMBOL y # _ \<Rightarrow> [A_SYMBOL y] | _ \<Rightarrow> [A_SYMBOL []])
     else (s, argv))"
proof -
  consider "s = ''float''" | "s = ''bang''" | "s = ''symbol''" | "s = ''list''"
    | "s \<noteq> ''float''" "s \<noteq> ''bang''" "s \<noteq> ''symbol''" "s \<noteq> ''list''" by blast
  then show ?thesis
  proof cases
    case 1
    with assms show ?thesis
      by (cases argv) (auto simp: as_typed_def pd_typedmess_def pd_float_def list_or_any_def call_any_def backtracer_slots)
  next
    case 2
    then show ?thesis by (simp add: as_typed_def pd_typedmess_def pd_bang_def list_or_any_def call_any_def backtracer_slots)
  next
    case 3
    then show ?thesis
      by (auto simp: as_typed_def pd_typedmess_def pd_symbol_def list_or_any_def call_any_def backtracer_slots
          split: list.splits atom.splits)
  next
    case 4
    then show ?thesis by (simp add: as_typed_def pd_typedmess_def call_list_def backtracer_slots backtracer_list)
  next
    case 5
    with assms show ?thesis
      by (simp add: as_typed_def pd_typedmess_def find_method_def call_any_def backtracer_slots)
  qed
qed

text \<open>For any class the typed message leads to the call the message itself leads to.\<close>

lemma as_typed_same:
  assumes "passes m"
  shows "pd_typedmess False c (fst (as_typed m)) (snd (as_typed m)) = pd_msg c m"
proof (cases m)
  case (Anything s argv)
  then have a: "passes (Anything s argv)" using assms by simp
  show ?thesis using a unfolding Anything as_typed_anything [OF a]
    by (auto simp: pd_typedmess_def split: list.splits atom.splits option.splits)
qed (use assms in \<open>simp_all add: as_typed_simple pd_typedmess_def pd_list_def\<close>)

lemma typed_inlet_same: "passes m \<Longrightarrow> inlet_msg p i (Anything (fst (as_typed m)) (snd (as_typed m))) = inlet_msg p i m"
  by (simp add: inlet_msg_def as_typed_same)

lemma deliver_typed: "passes m \<Longrightarrow> deliver p to (Anything (fst (as_typed m)) (snd (as_typed m))) = deliver p to m"
  by (cases to) (simp_all add: deliver_def as_typed_same typed_inlet_same)

text \<open>What a message leads to depends on the objects and inlets, not on outlets and backtracers.\<close>

lemma inlet_msg_cong:
  assumes "obj q = obj p" "inlet q = inlet p"
  shows "inlet_msg q i m = inlet_msg p i m"
proof -
  have d: "dest q = dest p" "symto q = symto p" "slot_of q = slot_of p" "to_dest q = to_dest p" "inlet_wrong q = inlet_wrong p"
    by (auto simp: fun_eq_iff dest_def symto_def slot_of_def to_dest_def inlet_wrong_def assms)
  have f: "inlet_fwd q = inlet_fwd p" by (auto simp: fun_eq_iff inlet_fwd_def assms d)
  have m: "inlet_bang q = inlet_bang p" "inlet_pointer q = inlet_pointer p" "inlet_float q = inlet_float p"
    "inlet_symbol q = inlet_symbol p" "inlet_anything q = inlet_anything p"
    unfolding fun_eq_iff inlet_bang_def inlet_pointer_def inlet_float_def inlet_symbol_def inlet_anything_def assms d f
    by (rule allI refl)+
  have l: "inlet_list q = inlet_list p"
    unfolding fun_eq_iff inlet_list_def assms d f m by (rule allI refl)+
  have "inlet_call q = inlet_call p"
    unfolding fun_eq_iff inlet_call_def d m l by (rule allI refl)+
  then show ?thesis by (simp add: inlet_msg_def assms)
qed

lemma obj_list_cong:
  assumes "obj q = obj p" "inlet q = inlet p"
  shows "obj_list q x argv = obj_list p x argv"
proof -
  have "r = p \<Longrightarrow> obj_list q x argv = obj_list r x argv" for r
  proof (induction r x argv rule: obj_list.induct)
    case (1 r x)
    show ?case by (simp add: obj_list.simps)
  next
    case (2 r x a as)
    have "(case inlet_msg q i (atom_msg b) of Invoke d (Unpack s argv) \<Rightarrow> obj_list q d argv | act \<Rightarrow> [act]) =
          (case inlet_msg r i (atom_msg b) of Invoke d (Unpack s argv) \<Rightarrow> obj_list r d argv | act \<Rightarrow> [act])"
      if "(i, b) \<in> set (zip (ob_inlet (obj r x)) as)" for i b
    proof -
      have e: "inlet_msg q i (atom_msg b) = inlet_msg r i (atom_msg b)" using inlet_msg_cong [OF assms] 2(2) by simp
      show ?thesis unfolding e using 2(1) [OF that refl _ _ 2(2)] by (auto split: action.splits call.splits)
    qed
    then show ?case using 2(2)
      by (auto simp: obj_list.simps assms split_beta intro!: arg_cong [where f = concat] map_cong)
  qed
  then show ?thesis by simp
qed

lemma deliver_cong:
  assumes "obj q = obj p" "inlet q = inlet p"
  shows "deliver q to m = deliver p to m"
proof -
  have "expand q = expand p" unfolding expand_def obj_list_cong [OF assms] ..
  then show ?thesis by (cases to) (simp_all add: deliver_def inlet_msg_cong [OF assms] assms)
qed

text \<open>The backtracers \<open>obj_dosettracing\<close> puts between an object's outlets and their connections.\<close>

definition interposed :: "patch \<Rightarrow> patch \<Rightarrow> nat \<Rightarrow> bool" where
  "interposed p q ou \<longleftrightarrow>
     (\<exists>b. fresh p \<le> b \<and> b < fresh q \<and> outlet q ou = (outlet p ou)\<lparr>o_connections := [\<lparr>oc_to = To_back b, oc_vis = 0\<rparr>]\<rparr> \<and>
       b_connections (backtracer q b) = o_connections (outlet p ou))"

lemma settrace_on:
  assumes "distinct l"
  shows "\<exists>q. fold (settrace_outlet ob True) l (True, p) = (True, q) \<and> obj q = obj p \<and> inlet q = inlet p \<and> fresh p \<le> fresh q \<and>
    (\<forall>ou. ou \<notin> set l \<longrightarrow> outlet q ou = outlet p ou) \<and> (\<forall>b<fresh p. backtracer q b = backtracer p b) \<and>
    (\<forall>ou\<in>set l. interposed p q ou)"
  using assms
proof (induction l arbitrary: p)
  case (Cons o1 l)
  obtain p1 where p1: "settrace_outlet ob True o1 (True, p) = (True, p1)" "obj p1 = obj p" "inlet p1 = inlet p"
    "fresh p1 = Suc (fresh p)" "\<And>ou. ou \<noteq> o1 \<Longrightarrow> outlet p1 ou = outlet p ou" "\<And>b. b < fresh p \<Longrightarrow> backtracer p1 b = backtracer p b"
    "outlet p1 o1 = (outlet p o1)\<lparr>o_connections := [\<lparr>oc_to = To_back (fresh p), oc_vis = 0\<rparr>]\<rparr>"
    "b_connections (backtracer p1 (fresh p)) = o_connections (outlet p o1)"
    by (auto simp: settrace_outlet_def Let_def backtracer_new_simps)
  from Cons.IH [where p = p1] Cons.prems obtain q where q: "fold (settrace_outlet ob True) l (True, p1) = (True, q)"
    "obj q = obj p1" "inlet q = inlet p1" "fresh p1 \<le> fresh q" "\<And>ou. ou \<notin> set l \<Longrightarrow> outlet q ou = outlet p1 ou"
    "\<And>b. b < fresh p1 \<Longrightarrow> backtracer q b = backtracer p1 b" "\<And>ou. ou \<in> set l \<Longrightarrow> interposed p1 q ou" by auto
  have "interposed p q o1" unfolding interposed_def
    using q(4) q(5) [of o1] q(6) [of "fresh p"] p1 Cons.prems by (intro exI [of _ "fresh p"]) auto
  moreover have "interposed p q ou" if "ou \<in> set l" for ou
  proof -
    have e: "outlet p1 ou = outlet p ou" using p1(5) [of ou] Cons.prems that by auto
    note i1 = q(7) [OF that]
    obtain b where "Suc (fresh p) \<le> b" "b < fresh q" "outlet q ou = (outlet p ou)\<lparr>o_connections := [\<lparr>oc_to = To_back b, oc_vis = 0\<rparr>]\<rparr>"
      "b_connections (backtracer q b) = o_connections (outlet p ou)"
      using i1 unfolding interposed_def p1(4) e by blast
    then show ?thesis unfolding interposed_def by (intro exI [of _ b]) simp
  qed
  ultimately show ?case using p1 q Cons.prems by auto
qed simp

lemma settrace_off:
  assumes "distinct l" "\<And>ou. ou \<in> set l \<Longrightarrow> interposed p q ou"
  shows "\<exists>r. fold (settrace_outlet ob False) l (True, q) = (True, r) \<and>
    (\<forall>ou. outlet r ou = (if ou \<in> set l then outlet p ou else outlet q ou))"
  using assms
proof (induction l arbitrary: q)
  case (Cons o1 l)
  from Cons.prems(2) [of o1] obtain b where b: "outlet q o1 = (outlet p o1)\<lparr>o_connections := [\<lparr>oc_to = To_back b, oc_vis = 0\<rparr>]\<rparr>"
    "b_connections (backtracer q b) = o_connections (outlet p o1)" by (auto simp: interposed_def)
  define q1 where "q1 = put_outlet o1 (outlet p o1) q"
  have s: "settrace_outlet ob False o1 (True, q) = (True, q1)"
    using b by (simp add: settrace_outlet_def traced_def q1_def)
  have "interposed p q1 ou" if "ou \<in> set l" for ou
    using Cons.prems(1) Cons.prems(2) [of ou] that by (auto simp: interposed_def q1_def)
  with Cons.IH [of q1] Cons.prems(1) obtain r where
    "fold (settrace_outlet ob False) l (True, q1) = (True, r)" "\<And>ou. outlet r ou = (if ou \<in> set l then outlet p ou else outlet q1 ou)"
    by auto
  with s show ?case by (auto simp: q1_def)
qed simp

text \<open>C15: tracing an object changes none of the messages its outlets send, pointers and blobs apart; when tracing ends
  the connections are as before.\<close>

theorem tracing_transparent:
  assumes "patch_inv p" "\<And>ou. ou \<in> set (ob_outlet (obj p x)) \<Longrightarrow> traced p ou = None"
  shows "\<exists>q. obj_dosettracing x True p = (True, q) \<and>
    (\<forall>ou\<in>set (ob_outlet (obj p x)). \<forall>m. passes m \<longrightarrow> outlet_actions q ou m = outlet_actions p ou m) \<and>
    (\<exists>r. obj_dosettracing x False q = (True, r) \<and> outlet r = outlet p)"
proof -
  let ?l = "ob_outlet (obj p x)"
  obtain q where q: "obj_dosettracing x True p = (True, q)" "obj q = obj p" "inlet q = inlet p"
    "\<And>ou. ou \<notin> set ?l \<Longrightarrow> outlet q ou = outlet p ou" "\<And>ou. ou \<in> set ?l \<Longrightarrow> interposed p q ou"
    using settrace_on [OF patch_invD(4) [OF assms(1), of x], of x p] by (auto simp: obj_dosettracing_def)
  have "outlet_actions q ou m = outlet_actions p ou m" if ou: "ou \<in> set ?l" and m: "passes m" for ou m
  proof -
    from q(5) [OF ou] obtain b where b: "o_connections (outlet q ou) = [\<lparr>oc_to = To_back b, oc_vis = 0\<rparr>]"
      "b_connections (backtracer q b) = o_connections (outlet p ou)" by (auto simp: interposed_def)
    have nb: "no_back (o_connections (outlet p ou))"
      using connections_no_back [OF assms(1) ou] assms(2) [OF ou] by (simp add: connections_def)
    have "outlet_actions q ou m = backtracer_msg q b m" by (simp add: outlet_actions_def b)
    also have "\<dots> = concat (map (\<lambda>oc. deliver p (oc_to oc) m) (o_connections (outlet p ou)))"
      by (simp add: backtracer_msg_def backtracer_passes [OF m] deliver_typed [OF m] b deliver_cong [OF q(2,3)])
    also have "\<dots> = outlet_actions p ou m"
      using nb by (auto simp: outlet_actions_def no_back_def intro!: arg_cong [where f = concat] split: pd.splits)
    finally show ?thesis .
  qed
  moreover from settrace_off [OF patch_invD(4) [OF assms(1), of x] q(5), where ob = x] obtain r where
    "obj_dosettracing x False q = (True, r)" "outlet r = outlet p"
    using q(4) by (auto simp: obj_dosettracing_def q(2) fun_eq_iff)
  ultimately show ?thesis using q(1) by blast
qed

text \<open>A pointer is another matter: an object with a method for pointers alone no longer gets them.\<close>

lemma tracing_pointer:
  assumes "c_pointermethod c = Method f" "c_anymethod c = Default" "find_method ''pointer'' c = None"
  shows "pd_msg c (Pointer g) = CallPointer f g"
    and "pd_msg backtracer_class (Pointer g) = CallAny Backtracer_anything ''pointer'' [A_POINTER g]"
    and "pd_typedmess False c ''pointer'' [A_POINTER g] = NoMethod (c_name c) ''pointer''"
  using assms by (simp_all add: pd_pointer_def list_or_any_def call_any_def backtracer_slots pd_typedmess_def)

text \<open>A blob never gets past an inlet: \<open>inlet_blob\<close> is not installed.\<close>

lemma inlet_refuses_blob: "inlet_msg p i (Blob b) = Refused (NoBlobMethod ''inlet'')"
  by (cases "i_class (inlet p i)") (simp_all add: inlet_msg_def pd_blob_def inlet_class_defs Let_def inlet_call_def)

section \<open>Lists over inlets\<close>

text \<open>Inlets that pass floats, pointers and symbols on, or store them, as those of most objects do.\<close>

definition plain_inlet :: "patch \<Rightarrow> nat \<Rightarrow> bool" where
  "plain_inlet p i \<longleftrightarrow> (\<forall>m d s argv. inlet_msg p i m \<noteq> Invoke d (Unpack s argv))"

lemma concat_singletons: "concat (map (\<lambda>(i, b). [f i b]) l) = map (\<lambda>(i, b). f i b) l"
  by (induction l) auto

lemma obj_list_plain:
  assumes "\<And>i. i \<in> set (ob_inlet (obj p x)) \<Longrightarrow> plain_inlet p i"
  shows "obj_list p x (a # as) =
    map (\<lambda>(i, b). inlet_msg p i (atom_msg b)) (zip (ob_inlet (obj p x)) as) @ [Invoke x (pd_msg (ob_class (obj p x)) (atom_msg a))]"
proof -
  have "(case inlet_msg p i (atom_msg b) of Invoke d (Unpack s argv) \<Rightarrow> obj_list p d argv | act \<Rightarrow> [act]) = [inlet_msg p i (atom_msg b)]"
    if "(i, b) \<in> set (zip (ob_inlet (obj p x)) as)" for i b
    using assms [of i] set_zip_leftD [OF that] by (auto simp: plain_inlet_def split: action.splits call.splits)
  then have "concat (map (\<lambda>(i, b). case inlet_msg p i (atom_msg b) of Invoke d (Unpack s argv) \<Rightarrow> obj_list p d argv | act \<Rightarrow> [act])
      (zip (ob_inlet (obj p x)) as)) = concat (map (\<lambda>(i, b). [inlet_msg p i (atom_msg b)]) (zip (ob_inlet (obj p x)) as))"
    by (intro arg_cong [where f = concat] map_cong) auto
  also have "\<dots> = map (\<lambda>(i, b). inlet_msg p i (atom_msg b)) (zip (ob_inlet (obj p x)) as)"
    by (simp only: concat_singletons)
  finally show ?thesis by (simp only: obj_list.simps)
qed

section \<open>Witnesses\<close>

lemma two_objects_traced: "ou \<in> set (ob_outlet (obj two_objects 1)) \<Longrightarrow> traced two_objects ou = None"
proof -
  have "list_all (\<lambda>ou. traced two_objects ou = None) (ob_outlet (obj two_objects 1))"
    unfolding two_objects_def by code_simp
  then show "ou \<in> set (ob_outlet (obj two_objects 1)) \<Longrightarrow> traced two_objects ou = None" by (auto simp: list_all_iff)
qed

theorem tracing_transparent_witness:
  "\<exists>q. obj_dosettracing 1 True two_objects = (True, q) \<and>
    (\<forall>ou\<in>set (ob_outlet (obj two_objects 1)). outlet_actions q ou (Float (FFin 2)) = outlet_actions two_objects ou (Float (FFin 2))) \<and>
    (\<exists>r. obj_dosettracing 1 False q = (True, r) \<and> outlet r = outlet two_objects)"
proof -
  have "patch_inv two_objects" using run_edits_inv [OF bare_patch_inv two_objects] .
  from tracing_transparent [OF this two_objects_traced] show ?thesis by (metis passes.simps(5))
qed

end
