(* ===== verification/Connect.thy ===== *)
theory Connect
  imports Messages Pipe
begin

text \<open>
  The connective objects of \<open>src/pd/src/x_connective.c\<close>: int, float, symbol, send, receive, select, route, pack, unpack, trigger, spigot,
  moses, until, swap, change and value (makefilename is in MakeFilename). An object that keeps no state while it sends answers with
  what it does, in order; for the others what is sent out of an outlet goes to the parameter \<open>out\<close>, which can send messages back, and
  \<open>'e\<close> is the state of the other objects.
\<close>

text \<open>A message out of an outlet, one to what a symbol is bound to, an error.\<close>

datatype cout = Out nat msg | Sent symbol msg | Error string

type_synonym couts = "cout list"

section \<open>int, float, symbol, send, receive\<close>

text \<open>\<open>(t_float)(int64_t)f\<close>\<close>

definition int_part :: "t_float \<Rightarrow> t_float" where
  "int_part f = float_of_int (atom_getint (A_FLOAT f))"

definition send_to :: "(symbol \<Rightarrow> bool) \<Rightarrow> symbol \<Rightarrow> msg \<Rightarrow> couts" where
  "send_to s_thing s m = (if s_thing s then [Sent s m] else [Error (s @ '': no such object'')])"

definition pdint_bang :: "t_float \<Rightarrow> couts" where
  "pdint_bang x_f = [Out 0 (Float (int_part x_f))]"

definition pdint_float :: "t_float \<Rightarrow> t_float \<times> couts" where
  "pdint_float f = (f, [Out 0 (Float (int_part f))])"

definition pdint_send :: "(symbol \<Rightarrow> bool) \<Rightarrow> t_float \<Rightarrow> symbol \<Rightarrow> couts" where
  "pdint_send s_thing x_f s = send_to s_thing s (Float (int_part x_f))"

definition pdfloat_bang :: "t_float \<Rightarrow> couts" where
  "pdfloat_bang x_f = [Out 0 (Float x_f)]"

definition pdfloat_float :: "t_float \<Rightarrow> t_float \<times> couts" where
  "pdfloat_float f = (f, [Out 0 (Float f)])"

definition pdfloat_send :: "(symbol \<Rightarrow> bool) \<Rightarrow> t_float \<Rightarrow> symbol \<Rightarrow> couts" where
  "pdfloat_send s_thing x_f s = send_to s_thing s (Float x_f)"

definition pdsymbol_bang :: "symbol \<Rightarrow> couts" where
  "pdsymbol_bang x_s = [Out 0 (Symbol x_s)]"

definition pdsymbol_symbol :: "symbol \<Rightarrow> symbol \<times> couts" where
  "pdsymbol_symbol s = (s, [Out 0 (Symbol s)])"

definition pdsymbol_anything :: "symbol \<Rightarrow> atom list \<Rightarrow> symbol \<times> couts" where
  "pdsymbol_anything s av = (s, [Out 0 (Symbol s)])"

definition bang_bang :: couts where
  "bang_bang = [Out 0 Bang]"

text \<open>The methods of send and receive pass on each kind of message.\<close>

definition send_msg :: "(symbol \<Rightarrow> bool) \<Rightarrow> symbol \<Rightarrow> msg \<Rightarrow> couts" where
  "send_msg s_thing x_sym m = (if s_thing x_sym then [Sent x_sym m] else [])"

definition receive_msg :: "msg \<Rightarrow> couts" where
  "receive_msg m = [Out 0 m]"

section \<open>select\<close>

record sel2 =
  x_type :: atom
  x_mixed :: bool
  x_elems :: "atom list"

text \<open>The outlet of an element has its index, that for what is rejected the number of elements. Only the type of \<open>x_type\<close> counts.\<close>

datatype selects = Sel1 atom | Sel2 sel2

fun is_float :: "atom \<Rightarrow> bool" where
  "is_float (A_FLOAT f) = True"
| "is_float _ = False"

fun is_symbol :: "atom \<Rightarrow> bool" where
  "is_symbol (A_SYMBOL s) = True"
| "is_symbol _ = False"

definition same_float :: "t_float \<Rightarrow> atom \<Rightarrow> bool" where
  "same_float f a = (case a of A_FLOAT g \<Rightarrow> feq g f | _ \<Rightarrow> False)"

definition same_symbol :: "symbol \<Rightarrow> atom \<Rightarrow> bool" where
  "same_symbol s a = (case a of A_SYMBOL t \<Rightarrow> t = s | _ \<Rightarrow> False)"

fun first_index :: "('a \<Rightarrow> bool) \<Rightarrow> 'a list \<Rightarrow> nat option" where
  "first_index P [] = None"
| "first_index P (a # as) = (if P a then Some 0 else map_option Suc (first_index P as))"

text \<open>\<open>f0\<close> is whether the variable \<open>f\<close>, which has not been initialised, is not zero.\<close>

definition select_new :: "bool \<Rightarrow> atom list \<Rightarrow> selects" where
  "select_new f0 argv =
     (let argv = (if argv = [] then [A_FLOAT (FFin 0)] else argv) in
      if length argv = 1 then Sel1 (argv ! 0)
      else
        let fl = is_float (argv ! 0);
            elems = map (\<lambda>n. if fl then A_FLOAT (atom_getfloatarg n argv) else A_SYMBOL (atom_getsymbolarg n argv)) [0..<length argv];
            f = (fl \<or> f0); s = \<not> fl in
        Sel2 \<lparr>x_type = argv ! 0, x_mixed = (f \<and> s), x_elems = elems\<rparr>)"

definition sel1_float :: "t_float \<Rightarrow> atom \<Rightarrow> couts" where
  "sel1_float f x_atom = (if same_float f x_atom then [Out 0 Bang] else [Out 1 (Float f)])"

definition sel1_symbol :: "symbol \<Rightarrow> atom \<Rightarrow> couts" where
  "sel1_symbol s x_atom = (if same_symbol s x_atom then [Out 0 Bang] else [Out 1 (Symbol s)])"

definition sel1_proxy_float :: "t_float \<Rightarrow> atom" where
  "sel1_proxy_float f = A_FLOAT f"

definition sel1_proxy_symbol :: "symbol \<Rightarrow> atom" where
  "sel1_proxy_symbol s = A_SYMBOL s"

definition sel2_float :: "t_float \<Rightarrow> sel2 \<Rightarrow> couts" where
  "sel2_float f x =
     (case (if is_float (x_type x) \<or> x_mixed x then first_index (same_float f) (x_elems x) else None) of
        Some i \<Rightarrow> [Out i Bang]
      | None \<Rightarrow> [Out (length (x_elems x)) (Float f)])"

definition sel2_symbol :: "symbol \<Rightarrow> sel2 \<Rightarrow> couts" where
  "sel2_symbol s x =
     (case (if is_symbol (x_type x) \<or> x_mixed x then first_index (same_symbol s) (x_elems x) else None) of
        Some i \<Rightarrow> [Out i Bang]
      | None \<Rightarrow> [Out (length (x_elems x)) (Symbol s)])"

section \<open>route\<close>

text \<open>
  The words of route do not say whether they hold a float or a symbol. \<open>bits s\<close> is the float that reading the word of symbol \<open>s\<close> gives,
  the lower half of its address; a float is not read as the address of a symbol.
\<close>

datatype rword = W_float t_float | W_symbol symbol

definition w_float :: "(symbol \<Rightarrow> t_float) \<Rightarrow> rword \<Rightarrow> t_float" where
  "w_float bits w = (case w of W_float f \<Rightarrow> f | W_symbol s \<Rightarrow> bits s)"

definition w_symbol :: "rword \<Rightarrow> symbol option" where
  "w_symbol w = (case w of W_float f \<Rightarrow> None | W_symbol s \<Rightarrow> Some s)"

record route =
  r_type :: atom
  r_vec :: "rword list"
  r_mixed :: bool

definition route_new :: "atom list \<Rightarrow> route" where
  "route_new argv =
     (let argv = (if argv = [] then [A_FLOAT (FFin 0)] else argv) in
      \<lparr>r_type = argv ! 0,
       r_vec = map (\<lambda>n. if is_float (argv ! n) then W_float (atom_getfloatarg n argv) else W_symbol (atom_getsymbolarg n argv)) [0..<length argv],
       r_mixed = (list_ex is_float argv \<and> list_ex (\<lambda>a. \<not> is_float a) argv)\<rparr>)"

definition route_proxy_float :: "t_float \<Rightarrow> route \<Rightarrow> route" where
  "route_proxy_float f x = x\<lparr>r_type := A_FLOAT f, r_vec := (r_vec x)[0 := W_float f]\<rparr>"

definition route_proxy_symbol :: "symbol \<Rightarrow> route \<Rightarrow> route" where
  "route_proxy_symbol s x = x\<lparr>r_type := A_SYMBOL s, r_vec := (r_vec x)[0 := W_symbol s]\<rparr>"

definition find_symbol :: "symbol \<Rightarrow> route \<Rightarrow> nat option" where
  "find_symbol s x = first_index (\<lambda>w. w_symbol w = Some s) (r_vec x)"

definition find_float :: "(symbol \<Rightarrow> t_float) \<Rightarrow> t_float \<Rightarrow> route \<Rightarrow> nat option" where
  "find_float bits f x = first_index (\<lambda>w. feq (w_float bits w) f) (r_vec x)"

text \<open>A list that starts with a symbol goes out as a message with that selector.\<close>

definition list_or_anything :: "atom list \<Rightarrow> msg" where
  "list_or_anything argv = (case argv of A_SYMBOL s # as \<Rightarrow> Anything s as | _ \<Rightarrow> List argv)"

definition route_anything :: "symbol \<Rightarrow> atom list \<Rightarrow> route \<Rightarrow> couts" where
  "route_anything sel argv x =
     (case (if is_symbol (r_type x) \<or> r_mixed x then find_symbol sel x else None) of
        Some i \<Rightarrow> [Out i (list_or_anything argv)]
      | None \<Rightarrow> [Out (length (r_vec x)) (Anything sel argv)])"

text \<open>The search among the symbols for the kind of the list.\<close>

definition route_kind :: "atom list \<Rightarrow> route \<Rightarrow> (nat \<times> msg) option" where
  "route_kind argv x =
     (if length argv > 1 then map_option (\<lambda>i. (i, list_or_anything argv)) (find_symbol ''list'' x)
      else case argv of
        [] \<Rightarrow> map_option (\<lambda>i. (i, Bang)) (find_symbol ''bang'' x)
      | A_FLOAT f # _ \<Rightarrow> map_option (\<lambda>i. (i, Float f)) (find_symbol ''float'' x)
      | A_SYMBOL s # _ \<Rightarrow> map_option (\<lambda>i. (i, Symbol s)) (find_symbol ''symbol'' x)
      | _ \<Rightarrow> None)"

definition route_list :: "(symbol \<Rightarrow> t_float) \<Rightarrow> atom list \<Rightarrow> route \<Rightarrow> couts" where
  "route_list bits argv x =
     (case (if is_float (r_type x) \<or> r_mixed x then
              (case argv of A_FLOAT f # _ \<Rightarrow> find_float bits f x | _ \<Rightarrow> None) else None) of
        Some i \<Rightarrow> [Out i (if length argv > 1 then list_or_anything (tl argv) else Bang)]
      | None \<Rightarrow>
          (case (if is_symbol (r_type x) \<or> r_mixed x then route_kind argv x else None) of
             Some (i, m) \<Rightarrow> [Out i m]
           | None \<Rightarrow> [Out (length (r_vec x)) (List argv)]))"

section \<open>pack and unpack\<close>

text \<open>
  The slots of pack are made as those of pipe are. \<open>pk_outvec\<close> is whether the space for the output is free. \<open>out\<close> gets the copy of the
  slots.
\<close>

record pack =
  pk_vec :: "atom list"
  pk_nptr :: nat
  pk_gp :: nat
  pk_outvec :: bool
  pk_posts :: "string list"

type_synonym 'e pack_world = "'e \<times> pack \<times> gmem"
type_synonym 'e pack_out = "atom list \<Rightarrow> 'e pack_world \<Rightarrow> 'e pack_world option"

definition pack_post :: "string \<Rightarrow> 'e pack_world \<Rightarrow> 'e pack_world" where
  "pack_post msg w = (fst w, (fst (snd w))\<lparr>pk_posts := pk_posts (fst (snd w)) @ [msg]\<rparr>, snd (snd w))"

definition bad_type :: "string \<Rightarrow> atom \<Rightarrow> string list" where
  "bad_type name a =
     (case a of
        A_SYMBOL s \<Rightarrow> if cnth s 0 \<in> {CHR ''s'', CHR ''p'', CHR ''f''} then [] else [name @ '': '' @ s @ '': bad type'']
      | _ \<Rightarrow> [])"

definition two_zeros :: "atom list \<Rightarrow> atom list" where
  "two_zeros argv = (if argv = [] then [A_FLOAT (FFin 0), A_FLOAT (FFin 0)] else argv)"

definition pack_new :: "nat \<Rightarrow> atom list \<Rightarrow> gmem \<Rightarrow> pack \<times> gmem" where
  "pack_new gp argv M =
     (let argv = two_zeros argv; nptr = length (filter (starts (CHR ''p'')) argv) in
      (\<lparr>pk_vec = pipe_slots gp argv, pk_nptr = nptr, pk_gp = gp, pk_outvec = True, pk_posts = concat (map (bad_type ''pack'') argv)\<rparr>,
       init_gps gp nptr M))"

fun check_gps :: "nat \<Rightarrow> nat \<Rightarrow> gmem \<Rightarrow> bool option" where
  "check_gps gp 0 M = Some True"
| "check_gps gp (Suc k) M =
     Option.bind (gpointer_check (gptr M gp) True M) (\<lambda>ok. if ok then check_gps (Suc gp) k M else Some False)"

definition pack_bang :: "'e pack_out \<Rightarrow> 'e pack_world \<Rightarrow> 'e pack_world option" where
  "pack_bang out w =
     (let (e, x, M) = w in
      case check_gps (pk_gp x) (pk_nptr x) M of
        None \<Rightarrow> None
      | Some False \<Rightarrow> Some (pack_post ''pack: stale pointer'' w)
      | Some True \<Rightarrow>
          if \<not> pk_outvec x then
            out (pk_vec x) (if pk_nptr x \<noteq> 0 then pack_post ''pack_bang: warning: reentry with pointers unprotected'' w else w)
          else map_option (\<lambda>(e, x, M). (e, x\<lparr>pk_outvec := True\<rparr>, M)) (out (pk_vec x) (e, x\<lparr>pk_outvec := False\<rparr>, M)))"

definition pack_pointer :: "'e pack_out \<Rightarrow> nat \<Rightarrow> 'e pack_world \<Rightarrow> 'e pack_world option" where
  "pack_pointer out q w =
     (let (e, x, M) = w in
      case pk_vec x ! 0 of
        A_POINTER _ \<Rightarrow>
          Option.bind (gpointer_unset (pk_gp x) M) (\<lambda>M1.
          Option.bind (gp_assign (pk_gp x) (gptr M1 q) M1) (\<lambda>M2. pack_bang out (e, x, M2)))
      | _ \<Rightarrow> Some (pack_post ''pack_pointer: wrong type'' w))"

definition pack_float :: "'e pack_out \<Rightarrow> t_float \<Rightarrow> 'e pack_world \<Rightarrow> 'e pack_world option" where
  "pack_float out f w =
     (let (e, x, M) = w in
      case pk_vec x ! 0 of
        A_FLOAT _ \<Rightarrow> pack_bang out (e, x\<lparr>pk_vec := (pk_vec x)[0 := A_FLOAT f]\<rparr>, M)
      | _ \<Rightarrow> Some (pack_post ''pack_float: wrong type'' w))"

definition pack_symbol :: "'e pack_out \<Rightarrow> symbol \<Rightarrow> 'e pack_world \<Rightarrow> 'e pack_world option" where
  "pack_symbol out s w =
     (let (e, x, M) = w in
      case pk_vec x ! 0 of
        A_SYMBOL _ \<Rightarrow> pack_bang out (e, x\<lparr>pk_vec := (pk_vec x)[0 := A_SYMBOL s]\<rparr>, M)
      | _ \<Rightarrow> Some (pack_post ''pack_symbol: wrong type'' w))"

text \<open>
  The inlet of slot \<open>i\<close>, as \<open>obj_list\<close> (m_obj.c) sends an atom to it: a floatinlet, symbolinlet or pointerinlet writes into the slot
  what is of its kind. The arguments of pack are floats and symbols, so that each slot but the first has an inlet; the lists it gets hold
  floats, symbols and pointers. The wording of the error of \<open>inlet_wrong\<close> is not kept.
\<close>

definition pack_inlet :: "nat \<Rightarrow> atom \<Rightarrow> pack \<times> gmem \<Rightarrow> (pack \<times> gmem) option" where
  "pack_inlet i a w =
     (let (x, M) = w in
      case (pk_vec x ! i, a) of
        (A_FLOAT _, A_FLOAT f) \<Rightarrow> Some (x\<lparr>pk_vec := (pk_vec x)[i := a]\<rparr>, M)
      | (A_SYMBOL _, A_SYMBOL s) \<Rightarrow> Some (x\<lparr>pk_vec := (pk_vec x)[i := a]\<rparr>, M)
      | (A_POINTER p, A_POINTER q) \<Rightarrow>
          Option.bind (gpointer_unset p M) (\<lambda>M1. map_option (Pair x) (gp_assign p (gptr M1 q) M1))
      | _ \<Rightarrow> Some (x\<lparr>pk_posts := pk_posts x @ [''inlet: wrong type'']\<rparr>, M))"

fun pack_inlets :: "nat \<Rightarrow> atom list \<Rightarrow> pack \<times> gmem \<Rightarrow> (pack \<times> gmem) option" where
  "pack_inlets i [] w = Some w"
| "pack_inlets i (a # as) w =
     (if i < length (pk_vec (fst w)) then Option.bind (pack_inlet i a w) (pack_inlets (Suc i) as) else Some w)"

definition pack_first :: "'e pack_out \<Rightarrow> atom \<Rightarrow> 'e pack_world \<Rightarrow> 'e pack_world option" where
  "pack_first out a w =
     (case a of
        A_POINTER q \<Rightarrow> pack_pointer out q w
      | A_FLOAT f \<Rightarrow> pack_float out f w
      | A_SYMBOL s \<Rightarrow> pack_symbol out s w
      | _ \<Rightarrow> Some w)"

definition pack_list :: "'e pack_out \<Rightarrow> atom list \<Rightarrow> 'e pack_world \<Rightarrow> 'e pack_world option" where
  "pack_list out av w =
     (case av of
        [] \<Rightarrow> pack_bang out w
      | a # as \<Rightarrow> Option.bind (pack_inlets 1 as (snd w)) (\<lambda>v. pack_first out a (fst w, v)))"

definition pack_anything :: "'e pack_out \<Rightarrow> symbol \<Rightarrow> atom list \<Rightarrow> 'e pack_world \<Rightarrow> 'e pack_world option" where
  "pack_anything out s av w = pack_list out (A_SYMBOL s # av) w"

definition pack_free :: "pack \<Rightarrow> gmem \<Rightarrow> gmem option" where
  "pack_free x M = unset_gps (pk_gp x) (pk_nptr x) M"

text \<open>The kind of each outlet of unpack.\<close>

datatype kind = K_FLOAT | K_SYMBOL | K_POINTER

definition unpack_kind :: "atom \<Rightarrow> kind" where
  "unpack_kind a =
     (case a of
        A_SYMBOL s \<Rightarrow> if cnth s 0 = CHR ''s'' then K_SYMBOL else if cnth s 0 = CHR ''p'' then K_POINTER else K_FLOAT
      | _ \<Rightarrow> K_FLOAT)"

definition unpack_new :: "atom list \<Rightarrow> kind list \<times> couts" where
  "unpack_new argv = (map unpack_kind (two_zeros argv), map Error (concat (map (bad_type ''unpack'') (two_zeros argv))))"

definition unpack_one :: "kind list \<Rightarrow> atom list \<Rightarrow> nat \<Rightarrow> cout" where
  "unpack_one x argv i =
     (case (x ! i, argv ! i) of
        (K_FLOAT, A_FLOAT f) \<Rightarrow> Out i (Float f)
      | (K_SYMBOL, A_SYMBOL s) \<Rightarrow> Out i (Symbol s)
      | (K_POINTER, A_POINTER p) \<Rightarrow> Out i (Pointer p)
      | _ \<Rightarrow> Error ''unpack: type mismatch'')"

definition unpack_list :: "kind list \<Rightarrow> atom list \<Rightarrow> couts" where
  "unpack_list x argv = map (unpack_one x argv) (rev [0..<min (length argv) (length x)])"

definition unpack_anything :: "kind list \<Rightarrow> symbol \<Rightarrow> atom list \<Rightarrow> couts" where
  "unpack_anything x s av = unpack_list x (A_SYMBOL s # av)"

section \<open>trigger\<close>

datatype trout =
    TR_BANG | TR_FLOAT | TR_SYMBOL | TR_POINTER | TR_LIST | TR_ANYTHING
  | TR_STATIC_FLOAT t_float | TR_STATIC_SYMBOL symbol

text \<open>The character of an argument.\<close>

definition tr_char :: "symbol \<Rightarrow> char" where
  "tr_char s =
     (if length s = 1 then s ! 0
      else if s = ''anything'' then CHR ''a''
      else if s = ''bang'' then CHR ''b''
      else if s = ''float'' then CHR ''f''
      else if s = ''list'' then CHR ''l''
      else if s = ''pointer'' then CHR ''p''
      else if s = ''symbol'' then CHR ''s''
      else CHR ''S'')"

text \<open>An argument that is neither a float nor a symbol has no name to report.\<close>

definition tr_arg :: "(symbol \<Rightarrow> t_float) \<Rightarrow> atom \<Rightarrow> (trout \<times> couts) option" where
  "tr_arg bits a =
     (case a of
        A_FLOAT f \<Rightarrow> Some (TR_STATIC_FLOAT f, [])
      | A_SYMBOL s \<Rightarrow>
          (let c = tr_char s in
           if c = CHR ''p'' then Some (TR_POINTER, [])
           else if c = CHR ''f'' then Some (TR_FLOAT, [])
           else if c = CHR ''b'' then Some (TR_BANG, [])
           else if c = CHR ''l'' then Some (TR_LIST, [])
           else if c = CHR ''s'' then Some (TR_SYMBOL, [])
           else if c = CHR ''a'' then Some (TR_ANYTHING, [])
           else if c = CHR ''F'' then Some (TR_STATIC_FLOAT (bits s), [])
           else if c = CHR ''S'' then Some (TR_STATIC_SYMBOL s, [])
           else Some (TR_FLOAT, [Error (''trigger: '' @ s @ '': bad type'')]))
      | _ \<Rightarrow> None)"

fun tr_args :: "(symbol \<Rightarrow> t_float) \<Rightarrow> atom list \<Rightarrow> (trout list \<times> couts) option" where
  "tr_args bits [] = Some ([], [])"
| "tr_args bits (a # as) =
     Option.bind (tr_arg bits a) (\<lambda>(u, e). map_option (\<lambda>(us, es). (u # us, e @ es)) (tr_args bits as))"

definition trigger_new :: "(symbol \<Rightarrow> t_float) \<Rightarrow> atom list \<Rightarrow> (trout list \<times> couts) option" where
  "trigger_new bits argv = tr_args bits (if argv = [] then [A_SYMBOL ''bang'', A_SYMBOL ''bang''] else argv)"

definition tr_pointer :: "nat \<Rightarrow> atom list \<Rightarrow> cout" where
  "tr_pointer i argv = (case argv of A_POINTER p # _ \<Rightarrow> Out i (Pointer p) | _ \<Rightarrow> Error ''unpack: bad pointer'')"

definition trigger_send :: "symbol \<Rightarrow> atom list \<Rightarrow> nat \<Rightarrow> trout \<Rightarrow> cout" where
  "trigger_send s argv i u =
     (case u of
        TR_FLOAT \<Rightarrow> Out i (Float (if argv \<noteq> [] then atom_getfloat (argv ! 0) else FFin 0))
      | TR_BANG \<Rightarrow> Out i Bang
      | TR_SYMBOL \<Rightarrow> Out i (Symbol (if argv \<noteq> [] then atom_getsymbol (argv ! 0) else s))
      | TR_ANYTHING \<Rightarrow> Out i (Anything s argv)
      | TR_POINTER \<Rightarrow> tr_pointer i argv
      | TR_STATIC_FLOAT f \<Rightarrow> Out i (Float f)
      | TR_STATIC_SYMBOL t \<Rightarrow> Out i (Symbol t)
      | TR_LIST \<Rightarrow> Out i (List argv))"

definition trigger_list :: "trout list \<Rightarrow> symbol \<Rightarrow> atom list \<Rightarrow> couts" where
  "trigger_list x s argv = map (\<lambda>i. trigger_send s argv i (x ! i)) (rev [0..<length x])"

definition trigger_send_anything :: "symbol \<Rightarrow> atom list \<Rightarrow> nat \<Rightarrow> trout \<Rightarrow> cout" where
  "trigger_send_anything s argv i u =
     (case u of
        TR_BANG \<Rightarrow> Out i Bang
      | TR_ANYTHING \<Rightarrow> Out i (Anything s argv)
      | TR_STATIC_FLOAT f \<Rightarrow> Out i (Float f)
      | TR_STATIC_SYMBOL t \<Rightarrow> Out i (Symbol t)
      | TR_FLOAT \<Rightarrow> Out i (Float (if argv \<noteq> [] then atom_getfloat (argv ! 0) else FFin 0))
      | TR_SYMBOL \<Rightarrow> Out i (Symbol s)
      | TR_POINTER \<Rightarrow> tr_pointer i argv
      | TR_LIST \<Rightarrow> Out i (List (A_SYMBOL s # argv)))"

definition trigger_anything :: "trout list \<Rightarrow> symbol \<Rightarrow> atom list \<Rightarrow> couts" where
  "trigger_anything x s argv = map (\<lambda>i. trigger_send_anything s argv i (x ! i)) (rev [0..<length x])"

definition trigger_bang :: "trout list \<Rightarrow> couts" where
  "trigger_bang x = trigger_list x ''bang'' []"

definition trigger_pointer :: "trout list \<Rightarrow> nat \<Rightarrow> couts" where
  "trigger_pointer x gp = trigger_list x ''list'' [A_POINTER gp]"

definition trigger_float :: "trout list \<Rightarrow> t_float \<Rightarrow> couts" where
  "trigger_float x f = trigger_list x ''float'' [A_FLOAT f]"

definition trigger_symbol :: "trout list \<Rightarrow> symbol \<Rightarrow> couts" where
  "trigger_symbol x s = trigger_list x ''symbol'' [A_SYMBOL s]"

section \<open>spigot, moses, swap, change\<close>

definition spigot_msg :: "t_float \<Rightarrow> msg \<Rightarrow> couts" where
  "spigot_msg x_state m = (if \<not> feq x_state (FFin 0) then [Out 0 m] else [])"

definition moses_float :: "t_float \<Rightarrow> t_float \<Rightarrow> couts" where
  "moses_float x_y f = (if flt f x_y then [Out 0 (Float f)] else [Out 1 (Float f)])"

text \<open>The right inlet of swap may be set between its two outputs.\<close>

record swap =
  x_f1 :: t_float
  x_f2 :: t_float

type_synonym 'e swap_out = "nat \<Rightarrow> t_float \<Rightarrow> 'e \<times> swap \<Rightarrow> 'e \<times> swap"

definition swap_new :: "t_float \<Rightarrow> swap" where
  "swap_new f = \<lparr>x_f1 = FFin 0, x_f2 = f\<rparr>"

definition swap_bang :: "'e swap_out \<Rightarrow> 'e \<times> swap \<Rightarrow> 'e \<times> swap" where
  "swap_bang out w = (let w1 = out 1 (x_f1 (snd w)) w in out 0 (x_f2 (snd w1)) w1)"

definition swap_float :: "'e swap_out \<Rightarrow> t_float \<Rightarrow> 'e \<times> swap \<Rightarrow> 'e \<times> swap" where
  "swap_float out f w = swap_bang out (fst w, (snd w)\<lparr>x_f1 := f\<rparr>)"

definition change_bang :: "t_float \<Rightarrow> couts" where
  "change_bang x_f = [Out 0 (Float x_f)]"

definition change_float :: "t_float \<Rightarrow> t_float \<Rightarrow> t_float \<times> couts" where
  "change_float f x_f = (if \<not> feq f x_f then (f, [Out 0 (Float f)]) else (x_f, []))"

definition change_set :: "t_float \<Rightarrow> t_float" where
  "change_set f = f"

section \<open>until\<close>

text \<open>The counter is an \<open>int\<close>: its decrement below the least value is undefined.\<close>

record until =
  u_run :: bool
  u_count :: int

type_synonym 'e until_out = "'e \<times> until \<Rightarrow> ('e \<times> until) option"

partial_function (option) until_loop :: "'e until_out \<Rightarrow> 'e \<times> until \<Rightarrow> ('e \<times> until) option" where
  "until_loop out w =
     (let x = snd w in
      if u_run x \<and> u_count x \<noteq> 0 then
        (if u_count x = - (2 ^ 31) then None
         else Option.bind (out (fst w, x\<lparr>u_count := u_count x - 1\<rparr>)) (until_loop out))
      else Some w)"

definition until_bang :: "'e until_out \<Rightarrow> 'e \<times> until \<Rightarrow> ('e \<times> until) option" where
  "until_bang out w = until_loop out (fst w, \<lparr>u_run = True, u_count = -1\<rparr>)"

definition until_float :: "'e until_out \<Rightarrow> t_float \<Rightarrow> 'e \<times> until \<Rightarrow> ('e \<times> until) option" where
  "until_float out f w =
     (let f = (if flt f (FFin 0) then FFin 0 else f) in until_loop out (fst w, \<lparr>u_run = True, u_count = int_of_float f\<rparr>))"

definition until_bang2 :: "'e \<times> until \<Rightarrow> 'e \<times> until" where
  "until_bang2 w = (fst w, (snd w)\<lparr>u_run := False\<rparr>)"

section \<open>value\<close>

text \<open>
  The variables are cells of a heap; \<open>v_bound s\<close> is the one that \<open>pd_findbyclass\<close> finds for the symbol. A value object keeps the address
  of its cell, \<open>None\<close> is the use of one that has been freed; \<open>c\<close> is where a new one is put.
\<close>

record vcommon =
  c_refcount :: int
  c_f :: t_float

record vstore =
  v_bound :: "symbol \<Rightarrow> nat option"
  v_cells :: "nat \<Rightarrow> vcommon option"

record valobj =
  x_sym :: symbol
  x_floatstar :: nat

definition value_get :: "nat \<Rightarrow> symbol \<Rightarrow> vstore \<Rightarrow> (nat \<times> vstore) option" where
  "value_get c s V =
     (let (a, V1) = (case v_bound V s of
        Some a \<Rightarrow> (a, V)
      | None \<Rightarrow> (c, V\<lparr>v_bound := (v_bound V)(s \<mapsto> c), v_cells := (v_cells V)(c \<mapsto> \<lparr>c_refcount = 0, c_f = FFin 0\<rparr>)\<rparr>)) in
      case v_cells V1 a of
        None \<Rightarrow> None
      | Some v \<Rightarrow> Some (a, V1\<lparr>v_cells := (v_cells V1)(a \<mapsto> v\<lparr>c_refcount := c_refcount v + 1\<rparr>)\<rparr>))"

definition value_release :: "symbol \<Rightarrow> vstore \<Rightarrow> (vstore \<times> couts) option" where
  "value_release s V =
     (case v_bound V s of
        None \<Rightarrow> Some (V, [Error ''value_release''])
      | Some a \<Rightarrow>
          (case v_cells V a of
             None \<Rightarrow> None
           | Some v \<Rightarrow>
               Some (if c_refcount v - 1 = 0 then V\<lparr>v_bound := (v_bound V)(s := None), v_cells := (v_cells V)(a := None)\<rparr>
                     else V\<lparr>v_cells := (v_cells V)(a \<mapsto> v\<lparr>c_refcount := c_refcount v - 1\<rparr>)\<rparr>, [])))"

definition value_getfloat :: "symbol \<Rightarrow> vstore \<Rightarrow> t_float option option" where
  "value_getfloat s V =
     (case v_bound V s of None \<Rightarrow> Some None | Some a \<Rightarrow> map_option (\<lambda>v. Some (c_f v)) (v_cells V a))"

text \<open>\<open>*x->x_floatstar = f\<close>\<close>

definition write_cell :: "nat \<Rightarrow> t_float \<Rightarrow> vstore \<Rightarrow> vstore option" where
  "write_cell a f V = map_option (\<lambda>v. V\<lparr>v_cells := (v_cells V)(a \<mapsto> v\<lparr>c_f := f\<rparr>)\<rparr>) (v_cells V a)"

definition value_setfloat :: "symbol \<Rightarrow> t_float \<Rightarrow> vstore \<Rightarrow> (vstore \<times> bool) option" where
  "value_setfloat s f V =
     (case v_bound V s of None \<Rightarrow> Some (V, False) | Some a \<Rightarrow> map_option (\<lambda>V. (V, True)) (write_cell a f V))"

definition value_new :: "nat \<Rightarrow> symbol \<Rightarrow> vstore \<Rightarrow> (valobj \<times> vstore) option" where
  "value_new c s V = map_option (\<lambda>(a, V1). (\<lparr>x_sym = s, x_floatstar = a\<rparr>, V1)) (value_get c s V)"

definition value_bang :: "valobj \<Rightarrow> vstore \<Rightarrow> couts option" where
  "value_bang x V = map_option (\<lambda>v. [Out 0 (Float (c_f v))]) (v_cells V (x_floatstar x))"

definition value_float :: "valobj \<Rightarrow> t_float \<Rightarrow> vstore \<Rightarrow> vstore option" where
  "value_float x f V = write_cell (x_floatstar x) f V"

definition value_symbol2 :: "nat \<Rightarrow> symbol \<Rightarrow> valobj \<Rightarrow> vstore \<Rightarrow> (valobj \<times> vstore \<times> couts) option" where
  "value_symbol2 c s x V =
     Option.bind (value_release (x_sym x) V) (\<lambda>(V1, e).
     map_option (\<lambda>(a, V2). (\<lparr>x_sym = s, x_floatstar = a\<rparr>, V2, e)) (value_get c s V1))"

definition value_send :: "(symbol \<Rightarrow> bool) \<Rightarrow> symbol \<Rightarrow> valobj \<Rightarrow> vstore \<Rightarrow> couts option" where
  "value_send s_thing s x V =
     (if s_thing s then map_option (\<lambda>v. [Sent s (Float (c_f v))]) (v_cells V (x_floatstar x))
      else Some [Error (s @ '': no such object'')])"

definition value_ff :: "valobj \<Rightarrow> vstore \<Rightarrow> (vstore \<times> couts) option" where
  "value_ff x V = value_release (x_sym x) V"

end
