(* ===== verification/ConnectSpec.thy ===== *)
theory ConnectSpec
  imports Connect
begin

text \<open>
  What the connective objects promise: a list taken apart by unpack is put together by pack, route and select choose the first outlet
  that matches (and where they do not), until counts, the variables named by value objects are shared and freed with their last user.
\<close>

section \<open>pack and unpack\<close>

fun fits_kind :: "kind \<Rightarrow> atom \<Rightarrow> bool" where
  "fits_kind K_FLOAT (A_FLOAT f) = True"
| "fits_kind K_SYMBOL (A_SYMBOL s) = True"
| "fits_kind _ _ = False"

definition slot_kind :: "atom \<Rightarrow> kind" where
  "slot_kind a = (case a of A_FLOAT _ \<Rightarrow> K_FLOAT | A_SYMBOL _ \<Rightarrow> K_SYMBOL | _ \<Rightarrow> K_POINTER)"

definition pack_log :: "atom list list pack_out" where
  "pack_log l w = Some (fst w @ [l], snd w)"

fun arg_atom :: "atom \<Rightarrow> bool" where
  "arg_atom (A_FLOAT f) = True"
| "arg_atom (A_SYMBOL s) \<longleftrightarrow> cnth s 0 \<noteq> CHR ''p''"
| "arg_atom _ = False"

lemma slots_kind:
  "list_all arg_atom as \<Longrightarrow> map slot_kind (pipe_slots gp as) = map unpack_kind as \<and> filter (starts (CHR ''p'')) as = []"
proof (induction as)
  case (Cons a as)
  then show ?case by (cases a) (auto simp: pipe_slot_def slot_kind_def unpack_kind_def starts_def)
qed simp

lemma pack_inlets_store:
  "list_all2 fits_kind (map slot_kind (drop i (pk_vec x))) as \<Longrightarrow> i \<le> length (pk_vec x) \<Longrightarrow>
    pack_inlets i as (x, M) = Some (x\<lparr>pk_vec := take i (pk_vec x) @ as\<rparr>, M)"
proof (induction as arbitrary: i x)
  case (Cons a as)
  then have i: "i < length (pk_vec x)" by (cases "i < length (pk_vec x)") auto
  then have d: "drop i (pk_vec x) = pk_vec x ! i # drop (Suc i) (pk_vec x)" by (simp add: Cons_nth_drop_Suc)
  define x1 where "x1 = x\<lparr>pk_vec := (pk_vec x)[i := a]\<rparr>"
  have f: "fits_kind (slot_kind (pk_vec x ! i)) a" "list_all2 fits_kind (map slot_kind (drop (Suc i) (pk_vec x))) as"
    using Cons.prems(1) by (simp_all add: d)
  have "pack_inlet i a (x, M) = Some (x1, M)"
    using f(1) by (cases "pk_vec x ! i"; cases a) (simp_all add: slot_kind_def pack_inlet_def x1_def)
  moreover have "pack_inlets (Suc i) as (x1, M) = Some (x1\<lparr>pk_vec := take (Suc i) (pk_vec x1) @ as\<rparr>, M)"
    using Cons.IH [of "Suc i" x1] f(2) i by (simp add: x1_def)
  moreover have "take (Suc i) (pk_vec x1) = take i (pk_vec x) @ [a]" using i by (simp add: x1_def take_Suc_conv_app_nth)
  ultimately show ?case using i by (simp add: x1_def)
qed (auto dest: list_all2_lengthD)

text \<open>
  C32: pack and unpack are inverse: a list whose elements have the types of the arguments comes out of pack as it went in, once, and
  unpack with the same arguments sends each element out of its outlet, from right to left.
\<close>

theorem pack_unpack:
  assumes "list_all arg_atom args" "list_all2 fits_kind (fst (unpack_new args)) av" "pack_new gp args M = (x, M1)"
  shows "pack_list pack_log av ([], x, M1) = Some ([av], x\<lparr>pk_vec := av\<rparr>, M1) \<and>
    unpack_list (fst (unpack_new args)) av = map (\<lambda>i. Out i (atom_msg (av ! i))) (rev [0..<length av])"
proof -
  define as where "as = two_zeros args"
  have as: "list_all arg_atom as" "as \<noteq> []" using assms(1) by (auto simp: as_def two_zeros_def)
  note k = slots_kind [OF as(1), of gp]
  have x: "pk_vec x = pipe_slots gp as" "pk_nptr x = 0" "pk_outvec x" "M1 = M"
    using assms(3) k by (auto simp: pack_new_def Let_def as_def)
  have f: "list_all2 fits_kind (map slot_kind (pk_vec x)) av" using assms(2) k by (simp add: x(1) unpack_new_def as_def)
  have "pipe_slots gp as \<noteq> []" using as(2) by (cases as) auto
  then obtain v vs where v: "pk_vec x = v # vs" unfolding x(1) [symmetric] by (cases "pk_vec x") auto
  with f obtain a bs where a: "av = a # bs" "fits_kind (slot_kind v) a" "list_all2 fits_kind (map slot_kind vs) bs"
    by (auto simp: list_all2_Cons1)
  have "pack_inlets 1 bs (x, M1) = Some (x\<lparr>pk_vec := v # bs\<rparr>, M1)"
    using pack_inlets_store [of 1 x bs M1] a(3) v by simp
  then have "pack_list pack_log av ([], x, M1) = pack_first pack_log a ([], x\<lparr>pk_vec := v # bs\<rparr>, M1)" by (simp add: pack_list_def a(1))
  also have "\<dots> = Some ([av], x\<lparr>pk_vec := av\<rparr>, M1)"
    using a(2) x(2,3) by (cases v; cases a)
      (simp_all add: slot_kind_def pack_first_def pack_float_def pack_symbol_def pack_bang_def pack_log_def a(1))
  finally have "pack_list pack_log av ([], x, M1) = Some ([av], x\<lparr>pk_vec := av\<rparr>, M1)" .
  moreover have "unpack_one (fst (unpack_new args)) av i = Out i (atom_msg (av ! i))" if "i < length av" for i
  proof -
    have "fits_kind (fst (unpack_new args) ! i) (av ! i)" using assms(2) that by (simp add: list_all2_conv_all_nth)
    then show ?thesis by (cases "fst (unpack_new args) ! i"; cases "av ! i") (simp_all add: unpack_one_def atom_msg_def)
  qed
  moreover have "length (fst (unpack_new args)) = length av" using assms(2) by (rule list_all2_lengthD)
  ultimately show ?thesis by (simp add: unpack_list_def)
qed

theorem pack_unpack_witness:
  "\<forall>M. let x = fst (pack_new 0 [A_FLOAT (FFin 0), A_SYMBOL ''s''] M) in
     pack_list pack_log [A_FLOAT (FFin 60), A_SYMBOL ''on''] ([], x, M) =
       Some ([[A_FLOAT (FFin 60), A_SYMBOL ''on'']], x\<lparr>pk_vec := [A_FLOAT (FFin 60), A_SYMBOL ''on'']\<rparr>, M) \<and>
     unpack_list (fst (unpack_new [A_FLOAT (FFin 0), A_SYMBOL ''s''])) [A_FLOAT (FFin 60), A_SYMBOL ''on''] =
       [Out 1 (Symbol ''on''), Out 0 (Float (FFin 60))]"
proof
  fix M
  have 1: "list_all arg_atom [A_FLOAT (FFin 0), A_SYMBOL ''s'']" by (simp add: cnth_def)
  have 2: "list_all2 fits_kind (fst (unpack_new [A_FLOAT (FFin 0), A_SYMBOL ''s''])) [A_FLOAT (FFin 60), A_SYMBOL ''on'']"
    by (simp add: unpack_new_def two_zeros_def unpack_kind_def cnth_def)
  have 3: "pack_new 0 [A_FLOAT (FFin 0), A_SYMBOL ''s''] M = (fst (pack_new 0 [A_FLOAT (FFin 0), A_SYMBOL ''s''] M), M)"
    by (simp add: pack_new_def two_zeros_def starts_def cnth_def Let_def)
  from pack_unpack [OF 1 2 3]
  show "let x = fst (pack_new 0 [A_FLOAT (FFin 0), A_SYMBOL ''s''] M) in
     pack_list pack_log [A_FLOAT (FFin 60), A_SYMBOL ''on''] ([], x, M) =
       Some ([[A_FLOAT (FFin 60), A_SYMBOL ''on'']], x\<lparr>pk_vec := [A_FLOAT (FFin 60), A_SYMBOL ''on'']\<rparr>, M) \<and>
     unpack_list (fst (unpack_new [A_FLOAT (FFin 0), A_SYMBOL ''s''])) [A_FLOAT (FFin 60), A_SYMBOL ''on''] =
       [Out 1 (Symbol ''on''), Out 0 (Float (FFin 60))]" by (simp add: atom_msg_def Let_def)
qed

section \<open>until\<close>

text \<open>The number of bangs; the \<open>k\<close>-th one brings back a bang to the right inlet.\<close>

definition until_count :: "nat \<Rightarrow> nat until_out" where
  "until_count k w = Some (if fst w + 1 = k then until_bang2 (fst w + 1, snd w) else (fst w + 1, snd w))"

lemma until_done: "\<not> (u_run x \<and> u_count x \<noteq> 0) \<Longrightarrow> until_loop out (e, x) = Some (e, x)"
  by (subst until_loop.simps) auto

lemma until_step:
  "u_run x \<Longrightarrow> u_count x \<noteq> 0 \<Longrightarrow> u_count x \<noteq> - (2 ^ 31) \<Longrightarrow>
    until_loop out (e, x) = Option.bind (out (e, x\<lparr>u_count := u_count x - 1\<rparr>)) (until_loop out)"
  by (subst until_loop.simps) simp

lemma until_bang_step:
  assumes "c \<noteq> 0" "c \<noteq> - (2 ^ 31)"
  shows "until_loop (until_count k) (e, \<lparr>u_run = True, u_count = c\<rparr>) =
    (if e + 1 = k then Some (e + 1, \<lparr>u_run = False, u_count = c - 1\<rparr>) else until_loop (until_count k) (e + 1, \<lparr>u_run = True, u_count = c - 1\<rparr>))"
  using assms by (subst until_step) (simp_all add: until_count_def until_bang2_def until_done)

lemma until_counts:
  "k = 0 \<or> e + n < k \<Longrightarrow> until_loop (until_count k) (e, \<lparr>u_run = True, u_count = int n\<rparr>) = Some (e + n, \<lparr>u_run = True, u_count = 0\<rparr>)"
proof (induction n arbitrary: e)
  case (Suc n)
  then show ?case using until_bang_step [of "int (Suc n)" k e] Suc.IH [of "e + 1"] by auto
qed (simp add: until_done)

lemma until_stopped:
  "c < 0 \<Longrightarrow> - (2 ^ 31) \<le> c - int (m + 1) \<Longrightarrow>
    until_loop (until_count (e + m + 1)) (e, \<lparr>u_run = True, u_count = c\<rparr>) = Some (e + m + 1, \<lparr>u_run = False, u_count = c - int (m + 1)\<rparr>)"
proof (induction m arbitrary: e c)
  case (Suc m)
  then show ?case using until_bang_step [of c "e + Suc m + 1" e] Suc.IH [of "c - 1" "e + 1"] by simp
qed (use until_bang_step in simp)

lemma until_overflows:
  "int n < 2 ^ 31 \<Longrightarrow> k = 0 \<or> e + n < k \<Longrightarrow> until_loop (until_count k) (e, \<lparr>u_run = True, u_count = int n - 2 ^ 31\<rparr>) = None"
proof (induction n arbitrary: e)
  case 0
  show ?case by (subst until_loop.simps) simp
next
  case (Suc n)
  then show ?case using until_bang_step [of "int (Suc n) - 2 ^ 31" k e] Suc.IH [of "e + 1"] by auto
qed

text \<open>
  C36: until sends as many bangs as the float it gets says; after a bang it goes on until it is stopped, but its counter runs down from
  -1 meanwhile: stopped by the \<open>k\<close>-th bang it has sent \<open>k\<close>, and if that does not come within \<open>2 ^ 31 - 1\<close> bangs the counter overflows.
\<close>

theorem until_bangs:
  "until_bang (until_count k) (0, x) =
     (if 1 \<le> k \<and> k < 2 ^ 31 then Some (k, \<lparr>u_run = False, u_count = -1 - int k\<rparr>) else None) \<and>
   until_float (until_count 0) (FFin (of_nat (n mod 2 ^ 31))) (0, x) = Some (n mod 2 ^ 31, \<lparr>u_run = True, u_count = 0\<rparr>)"
proof -
  have "int_of_float (FFin (of_nat m)) = int m" if "m < 2 ^ 31" for m using int_of_float_int [of "int m"] that by simp
  then have f: "int_of_float (FFin (of_nat (n mod 2 ^ 31))) = int (n mod 2 ^ 31)" by (simp del: of_nat_mod)
  have "\<not> flt (FFin (of_nat (n mod 2 ^ 31))) (FFin 0)" by (simp add: flt_def fval_def)
  then have "until_float (until_count 0) (FFin (of_nat (n mod 2 ^ 31))) (0, x) = Some (n mod 2 ^ 31, \<lparr>u_run = True, u_count = 0\<rparr>)"
    using until_counts [of 0 0 "n mod 2 ^ 31"] by (simp only: until_float_def Let_def f if_False fst_conv) simp
  moreover have "until_bang (until_count k) (0, x) = Some (k, \<lparr>u_run = False, u_count = -1 - int k\<rparr>)" if "1 \<le> k" "k < 2 ^ 31"
    using until_stopped [of "-1" "k - 1" 0] that by (simp add: until_bang_def of_nat_diff)
  moreover have "until_bang (until_count k) (0, x) = None" if "\<not> (1 \<le> k \<and> k < 2 ^ 31)"
  proof -
    have "k = 0 \<or> 0 + (2 ^ 31 - 1) < k" using that by auto
    from until_overflows [OF _ this] show ?thesis by (simp add: until_bang_def)
  qed
  ultimately show ?thesis by simp
qed

section \<open>value\<close>

text \<open>What the users of variables do: objects are made, banged, set, renamed and freed; a float is sent to a name.\<close>

datatype val_op =
    V_new nat nat symbol
  | V_bang nat
  | V_float nat t_float
  | V_rename nat nat symbol
  | V_free nat
  | V_set symbol t_float

type_synonym val_world = "(nat \<times> valobj) list \<times> vstore"

definition drop_obj :: "nat \<Rightarrow> (nat \<times> 'a) list \<Rightarrow> (nat \<times> 'a) list" where
  "drop_obj i os = filter (\<lambda>p. fst p \<noteq> i) os"

fun val_do :: "val_op \<Rightarrow> val_world \<Rightarrow> (val_world \<times> couts) option" where
  "val_do (V_new i c s) (os, V) = map_option (\<lambda>(x, V1). (((i, x) # os, V1), [])) (value_new c s V)"
| "val_do (V_bang i) (os, V) = Option.bind (map_of os i) (\<lambda>x. map_option (\<lambda>l. ((os, V), l)) (value_bang x V))"
| "val_do (V_float i f) (os, V) = Option.bind (map_of os i) (\<lambda>x. map_option (\<lambda>V1. ((os, V1), [])) (value_float x f V))"
| "val_do (V_rename i c s) (os, V) =
     Option.bind (map_of os i) (\<lambda>x. map_option (\<lambda>(x1, V1, e). (((i, x1) # drop_obj i os, V1), e)) (value_symbol2 c s x V))"
| "val_do (V_free i) (os, V) = Option.bind (map_of os i) (\<lambda>x. map_option (\<lambda>(V1, e). ((drop_obj i os, V1), e)) (value_ff x V))"
| "val_do (V_set s f) (os, V) = map_option (\<lambda>(V1, ok). ((os, V1), [])) (value_setfloat s f V)"

text \<open>An object is new, or exists; a new cell is put where there is none.\<close>

fun val_legal :: "val_op \<Rightarrow> val_world \<Rightarrow> bool" where
  "val_legal (V_new i c s) (os, V) \<longleftrightarrow> map_of os i = None \<and> v_cells V c = None"
| "val_legal (V_rename i c s) (os, V) \<longleftrightarrow>
     (case map_of os i of
        None \<Rightarrow> False
      | Some x \<Rightarrow> (case value_release (x_sym x) V of None \<Rightarrow> True | Some (V1, e) \<Rightarrow> v_cells V1 c = None))"
| "val_legal (V_set s f) (os, V) \<longleftrightarrow> True"
| "val_legal (V_bang i) (os, V) \<longleftrightarrow> map_of os i \<noteq> None"
| "val_legal (V_float i f) (os, V) \<longleftrightarrow> map_of os i \<noteq> None"
| "val_legal (V_free i) (os, V) \<longleftrightarrow> map_of os i \<noteq> None"

text \<open>The specification: who uses which name, and the values of the names in use.\<close>

type_synonym names = "(nat \<times> symbol) list \<times> (symbol \<Rightarrow> t_float)"

definition use_name :: "symbol \<Rightarrow> (nat \<times> symbol) list \<Rightarrow> (symbol \<Rightarrow> t_float) \<Rightarrow> symbol \<Rightarrow> t_float" where
  "use_name s hs vals = (if s \<in> snd ` set hs then vals else vals(s := FFin 0))"

fun name_do :: "val_op \<Rightarrow> names \<Rightarrow> names \<times> couts" where
  "name_do (V_new i c s) (hs, vals) = (((i, s) # hs, use_name s hs vals), [])"
| "name_do (V_bang i) (hs, vals) = ((hs, vals), [Out 0 (Float (vals (the (map_of hs i))))])"
| "name_do (V_float i f) (hs, vals) = ((hs, vals(the (map_of hs i) := f)), [])"
| "name_do (V_rename i c s) (hs, vals) = (((i, s) # drop_obj i hs, use_name s (drop_obj i hs) vals), [])"
| "name_do (V_free i) (hs, vals) = ((drop_obj i hs, vals), [])"
| "name_do (V_set s f) (hs, vals) = ((hs, if s \<in> snd ` set hs then vals(s := f) else vals), [])"

text \<open>The cells, for \<open>n s\<close> users of the name \<open>s\<close>.\<close>

definition cells_ok :: "vstore \<Rightarrow> (symbol \<Rightarrow> t_float) \<Rightarrow> (symbol \<Rightarrow> nat) \<Rightarrow> bool" where
  "cells_ok V vals n \<longleftrightarrow>
     (\<forall>s. case v_bound V s of
        None \<Rightarrow> n s = 0
      | Some a \<Rightarrow> 0 < n s \<and> v_cells V a = Some \<lparr>c_refcount = int (n s), c_f = vals s\<rparr>) \<and>
     (\<forall>s t a. v_bound V s = Some a \<and> v_bound V t = Some a \<longrightarrow> s = t) \<and>
     (\<forall>a. v_cells V a \<noteq> None \<longrightarrow> (\<exists>s. v_bound V s = Some a))"

lemma cells_okD:
  assumes "cells_ok V vals n"
  shows "v_bound V s = None \<longleftrightarrow> n s = 0"
    "v_bound V s = Some a \<Longrightarrow> v_cells V a = Some \<lparr>c_refcount = int (n s), c_f = vals s\<rparr>"
    "v_bound V s = Some a \<Longrightarrow> v_bound V t = Some a \<Longrightarrow> s = t"
    "v_cells V a = None \<Longrightarrow> v_bound V s \<noteq> Some a"
proof -
  have 1: "case v_bound V s of None \<Rightarrow> n s = 0 | Some a \<Rightarrow> 0 < n s \<and> v_cells V a = Some \<lparr>c_refcount = int (n s), c_f = vals s\<rparr>" for s
    using assms by (simp add: cells_ok_def)
  show "v_bound V s = None \<longleftrightarrow> n s = 0" using 1 [of s] by (auto split: option.splits)
  show "v_bound V s = Some a \<Longrightarrow> v_cells V a = Some \<lparr>c_refcount = int (n s), c_f = vals s\<rparr>" using 1 [of s] by simp
  show "v_cells V a = None \<Longrightarrow> v_bound V s \<noteq> Some a" using 1 [of s] by auto
  show "v_bound V s = Some a \<Longrightarrow> v_bound V t = Some a \<Longrightarrow> s = t" using assms unfolding cells_ok_def by blast
qed

lemma cells_other: "cells_ok V vals n \<Longrightarrow> v_bound V s = Some a \<Longrightarrow> v_bound V t = Some b \<Longrightarrow> t \<noteq> s \<Longrightarrow> b \<noteq> a"
  using cells_okD(3) by blast

lemma cells_okI:
  assumes "\<And>s. v_bound V s = None \<longleftrightarrow> n s = 0" "\<And>s a. v_bound V s = Some a \<Longrightarrow> v_cells V a = Some \<lparr>c_refcount = int (n s), c_f = vals s\<rparr>"
    "\<And>s t a. v_bound V s = Some a \<Longrightarrow> v_bound V t = Some a \<Longrightarrow> s = t" "\<And>a. v_cells V a \<noteq> None \<Longrightarrow> \<exists>s. v_bound V s = Some a"
  shows "cells_ok V vals n"
proof -
  have "case v_bound V s of None \<Rightarrow> n s = 0 | Some a \<Rightarrow> 0 < n s \<and> v_cells V a = Some \<lparr>c_refcount = int (n s), c_f = vals s\<rparr>" for s
    using assms(1,2) [of s] by (auto split: option.split)
  then show ?thesis using assms(3,4) by (auto simp: cells_ok_def)
qed

lemma cell_get_ok:
  assumes ok: "cells_ok V vals n" and c: "v_cells V c = None"
  shows "\<exists>a V1. value_get c s V = Some (a, V1) \<and> cells_ok V1 (if n s = 0 then vals(s := FFin 0) else vals) (n(s := n s + 1)) \<and>
    v_bound V1 = (v_bound V)(s \<mapsto> a) \<and> (v_bound V s = None \<or> v_bound V s = Some a)"
proof (cases "v_bound V s")
  case None
  have fresh: "v_bound V t \<noteq> Some c" for t using cells_okD(4) [OF ok c] .
  define V1 where "V1 = V\<lparr>v_bound := (v_bound V)(s \<mapsto> c), v_cells := (v_cells V)(c \<mapsto> \<lparr>c_refcount = 1, c_f = FFin 0\<rparr>)\<rparr>"
  have n: "n s = 0" using cells_okD(1) [OF ok] None by simp
  have "value_get c s V = Some (c, V1)" by (simp add: value_get_def None V1_def)
  moreover have "cells_ok V1 (vals(s := FFin 0)) (n(s := n s + 1))"
  proof (rule cells_okI)
    show "v_bound V1 t = None \<longleftrightarrow> (n(s := n s + 1)) t = 0" for t using cells_okD(1) [OF ok] by (simp add: V1_def)
    show "v_cells V1 a = Some \<lparr>c_refcount = int ((n(s := n s + 1)) t), c_f = (vals(s := FFin 0)) t\<rparr>" if "v_bound V1 t = Some a" for t a
      using that cells_okD(2) [OF ok, of t a] fresh [of t] n by (auto simp: V1_def split: if_splits)
    show "t = u" if "v_bound V1 t = Some a" "v_bound V1 u = Some a" for t u a
      using that cells_okD(3) [OF ok, of t a u] fresh [of t] fresh [of u] by (auto simp: V1_def split: if_splits)
    show "\<exists>t. v_bound V1 t = Some a" if "v_cells V1 a \<noteq> None" for a
    proof (cases "a = c")
      case False
      with that ok obtain t where "v_bound V t = Some a" by (auto simp: V1_def cells_ok_def)
      with None show ?thesis by (auto simp: V1_def intro!: exI [of _ t])
    qed (auto simp: V1_def)
  qed
  ultimately show ?thesis using None n by (simp add: V1_def)
next
  case (Some a)
  note v = cells_okD(2) [OF ok Some]
  define V1 where "V1 = V\<lparr>v_cells := (v_cells V)(a \<mapsto> \<lparr>c_refcount = int (n s) + 1, c_f = vals s\<rparr>)\<rparr>"
  have n: "n s \<noteq> 0" using cells_okD(1) [OF ok, of s] Some by simp
  have "value_get c s V = Some (a, V1)" by (simp add: value_get_def Some v V1_def)
  moreover have "cells_ok V1 vals (n(s := n s + 1))"
  proof (rule cells_okI)
    show "v_bound V1 t = None \<longleftrightarrow> (n(s := n s + 1)) t = 0" for t using cells_okD(1) [OF ok, of t] Some by (auto simp: V1_def)
    show "v_cells V1 b = Some \<lparr>c_refcount = int ((n(s := n s + 1)) t), c_f = vals t\<rparr>" if "v_bound V1 t = Some b" for t b
    proof (cases "t = s")
      case False
      have t: "v_bound V t = Some b" using that by (simp add: V1_def)
      show ?thesis using cells_okD(2) [OF ok t] cells_other [OF ok Some t False] False by (simp add: V1_def)
    qed (use that Some in \<open>simp add: V1_def\<close>)
    show "t = u" if "v_bound V1 t = Some b" "v_bound V1 u = Some b" for t u b
      using that cells_okD(3) [OF ok, of t b u] by (simp add: V1_def)
    show "\<exists>t. v_bound V1 t = Some b" if "v_cells V1 b \<noteq> None" for b
      using that ok Some by (auto simp: V1_def cells_ok_def split: if_splits)
  qed
  ultimately show ?thesis using Some n by (auto simp: V1_def)
qed

lemma cell_release_ok:
  assumes ok: "cells_ok V vals n" and n: "n s \<noteq> 0"
  shows "\<exists>V1. value_release s V = Some (V1, []) \<and> cells_ok V1 vals (n(s := n s - 1)) \<and>
    v_bound V1 = (if n s = 1 then (v_bound V)(s := None) else v_bound V)"
proof -
  obtain a where a: "v_bound V s = Some a" using cells_okD(1) [OF ok, of s] n by auto
  note v = cells_okD(2) [OF ok a]
  show ?thesis
  proof (cases "n s = 1")
    case True
    define V1 where "V1 = V\<lparr>v_bound := (v_bound V)(s := None), v_cells := (v_cells V)(a := None)\<rparr>"
    have "value_release s V = Some (V1, [])" using a v True by (simp add: value_release_def V1_def)
    moreover have "cells_ok V1 vals (n(s := n s - 1))"
    proof (rule cells_okI)
      show "v_bound V1 t = None \<longleftrightarrow> (n(s := n s - 1)) t = 0" for t using cells_okD(1) [OF ok, of t] True by (simp add: V1_def)
      show "v_cells V1 b = Some \<lparr>c_refcount = int ((n(s := n s - 1)) t), c_f = vals t\<rparr>" if "v_bound V1 t = Some b" for t b
      proof -
        have t: "v_bound V t = Some b" "t \<noteq> s" using that by (auto simp: V1_def split: if_splits)
        show ?thesis using cells_okD(2) [OF ok t(1)] cells_other [OF ok a t] t(2) by (simp add: V1_def)
      qed
      show "t = u" if "v_bound V1 t = Some b" "v_bound V1 u = Some b" for t u b
        using that cells_okD(3) [OF ok, of t b u] by (simp add: V1_def split: if_splits)
      show "\<exists>t. v_bound V1 t = Some b" if b: "v_cells V1 b \<noteq> None" for b
      proof -
        from b ok obtain t where t: "v_bound V t = Some b" by (auto simp: V1_def cells_ok_def split: if_splits)
        with b a have "t \<noteq> s" by (auto simp: V1_def)
        with t show ?thesis by (auto simp: V1_def intro!: exI [of _ t])
      qed
    qed
    ultimately show ?thesis using True by (simp add: V1_def)
  next
    case False
    define V1 where "V1 = V\<lparr>v_cells := (v_cells V)(a \<mapsto> \<lparr>c_refcount = int (n s) - 1, c_f = vals s\<rparr>)\<rparr>"
    have "value_release s V = Some (V1, [])" using a v False n by (simp add: value_release_def V1_def)
    moreover have "cells_ok V1 vals (n(s := n s - 1))"
    proof (rule cells_okI)
      show "v_bound V1 t = None \<longleftrightarrow> (n(s := n s - 1)) t = 0" for t using cells_okD(1) [OF ok, of t] a n False by (auto simp: V1_def)
      show "v_cells V1 b = Some \<lparr>c_refcount = int ((n(s := n s - 1)) t), c_f = vals t\<rparr>" if "v_bound V1 t = Some b" for t b
      proof (cases "t = s")
        case other: False
        have t: "v_bound V t = Some b" using that by (simp add: V1_def)
        show ?thesis using cells_okD(2) [OF ok t] cells_other [OF ok a t other] other by (simp add: V1_def)
      qed (use that a n in \<open>simp add: V1_def of_nat_diff\<close>)
      show "t = u" if "v_bound V1 t = Some b" "v_bound V1 u = Some b" for t u b
        using that cells_okD(3) [OF ok, of t b u] by (simp add: V1_def)
      show "\<exists>t. v_bound V1 t = Some b" if "v_cells V1 b \<noteq> None" for b
        using that ok a by (auto simp: V1_def cells_ok_def split: if_splits)
    qed
    ultimately show ?thesis using False by (simp add: V1_def)
  qed
qed

lemma cell_write_ok:
  assumes ok: "cells_ok V vals n" and a: "v_bound V s = Some a"
  shows "\<exists>V1. write_cell a f V = Some V1 \<and> cells_ok V1 (vals(s := f)) n \<and> v_bound V1 = v_bound V"
proof -
  note v = cells_okD(2) [OF ok a]
  define V1 where "V1 = V\<lparr>v_cells := (v_cells V)(a \<mapsto> \<lparr>c_refcount = int (n s), c_f = f\<rparr>)\<rparr>"
  have "write_cell a f V = Some V1" by (simp add: write_cell_def v V1_def)
  moreover have "cells_ok V1 (vals(s := f)) n"
  proof (rule cells_okI)
    show "v_bound V1 t = None \<longleftrightarrow> n t = 0" for t using cells_okD(1) [OF ok, of t] by (simp add: V1_def)
    show "v_cells V1 b = Some \<lparr>c_refcount = int (n t), c_f = (vals(s := f)) t\<rparr>" if "v_bound V1 t = Some b" for t b
    proof (cases "t = s")
      case False
      have t: "v_bound V t = Some b" using that by (simp add: V1_def)
      show ?thesis using cells_okD(2) [OF ok t] cells_other [OF ok a t False] False by (simp add: V1_def)
    qed (use that a in \<open>simp add: V1_def\<close>)
    show "t = u" if "v_bound V1 t = Some b" "v_bound V1 u = Some b" for t u b
      using that cells_okD(3) [OF ok, of t b u] by (simp add: V1_def)
    show "\<exists>t. v_bound V1 t = Some b" if "v_cells V1 b \<noteq> None" for b
      using that ok a by (auto simp: V1_def cells_ok_def split: if_splits)
  qed
  ultimately show ?thesis by (simp add: V1_def)
qed

text \<open>The objects and the store, and the names they stand for.\<close>

definition users :: "(nat \<times> valobj) list \<Rightarrow> symbol \<Rightarrow> nat" where
  "users os s = length (filter (\<lambda>p. x_sym (snd p) = s) os)"

definition names_of :: "(nat \<times> valobj) list \<Rightarrow> (nat \<times> symbol) list" where
  "names_of os = map (\<lambda>p. (fst p, x_sym (snd p))) os"

definition points :: "(nat \<times> valobj) list \<Rightarrow> vstore \<Rightarrow> bool" where
  "points os V \<longleftrightarrow> list_all (\<lambda>p. v_bound V (x_sym (snd p)) = Some (x_floatstar (snd p))) os"

definition val_rel :: "val_world \<Rightarrow> names \<Rightarrow> bool" where
  "val_rel w a \<longleftrightarrow>
     fst a = names_of (fst w) \<and> distinct (map fst (fst w)) \<and> points (fst w) (snd w) \<and> cells_ok (snd w) (snd a) (users (fst w))"

lemma users_Cons: "users ((i, x) # os) = (users os)(x_sym x := users os (x_sym x) + 1)"
  by (auto simp: users_def)

lemma users_drop:
  "distinct (map fst os) \<Longrightarrow> map_of os i = Some x \<Longrightarrow> users (drop_obj i os) = (users os)(x_sym x := users os (x_sym x) - 1) \<and> users os (x_sym x) \<noteq> 0"
proof (induction os)
  case (Cons p os)
  obtain j y where p: "p = (j, y)" by (cases p)
  show ?case
  proof (cases "j = i")
    case True
    then have "drop_obj i os = os" using Cons.prems p by (auto simp: drop_obj_def filter_id_conv)
    with True Cons.prems p show ?thesis by (auto simp: drop_obj_def users_def)
  next
    case False
    then have d: "drop_obj i (p # os) = (j, y) # drop_obj i os" by (simp add: drop_obj_def p)
    from Cons.IH Cons.prems False p have
      ih: "users (drop_obj i os) = (users os)(x_sym x := users os (x_sym x) - 1)" "users os (x_sym x) \<noteq> 0" by auto
    then show ?thesis unfolding d unfolding p users_Cons by auto
  qed
qed simp

lemma users_names: "s \<in> snd ` set (names_of os) \<longleftrightarrow> users os s \<noteq> 0"
  by (auto simp: names_of_def users_def filter_empty_conv image_iff)

lemma names_drop: "names_of (drop_obj i os) = drop_obj i (names_of os)"
  by (simp add: names_of_def drop_obj_def filter_map o_def)

lemma names_map_of: "map_of (names_of os) i = map_option x_sym (map_of os i)"
  by (induction os) (auto simp: names_of_def)

lemma drop_distinct: "distinct (map fst os) \<Longrightarrow> distinct (map fst (drop_obj i os)) \<and> i \<notin> fst ` set (drop_obj i os)"
  by (auto simp: drop_obj_def distinct_map inj_on_def)

lemma points_user: "points os V \<Longrightarrow> map_of os i = Some x \<Longrightarrow> v_bound V (x_sym x) = Some (x_floatstar x)"
  by (auto simp: points_def list_all_iff dest!: map_of_SomeD)

lemma points_get:
  assumes "points os V" "v_bound V1 = (v_bound V)(s \<mapsto> a)" "v_bound V s = None \<or> v_bound V s = Some a"
  shows "points os V1"
  using assms by (auto simp: points_def list_all_iff)

lemma points_drop:
  assumes p: "points os V" and "users (drop_obj i os) s = n - 1" "v_bound V1 = (if n = 1 then (v_bound V)(s := None) else v_bound V)"
  shows "points (drop_obj i os) V1"
proof -
  have "x_sym (snd q) \<noteq> s \<or> n \<noteq> 1" if "q \<in> set (drop_obj i os)" for q
  proof (rule disjCI)
    assume "\<not> n \<noteq> 1"
    then show "x_sym (snd q) \<noteq> s" using assms(2) that by (auto simp: users_def filter_empty_conv)
  qed
  then show ?thesis using p assms(3) by (fastforce simp: points_def list_all_iff drop_obj_def)
qed

lemma drop_release:
  assumes r: "val_rel (os, V) (hs, vals)" and x: "map_of os i = Some x"
  shows "\<exists>V1. value_release (x_sym x) V = Some (V1, []) \<and> val_rel (drop_obj i os, V1) (drop_obj i hs, vals)"
proof -
  have 1: "hs = names_of os" "distinct (map fst os)" "points os V" "cells_ok V vals (users os)" using r by (simp_all add: val_rel_def)
  note u = users_drop [OF 1(2) x]
  from cell_release_ok [OF 1(4) conjunct2 [OF u]] obtain V1 where
    V1: "value_release (x_sym x) V = Some (V1, [])" "cells_ok V1 vals (users (drop_obj i os))"
      "v_bound V1 = (if users os (x_sym x) = 1 then (v_bound V)(x_sym x := None) else v_bound V)" using u by auto
  have "users (drop_obj i os) (x_sym x) = users os (x_sym x) - 1" using u by simp
  from points_drop [OF 1(3) this V1(3)] V1(1,2) drop_distinct [OF 1(2)] 1(1) show ?thesis
    by (auto simp: val_rel_def names_drop)
qed

lemma get_user:
  assumes r: "val_rel (os, V) (hs, vals)" and c: "v_cells V c = None" and i: "i \<notin> fst ` set os"
  shows "\<exists>a V1. value_get c s V = Some (a, V1) \<and> val_rel ((i, \<lparr>x_sym = s, x_floatstar = a\<rparr>) # os, V1) ((i, s) # hs, use_name s hs vals)"
proof -
  have 1: "hs = names_of os" "distinct (map fst os)" "points os V" "cells_ok V vals (users os)" using r by (simp_all add: val_rel_def)
  from cell_get_ok [OF 1(4) c, of s] obtain a V1 where
    V1: "value_get c s V = Some (a, V1)" "cells_ok V1 (if users os s = 0 then vals(s := FFin 0) else vals) ((users os)(s := users os s + 1))"
      "v_bound V1 = (v_bound V)(s \<mapsto> a)" "v_bound V s = None \<or> v_bound V s = Some a" by blast
  have "points os V1" using points_get [OF 1(3) V1(3,4)] .
  then show ?thesis using V1 1 i users_names [of s os]
    by (auto simp: val_rel_def names_of_def users_Cons use_name_def points_def)
qed

lemma val_do_refines:
  assumes r: "val_rel w a" and "val_legal op w"
  shows "\<exists>w'. val_do op w = Some (w', snd (name_do op a)) \<and> val_rel w' (fst (name_do op a))"
proof -
  obtain os V hs vals where w: "w = (os, V)" "a = (hs, vals)" by (metis prod.exhaust)
  have 1: "hs = names_of os" "distinct (map fst os)" "points os V" "cells_ok V vals (users os)" using r by (simp_all add: val_rel_def w)
  have set: "\<exists>V1. write_cell b f V = Some V1 \<and> val_rel (os, V1) (hs, vals(s := f))" if "v_bound V s = Some b" for b s f
  proof -
    from cell_write_ok [OF 1(4) that, of f] obtain V1 where
      "write_cell b f V = Some V1" "cells_ok V1 (vals(s := f)) (users os)" "v_bound V1 = v_bound V" by blast
    with 1 show ?thesis by (auto simp: val_rel_def points_def)
  qed
  show ?thesis
  proof (cases op)
    case (V_new i c s)
    then have "i \<notin> fst ` set os" "v_cells V c = None" using assms(2) by (auto simp: w map_of_eq_None_iff)
    from get_user [OF r [unfolded w] this(2,1), of s] V_new show ?thesis by (auto simp: w value_new_def)
  next
    case (V_bang i)
    then obtain x where x: "map_of os i = Some x" using assms(2) by (auto simp: w)
    from cells_okD(2) [OF 1(4) points_user [OF 1(3) x]] V_bang x r show ?thesis by (auto simp: w value_bang_def 1(1) names_map_of)
  next
    case (V_float i f)
    then obtain x where x: "map_of os i = Some x" using assms(2) by (auto simp: w)
    from set [OF points_user [OF 1(3) x], of f] V_float x show ?thesis by (auto simp: w value_float_def 1(1) names_map_of)
  next
    case (V_rename i c s)
    then obtain x where x: "map_of os i = Some x" using assms(2) by (auto simp: w split: option.splits)
    from drop_release [OF r [unfolded w] x] obtain V1 where
      V1: "value_release (x_sym x) V = Some (V1, [])" "val_rel (drop_obj i os, V1) (drop_obj i hs, vals)" by blast
    have "v_cells V1 c = None" using assms(2) V_rename x V1(1) by (simp add: w)
    from get_user [OF V1(2) this conjunct2 [OF drop_distinct [OF 1(2)]], of s] V1(1) V_rename x show ?thesis
      by (auto simp: w value_symbol2_def)
  next
    case (V_free i)
    then obtain x where x: "map_of os i = Some x" using assms(2) by (auto simp: w)
    from drop_release [OF r [unfolded w] x] V_free x show ?thesis by (auto simp: w value_ff_def)
  next
    case (V_set s f)
    show ?thesis
    proof (cases "v_bound V s")
      case None
      then have "users os s = 0" using cells_okD(1) [OF 1(4)] by blast
      then show ?thesis using None V_set r users_names [of s os] by (simp add: w value_setfloat_def 1(1))
    next
      case (Some b)
      then have "users os s \<noteq> 0" using cells_okD(1) [OF 1(4), of s] by auto
      then show ?thesis using set [OF Some, of f] Some V_set users_names [of s os] by (auto simp: w value_setfloat_def 1(1))
    qed
  qed
qed

fun val_run :: "val_op list \<Rightarrow> val_world \<Rightarrow> (val_world \<times> couts) option" where
  "val_run [] w = Some (w, [])"
| "val_run (op # ops) w = Option.bind (val_do op w) (\<lambda>(w1, l1). map_option (\<lambda>(w2, l2). (w2, l1 @ l2)) (val_run ops w1))"

fun name_run :: "val_op list \<Rightarrow> names \<Rightarrow> couts" where
  "name_run [] a = []"
| "name_run (op # ops) a = snd (name_do op a) @ name_run ops (fst (name_do op a))"

fun val_legals :: "val_op list \<Rightarrow> val_world \<Rightarrow> bool" where
  "val_legals [] w \<longleftrightarrow> True"
| "val_legals (op # ops) w \<longleftrightarrow> val_legal op w \<and> (case val_do op w of None \<Rightarrow> True | Some (w1, l) \<Rightarrow> val_legals ops w1)"

definition val0 :: val_world where
  "val0 = ([], \<lparr>v_bound = \<lambda>_. None, v_cells = \<lambda>_. None\<rparr>)"

lemma val_run_refines:
  "val_rel w a \<Longrightarrow> val_legals ops w \<Longrightarrow> \<exists>w' a'. val_run ops w = Some (w', name_run ops a) \<and> val_rel w' a'"
proof (induction ops arbitrary: w a)
  case (Cons op ops)
  from val_do_refines [OF Cons.prems(1), of op] Cons.prems(2) obtain w1 where
    w1: "val_do op w = Some (w1, snd (name_do op a))" "val_rel w1 (fst (name_do op a))" by auto
  with Cons.IH [OF w1(2)] Cons.prems(2) show ?case by auto
qed auto

lemma val0_rel: "val_rel val0 ([], vals)"
  by (simp add: val_rel_def val0_def names_of_def points_def cells_ok_def users_def)

text \<open>
  C23: value objects with the same name share one variable: each gives what was last stored under the name, by whichever of them
  or by a message to the name; it is 0 when it is first used, and there is one for each name in use and no other, so that no object ever
  uses one that has been freed. (An object that is alone with its name and is renamed to the same name loses the value.)
\<close>

theorem value_shared:
  assumes "val_legals ops val0"
  shows "\<exists>os V. val_run ops val0 = Some ((os, V), name_run ops ([], \<lambda>_. FFin 0)) \<and>
    (\<forall>s. (v_bound V s = None) = (s \<notin> snd ` set (names_of os))) \<and> (\<forall>a. (v_cells V a = None) = (\<forall>s. v_bound V s \<noteq> Some a))"
proof -
  from val_run_refines [OF val0_rel assms, of "\<lambda>_. FFin 0"] obtain os V a' where
    r: "val_run ops val0 = Some ((os, V), name_run ops ([], \<lambda>_. FFin 0))" "val_rel (os, V) a'" by (metis prod.exhaust)
  then have ok: "cells_ok V (snd a') (users os)" by (simp add: val_rel_def)
  have "(v_cells V b = None) = (\<forall>s. v_bound V s \<noteq> Some b)" for b
    using cells_okD(4) [OF ok] ok unfolding cells_ok_def by blast
  then show ?thesis using r(1) cells_okD(1) [OF ok] users_names by blast
qed

abbreviation two_values :: "val_op list" where
  "two_values \<equiv> [V_new 2 2 ''x'', V_float 2 (FFin 5), V_new 3 3 ''x'', V_bang 3, V_free 2, V_bang 3, V_rename 3 2 ''x'', V_bang 3]"

theorem value_shared_witness:
  "\<exists>os V. val_run two_values val0 = Some ((os, V), [Out 0 (Float (FFin 5)), Out 0 (Float (FFin 5)), Out 0 (Float (FFin 0))]) \<and>
    (\<forall>s. (v_bound V s = None) = (s \<notin> snd ` set (names_of os))) \<and> (\<forall>a. (v_cells V a = None) = (\<forall>s. v_bound V s \<noteq> Some a))"
proof -
  have l: "val_legals two_values val0"
    by (simp add: val0_def value_new_def value_get_def value_float_def write_cell_def value_bang_def value_ff_def value_release_def
        value_symbol2_def drop_obj_def)
  have n: "name_run two_values ([], \<lambda>_. FFin 0) = [Out 0 (Float (FFin 5)), Out 0 (Float (FFin 5)), Out 0 (Float (FFin 0))]"
    by (simp add: use_name_def drop_obj_def)
  from value_shared [OF l] show ?thesis unfolding n .
qed

section \<open>Mixed arguments\<close>

text \<open>
  Route and select take arguments of both types and do not keep them apart. A select whose first argument is a float takes a symbol
  among the others for 0: it never finds the symbol, and bangs its outlet for the float 0. A route compares a float with the words of its
  symbols: the float that the lower half of the address of a symbol reads as goes out of the outlet of the symbol.
\<close>

theorem mixed_arguments:
  assumes "\<not> feq g (FFin 0)" "\<not> feq g (FFin q)" "bits s = FFin q"
  shows "(\<forall>f0. \<exists>x. select_new f0 [A_FLOAT g, A_SYMBOL s] = Sel2 x \<and> sel2_symbol s x = [Out 2 (Symbol s)] \<and> sel2_float (FFin 0) x = [Out 1 Bang]) \<and>
    route_list bits [A_FLOAT (FFin q)] (route_new [A_FLOAT g, A_SYMBOL s]) = [Out 1 Bang]"
proof -
  have e: "feq (FFin 0) (FFin 0)" "feq (FFin q) (FFin q)" by (simp_all add: feq_def fval_def)
  have r: "route_new [A_FLOAT g, A_SYMBOL s] = \<lparr>r_type = A_FLOAT g, r_vec = [W_float g, W_symbol s], r_mixed = True\<rparr>"
    by (simp add: route_new_def atom_getfloatarg_def atom_getsymbolarg_def upt_rec)
  have "find_float bits (FFin q) (route_new [A_FLOAT g, A_SYMBOL s]) = Some 1"
    using assms(2,3) e(2) by (simp add: r find_float_def w_float_def)
  then have "route_list bits [A_FLOAT (FFin q)] (route_new [A_FLOAT g, A_SYMBOL s]) = [Out 1 Bang]"
    by (simp add: route_list_def r)
  moreover have "select_new f0 [A_FLOAT g, A_SYMBOL s] =
      Sel2 \<lparr>x_type = A_FLOAT g, x_mixed = False, x_elems = [A_FLOAT g, A_FLOAT (FFin 0)]\<rparr>" for f0
    by (simp add: select_new_def atom_getfloatarg_def upt_rec)
  ultimately show ?thesis using assms(1) e(1) by (simp add: sel2_symbol_def sel2_float_def same_float_def)
qed

theorem mixed_arguments_witness:
  "(\<forall>f0. \<exists>x. select_new f0 [A_FLOAT (FFin 60), A_SYMBOL ''stop''] = Sel2 x \<and> sel2_symbol ''stop'' x = [Out 2 (Symbol ''stop'')] \<and>
      sel2_float (FFin 0) x = [Out 1 Bang]) \<and>
    route_list (\<lambda>_. FFin 7) [A_FLOAT (FFin 7)] (route_new [A_FLOAT (FFin 60), A_SYMBOL ''stop'']) = [Out 1 Bang]"
  by (rule mixed_arguments) (simp_all add: feq_def fval_def)

end
