(* ===== verification/MakeFilename.thy ===== *)
theory MakeFilename
  imports Connect
begin

text \<open>
  makefilename (\<open>src/pd/src/x_connective.c\<close>): the scan of a format, which decides what \<open>vsnprintf\<close> is called with, and the proof
  that every call it makes has the argument the format takes. \<open>vsnprintf\<close> is a parameter: the output of a format for its arguments.
\<close>

section \<open>The scan of a format\<close>

datatype printtype = P_NONE | P_INT | P_FLOAT | P_STRING | P_POINTER

text \<open>The type, the error message (none: the empty string), the rest of the string.\<close>

type_synonym scanned = "printtype \<times> string \<times> string"

definition fmt_error :: "string \<Rightarrow> string \<Rightarrow> scanned" where
  "fmt_error msg str = (P_NONE, msg, str)"

text \<open>\<open>strchr\<close>, for a character that is not the end of the string.\<close>

definition is_in :: "char \<Rightarrow> string \<Rightarrow> bool" where
  "is_in c cs = (c \<in> set cs)"

text \<open>The flags, with whether there is a \<open>#\<close> and a \<open>0\<close> among them; the digits of a field, of which there may be three.\<close>

fun fmt_flags :: "nat \<Rightarrow> bool \<Rightarrow> bool \<Rightarrow> string \<Rightarrow> string + bool \<times> bool \<times> string" where
  "fmt_flags i h z [] = Inr (h, z, [])"
| "fmt_flags i h z (c # cs) =
     (if is_in c ''-+#0'' then
        (if i > 15 then Inl (c # cs) else fmt_flags (i + 1) (h \<or> c = CHR ''#'') (z \<or> c = CHR ''0'') cs)
      else Inr (h, z, c # cs))"

fun fmt_digits :: "nat \<Rightarrow> string \<Rightarrow> string + string" where
  "fmt_digits i [] = Inr []"
| "fmt_digits i (c # cs) =
     (if is_in c ''0123456789'' then (if i \<ge> 3 then Inl (c # cs) else fmt_digits (i + 1) cs) else Inr (c # cs))"

definition bad_specifier :: "char \<Rightarrow> string" where
  "bad_specifier c =
     (if c = CHR ''a'' \<or> c = CHR ''A'' then
        ''hexfloat specifier not supported. If you need this feature make a case on the mailing list and '' @ [CHR ''w'', CHR ''e'', CHR 0x27] @
        ''ll consider adding it''
      else if c = CHR ''n'' then ''n specifier not supported''
      else if c = CHR ''m'' then ''m specifier not supported''
      else ''bad specifier type '' @ [CHR 0x27, c, CHR 0x27])"

definition fmt_specifier :: "bool \<Rightarrow> bool \<Rightarrow> string \<Rightarrow> scanned" where
  "fmt_specifier h z str =
     (case str of
        [] \<Rightarrow> fmt_error ''specifier missing'' str
      | c # _ \<Rightarrow>
          if h \<and> \<not> is_in c ''fFgGeExXo'' then fmt_error ([CHR 0x27, CHR ''#'', CHR 0x27] @ '' flag restricted to [fFgGeExXo] specifiers'') str
          else if z \<and> \<not> is_in c ''diouxXeEfFgG'' then
            fmt_error ([CHR 0x27, CHR ''0'', CHR 0x27] @ '' flag restricted to [diouxXeEfFgG] specifiers'') str
          else if c = CHR ''s'' then (P_STRING, [], str)
          else if is_in c ''fFgGeE'' then (P_FLOAT, [], str)
          else if is_in c ''xXdiouc'' then (P_INT, [], str)
          else if is_in c ''p'' then fmt_error ''p specifier not supported'' str
          else fmt_error (bad_specifier c) str)"

definition fmt_precision :: "bool \<Rightarrow> bool \<Rightarrow> string \<Rightarrow> scanned" where
  "fmt_precision h z str =
     (case str of
        [] \<Rightarrow> fmt_specifier h z str
      | c # cs \<Rightarrow>
          if c = CHR ''.'' then
            (if cs \<noteq> [] \<and> hd cs = CHR ''*'' then fmt_error ''variable precision field not supported'' cs
             else case fmt_digits 0 cs of
               Inl r \<Rightarrow> fmt_error ''precision field cannot be greater than 3 digits'' r
             | Inr r \<Rightarrow>
                 if r \<noteq> [] \<and> \<not> is_in (hd r) ''diouxXeEfFgGs'' then
                   fmt_error ''precision field restricted to [diouxXeEfFgGs] specifiers'' r
                 else fmt_specifier h z r)
          else fmt_specifier h z str)"

definition fmt_width :: "bool \<Rightarrow> bool \<Rightarrow> string \<Rightarrow> scanned" where
  "fmt_width h z str =
     (if str \<noteq> [] \<and> hd str = CHR ''*'' then fmt_error ''variable width value not supported'' str
      else case fmt_digits 0 str of
        Inl r \<Rightarrow> fmt_error ''width field cannot be greater than 3 digits'' r
      | Inr r \<Rightarrow> fmt_precision h z r)"

fun makefilename_doscanformat :: "bool \<Rightarrow> string \<Rightarrow> scanned" where
  "makefilename_doscanformat infmt [] = (P_NONE, [], [])"
| "makefilename_doscanformat infmt (c # cs) =
     (if \<not> infmt \<and> c = CHR ''%'' then
        (if cs = [] then fmt_error ''specifier missing'' [] else makefilename_doscanformat True cs)
      else if infmt then
        (if c = CHR ''%'' then makefilename_doscanformat False cs
         else case fmt_flags 0 False False (c # cs) of
           Inl r \<Rightarrow> fmt_error ''too many flags'' r
         | Inr (h, z, r) \<Rightarrow> fmt_width h z r)
      else makefilename_doscanformat False cs)"

section \<open>The object\<close>

record makefilename =
  f_format :: "string option"
  f_accept :: printtype

definition quoted :: "string \<Rightarrow> string" where
  "quoted s = CHR 0x27 # s @ [CHR 0x27]"

definition makefilename_scanformat :: "makefilename \<Rightarrow> makefilename \<times> couts" where
  "makefilename_scanformat x =
     (case f_format x of
        None \<Rightarrow> (x, [])
      | Some fmt \<Rightarrow>
          let (typ, err, str) = makefilename_doscanformat False fmt in
          if err \<noteq> [] then
            (x\<lparr>f_format := None\<rparr>, [Error (''makefilename: invalid format string '' @ quoted fmt @ '' ('' @ err @ ''). Supressing output.'')])
          else
            let x1 = x\<lparr>f_accept := typ\<rparr> in
            if typ \<noteq> P_NONE then
              (let (typ2, err2, str2) = makefilename_doscanformat False str in
               if typ2 \<noteq> P_NONE \<or> err2 \<noteq> [] then
                 (x1\<lparr>f_format := None\<rparr>,
                  [Error (''makefilename: invalid format string '' @ quoted fmt @ '' (too many specifiers). Suppressing output.'')])
               else (x1, []))
            else (x1, []))"

definition makefilename_new :: "symbol \<Rightarrow> makefilename \<times> couts" where
  "makefilename_new s = makefilename_scanformat \<lparr>f_format = Some (if s = [] then ''file.%d'' else s), f_accept = P_NONE\<rparr>"

definition makefilename_set :: "symbol \<Rightarrow> makefilename \<Rightarrow> makefilename \<times> couts" where
  "makefilename_set s x = makefilename_scanformat (x\<lparr>f_format := Some s\<rparr>)"

text \<open>An argument of \<open>vsnprintf\<close>, as it is passed.\<close>

datatype parg = Double t_float | Int32 int | Str string

type_synonym printer = "string \<Rightarrow> parg list \<Rightarrow> string"

definition makefilename_snprintf :: "printer \<Rightarrow> string \<Rightarrow> parg list \<Rightarrow> string \<times> couts" where
  "makefilename_snprintf vsnprintf fmt args =
     (let s = vsnprintf fmt args in
      if length s \<ge> 1000 then (take 999 s, [Error ''makefilename: output truncated to 1000 characters'']) else (s, []))"

definition send_name :: "string \<times> couts \<Rightarrow> couts" where
  "send_name r = snd r @ (if fst r \<noteq> [] then [Out 0 (Symbol (fst r))] else [])"

definition no_format :: couts where
  "no_format = [Error ''makefilename: no format specifier given'']"

definition makefilename_float :: "printer \<Rightarrow> makefilename \<Rightarrow> t_float \<Rightarrow> couts" where
  "makefilename_float vsnprintf x f =
     (case f_format x of
        None \<Rightarrow> no_format
      | Some fmt \<Rightarrow>
          (case f_accept x of
             P_FLOAT \<Rightarrow> send_name (makefilename_snprintf vsnprintf fmt [Double f])
           | P_INT \<Rightarrow> send_name (makefilename_snprintf vsnprintf fmt [Int32 (int_of_float f)])
           | P_STRING \<Rightarrow>
               (let (buf2, e) = makefilename_snprintf vsnprintf ''%g'' [Double f] in
                e @ send_name (makefilename_snprintf vsnprintf fmt [Str buf2]))
           | P_NONE \<Rightarrow> send_name (makefilename_snprintf vsnprintf fmt [])
           | P_POINTER \<Rightarrow> [Error (''cannot convert float with specifier: '' @ fmt)]))"

definition makefilename_symbol :: "printer \<Rightarrow> makefilename \<Rightarrow> symbol \<Rightarrow> couts" where
  "makefilename_symbol vsnprintf x s =
     (case f_format x of
        None \<Rightarrow> no_format
      | Some fmt \<Rightarrow>
          (case f_accept x of
             P_STRING \<Rightarrow> send_name (makefilename_snprintf vsnprintf fmt [Str s])
           | P_INT \<Rightarrow> send_name (makefilename_snprintf vsnprintf fmt [Int32 0])
           | P_FLOAT \<Rightarrow> send_name (makefilename_snprintf vsnprintf fmt [Double (FFin 0)])
           | P_NONE \<Rightarrow> send_name (makefilename_snprintf vsnprintf fmt [])
           | P_POINTER \<Rightarrow> [Error (''cannot convert symbol with specifier: '' @ fmt)]))"

definition makefilename_bang :: "printer \<Rightarrow> makefilename \<Rightarrow> couts" where
  "makefilename_bang vsnprintf x =
     (case f_format x of
        None \<Rightarrow> no_format
      | Some fmt \<Rightarrow>
          (case f_accept x of
             P_INT \<Rightarrow> send_name (makefilename_snprintf vsnprintf fmt [Int32 0])
           | P_FLOAT \<Rightarrow> send_name (makefilename_snprintf vsnprintf fmt [Double (FFin 0)])
           | P_STRING \<Rightarrow> send_name (makefilename_snprintf vsnprintf fmt [Str []])
           | P_NONE \<Rightarrow> send_name (makefilename_snprintf vsnprintf fmt [])
           | P_POINTER \<Rightarrow> [Error (''cannot convert bang with specifier: '' @ fmt)]))"

section \<open>The formats of the C standard\<close>

text \<open>
  The conversions of a format (C11, 7.21.6.1), of those that take one argument of type \<open>int\<close>, \<open>unsigned\<close>, \<open>double\<close> or \<open>char *\<close>.
  \<open>None\<close>: the behaviour is undefined, or an argument of another type is taken.
\<close>

definition conversion_ok :: "string \<Rightarrow> bool \<Rightarrow> char \<Rightarrow> bool" where
  "conversion_ok fl prec c \<longleftrightarrow>
     is_in c ''diouxXeEfFgGcs'' \<and> (CHR ''#'' \<in> set fl \<longrightarrow> is_in c ''fFgGeExXo'') \<and> (CHR ''0'' \<in> set fl \<longrightarrow> is_in c ''diouxXeEfFgG'') \<and>
     (prec \<longrightarrow> is_in c ''diouxXeEfFgGs'')"

abbreviation is_flag :: "char \<Rightarrow> bool" where "is_flag c \<equiv> is_in c ''-+ #0''"
abbreviation is_digit :: "char \<Rightarrow> bool" where "is_digit c \<equiv> is_in c ''0123456789''"

definition after_width :: "string \<Rightarrow> string" where
  "after_width cs = dropWhile is_digit (dropWhile is_flag cs)"

definition after_precision :: "string \<Rightarrow> string" where
  "after_precision r = (case r of c # cs \<Rightarrow> if c = CHR ''.'' then dropWhile is_digit cs else r | [] \<Rightarrow> [])"

function conversions :: "string \<Rightarrow> string option" where
  "conversions [] = Some []"
| "conversions (c # cs) =
     (if c \<noteq> CHR ''%'' then conversions cs
      else if cs \<noteq> [] \<and> hd cs = CHR ''%'' then conversions (tl cs)
      else
        let r = after_width cs in
        case after_precision r of
          [] \<Rightarrow> None
        | d # ds \<Rightarrow>
            if conversion_ok (takeWhile is_flag cs) (r \<noteq> [] \<and> hd r = CHR ''.'') d then map_option ((#) d) (conversions ds) else None)"
  by pat_completeness auto
termination
proof (relation "measure length", goal_cases)
  case (4 c cs r d ds)
  have l: "length (dropWhile P xs) \<le> length xs" for P and xs :: string by (induction xs) auto
  have "length (after_precision r) \<le> length r" using l by (auto simp: after_precision_def split: list.splits intro: le_SucI)
  also have "length r \<le> length cs" unfolding 4(3) after_width_def using l order_trans by blast
  finally show ?case using 4(4) by simp
qed auto

definition conv_takes :: "char \<Rightarrow> parg \<Rightarrow> bool" where
  "conv_takes c a =
     (case a of Double f \<Rightarrow> is_in c ''fFgGeE'' | Int32 n \<Rightarrow> is_in c ''xXdiouc'' | Str s \<Rightarrow> c = CHR ''s'')"

text \<open>A call whose arguments are those the format takes.\<close>

definition fits :: "string \<Rightarrow> parg list \<Rightarrow> bool" where
  "fits fmt args \<longleftrightarrow> (case conversions fmt of None \<Rightarrow> False | Some cs \<Rightarrow> list_all2 conv_takes cs args)"

section \<open>What a format that is accepted takes\<close>

declare conversions.simps(2) [simp del]

definition kind_of :: "printtype \<Rightarrow> char \<Rightarrow> bool" where
  "kind_of t c \<longleftrightarrow> (t = P_STRING \<and> c = CHR ''s'') \<or> (t = P_FLOAT \<and> is_in c ''fFgGeE'') \<or> (t = P_INT \<and> is_in c ''xXdiouc'')"

lemma fmt_flags_spec:
  "fmt_flags i h z s = Inr (h', z', r) \<Longrightarrow>
    r = dropWhile (\<lambda>c. is_in c ''-+#0'') s \<and> h' = (h \<or> CHR ''#'' \<in> set (takeWhile (\<lambda>c. is_in c ''-+#0'') s)) \<and>
    z' = (z \<or> CHR ''0'' \<in> set (takeWhile (\<lambda>c. is_in c ''-+#0'') s))"
  by (induction i h z s rule: fmt_flags.induct) (auto split: if_splits)

lemma fmt_digits_spec: "fmt_digits i s = Inr r \<Longrightarrow> r = dropWhile is_digit s"
  by (induction i s rule: fmt_digits.induct) (auto split: if_splits)

lemma fmt_error_neq [simp]: "msg \<noteq> [] \<Longrightarrow> fmt_error msg s \<noteq> (t, [], r)" "bad_specifier c \<noteq> []"
  by (simp_all add: fmt_error_def bad_specifier_def)

lemma fmt_specifier_spec:
  assumes "fmt_specifier h z s = (t, [], r)"
  shows "\<exists>c ds. s = c # ds \<and> r = s \<and> kind_of t c \<and> (h \<longrightarrow> is_in c ''fFgGeExXo'') \<and> (z \<longrightarrow> is_in c ''diouxXeEfFgG'')"
  using assms by (cases s) (auto simp: fmt_specifier_def kind_of_def split: if_splits)

lemma kind_conversion: "kind_of t c \<Longrightarrow> is_in c ''diouxXeEfFgGcs'' \<and> c \<noteq> CHR ''.'' \<and> c \<noteq> CHR '' '' \<and> c \<noteq> CHR ''%'' \<and> \<not> is_digit c \<and> \<not> is_flag c \<and> t \<noteq> P_NONE"
  by (auto simp: kind_of_def is_in_def)

lemma digit_space: "\<not> is_digit (CHR '' '')"
  by (simp add: is_in_def)

text \<open>What follows the flags of a format that is accepted.\<close>

lemma fmt_width_spec:
  assumes "fmt_width h z s = (t, [], r)"
  shows "\<exists>c ds. r = c # ds \<and> kind_of t c \<and> after_precision (dropWhile is_digit s) = r \<and> (h \<longrightarrow> is_in c ''fFgGeExXo'') \<and>
    (z \<longrightarrow> is_in c ''diouxXeEfFgG'') \<and> s \<noteq> [] \<and> hd s \<noteq> CHR '' '' \<and>
    (dropWhile is_digit s \<noteq> [] \<and> hd (dropWhile is_digit s) = CHR ''.'' \<longrightarrow> is_in c ''diouxXeEfFgGs'')"
proof -
  obtain w where w: "w = dropWhile is_digit s" "fmt_precision h z w = (t, [], r)"
    using assms fmt_digits_spec [of 0 s] by (auto simp: fmt_width_def split: if_splits sum.splits)
  have sp: "s \<noteq> [] \<and> hd s \<noteq> CHR '' ''" if "w \<noteq> []" "hd w \<noteq> CHR '' ''"
    using that w(1) by (cases s) (auto simp: digit_space split: if_splits)
  show ?thesis
  proof (cases "w \<noteq> [] \<and> hd w = CHR ''.''")
    case True
    then obtain v where v: "w = CHR ''.'' # v" by (cases w) auto
    then obtain q where q: "q = dropWhile is_digit v" "fmt_specifier h z q = (t, [], r)" "q \<noteq> [] \<longrightarrow> is_in (hd q) ''diouxXeEfFgGs''"
      using w(2) fmt_digits_spec [of 0 v] by (auto simp: fmt_precision_def split: if_splits sum.splits)
    from fmt_specifier_spec [OF q(2)] obtain c ds where
      c: "q = c # ds" "r = q" "kind_of t c" "h \<longrightarrow> is_in c ''fFgGeExXo''" "z \<longrightarrow> is_in c ''diouxXeEfFgG''" by blast
    have "after_precision w = q" by (simp add: after_precision_def v q(1))
    then show ?thesis using c q(3) sp v w(1) by auto
  next
    case False
    then have "fmt_specifier h z w = (t, [], r)" using w(2) by (cases w) (auto simp: fmt_precision_def)
    from fmt_specifier_spec [OF this] obtain c ds where
      c: "w = c # ds" "r = w" "kind_of t c" "h \<longrightarrow> is_in c ''fFgGeExXo''" "z \<longrightarrow> is_in c ''diouxXeEfFgG''" by blast
    then have "after_precision w = w" using False by (simp add: after_precision_def)
    then show ?thesis using c sp False w(1) kind_conversion [OF c(3)] by auto
  qed
qed

lemma flag_space: "is_flag c \<longleftrightarrow> is_in c ''-+#0'' \<or> c = CHR '' ''"
  by (auto simp: is_in_def)

lemma while_weaker:
  assumes "\<And>c. Q c \<longleftrightarrow> P c \<or> c = b"
  shows "hd (dropWhile P s) \<noteq> b \<or> dropWhile P s = [] \<Longrightarrow> dropWhile Q s = dropWhile P s \<and> takeWhile Q s = takeWhile P s"
proof (induction s)
  case (Cons a s)
  then show ?case using assms [of a] by (cases "P a") auto
qed simp

lemmas flags_space = while_weaker [of is_flag "\<lambda>c. is_in c ''-+#0''" "CHR '' ''", OF flag_space]

lemma scan_conversion:
  assumes "c \<noteq> CHR ''%''" "makefilename_doscanformat True (c # cs) = (t, [], r)"
  shows "\<exists>d ds. r = d # ds \<and> kind_of t d \<and> conversions (CHR ''%'' # c # cs) = map_option ((#) d) (conversions ds)"
proof -
  obtain h z w where w: "fmt_flags 0 False False (c # cs) = Inr (h, z, w)" "fmt_width h z w = (t, [], r)"
    using assms by (auto split: sum.splits simp del: fmt_flags.simps)
  note f = fmt_flags_spec [OF w(1)]
  from fmt_width_spec [OF w(2)] obtain d ds where
    d: "r = d # ds" "kind_of t d" "after_precision (dropWhile is_digit w) = r" "h \<longrightarrow> is_in d ''fFgGeExXo''" "z \<longrightarrow> is_in d ''diouxXeEfFgG''"
      "w \<noteq> []" "hd w \<noteq> CHR '' ''" "dropWhile is_digit w \<noteq> [] \<and> hd (dropWhile is_digit w) = CHR ''.'' \<longrightarrow> is_in d ''diouxXeEfFgGs''"
    by blast
  have fl: "dropWhile is_flag (c # cs) = w" "takeWhile is_flag (c # cs) = takeWhile (\<lambda>c. is_in c ''-+#0'') (c # cs)"
    using flags_space [of "c # cs"] f d(7) by auto
  have "conversion_ok (takeWhile is_flag (c # cs)) (dropWhile is_digit w \<noteq> [] \<and> hd (dropWhile is_digit w) = CHR ''.'') d"
    unfolding conversion_ok_def fl(2) using f d(4,5,8) kind_conversion [OF d(2)] by simp
  then have "conversions (CHR ''%'' # c # cs) = map_option ((#) d) (conversions ds)"
    using assms(1) d(1,3) by (subst conversions.simps(2)) (simp only: Let_def after_width_def fl(1), simp)
  with d(1,2) show ?thesis by blast
qed

lemma conversions_percent: "conversions (CHR ''%'' # CHR ''%'' # cs) = conversions cs"
  by (simp add: conversions.simps(2))

lemma scan_spec:
  "makefilename_doscanformat infmt s = (t, [], r) \<Longrightarrow> (infmt \<longrightarrow> s \<noteq> []) \<Longrightarrow>
    (let u = (if infmt then CHR ''%'' # s else s) in
     if t = P_NONE then conversions u = Some []
     else \<exists>d ds. r = d # ds \<and> kind_of t d \<and> conversions u = map_option ((#) d) (conversions ds))"
proof (induction infmt s rule: makefilename_doscanformat.induct)
  case (2 infmt c cs)
  show ?case
  proof (cases infmt)
    case False
    show ?thesis
    proof (cases "c = CHR ''%''")
      case True
      then have cs: "cs \<noteq> []" "makefilename_doscanformat True cs = (t, [], r)" using 2(4) False by (auto simp: fmt_error_def split: if_splits)
      from 2(1) [OF _ cs(1) cs(2)] True False cs(1) show ?thesis by simp
    next
      case n: False
      with 2 False show ?thesis by (auto simp: conversions.simps(2))
    qed
  next
    case True
    show ?thesis
    proof (cases "c = CHR ''%''")
      case eq: True
      with 2 True have "let u = cs in if t = P_NONE then conversions u = Some []
        else \<exists>d ds. r = d # ds \<and> kind_of t d \<and> conversions u = map_option ((#) d) (conversions ds)" by simp
      then show ?thesis using True eq unfolding Let_def by (simp add: conversions_percent)
    next
      case n: False
      have "makefilename_doscanformat True (c # cs) = (t, [], r)" using 2(4) True by simp
      from scan_conversion [OF n this] kind_conversion True show ?thesis by auto
    qed
  qed
qed simp

definition format_ok :: "makefilename \<Rightarrow> bool" where
  "format_ok x \<longleftrightarrow>
     (case f_format x of
        None \<Rightarrow> True
      | Some fmt \<Rightarrow>
          (case conversions fmt of
             Some [] \<Rightarrow> f_accept x = P_NONE
           | Some [c] \<Rightarrow> kind_of (f_accept x) c
           | _ \<Rightarrow> False))"

lemma scanformat_ok: "format_ok (fst (makefilename_scanformat x))"
proof (cases "f_format x")
  case (Some fmt)
  obtain t err r where 1: "makefilename_doscanformat False fmt = (t, err, r)" by (metis prod.exhaust)
  obtain t2 err2 r2 where 2: "makefilename_doscanformat False r = (t2, err2, r2)" by (metis prod.exhaust)
  show ?thesis
  proof (cases "err = []")
    case True
    show ?thesis
    proof (cases "t = P_NONE")
      case N: True
      with scan_spec [OF 1 [unfolded True]] Some 1 True show ?thesis by (simp add: makefilename_scanformat_def format_ok_def)
    next
      case n: False
      with scan_spec [OF 1 [unfolded True]] obtain d ds where
        d: "r = d # ds" "kind_of t d" "conversions fmt = map_option ((#) d) (conversions ds)" by auto
      show ?thesis
      proof (cases "t2 = P_NONE \<and> err2 = []")
        case True2: True
        with scan_spec [OF 2 [unfolded conjunct2 [OF True2]]] have "conversions r = Some []" by simp
        then have "conversions ds = Some []" using kind_conversion [OF d(2)] by (simp add: d(1) conversions.simps(2))
        with d(2,3) show ?thesis using Some 1 2 True True2 n by (simp add: makefilename_scanformat_def format_ok_def)
      next
        case False
        with Some 1 2 True n show ?thesis by (auto simp: makefilename_scanformat_def format_ok_def)
      qed
    qed
  next
    case False
    with Some 1 show ?thesis by (simp add: makefilename_scanformat_def format_ok_def)
  qed
qed (simp add: makefilename_scanformat_def format_ok_def)

definition only_fitting :: "printer \<Rightarrow> printer \<Rightarrow> printer" where
  "only_fitting vsnprintf other fmt args = (if fits fmt args then vsnprintf fmt args else other fmt args)"

lemma fits_format:
  assumes "format_ok x" "f_format x = Some fmt"
  shows "f_accept x = P_NONE \<Longrightarrow> fits fmt []" "f_accept x = P_INT \<Longrightarrow> fits fmt [Int32 n]" "f_accept x = P_FLOAT \<Longrightarrow> fits fmt [Double f]"
    "f_accept x = P_STRING \<Longrightarrow> fits fmt [Str s]"
  using assms by (auto simp: format_ok_def fits_def kind_of_def conv_takes_def split: option.splits list.splits)

lemma fits_g: "fits ''%g'' [Double f]"
proof -
  have "conversions ''%g'' = Some ''g''"
    by (simp add: conversions.simps(2) after_width_def after_precision_def conversion_ok_def is_in_def)
  then show ?thesis by (simp add: fits_def conv_takes_def is_in_def)
qed

lemma snprintf_fitting:
  "fits fmt args \<Longrightarrow> makefilename_snprintf (only_fitting vs other) fmt args = makefilename_snprintf vs fmt args"
  by (simp add: makefilename_snprintf_def only_fitting_def)

text \<open>
  C21: makefilename is not open to format strings: whatever formats it has been given, by its argument and by set messages, it calls
  \<open>vsnprintf\<close> only with a format that the C standard defines and that takes exactly the argument passed; what \<open>vsnprintf\<close> would do
  for any other call makes no difference.
\<close>

theorem makefilename_safe:
  fixes s0 ss
  defines "x \<equiv> fold (\<lambda>s x. fst (makefilename_set s x)) ss (fst (makefilename_new s0))"
  shows "makefilename_float vs x f = makefilename_float (only_fitting vs other) x f \<and>
    makefilename_symbol vs x s = makefilename_symbol (only_fitting vs other) x s \<and>
    makefilename_bang vs x = makefilename_bang (only_fitting vs other) x"
proof -
  have "format_ok (fold (\<lambda>s x. fst (makefilename_set s x)) ss y)" if "format_ok y" for y
    using that by (induction ss arbitrary: y) (simp_all add: makefilename_set_def scanformat_ok)
  then have ok: "format_ok x" unfolding x_def by (simp add: makefilename_new_def scanformat_ok)
  note fit = fits_format [OF ok, THEN snprintf_fitting] snprintf_fitting [OF fits_g]
  show ?thesis
    unfolding makefilename_float_def makefilename_symbol_def makefilename_bang_def
    by (auto simp: fit split: option.split printtype.split prod.split)
qed

end
