(* ===== verification/Symtab.thy ===== *)
theory Symtab
  imports Prelude
begin

text \<open>
  The symbol table, \<open>dogensym\<close> and \<open>gensym\<close> of \<open>src/pd/src/m_class.c\<close>: a hash table of chains, a
  symbol being a node of a chain. A \<open>t_symbol *\<close> is the number of its node. The rest of the
  development takes a symbol for its name; what is shown here allows it.
\<close>

abbreviation HASHSIZE :: nat where "HASHSIZE \<equiv> 1024"

text \<open>A node: its address and its name; the chain is the list of nodes through \<open>s_next\<close>.\<close>

record symtab =
  symhash :: "(nat \<times> string) list list"
  next_symbol :: nat

text \<open>The loop over the characters: \<open>hash1\<close> and \<open>hash2\<close> are 32 bits wide, a \<open>char\<close> is signed.\<close>

fun hash_loop :: "u32 \<Rightarrow> u32 \<Rightarrow> string \<Rightarrow> u32" where
  "hash_loop hash1 hash2 [] = hash2"
| "hash_loop hash1 hash2 (c # s) =
     (let hash1 = hash1 + of_int (sint (of_nat (code c) :: u8)) in hash_loop hash1 (hash2 + hash1) s)"

definition bucket :: "string \<Rightarrow> nat" where
  "bucket s = unat (hash_loop 0 0 s AND (of_nat HASHSIZE - 1))"

text \<open>The loop along the chain: a node of that name, or a new one at its end; \<open>oldsym\<close> is a symbol to enter.\<close>

fun chain_find :: "string \<Rightarrow> (nat \<times> string) list \<Rightarrow> nat option" where
  "chain_find s [] = None"
| "chain_find s ((i, t) # r) = (if t = s then Some i else chain_find s r)"

definition dogensym :: "string \<Rightarrow> nat option \<Rightarrow> symtab \<Rightarrow> nat \<times> symtab" where
  "dogensym s oldsym T =
     (let h = bucket s; chain = symhash T ! h in
      case chain_find s chain of
        Some i \<Rightarrow> (i, T)
      | None \<Rightarrow>
          (case oldsym of
             Some old \<Rightarrow> (old, T\<lparr>symhash := (symhash T)[h := chain @ [(old, s)]]\<rparr>)
           | None \<Rightarrow>
               (next_symbol T,
                T\<lparr>symhash := (symhash T)[h := chain @ [(next_symbol T, s)]], next_symbol := Suc (next_symbol T)\<rparr>)))"

definition gensym :: "string \<Rightarrow> symtab \<Rightarrow> nat \<times> symtab" where
  "gensym s T = dogensym s None T"

text \<open>\<open>mess_init\<close> enters the symbols the program has built in, \<open>symlist\<close>; they are numbered first.\<close>

definition symlist :: "string list" where
  "symlist = [''pointer'', ''float'', ''symbol'', ''bang'', ''list'', ''anything'', ''signal'', ''#N'', ''#X'',
     ''x'', ''y'', [], ''blob'']"

fun enter_symbols :: "nat \<Rightarrow> string list \<Rightarrow> symtab \<Rightarrow> symtab" where
  "enter_symbols n [] T = T"
| "enter_symbols n (s # ss) T = enter_symbols (Suc n) ss (snd (dogensym s (Some n) T))"

definition initial_symbols :: symtab where
  "initial_symbols = enter_symbols 0 symlist \<lparr>symhash = replicate HASHSIZE [], next_symbol = length symlist\<rparr>"

section \<open>The invariant\<close>

text \<open>Every chain holds names of its bucket, each once; no two nodes have the same address.\<close>

definition entries :: "symtab \<Rightarrow> (nat \<times> string) set" where
  "entries T = (\<Union>c\<in>set (symhash T). set c)"

definition symtab_inv :: "symtab \<Rightarrow> bool" where
  "symtab_inv T \<longleftrightarrow>
     length (symhash T) = HASHSIZE \<and>
     (\<forall>h<HASHSIZE. distinct (map snd (symhash T ! h)) \<and> (\<forall>e\<in>set (symhash T ! h). bucket (snd e) = h)) \<and>
     (\<forall>e\<in>entries T. \<forall>f\<in>entries T. fst e = fst f \<longrightarrow> e = f) \<and> (\<forall>e\<in>entries T. fst e < next_symbol T)"

lemma bucket_less: "bucket s < HASHSIZE"
proof -
  have "of_nat HASHSIZE - 1 = (mask 10 :: u32)" by (simp add: mask_eq_exp_minus_1)
  then have "bucket s = unat (take_bit 10 (hash_loop 0 0 s))" by (simp add: bucket_def take_bit_eq_mask)
  then have "bucket s = take_bit 10 (unat (hash_loop 0 0 s))" by (simp only: unsigned_take_bit_eq)
  then show ?thesis by (simp add: take_bit_eq_mod)
qed

lemma chain_find_Some: "chain_find s c = Some i \<Longrightarrow> (i, s) \<in> set c"
  by (induction s c rule: chain_find.induct) (auto split: if_splits)

lemma chain_find_None: "chain_find s c = None \<longleftrightarrow> s \<notin> snd ` set c"
  by (induction s c rule: chain_find.induct) auto

text \<open>The table as the set of its entries, and the names it holds as a map: the contract of a set of symbols.\<close>

definition symbol_of :: "symtab \<Rightarrow> string \<rightharpoonup> nat" where
  "symbol_of T s = chain_find s (symhash T ! bucket s)"

lemma entries_update:
  assumes "h < length (symhash T)"
  shows "entries (T\<lparr>symhash := (symhash T)[h := symhash T ! h @ [e]], next_symbol := n\<rparr>) = insert e (entries T)"
proof -
  have "set ((symhash T)[h := symhash T ! h @ [e]]) \<supseteq> {symhash T ! h @ [e]}" using assms by (auto simp: set_update_memI)
  moreover have "entries (T\<lparr>symhash := (symhash T)[h := symhash T ! h @ [e]], next_symbol := n\<rparr>) =
      (\<Union>k<length (symhash T). set ((symhash T)[h := symhash T ! h @ [e]] ! k))"
    by (auto simp: entries_def set_conv_nth)
  moreover have "entries T = (\<Union>k<length (symhash T). set (symhash T ! k))"
    by (auto simp: entries_def set_conv_nth)
  ultimately show ?thesis using assms by (auto simp: nth_list_update split: if_splits)
qed

lemma symtab_inv_insert:
  assumes "symtab_inv T" "symbol_of T s = None" "i \<notin> fst ` entries T" "i < n" "next_symbol T \<le> n"
  shows "symtab_inv (T\<lparr>symhash := (symhash T)[bucket s := symhash T ! bucket s @ [(i, s)]], next_symbol := n\<rparr>)"
proof -
  let ?T = "T\<lparr>symhash := (symhash T)[bucket s := symhash T ! bucket s @ [(i, s)]], next_symbol := n\<rparr>"
  have len: "length (symhash T) = HASHSIZE" using assms(1) by (simp add: symtab_inv_def)
  have e: "entries ?T = insert (i, s) (entries T)" using bucket_less len by (intro entries_update) simp
  have "s \<notin> snd ` set (symhash T ! bucket s)" using assms(2) by (simp add: symbol_of_def chain_find_None)
  then have "\<forall>h<HASHSIZE. distinct (map snd (symhash ?T ! h)) \<and> (\<forall>e\<in>set (symhash ?T ! h). bucket (snd e) = h)"
    using assms(1) len bucket_less by (auto simp: symtab_inv_def nth_list_update)
  moreover have "\<forall>e\<in>entries ?T. \<forall>f\<in>entries ?T. fst e = fst f \<longrightarrow> e = f"
    using assms(1,3) unfolding e symtab_inv_def by (auto simp: image_iff)
  moreover have "\<forall>e\<in>entries ?T. fst e < next_symbol ?T"
    using assms(1,4,5) unfolding e symtab_inv_def by fastforce
  ultimately show ?thesis using len by (simp add: symtab_inv_def)
qed

lemma symbol_of_insert:
  assumes "symtab_inv T" "symbol_of T s = None"
  shows "symbol_of (T\<lparr>symhash := (symhash T)[bucket s := symhash T ! bucket s @ [(i, s)]], next_symbol := n\<rparr>) = (symbol_of T)(s \<mapsto> i)"
proof
  fix t
  have len: "length (symhash T) = HASHSIZE" using assms(1) by (simp add: symtab_inv_def)
  have app: "chain_find t (c @ [(i, s)]) = (case chain_find t c of Some j \<Rightarrow> Some j | None \<Rightarrow> if s = t then Some i else None)" for c
    by (induction t c rule: chain_find.induct) auto
  let ?c = "symhash T ! bucket s @ [(i, s)]"
  have none: "chain_find s (symhash T ! bucket s) = None" using assms(2) by (simp add: symbol_of_def)
  show "symbol_of (T\<lparr>symhash := (symhash T)[bucket s := ?c], next_symbol := n\<rparr>) t = ((symbol_of T)(s \<mapsto> i)) t"
  proof (cases "bucket t = bucket s")
    case True
    have "bucket s < length (symhash T)" unfolding len by (rule bucket_less)
    then have "symbol_of (T\<lparr>symhash := (symhash T)[bucket s := ?c], next_symbol := n\<rparr>) t = chain_find t ?c"
      unfolding symbol_of_def True by simp
    moreover have "chain_find t ?c = ((symbol_of T)(s \<mapsto> i)) t"
    proof (cases "s = t")
      case True
      with none show ?thesis unfolding app by simp
    next
      case False
      then show ?thesis unfolding app symbol_of_def \<open>bucket t = bucket s\<close> [symmetric] by (simp split: option.split)
    qed
    ultimately show ?thesis by simp
  next
    case False
    then have "s \<noteq> t" by blast
    with False show ?thesis by (simp add: symbol_of_def)
  qed
qed

lemma symbol_of_entry: "symtab_inv T \<Longrightarrow> symbol_of T s = Some i \<Longrightarrow> (i, s) \<in> entries T"
  using bucket_less [of s] nth_mem [of "bucket s" "symhash T"]
  by (auto simp: symbol_of_def entries_def symtab_inv_def dest!: chain_find_Some)

section \<open>Interning\<close>

text \<open>The contract: what is interned is found again, as the only one of its name.\<close>

locale interner =
  fixes intern :: "string \<Rightarrow> 't \<Rightarrow> nat \<times> 't" and lookup :: "'t \<Rightarrow> string \<rightharpoonup> nat" and ok :: "'t \<Rightarrow> bool"
  assumes intern_ok: "ok T \<Longrightarrow> ok (snd (intern s T))"
    and intern_lookup: "ok T \<Longrightarrow> lookup (snd (intern s T)) = (lookup T)(s \<mapsto> fst (intern s T))"
    and intern_known: "ok T \<Longrightarrow> lookup T s = Some i \<Longrightarrow> fst (intern s T) = i"
    and lookup_inj: "ok T \<Longrightarrow> lookup T s = Some i \<Longrightarrow> lookup T t = Some i \<Longrightarrow> s = t"
begin

lemma intern_keeps: "ok T \<Longrightarrow> lookup T r = Some k \<Longrightarrow> lookup (snd (intern s T)) r = Some k"
  using intern_known by (auto simp: intern_lookup)

lemma intern_all:
  "ok T \<Longrightarrow> lookup T r = Some k \<Longrightarrow> ok (fold (\<lambda>s T. snd (intern s T)) ss T) \<and> lookup (fold (\<lambda>s T. snd (intern s T)) ss T) r = Some k"
  by (induction ss arbitrary: T) (auto simp: intern_ok intern_keeps)

lemma intern_eq_iff:
  assumes "ok T"
  shows "fst (intern t (fold (\<lambda>s T. snd (intern s T)) ss (snd (intern s T)))) = fst (intern s T) \<longleftrightarrow> t = s"
proof -
  define T1 where "T1 = snd (intern s T)"
  define T2 where "T2 = fold (\<lambda>s T. snd (intern s T)) ss T1"
  have "ok T1" "lookup T1 s = Some (fst (intern s T))" using assms(1) by (simp_all add: T1_def intern_ok intern_lookup)
  from intern_all [OF this, of ss] have T2: "ok T2" "lookup T2 s = Some (fst (intern s T))" by (simp_all add: T2_def)
  have T3: "ok (snd (intern t T2))" "lookup (snd (intern t T2)) s = Some (fst (intern s T))"
    "lookup (snd (intern t T2)) t = Some (fst (intern t T2))"
    using intern_ok [OF T2(1)] intern_keeps [OF T2] intern_lookup [OF T2(1)] by simp_all
  show ?thesis unfolding T1_def [symmetric] T2_def [symmetric] using lookup_inj [OF T3(1)] T3(2,3) intern_known [OF T2] by auto
qed

end

interpretation symbols: interner gensym symbol_of symtab_inv
proof
  fix T s i t
  assume ok: "symtab_inv T"
  have fresh: "next_symbol T \<notin> fst ` entries T" using ok by (force simp: symtab_inv_def)
  have new: "symbol_of T s = None \<Longrightarrow> gensym s T = (next_symbol T,
      T\<lparr>symhash := (symhash T)[bucket s := symhash T ! bucket s @ [(next_symbol T, s)]], next_symbol := Suc (next_symbol T)\<rparr>)"
    by (simp add: gensym_def dogensym_def symbol_of_def Let_def)
  have old: "symbol_of T s = Some j \<Longrightarrow> gensym s T = (j, T)" for j
    by (simp add: gensym_def dogensym_def symbol_of_def Let_def)
  show "symtab_inv (snd (gensym s T))"
    using ok old new symtab_inv_insert [OF ok _ fresh] by (cases "symbol_of T s") auto
  show "symbol_of (snd (gensym s T)) = (symbol_of T)(s \<mapsto> fst (gensym s T))"
    using old new symbol_of_insert [OF ok] by (cases "symbol_of T s") (auto simp: fun_upd_idem)
  show "symbol_of T s = Some i \<Longrightarrow> fst (gensym s T) = i" using old by simp
  assume "symbol_of T s = Some i" "symbol_of T t = Some i"
  then have "(i, s) \<in> entries T" "(i, t) \<in> entries T" using symbol_of_entry [OF ok] by blast+
  then show "s = t" using ok unfolding symtab_inv_def by fastforce
qed

lemma enter_symbols_inv:
  "symtab_inv T \<Longrightarrow> (\<And>e. e \<in> entries T \<Longrightarrow> fst e < n) \<Longrightarrow> n + length ss \<le> next_symbol T \<Longrightarrow> symtab_inv (enter_symbols n ss T)"
proof (induction ss arbitrary: n T)
  case (Cons s ss)
  let ?T = "snd (dogensym s (Some n) T)"
  show ?case
  proof (cases "symbol_of T s")
    case None
    let ?U = "T\<lparr>symhash := (symhash T)[bucket s := symhash T ! bucket s @ [(n, s)]], next_symbol := next_symbol T\<rparr>"
    have T: "?T = ?U" using None by (simp add: dogensym_def symbol_of_def Let_def)
    have "symtab_inv ?U" using Cons.prems None by (intro symtab_inv_insert) force+
    moreover have "bucket s < length (symhash T)" using Cons.prems(1) bucket_less by (simp add: symtab_inv_def)
    then have "entries ?U = insert (n, s) (entries T)" by (rule entries_update)
    then have "fst e < Suc n" if "e \<in> entries ?U" for e using that Cons.prems(2) [of e] by auto
    ultimately have "symtab_inv (enter_symbols (Suc n) ss ?U)" using Cons.prems(3) by (intro Cons.IH) simp_all
    then show ?thesis by (simp add: T)
  next
    case (Some i)
    then have "?T = T" by (simp add: dogensym_def symbol_of_def Let_def)
    then show ?thesis using Cons.prems Cons.IH [of T "Suc n"] by (simp add: less_SucI)
  qed
qed simp

lemma initial_symbols_inv: "symtab_inv initial_symbols"
  unfolding initial_symbols_def
  by (rule enter_symbols_inv) (auto simp: symtab_inv_def entries_def symlist_def)

text \<open>C16: two strings have the same symbol exactly when they are equal, whatever other symbols are made in between.\<close>

theorem gensym_eq:
  assumes "symtab_inv T" "gensym s T = (i, T1)"
    and "gensym t (fold (\<lambda>r T. snd (gensym r T)) rs T1) = (j, T2)"
  shows "i = j \<longleftrightarrow> s = t"
  using symbols.intern_eq_iff [OF assms(1), of t rs s] assms(2,3) by auto

theorem gensym_eq_witness:
  "\<exists>i T1 j T2. gensym ''foo'' initial_symbols = (i, T1) \<and>
    gensym ''list'' (fold (\<lambda>r T. snd (gensym r T)) [''bar'', ''float''] T1) = (j, T2) \<and> i \<noteq> j"
proof -
  obtain i T1 where s: "gensym ''foo'' initial_symbols = (i, T1)" by (rule prod.exhaust)
  obtain j T2 where t: "gensym ''list'' (fold (\<lambda>r T. snd (gensym r T)) [''bar'', ''float''] T1) = (j, T2)" by (rule prod.exhaust)
  have "(''foo'' :: string) \<noteq> ''list''" by simp
  with gensym_eq [OF initial_symbols_inv s t] s t show ?thesis by blast
qed

end
