(* ===== verification/Alist.thy ===== *)
theory Alist
  imports GpointerSafe
begin

text \<open>
  Stored lists and the \<open>list\<close> objects, \<open>src/pd/src/x_list.c\<close>. An element of a stored list holds an atom and
  room for a gpointer: a pointer atom is made to point at the gpointer next to it, so that it keeps its stub
  alive, and it has to be redirected whenever the elements move in memory. The elements are in an explicit
  memory: element \<open>i\<close> of the vector at \<open>v\<close> has its atom at \<open>latom M (v + i)\<close> and its gpointer at \<open>v + i\<close>
  in the memory of theory Gpointer. Where memory is asked for, the address the allocator answers is an argument
  (0 when there is none left); a read outside the vector has no result. What objects send is
  recorded in order, pointers with what they point to; other objects run while a message is sent
  are not modelled.
\<close>

section \<open>Stored lists\<close>

record amem =
  gm :: gmem
  latom :: "nat \<Rightarrow> atom"

record alist =
  l_n :: nat
  l_npointer :: int
  l_vec :: nat

abbreviation zero_gp :: gpointer where "zero_gp \<equiv> \<lparr>gp_un = 0, gp_valid = 0, gp_stub = 0\<rparr>"

text \<open>A vector of \<open>n\<close> elements, cleared.\<close>

definition zero_elems :: "nat \<Rightarrow> nat \<Rightarrow> amem \<Rightarrow> amem" where
  "zero_elems v n M =
     M\<lparr>gm := (gm M)\<lparr>gptr := (\<lambda>p. if v \<le> p \<and> p < v + n then zero_gp else gptr (gm M) p)\<rparr>,
       latom := (\<lambda>p. if v \<le> p \<and> p < v + n then A_NULL else latom M p)\<rparr>"

text \<open>\<open>memmove\<close> of \<open>n\<close> elements, atoms and gpointers alike.\<close>

definition move_elems :: "nat \<Rightarrow> nat \<Rightarrow> nat \<Rightarrow> amem \<Rightarrow> amem" where
  "move_elems dst src n M =
     M\<lparr>gm := (gm M)\<lparr>gptr := (\<lambda>p. if dst \<le> p \<and> p < dst + n then gptr (gm M) (src + (p - dst)) else gptr (gm M) p)\<rparr>,
       latom := (\<lambda>p. if dst \<le> p \<and> p < dst + n then latom M (src + (p - dst)) else latom M p)\<rparr>"

definition resize_elems :: "nat \<Rightarrow> nat \<Rightarrow> nat \<Rightarrow> nat \<Rightarrow> amem \<Rightarrow> amem" where
  "resize_elems nv v n n' M = zero_elems (nv + n) (n' - n) (move_elems nv v (min n n') M)"

text \<open>An atom is put into the element at \<open>p\<close>; the gpointer of a pointer atom is copied next to it.\<close>

definition put_elem :: "nat \<Rightarrow> atom \<Rightarrow> amem \<Rightarrow> (amem \<times> int) option" where
  "put_elem p a M =
     (case a of
        A_POINTER q \<Rightarrow>
          map_option (\<lambda>G. (M\<lparr>gm := G, latom := (latom M)(p := A_POINTER p)\<rparr>, 1)) (gpointer_copy (gptr (gm M) q) p (gm M))
      | _ \<Rightarrow> Some (M\<lparr>latom := (latom M)(p := a)\<rparr>, 0))"

text \<open>The atoms go to the elements from \<open>p\<close> on; the pointers among them are counted.\<close>

fun put_elems :: "nat \<Rightarrow> atom list \<Rightarrow> amem \<Rightarrow> (amem \<times> int) option" where
  "put_elems p [] M = Some (M, 0)"
| "put_elems p (a # as) M =
     Option.bind (put_elem p a M) (\<lambda>(M1, k). map_option (\<lambda>(M2, n). (M2, k + n)) (put_elems (Suc p) as M1))"

fun unset_elems :: "nat \<Rightarrow> nat \<Rightarrow> amem \<Rightarrow> amem option" where
  "unset_elems p 0 M = Some M"
| "unset_elems p (Suc n) M =
     (case latom M p of
        A_POINTER q \<Rightarrow> Option.bind (gpointer_unset q (gm M)) (\<lambda>G. unset_elems (Suc p) n (M\<lparr>gm := G\<rparr>))
      | _ \<Rightarrow> unset_elems (Suc p) n M)"

definition alist_init :: alist where
  "alist_init = \<lparr>l_n = 0, l_npointer = 0, l_vec = 0\<rparr>"

definition alist_clear :: "alist \<Rightarrow> amem \<Rightarrow> amem option" where
  "alist_clear x M = unset_elems (l_vec x) (l_n x) M"

definition alist_copyin :: "alist \<Rightarrow> atom list \<Rightarrow> nat \<Rightarrow> amem \<Rightarrow> (alist \<times> amem) option" where
  "alist_copyin x argv wher M =
     map_option (\<lambda>(M', k). (x\<lparr>l_npointer := l_npointer x + k\<rparr>, M')) (put_elems (l_vec x + wher) argv M)"

definition alist_list :: "nat \<Rightarrow> atom list \<Rightarrow> alist \<Rightarrow> amem \<Rightarrow> (alist \<times> amem) option" where
  "alist_list nv argv x M =
     Option.bind (alist_clear x M) (\<lambda>M1.
       if nv = 0 then Some (x\<lparr>l_n := 0, l_vec := 0\<rparr>, M1)
       else map_option (\<lambda>(M2, k). (\<lparr>l_n = length argv, l_npointer = k, l_vec = nv\<rparr>, M2))
              (put_elems nv argv (zero_elems nv (length argv) M1)))"

definition alist_anything :: "nat \<Rightarrow> symbol \<Rightarrow> atom list \<Rightarrow> alist \<Rightarrow> amem \<Rightarrow> (alist \<times> amem) option" where
  "alist_anything nv s argv x M =
     Option.bind (alist_clear x M) (\<lambda>M1.
       if nv = 0 then Some (x\<lparr>l_n := 0, l_vec := 0\<rparr>, M1)
       else let M2 = zero_elems nv (length argv + 1) M1; M3 = M2\<lparr>latom := (latom M2)(nv := A_SYMBOL s)\<rparr> in
            map_option (\<lambda>(M4, k). (\<lparr>l_n = length argv + 1, l_npointer = k, l_vec = nv\<rparr>, M4))
              (put_elems (nv + 1) argv M3))"

definition alist_toatoms :: "alist \<Rightarrow> nat \<Rightarrow> nat \<Rightarrow> amem \<Rightarrow> atom list option" where
  "alist_toatoms x onset count M =
     (if onset + count \<le> l_n x then Some (map (\<lambda>i. latom M (l_vec x + onset + i)) [0..<count]) else None)"

definition alist_clone :: "nat \<Rightarrow> alist \<Rightarrow> nat \<Rightarrow> nat \<Rightarrow> amem \<Rightarrow> (alist \<times> amem) option" where
  "alist_clone nv x onset count M =
     (if nv = 0 then Some (\<lparr>l_n = 0, l_npointer = 0, l_vec = 0\<rparr>, M)
      else Option.bind (alist_toatoms x onset count M) (\<lambda>as.
        map_option (\<lambda>(M1, k). (\<lparr>l_n = count, l_npointer = k, l_vec = nv\<rparr>, M1))
          (put_elems nv as (zero_elems nv count M))))"

text \<open>Pointer atoms are made to point at the gpointers next to them.\<close>

definition alist_restore_gpointers :: "alist \<Rightarrow> nat \<Rightarrow> nat \<Rightarrow> amem \<Rightarrow> amem" where
  "alist_restore_gpointers x offset count M =
     M\<lparr>latom := (\<lambda>p. if l_vec x + offset \<le> p \<and> p < l_vec x + offset + count
                       then (case latom M p of A_POINTER q \<Rightarrow> A_POINTER p | a \<Rightarrow> a) else latom M p)\<rparr>"

section \<open>What list objects send\<close>

datatype val = V_atom atom | V_ptr gpointer

definition see :: "amem \<Rightarrow> atom \<Rightarrow> val" where
  "see M a = (case a of A_POINTER p \<Rightarrow> V_ptr (gptr (gm M) p) | _ \<Rightarrow> V_atom a)"

text \<open>Outlets are numbered from the left; \<open>L_send\<close> goes to a named receiver.\<close>

datatype lout =
    L_list nat "val list"
  | L_anything nat symbol "val list"
  | L_float nat t_float
  | L_symbol nat symbol
  | L_bang nat
  | L_send symbol "val list"
  | L_error string

type_synonym 'x lres = "('x \<times> amem \<times> lout list) option"

text \<open>
  The pattern of all list objects that send a stored list: with pointers in it a copy is made, sent from,
  and cleared again; without, the atoms are read directly.
\<close>

definition with_atoms :: "nat \<Rightarrow> alist \<Rightarrow> nat \<Rightarrow> nat \<Rightarrow> amem \<Rightarrow> (atom list \<Rightarrow> amem \<Rightarrow> 'x lres) \<Rightarrow> 'x lres" where
  "with_atoms nv x onset count M k =
     (if l_npointer x \<noteq> 0 then
        Option.bind (alist_clone nv x onset count M) (\<lambda>(y, M1).
        Option.bind (alist_toatoms y 0 count M1) (\<lambda>as.
        Option.bind (k as M1) (\<lambda>(r, M2, outs).
        map_option (\<lambda>M3. (r, M3, outs)) (alist_clear y M2))))
      else Option.bind (alist_toatoms x onset count M) (\<lambda>as. k as M))"

definition list_append_list :: "nat \<Rightarrow> atom list \<Rightarrow> alist \<Rightarrow> amem \<Rightarrow> alist lres" where
  "list_append_list nv argv x M =
     with_atoms nv x 0 (l_n x) M (\<lambda>as M1. Some (x, M1, [L_list 0 (map (see M1) (argv @ as))]))"

definition list_append_anything :: "nat \<Rightarrow> symbol \<Rightarrow> atom list \<Rightarrow> alist \<Rightarrow> amem \<Rightarrow> alist lres" where
  "list_append_anything nv s argv x M =
     with_atoms nv x 0 (l_n x) M (\<lambda>as M1. Some (x, M1, [L_list 0 (map (see M1) (A_SYMBOL s # argv @ as))]))"

definition list_prepend_list :: "nat \<Rightarrow> atom list \<Rightarrow> alist \<Rightarrow> amem \<Rightarrow> alist lres" where
  "list_prepend_list nv argv x M =
     with_atoms nv x 0 (l_n x) M (\<lambda>as M1. Some (x, M1, [L_list 0 (map (see M1) (as @ argv))]))"

definition list_prepend_anything :: "nat \<Rightarrow> symbol \<Rightarrow> atom list \<Rightarrow> alist \<Rightarrow> amem \<Rightarrow> alist lres" where
  "list_prepend_anything nv s argv x M =
     with_atoms nv x 0 (l_n x) M (\<lambda>as M1. Some (x, M1, [L_list 0 (map (see M1) (as @ A_SYMBOL s # argv))]))"

text \<open>\<open>list cat\<close> stores what it sends, in a vector at \<open>nv'\<close>.\<close>

definition list_cat_list :: "nat \<Rightarrow> nat \<Rightarrow> atom list \<Rightarrow> alist \<Rightarrow> amem \<Rightarrow> alist lres" where
  "list_cat_list nv nv' argv x M =
     with_atoms nv x 0 (l_n x) M (\<lambda>as M1.
       map_option (\<lambda>(x', M2). (x', M2, [L_list 0 (map (see M2) (as @ argv))])) (alist_list nv' (as @ argv) x M1))"

definition list_cat_anything :: "nat \<Rightarrow> nat \<Rightarrow> symbol \<Rightarrow> atom list \<Rightarrow> alist \<Rightarrow> amem \<Rightarrow> alist lres" where
  "list_cat_anything nv nv' s argv x M =
     with_atoms nv x 0 (l_n x) M (\<lambda>as M1.
       map_option (\<lambda>(x', M2). (x', M2, [L_list 0 (map (see M2) (as @ A_SYMBOL s # argv))]))
         (alist_list nv' (as @ A_SYMBOL s # argv) x M1))"

definition list_cat_clear :: "alist \<Rightarrow> amem \<Rightarrow> alist lres" where
  "list_cat_clear x M = map_option (\<lambda>M1. (alist_init, M1, [])) (alist_clear x M)"

section \<open>The list store\<close>

definition list_store_send :: "(symbol \<Rightarrow> bool) \<Rightarrow> nat \<Rightarrow> symbol \<Rightarrow> alist \<Rightarrow> amem \<Rightarrow> alist lres" where
  "list_store_send s_thing nv s x M =
     (if \<not> s_thing s then Some (x, M, [L_error ''no such object''])
      else with_atoms nv x 0 (l_n x) M (\<lambda>as M1. Some (x, M1, [L_send s (map (see M1) as)])))"

definition list_store_list :: "nat \<Rightarrow> atom list \<Rightarrow> alist \<Rightarrow> amem \<Rightarrow> alist lres" where
  "list_store_list nv argv x M =
     with_atoms nv x 0 (l_n x) M (\<lambda>as M1. Some (x, M1, [L_list 0 (map (see M1) (argv @ as))]))"

definition list_store_doinsert :: "nat \<Rightarrow> atom list \<Rightarrow> nat \<Rightarrow> alist \<Rightarrow> amem \<Rightarrow> alist lres" where
  "list_store_doinsert nv argv index x M =
     (let n = l_n x; argc = length argv; M1 = resize_elems nv (l_vec x) n (n + argc) M; x1 = x\<lparr>l_vec := nv\<rparr> in
      if nv = 0 then Some (x\<lparr>l_n := 0, l_vec := 0\<rparr>, M, [L_error ''out of memory''])
      else
        let M2 = (if nv \<noteq> l_vec x \<and> l_npointer x \<noteq> 0 then alist_restore_gpointers x1 0 n M1 else M1);
            M3 = (if index < n then
                    (let M' = move_elems (nv + index + argc) (nv + index) (n - index) M2 in
                     if l_npointer x \<noteq> 0 then alist_restore_gpointers x1 (index + argc) (n - index) M' else M')
                  else M2) in
        map_option (\<lambda>(x2, M4). (x2\<lparr>l_n := n + argc\<rparr>, M4, [])) (alist_copyin x1 argv index M3))"

definition list_store_insert :: "nat \<Rightarrow> atom list \<Rightarrow> alist \<Rightarrow> amem \<Rightarrow> alist lres" where
  "list_store_insert nv argv x M =
     (case argv of
        a # b # rest \<Rightarrow>
          let index = int_of_float (atom_getfloat a) in
          if index < 0 then Some (x, M, [L_error ''index out of range''])
          else list_store_doinsert nv (b # rest) (if index > int (l_n x) then l_n x else nat index) x M
      | _ \<Rightarrow> Some (x, M, []))"

definition list_store_append :: "nat \<Rightarrow> atom list \<Rightarrow> alist \<Rightarrow> amem \<Rightarrow> alist lres" where
  "list_store_append nv argv x M = list_store_doinsert nv argv (l_n x) x M"

definition list_store_prepend :: "nat \<Rightarrow> atom list \<Rightarrow> alist \<Rightarrow> amem \<Rightarrow> alist lres" where
  "list_store_prepend nv argv x M = list_store_doinsert nv argv 0 x M"

text \<open>The deleted elements' pointers are unset, and counted off.\<close>

fun unset_count :: "nat \<Rightarrow> nat \<Rightarrow> amem \<Rightarrow> (amem \<times> int) option" where
  "unset_count p 0 M = Some (M, 0)"
| "unset_count p (Suc n) M =
     (case latom M p of
        A_POINTER q \<Rightarrow> Option.bind (gpointer_unset q (gm M)) (\<lambda>G.
          map_option (\<lambda>(M', k). (M', k + 1)) (unset_count (Suc p) n (M\<lparr>gm := G\<rparr>)))
      | _ \<Rightarrow> unset_count (Suc p) n M)"

definition list_store_delete :: "nat \<Rightarrow> t_float \<Rightarrow> t_float \<Rightarrow> alist \<Rightarrow> amem \<Rightarrow> alist lres" where
  "list_store_delete nv f1 f2 x M =
     (let index = int_of_float f1; n0 = int_of_float f2; max = int (l_n x) - index;
          n = (if n0 = 0 then 1 else if n0 < 0 \<or> max < n0 then max else n0) in
      if index < 0 \<or> int (l_n x) \<le> index then Some (x, M, [L_error ''index out of range''])
      else
        let i = nat index; k = nat n; rest = l_n x - i - k in
        Option.bind (if l_npointer x \<noteq> 0 then unset_count (l_vec x + i) k M else Some (M, 0)) (\<lambda>(M1, c).
        let M2 = move_elems (l_vec x + i) (l_vec x + i + k) rest M1;
            M3 = resize_elems nv (l_vec x) (l_n x) (l_n x - k) M2;
            x1 = \<lparr>l_n = l_n x, l_npointer = l_npointer x - c, l_vec = nv\<rparr> in
        if nv = 0 then Some (\<lparr>l_n = 0, l_npointer = l_npointer x - c, l_vec = 0\<rparr>, M2, [L_error ''out of memory''])
        else Some (x1\<lparr>l_n := l_n x - k\<rparr>,
               (if l_npointer x1 \<noteq> 0 then
                  (if nv \<noteq> l_vec x then alist_restore_gpointers x1 0 (l_n x - k) M3
                   else alist_restore_gpointers x1 i rest M3)
                else M3), [])))"

text \<open>\<open>onset + outc\<close> is computed in 32 bits.\<close>

definition list_store_get :: "nat \<Rightarrow> t_float \<Rightarrow> t_float \<Rightarrow> alist \<Rightarrow> amem \<Rightarrow> alist lres" where
  "list_store_get nv f1 f2 x M =
     (let onset = int_of_float f1; outc0 = int_of_float f2;
          outc = (if outc0 = 0 then 1 else if outc0 < 0 then int_cast (int (l_n x) - onset) else outc0) in
      if outc0 < 0 \<and> outc \<le> 0 then Some (x, M, [L_bang 1])
      else if onset < 0 \<or> int (l_n x) < int_cast (onset + outc) then Some (x, M, [L_bang 1])
      else with_atoms nv x (nat onset) (nat outc) M (\<lambda>as M1. Some (x, M1, [L_list 0 (map (see M1) as)])))"

definition list_store_set :: "atom list \<Rightarrow> alist \<Rightarrow> amem \<Rightarrow> alist lres" where
  "list_store_set argv x M =
     (case argv of
        a # b # rest \<Rightarrow>
          let onset = int_of_float (atom_getfloat a) in
          if onset < 0 \<or> int (l_n x) \<le> onset then Some (x, M, [L_error ''index out of range''])
          else let m = l_n x - nat onset; n = (if m < length (b # rest) then m else length (b # rest)) in
               map_option (\<lambda>(x', M'). (x', M', [])) (alist_copyin x (take n (b # rest)) (nat onset) M)
      | _ \<Rightarrow> Some (x, M, []))"

section \<open>The other list objects\<close>

text \<open>\<open>x_f\<close> is the split point, which the right inlet sets; the right half goes out first.\<close>

definition list_split_list :: "t_float \<Rightarrow> atom list \<Rightarrow> amem \<Rightarrow> lout list" where
  "list_split_list x_f argv M =
     (let n = nat (int_of_float x_f) in
      if n \<le> length argv then [L_list 1 (map (see M) (drop n argv)), L_list 0 (map (see M) (take n argv))]
      else [L_list 2 (map (see M) argv)])"

definition list_split_anything :: "t_float \<Rightarrow> symbol \<Rightarrow> atom list \<Rightarrow> amem \<Rightarrow> lout list" where
  "list_split_anything x_f s argv M = list_split_list x_f (A_SYMBOL s # argv) M"

definition list_trim_list :: "atom list \<Rightarrow> amem \<Rightarrow> lout list" where
  "list_trim_list argv M =
     (case argv of A_SYMBOL s # rest \<Rightarrow> [L_anything 0 s (map (see M) rest)] | _ \<Rightarrow> [L_list 0 (map (see M) argv)])"

definition list_trim_anything :: "symbol \<Rightarrow> atom list \<Rightarrow> amem \<Rightarrow> lout list" where
  "list_trim_anything s argv M = [L_anything 0 s (map (see M) argv)]"

definition list_length_list :: "atom list \<Rightarrow> lout list" where
  "list_length_list argv = [L_float 0 (float_of_int (int (length argv)))]"

definition list_length_anything :: "atom list \<Rightarrow> lout list" where
  "list_length_anything argv =
     [L_float 0 (case float_of_int (int (length argv)) of FFin r \<Rightarrow> to_single False (r + 1) | f \<Rightarrow> f)]"

definition list_fromsymbol_symbol :: "symbol \<Rightarrow> lout list" where
  "list_fromsymbol_symbol s = [L_list 0 (map (\<lambda>c. V_atom (A_FLOAT (FFin (of_nat (code c))))) s)]"

text \<open>A float becomes a character through an integer, whose low byte counts; the symbol ends at the first NUL.\<close>

definition list_tosymbol_list :: "atom list \<Rightarrow> lout list" where
  "list_tosymbol_list argv =
     [L_symbol 0 (cstr (map (\<lambda>i. char_of (nat (int_of_float (atom_getfloatarg i argv) mod 256))) [0..<length argv]))]"

section \<open>Making list objects\<close>

datatype listobj =
    List_append alist
  | List_cat alist
  | List_prepend alist
  | List_store alist
  | List_split t_float
  | List_trim
  | List_length
  | List_fromsymbol
  | List_tosymbol

definition list_append_new :: "nat \<Rightarrow> atom list \<Rightarrow> amem \<Rightarrow> (listobj \<times> amem) option" where
  "list_append_new nv argv M = map_option (\<lambda>(x, M'). (List_append x, M')) (alist_list nv argv alist_init M)"

definition list_prepend_new :: "nat \<Rightarrow> atom list \<Rightarrow> amem \<Rightarrow> (listobj \<times> amem) option" where
  "list_prepend_new nv argv M = map_option (\<lambda>(x, M'). (List_prepend x, M')) (alist_list nv argv alist_init M)"

definition list_store_new :: "nat \<Rightarrow> atom list \<Rightarrow> amem \<Rightarrow> (listobj \<times> amem) option" where
  "list_store_new nv argv M = map_option (\<lambda>(x, M'). (List_store x, M')) (alist_list nv argv alist_init M)"

text \<open>\<open>list_new\<close>: the first argument names the kind; \<open>Inl\<close> is the error for an unknown one.\<close>

definition list_new :: "nat \<Rightarrow> atom list \<Rightarrow> amem \<Rightarrow> (symbol + listobj \<times> amem) option" where
  "list_new nv argv M =
     (case argv of
        A_SYMBOL s2 # rest \<Rightarrow>
          if s2 = ''append'' then map_option Inr (list_append_new nv rest M)
          else if s2 = ''cat'' then Some (Inr (List_cat alist_init, M))
          else if s2 = ''prepend'' then map_option Inr (list_prepend_new nv rest M)
          else if s2 = ''split'' then Some (Inr (List_split (atom_getfloatarg 1 argv), M))
          else if s2 = ''trim'' then Some (Inr (List_trim, M))
          else if s2 = ''length'' then Some (Inr (List_length, M))
          else if s2 = ''fromsymbol'' then Some (Inr (List_fromsymbol, M))
          else if s2 = ''tosymbol'' then Some (Inr (List_tosymbol, M))
          else if s2 = ''store'' then map_option Inr (list_store_new nv rest M)
          else Some (Inl s2)
      | _ \<Rightarrow> map_option Inr (list_append_new nv argv M))"

text \<open>What happens to the stored list when the object is freed.\<close>

definition list_free :: "listobj \<Rightarrow> amem \<Rightarrow> amem option" where
  "list_free ob M =
     (case ob of
        List_append x \<Rightarrow> alist_clear x M
      | List_cat x \<Rightarrow> alist_clear x M
      | List_prepend x \<Rightarrow> alist_clear x M
      | List_store x \<Rightarrow> alist_clear x M
      | _ \<Rightarrow> Some M)"

end
