(* ===== verification/AlistSpec.thy ===== *)
theory AlistSpec
  imports Alist
begin

text \<open>
  Stored lists seen as lists of values. \<open>alist_ok\<close> is the invariant (each pointer element points at its own
  gpointer, the pointers are counted, the stubs count the gpointers of the list and those in use elsewhere),
  \<open>alist_abs\<close> the abstraction; one lemma per operation shows that it keeps the one and does to the other what
  its message means (\<open>sop_spec\<close>), wherever the allocator puts the vector, and \<open>list_store_refines\<close>
  puts sequences of messages together.
\<close>

section \<open>The values of the elements\<close>

text \<open>
  \<open>elem_val M p\<close> is the value of the element at \<open>p\<close>, a pointer taken from the gpointer next to the atom;
  where the atoms of a vector point at their own gpointers (\<open>own\<close>) it is what a reader of the atom sees.
\<close>

definition elem_val :: "amem \<Rightarrow> nat \<Rightarrow> val" where
  "elem_val M p = (case latom M p of A_POINTER q \<Rightarrow> V_ptr (gptr (gm M) p) | a \<Rightarrow> V_atom a)"

definition vals :: "nat \<Rightarrow> nat \<Rightarrow> amem \<Rightarrow> val list" where
  "vals v n M = map (elem_val M) [v..<v + n]"

definition own :: "nat \<Rightarrow> nat \<Rightarrow> amem \<Rightarrow> bool" where
  "own v n M \<longleftrightarrow> (\<forall>p q. v \<le> p \<and> p < v + n \<and> latom M p = A_POINTER q \<longrightarrow> q = p)"

definition vrefs :: "val list \<Rightarrow> nat \<Rightarrow> nat" where
  "vrefs vs s = length (filter (\<lambda>w. case w of V_ptr g \<Rightarrow> gp_stub g = s | _ \<Rightarrow> False) vs)"

definition vptrs :: "val list \<Rightarrow> nat" where
  "vptrs vs = length (filter (\<lambda>w. case w of V_ptr g \<Rightarrow> True | _ \<Rightarrow> False) vs)"

lemma vrefs_simps [simp]:
  "vrefs [] s = 0" "vrefs (us @ vs) s = vrefs us s + vrefs vs s"
  "vrefs (V_ptr g # vs) s = (if gp_stub g = s then Suc (vrefs vs s) else vrefs vs s)" "vrefs (V_atom a # vs) s = vrefs vs s"
  by (simp_all add: vrefs_def)

lemma vptrs_simps [simp]:
  "vptrs [] = 0" "vptrs (us @ vs) = vptrs us + vptrs vs" "vptrs (V_ptr g # vs) = Suc (vptrs vs)"
  "vptrs (V_atom a # vs) = vptrs vs"
  by (simp_all add: vptrs_def)

lemma vals_length [simp]: "length (vals v n M) = n"
  by (simp add: vals_def)

lemma vals_0 [simp]: "vals v 0 M = []"
  by (simp add: vals_def)

lemma vals_Suc: "vals v (Suc n) M = elem_val M v # vals (Suc v) n M"
  by (simp add: vals_def upt_conv_Cons del: upt_Suc)

lemma vals_add: "vals v (m + n) M = vals v m M @ vals (v + m) n M"
proof -
  have "[v..<v + (m + n)] = [v..<v + m] @ [v + m..<v + m + n]"
    using upt_add_eq_append [of v "v + m" n] by (simp add: add.assoc)
  then show ?thesis by (simp add: vals_def)
qed

lemma elem_val_cong: "latom M' p = latom M p \<Longrightarrow> gptr (gm M') p = gptr (gm M) p \<Longrightarrow> elem_val M' p = elem_val M p"
  by (cases "latom M p") (simp_all add: elem_val_def)

lemma vals_cong:
  "(\<And>p. v \<le> p \<Longrightarrow> p < v + n \<Longrightarrow> latom M' p = latom M p \<and> gptr (gm M') p = gptr (gm M) p) \<Longrightarrow> vals v n M' = vals v n M"
  unfolding vals_def by (rule map_cong [OF refl], rule elem_val_cong) auto

lemma vptrs_cong: "latom M' = latom M \<Longrightarrow> vptrs (vals v n M') = vptrs (vals v n M)"
proof (induction n arbitrary: v)
  case (Suc n)
  then show ?case by (cases "latom M v") (simp_all add: vals_Suc elem_val_def)
qed simp

lemma own_cong: "(\<And>p. v \<le> p \<Longrightarrow> p < v + n \<Longrightarrow> latom M' p = latom M p) \<Longrightarrow> own v n M' = own v n M"
  by (auto simp: own_def)

lemma own_add: "own v (m + n) M \<longleftrightarrow> own v m M \<and> own (v + m) n M"
proof
  assume o: "own v (m + n) M"
  show "own v m M \<and> own (v + m) n M"
    unfolding own_def
  proof (intro conjI allI impI)
    fix p q assume "v \<le> p \<and> p < v + m \<and> latom M p = A_POINTER q"
    then show "q = p" using o unfolding own_def by (meson add_strict_left_mono order_less_le_trans le_add1 nat_add_left_cancel_le)
  next
    fix p q assume "v + m \<le> p \<and> p < v + m + n \<and> latom M p = A_POINTER q"
    then show "q = p" using o unfolding own_def by (metis add.assoc add_leD1)
  qed
next
  assume "own v m M \<and> own (v + m) n M"
  then show "own v (m + n) M" unfolding own_def by (metis add.assoc not_le)
qed

lemma own_Suc: "own v (Suc n) M \<longleftrightarrow> (\<forall>q. latom M v = A_POINTER q \<longrightarrow> q = v) \<and> own (Suc v) n M"
proof -
  have "v \<le> p \<and> p < v + 1 \<longleftrightarrow> p = v" for p by auto
  then have "own v 1 M \<longleftrightarrow> (\<forall>q. latom M v = A_POINTER q \<longrightarrow> q = v)" unfolding own_def by metis
  then show ?thesis using own_add [of v 1 n M] by simp
qed

lemma own_vptrs0: "vptrs (vals v n M) = 0 \<Longrightarrow> own v n M"
proof (induction n arbitrary: v)
  case 0 show ?case by (simp add: own_def)
next
  case (Suc n)
  then show ?case by (auto simp: own_Suc vals_Suc elem_val_def split: atom.splits)
qed

lemma see_own: "own v n M \<Longrightarrow> v \<le> p \<Longrightarrow> p < v + n \<Longrightarrow> see M (latom M p) = elem_val M p"
  by (auto simp: own_def see_def elem_val_def split: atom.splits)

lemma map_see_own: "own v n M \<Longrightarrow> map (\<lambda>i. see M (latom M (v + i))) [0..<n] = vals v n M"
  by (auto simp: vals_def see_own intro!: nth_equalityI)

lemma put_elem_other [simp]: "(\<forall>q. a \<noteq> A_POINTER q) \<Longrightarrow> put_elem p a M = Some (M\<lparr>latom := (latom M)(p := a)\<rparr>, 0)"
  by (auto simp: put_elem_def split: atom.splits)

section \<open>Filling and clearing a vector\<close>

text \<open>The pointers among atoms that come from outside point at gpointers which keep their stubs alive.\<close>

definition atoms_ok :: "(nat \<Rightarrow> nat) \<Rightarrow> nat \<Rightarrow> nat \<Rightarrow> atom list \<Rightarrow> amem \<Rightarrow> bool" where
  "atoms_ok R p n as M \<longleftrightarrow>
     (\<forall>q. A_POINTER q \<in> set as \<longrightarrow> \<not> (p \<le> q \<and> q < p + n) \<and> gp_stub (gptr (gm M) q) \<noteq> 0 \<and> 0 < R (gp_stub (gptr (gm M) q)))"

lemma put_elems_spec:
  assumes "counted R (gm M)" "atoms_ok R p (length as) as M"
  shows "\<exists>M'. put_elems p as M = Some (M', int (vptrs (map (see M) as))) \<and>
    counted (\<lambda>s. R s + vrefs (map (see M) as) s) (gm M') \<and> vals p (length as) M' = map (see M) as \<and> own p (length as) M' \<and>
    (\<forall>q. q < p \<or> p + length as \<le> q \<longrightarrow> gptr (gm M') q = gptr (gm M) q \<and> latom M' q = latom M q) \<and> same_owners (gm M) (gm M')"
  using assms
proof (induction as arbitrary: p R M)
  case Nil
  then show ?case by (simp add: own_def)
next
  case (Cons a as)
  obtain M1 k R1 where M1: "put_elem p a M = Some (M1, k)" "k = int (vptrs [see M a])" "R1 = (\<lambda>s. R s + vrefs [see M a] s)"
    "counted R1 (gm M1)" "elem_val M1 p = see M a" "\<forall>q. latom M1 p = A_POINTER q \<longrightarrow> q = p" "same_owners (gm M) (gm M1)"
    "\<And>q. q \<noteq> p \<Longrightarrow> gptr (gm M1) q = gptr (gm M) q \<and> latom M1 q = latom M q"
  proof (cases "\<exists>q. a = A_POINTER q")
    case False
    then have "see M a = V_atom a" by (auto simp: see_def split: atom.splits)
    with False Cons.prems(1) that [of "M\<lparr>latom := (latom M)(p := a)\<rparr>" 0 R] show ?thesis
      by (auto simp: elem_val_def split: atom.splits)
  next
    case True
    then obtain q where q: "a = A_POINTER q" by blast
    let ?g = "gptr (gm M) q"
    have "gp_stub ?g \<noteq> 0" "0 < R (gp_stub ?g)" using Cons.prems(2) q by (auto simp: atoms_ok_def)
    then obtain st where "stubs (gm M) (gp_stub ?g) = Some st" using countedD(5) [OF Cons.prems(1)] by blast
    from gpointer_copy_counted [OF Cons.prems(1) this, of p] obtain G where
      G: "gpointer_copy ?g p (gm M) = Some G" "counted (R(gp_stub ?g := Suc (R (gp_stub ?g)))) G"
        "gptr G = (gptr (gm M))(p := ?g)" "same_owners (gm M) G" by blast
    have "(\<lambda>s. R s + vrefs [see M a] s) = R(gp_stub ?g := Suc (R (gp_stub ?g)))" using q by (auto simp: see_def)
    with G q that [of "M\<lparr>gm := G, latom := (latom M)(p := A_POINTER p)\<rparr>" 1] show ?thesis
      by (auto simp: put_elem_def see_def elem_val_def)
  qed
  have see1: "map (see M1) as = map (see M) as"
    using Cons.prems(2) M1(8) by (auto simp: see_def atoms_ok_def split: atom.splits)
  have "atoms_ok R1 (Suc p) (length as) as M1"
    using Cons.prems(2) M1(3,8) by (auto simp: atoms_ok_def)
  from Cons.IH [OF M1(4) this] obtain M2 where M2:
    "put_elems (Suc p) as M1 = Some (M2, int (vptrs (map (see M) as)))"
    "counted (\<lambda>s. R1 s + vrefs (map (see M) as) s) (gm M2)" "vals (Suc p) (length as) M2 = map (see M) as"
    "own (Suc p) (length as) M2" "same_owners (gm M1) (gm M2)"
    "\<And>q. q < Suc p \<or> Suc p + length as \<le> q \<Longrightarrow> gptr (gm M2) q = gptr (gm M1) q \<and> latom M2 q = latom M1 q"
    unfolding see1 by blast
  have "elem_val M2 p = see M a" using M1(5) M2(6) [of p] elem_val_cong [of M2 p M1] by simp
  moreover have "\<forall>q. latom M2 p = A_POINTER q \<longrightarrow> q = p" using M1(6) M2(6) [of p] by simp
  moreover have "(\<lambda>s. R s + vrefs (map (see M) (a # as)) s) = (\<lambda>s. R1 s + vrefs (map (see M) as) s)"
    by (simp add: M1(3) fun_eq_iff see_def split: atom.splits)
  moreover have "vptrs (map (see M) (a # as)) = vptrs [see M a] + vptrs (map (see M) as)"
    by (simp add: see_def split: atom.splits)
  ultimately show ?case
    using M1(1,2,8) M2 same_owners_trans [OF M1(7) M2(5)] by (simp add: vals_Suc own_Suc)
qed

lemma unset_elems_spec:
  assumes "own v n M" "counted (\<lambda>s. R s + vrefs (vals v n M) s) (gm M)"
  shows "\<exists>M'. unset_elems v n M = Some M' \<and> counted R (gm M') \<and> latom M' = latom M \<and>
    (\<forall>q. q < v \<or> v + n \<le> q \<longrightarrow> gptr (gm M') q = gptr (gm M) q) \<and> same_owners (gm M) (gm M')"
  using assms
proof (induction n arbitrary: v M)
  case 0
  then show ?case by simp
next
  case (Suc n)
  have o: "\<forall>q. latom M v = A_POINTER q \<longrightarrow> q = v" "own (Suc v) n M" using Suc.prems(1) by (simp_all add: own_Suc)
  show ?case
  proof (cases "latom M v = A_POINTER v")
    case False
    then have "unset_elems v (Suc n) M = unset_elems (Suc v) n M" "elem_val M v = V_atom (latom M v)"
      using o(1) by (auto simp: elem_val_def split: atom.splits)
    moreover from this have "counted (\<lambda>s. R s + vrefs (vals (Suc v) n M) s) (gm M)" using Suc.prems(2) by (simp add: vals_Suc)
    ultimately show ?thesis using Suc.IH [OF o(2)] by force
  next
    case True
    let ?g = "gptr (gm M) v"
    let ?R = "\<lambda>s. R s + vrefs (vals v (Suc n) M) s"
    have ev: "elem_val M v = V_ptr ?g" using True by (simp add: elem_val_def)
    from gpointer_unset_counted [OF Suc.prems(2), of v] ev obtain G where
      G: "gpointer_unset v (gm M) = Some G" "counted (?R(gp_stub ?g := ?R (gp_stub ?g) - 1)) G"
        "gptr G = (gptr (gm M))(v := ?g\<lparr>gp_stub := 0\<rparr>)" "same_owners (gm M) G" by (auto simp: vals_Suc)
    let ?M = "M\<lparr>gm := G\<rparr>"
    have v: "vals (Suc v) n ?M = vals (Suc v) n M" by (rule vals_cong) (simp add: G(3))
    have "?R(gp_stub ?g := ?R (gp_stub ?g) - 1) = (\<lambda>s. R s + vrefs (vals (Suc v) n ?M) s)"
      unfolding v using ev by (auto simp: vals_Suc)
    then have "counted (\<lambda>s. R s + vrefs (vals (Suc v) n ?M) s) (gm ?M)" using G(2) by simp
    moreover have "own (Suc v) n ?M" using o(2) by (simp add: own_def)
    ultimately obtain M' where "unset_elems (Suc v) n ?M = Some M'" "counted R (gm M')" "latom M' = latom ?M"
      "\<And>q. q < Suc v \<or> Suc v + n \<le> q \<Longrightarrow> gptr (gm M') q = gptr (gm ?M) q" "same_owners (gm ?M) (gm M')"
      using Suc.IH [of "Suc v" ?M] by blast
    then show ?thesis using True G(1,3) same_owners_trans [OF G(4)] by auto
  qed
qed

lemma unset_count_eq:
  assumes "own p n M"
  shows "unset_count p n M = map_option (\<lambda>M'. (M', int (vptrs (vals p n M)))) (unset_elems p n M)"
  using assms
proof (induction n arbitrary: p M)
  case (Suc n)
  have o: "\<forall>q. latom M p = A_POINTER q \<longrightarrow> q = p" "own (Suc p) n M" using Suc.prems by (simp_all add: own_Suc)
  show ?case
  proof (cases "latom M p = A_POINTER p")
    case False
    then have "unset_count p (Suc n) M = unset_count (Suc p) n M" "unset_elems p (Suc n) M = unset_elems (Suc p) n M"
      "elem_val M p = V_atom (latom M p)" using o(1) by (auto simp: elem_val_def split: atom.splits)
    then show ?thesis using Suc.IH [OF o(2)] by (simp add: vals_Suc)
  next
    case True
    show ?thesis
    proof (cases "gpointer_unset p (gm M)")
      case None
      then show ?thesis using True by simp
    next
      case (Some G)
      have "vptrs (vals (Suc p) n (M\<lparr>gm := G\<rparr>)) = vptrs (vals (Suc p) n M)"
        by (rule vptrs_cong) simp
      moreover have "own (Suc p) n (M\<lparr>gm := G\<rparr>)" using o(2) by (simp add: own_def)
      ultimately show ?thesis using True Some Suc.IH [of "Suc p" "M\<lparr>gm := G\<rparr>"]
        by (auto simp: vals_Suc elem_val_def option.map_comp comp_def add.commute)
    qed
  qed
qed simp

section \<open>Moving elements\<close>

definition has_ptr :: "nat \<Rightarrow> nat \<Rightarrow> amem \<Rightarrow> bool" where
  "has_ptr v n M \<longleftrightarrow> vptrs (vals v n M) \<noteq> 0"

lemma gm_layout [simp]:
  "same_owners (gm M) (gm (move_elems d s n M))" "same_owners (gm M) (gm (zero_elems v n M))"
  "counted R (gm (move_elems d s n M)) = counted R (gm M)" "counted R (gm (zero_elems v n M)) = counted R (gm M)"
  "gm (alist_restore_gpointers x off c M) = gm M"
  by (simp_all add: move_elems_def zero_elems_def alist_restore_gpointers_def)

lemma move_outside [simp]:
  "p < d \<or> d + n \<le> p \<Longrightarrow> latom (move_elems d s n M) p = latom M p \<and> gptr (gm (move_elems d s n M)) p = gptr (gm M) p"
  by (auto simp: move_elems_def)

lemma zero_outside [simp]:
  "p < v \<or> v + n \<le> p \<Longrightarrow> latom (zero_elems v n M) p = latom M p \<and> gptr (gm (zero_elems v n M)) p = gptr (gm M) p"
  by (auto simp: zero_elems_def)

lemma restore_outside [simp]:
  "p < l_vec x + off \<or> l_vec x + off + c \<le> p \<Longrightarrow> latom (alist_restore_gpointers x off c M) p = latom M p"
  by (auto simp: alist_restore_gpointers_def)

lemma vals_move: "vals d n (move_elems d s n M) = vals s n M"
proof -
  have "elem_val (move_elems d s n M) (d + i) = elem_val M (s + i)" if "i < n" for i
    using that by (cases "latom M (s + i)") (simp_all add: elem_val_def move_elems_def)
  then show ?thesis by (intro nth_equalityI) (simp_all add: vals_def)
qed

lemma vals_move_outside: "v + m \<le> d \<or> d + n \<le> v \<Longrightarrow> vals v m (move_elems d s n M) = vals v m M"
  by (rule vals_cong) auto

lemma vals_zero_outside: "v + m \<le> d \<or> d + n \<le> v \<Longrightarrow> vals v m (zero_elems d n M) = vals v m M"
  by (rule vals_cong) auto

lemma vals_restore: "vals v n (alist_restore_gpointers x off c M) = vals v n M"
proof -
  have "elem_val (alist_restore_gpointers x off c M) p = elem_val M p" for p
    by (cases "latom M p") (simp_all add: elem_val_def alist_restore_gpointers_def)
  then show ?thesis by (simp add: vals_def)
qed

lemma own_restore: "own (l_vec x + off) c (alist_restore_gpointers x off c M)"
  by (auto simp: own_def alist_restore_gpointers_def split: atom.splits if_splits)

lemma own_restore_outside:
  "v + n \<le> l_vec x + off \<or> l_vec x + off + c \<le> v \<Longrightarrow> own v n (alist_restore_gpointers x off c M) = own v n M"
  by (rule own_cong) auto

lemma own_restore_keeps: "own v n M \<Longrightarrow> own v n (alist_restore_gpointers x off c M)"
  by (auto simp: own_def alist_restore_gpointers_def split: atom.splits if_splits)

lemma own_move_outside: "v + m \<le> d \<or> d + n \<le> v \<Longrightarrow> own v m (move_elems d s n M) = own v m M"
  by (rule own_cong) auto

section \<open>Lists and their values\<close>

text \<open>
  \<open>E\<close> holds the gpointers in use elsewhere. A stored list is in order when its elements keep their own
  gpointers, its pointers are counted, and the stubs count the gpointers of both.
\<close>

definition alist_abs :: "alist \<Rightarrow> amem \<Rightarrow> val list" where
  "alist_abs x M = vals (l_vec x) (l_n x) M"

definition alist_ok :: "nat set \<Rightarrow> alist \<Rightarrow> amem \<Rightarrow> bool" where
  "alist_ok E x M \<longleftrightarrow>
     own (l_vec x) (l_n x) M \<and> l_npointer x = int (vptrs (alist_abs x M)) \<and> vrefs (alist_abs x M) 0 = 0 \<and>
     (\<forall>p\<in>E. p < l_vec x \<or> l_vec x + l_n x \<le> p) \<and>
     counted (\<lambda>s. nrefs E (gptr (gm M)) s + vrefs (alist_abs x M) s) (gm M)"

text \<open>What the allocator promises of the address it answers: the block is clear of what is in use.\<close>

definition free_block :: "nat set \<Rightarrow> alist \<Rightarrow> nat \<Rightarrow> nat \<Rightarrow> bool" where
  "free_block E x nv n \<longleftrightarrow> nv \<noteq> 0 \<and> (\<forall>p\<in>E. p < nv \<or> nv + n \<le> p) \<and> (nv + n \<le> l_vec x \<or> l_vec x + l_n x \<le> nv)"

definition resized_block :: "nat set \<Rightarrow> alist \<Rightarrow> nat \<Rightarrow> nat \<Rightarrow> bool" where
  "resized_block E x nv n \<longleftrightarrow> free_block E x nv n \<or> (nv = l_vec x \<and> nv \<noteq> 0 \<and> (\<forall>p\<in>E. p < nv \<or> nv + n \<le> p))"

definition args_ok :: "nat set \<Rightarrow> atom list \<Rightarrow> amem \<Rightarrow> bool" where
  "args_ok E as M \<longleftrightarrow> (\<forall>q. A_POINTER q \<in> set as \<longrightarrow> q \<in> E \<and> gp_stub (gptr (gm M) q) \<noteq> 0)"

lemma args_atoms_ok:
  assumes "args_ok E as M" "finite E" "\<forall>p\<in>E. p < v \<or> v + n \<le> p" "\<forall>p\<in>E. gptr (gm M1) p = gptr (gm M) p"
  shows "atoms_ok (\<lambda>s. nrefs E (gptr (gm M)) s + S s) v n as M1"
  using assms nrefs_pos [OF assms(2)] unfolding args_ok_def atoms_ok_def by fastforce

lemma map_see_cong:
  "args_ok E as M \<Longrightarrow> \<forall>p\<in>E. gptr (gm M1) p = gptr (gm M) p \<Longrightarrow> map (see M1) as = map (see M) as"
  by (auto simp: see_def args_ok_def split: atom.splits)

lemma args_no_null: "args_ok E as M \<Longrightarrow> vrefs (map (see M) as) 0 = 0"
proof (induction as)
  case (Cons a as)
  then show ?case by (cases a) (auto simp: args_ok_def see_def)
qed simp

text \<open>The list cleared: its references are gone, everything else is as it was.\<close>

lemma alist_clear_ok:
  assumes "alist_ok E x M"
  shows "\<exists>M'. alist_clear x M = Some M' \<and> counted (nrefs E (gptr (gm M'))) (gm M') \<and>
    (\<forall>p. p < l_vec x \<or> l_vec x + l_n x \<le> p \<longrightarrow> gptr (gm M') p = gptr (gm M) p) \<and> latom M' = latom M \<and> same_owners (gm M) (gm M')"
proof -
  have o: "own (l_vec x) (l_n x) M" and e: "\<forall>p\<in>E. p < l_vec x \<or> l_vec x + l_n x \<le> p"
    and c: "counted (\<lambda>s. nrefs E (gptr (gm M)) s + vrefs (vals (l_vec x) (l_n x) M) s) (gm M)"
    using assms by (simp_all add: alist_ok_def alist_abs_def)
  obtain M' where M': "unset_elems (l_vec x) (l_n x) M = Some M'" "counted (nrefs E (gptr (gm M))) (gm M')" "latom M' = latom M"
    "\<And>q. q < l_vec x \<or> l_vec x + l_n x \<le> q \<Longrightarrow> gptr (gm M') q = gptr (gm M) q" "same_owners (gm M) (gm M')"
    using unset_elems_spec [OF o c] by blast
  moreover have "nrefs E (gptr (gm M')) = nrefs E (gptr (gm M))" using M'(4) e by (intro nrefs_cong) auto
  ultimately show ?thesis by (auto simp: alist_clear_def)
qed

text \<open>A list filled from atoms, into a fresh vector.\<close>

lemma fill_ok:
  assumes "finite E" "counted (\<lambda>s. nrefs E (gptr (gm M)) s + S s) (gm M)" "args_ok E as M" "\<forall>p\<in>E. p < nv \<or> nv + length as \<le> p"
  shows "\<exists>M'. put_elems nv as (zero_elems nv (length as) M) = Some (M', int (vptrs (map (see M) as))) \<and>
    vals nv (length as) M' = map (see M) as \<and> own nv (length as) M' \<and>
    counted (\<lambda>s. nrefs E (gptr (gm M')) s + S s + vrefs (map (see M) as) s) (gm M') \<and>
    (\<forall>q. q < nv \<or> nv + length as \<le> q \<longrightarrow> gptr (gm M') q = gptr (gm M) q \<and> latom M' q = latom M q) \<and> same_owners (gm M) (gm M')"
proof -
  let ?Z = "zero_elems nv (length as) M"
  have same: "\<forall>p\<in>E. gptr (gm ?Z) p = gptr (gm M) p" using assms(4) zero_outside [of _ nv "length as" M] by auto
  have "counted (\<lambda>s. nrefs E (gptr (gm M)) s + S s) (gm ?Z)" using assms(2) by simp
  from put_elems_spec [OF this args_atoms_ok [OF assms(3,1,4) same]] obtain M' where
    M': "put_elems nv as ?Z = Some (M', int (vptrs (map (see M) as)))"
      "counted (\<lambda>s. nrefs E (gptr (gm M)) s + S s + vrefs (map (see M) as) s) (gm M')"
      "vals nv (length as) M' = map (see M) as" "own nv (length as) M'" "same_owners (gm ?Z) (gm M')"
      "\<And>q. q < nv \<or> nv + length as \<le> q \<Longrightarrow> gptr (gm M') q = gptr (gm ?Z) q \<and> latom M' q = latom ?Z q"
    unfolding map_see_cong [OF assms(3) same] by blast
  have "nrefs E (gptr (gm M')) = nrefs E (gptr (gm M))" using M'(6) assms(4) same by (intro nrefs_cong) auto
  then show ?thesis using M' same_owners_trans [OF gm_layout(2) M'(5)] by auto
qed

section \<open>The operations of the list store on values\<close>

text \<open>An operation succeeds with the list in order, the given values and messages, and all else as it was.\<close>

definition op_ok :: "nat set \<Rightarrow> amem \<Rightarrow> alist lres \<Rightarrow> val list \<Rightarrow> lout list \<Rightarrow> bool" where
  "op_ok E M res vs outs \<longleftrightarrow>
     (\<exists>x' M'. res = Some (x', M', outs) \<and> alist_ok E x' M' \<and> alist_abs x' M' = vs \<and>
        (\<forall>p\<in>E. gptr (gm M') p = gptr (gm M) p) \<and> same_owners (gm M) (gm M'))"

lemma op_okI:
  "res = Some (x', M', outs) \<Longrightarrow> alist_ok E x' M' \<Longrightarrow> alist_abs x' M' = vs \<Longrightarrow> \<forall>p\<in>E. gptr (gm M') p = gptr (gm M) p \<Longrightarrow>
   same_owners (gm M) (gm M') \<Longrightarrow> op_ok E M res vs outs"
  unfolding op_ok_def by blast

lemma alist_okD:
  assumes "alist_ok E x M"
  shows "own (l_vec x) (l_n x) M" "l_npointer x = int (vptrs (alist_abs x M))"
    "\<forall>p\<in>E. p < l_vec x \<or> l_vec x + l_n x \<le> p"
    "counted (\<lambda>s. nrefs E (gptr (gm M)) s + vrefs (alist_abs x M) s) (gm M)" "vrefs (alist_abs x M) 0 = 0"
  using assms by (simp_all add: alist_ok_def)

lemma alist_abs_length [simp]: "length (alist_abs x M) = l_n x"
  by (simp add: alist_abs_def)

lemma move_self [simp]: "move_elems v v n M = M"
  by (rule amem.equality, rule gmem.equality) (auto simp: move_elems_def fun_eq_iff)

lemma zero_none [simp]: "zero_elems v 0 M = M"
  by (rule amem.equality, rule gmem.equality) (auto simp: zero_elems_def fun_eq_iff)

lemma vals_resize:
  assumes "m \<le> n" "m \<le> n'"
  shows "vals nv m (resize_elems nv v n n' M) = vals v m M"
proof -
  obtain k where k: "min n n' = m + k" using assms by (metis le_Suc_ex min.bounded_iff)
  have "vals nv (m + k) (move_elems nv v (m + k) M) = vals v (m + k) M" by (rule vals_move)
  then have "vals nv m (move_elems nv v (m + k) M) = vals v m M" by (simp add: vals_add)
  then show ?thesis using assms k by (simp add: resize_elems_def vals_zero_outside)
qed

lemma resize_layout [simp]:
  "same_owners (gm M) (gm (resize_elems nv v n n' M))" "counted R (gm (resize_elems nv v n n' M)) = counted R (gm M)"
  by (simp_all add: resize_elems_def same_owners_trans [OF gm_layout(1) gm_layout(2)])

lemma resize_outside:
  "p < nv \<or> nv + n' \<le> p \<Longrightarrow> gptr (gm (resize_elems nv v n n' M)) p = gptr (gm M) p"
  unfolding resize_elems_def by (cases "n \<le> n'") auto

lemma own_resize_self: "own v n M \<Longrightarrow> n \<le> n' \<Longrightarrow> own v n (resize_elems v v n n' M)"
  by (subst own_cong [of v n _ M]) (simp_all add: resize_elems_def)

text \<open>The vector grown, and its elements from \<open>index\<close> on shifted to the right by \<open>k\<close>.\<close>

definition store_room :: "nat \<Rightarrow> nat \<Rightarrow> nat \<Rightarrow> alist \<Rightarrow> amem \<Rightarrow> amem" where
  "store_room nv k index x M =
     (let n = l_n x; M1 = resize_elems nv (l_vec x) n (n + k) M; x1 = x\<lparr>l_vec := nv\<rparr>;
          M2 = (if nv \<noteq> l_vec x \<and> l_npointer x \<noteq> 0 then alist_restore_gpointers x1 0 n M1 else M1) in
      if index < n then
        (let M' = move_elems (nv + index + k) (nv + index) (n - index) M2 in
         if l_npointer x \<noteq> 0 then alist_restore_gpointers x1 (index + k) (n - index) M' else M')
      else M2)"

lemma store_room_ok:
  assumes "alist_ok E x M" "resized_block E x nv (l_n x + k)" "index \<le> l_n x"
  shows "vals nv index (store_room nv k index x M) = take index (alist_abs x M)"
    "vals (nv + index + k) (l_n x - index) (store_room nv k index x M) = drop index (alist_abs x M)"
    "own nv index (store_room nv k index x M)" "own (nv + index + k) (l_n x - index) (store_room nv k index x M)"
    "\<forall>p\<in>E. gptr (gm (store_room nv k index x M)) p = gptr (gm M) p"
    "counted R (gm (store_room nv k index x M)) = counted R (gm M)" "same_owners (gm M) (gm (store_room nv k index x M))"
proof -
  let ?n = "l_n x" and ?v = "l_vec x" and ?vs = "alist_abs x M" and ?x = "x\<lparr>l_vec := nv\<rparr>"
  let ?M1 = "resize_elems nv ?v ?n (?n + k) M"
  define M2 where "M2 = (if nv \<noteq> ?v \<and> l_npointer x \<noteq> 0 then alist_restore_gpointers ?x 0 ?n ?M1 else ?M1)"
  let ?M3 = "store_room nv k index x M"
  note ok = alist_okD [OF assms(1)]
  have E: "\<forall>p\<in>E. p < nv \<or> nv + (?n + k) \<le> p" using assms(2) by (auto simp: resized_block_def free_block_def)
  have v1: "vals nv ?n ?M1 = ?vs" using vals_resize [of ?n ?n "?n + k"] by (simp add: alist_abs_def)
  then have v2: "vals nv ?n M2 = ?vs" by (simp add: M2_def vals_restore)
  have ptr0: "l_npointer x = 0 \<longleftrightarrow> vptrs ?vs = 0" using ok(2) by simp
  have o2: "own nv ?n M2"
  proof (cases "l_npointer x = 0")
    case True
    then show ?thesis using own_vptrs0 [of nv ?n M2] v2 ptr0 by simp
  next
    case False
    then show ?thesis using own_restore [of ?x 0 ?n ?M1] own_resize_self [OF ok(1), of "?n + k"] by (simp add: M2_def)
  qed
  have g2: "\<forall>p\<in>E. gptr (gm M2) p = gptr (gm M) p" using resize_outside [of _ nv "?n + k"] E by (auto simp: M2_def)
  have c2: "counted R (gm M2) = counted R (gm M)" "same_owners (gm M) (gm M2)" by (simp_all add: M2_def)
  have split: "vals nv index M2 = take index ?vs" "vals (nv + index) (?n - index) M2 = drop index ?vs"
    "own nv index M2" "own (nv + index) (?n - index) M2"
    using v2 o2 assms(3) vals_add [of nv index "?n - index" M2] own_add [of nv index "?n - index" M2]
    by (auto simp flip: v2)
  show "vals nv index ?M3 = take index ?vs" "vals (nv + index + k) (?n - index) ?M3 = drop index ?vs" "own nv index ?M3"
    "own (nv + index + k) (?n - index) ?M3" "\<forall>p\<in>E. gptr (gm ?M3) p = gptr (gm M) p" "counted R (gm ?M3) = counted R (gm M)"
    "same_owners (gm M) (gm ?M3)"
  proof -
    consider "index < ?n" | "index = ?n" using assms(3) by linarith
    then have "vals nv index ?M3 = take index ?vs \<and> vals (nv + index + k) (?n - index) ?M3 = drop index ?vs \<and> own nv index ?M3 \<and>
      own (nv + index + k) (?n - index) ?M3 \<and> (\<forall>p\<in>E. gptr (gm ?M3) p = gptr (gm M) p) \<and> counted R (gm ?M3) = counted R (gm M) \<and>
      same_owners (gm M) (gm ?M3)"
    proof cases
      case 2
      then have "?M3 = M2" by (simp add: store_room_def Let_def M2_def)
      moreover have "own (nv + ?n + k) 0 M2" by (simp add: own_def)
      ultimately show ?thesis using split(1,3) g2 c2 2 by simp
    next
      case 1
      define M' where "M' = move_elems (nv + index + k) (nv + index) (?n - index) M2"
      have m: "vals nv index M' = take index ?vs" "vals (nv + index + k) (?n - index) M' = drop index ?vs" "own nv index M'"
        using split unfolding M'_def by (simp_all add: vals_move vals_move_outside own_move_outside)
      have M3: "?M3 = (if l_npointer x \<noteq> 0 then alist_restore_gpointers ?x (index + k) (?n - index) M' else M')"
        using 1 by (simp add: store_room_def Let_def M'_def M2_def)
      have "own (nv + index + k) (?n - index) ?M3"
      proof (cases "l_npointer x = 0")
        case True
        have "vptrs (drop index ?vs) = 0" using True ptr0 by (metis add_is_0 append_take_drop_id vptrs_simps(2))
        then show ?thesis using own_vptrs0 [of "nv + index + k" "?n - index" M'] m(2) True M3 by simp
      next
        case False
        then show ?thesis using own_restore [of ?x "index + k" "?n - index" M'] M3 by (simp add: add.assoc)
      qed
      moreover have "own nv index ?M3" using m(3) M3 own_restore_keeps by simp
      moreover have "\<forall>p\<in>E. gptr (gm M') p = gptr (gm M) p"
      proof
        fix p assume "p \<in> E"
        then have "p < nv + index + k \<or> nv + index + k + (?n - index) \<le> p" using E assms(3) by auto
        then show "gptr (gm M') p = gptr (gm M) p" using g2 \<open>p \<in> E\<close> unfolding M'_def by simp
      qed
      moreover have "same_owners (gm M) (gm M')" "counted R (gm M') = counted R (gm M)"
        using same_owners_trans [OF c2(2) gm_layout(1)] c2(1) unfolding M'_def by simp_all
      ultimately show ?thesis using m M3 by (simp add: vals_restore)
    qed
    then show "vals nv index ?M3 = take index ?vs" "vals (nv + index + k) (?n - index) ?M3 = drop index ?vs" "own nv index ?M3"
      "own (nv + index + k) (?n - index) ?M3" "\<forall>p\<in>E. gptr (gm ?M3) p = gptr (gm M) p" "counted R (gm ?M3) = counted R (gm M)"
      "same_owners (gm M) (gm ?M3)" by blast+
  qed
qed

lemma doinsert_ok:
  assumes "finite E" "alist_ok E x M" "args_ok E as M" "resized_block E x nv (l_n x + length as)" "index \<le> l_n x"
  shows "op_ok E M (list_store_doinsert nv as index x M)
    (take index (alist_abs x M) @ map (see M) as @ drop index (alist_abs x M)) []"
proof -
  let ?n = "l_n x" and ?k = "length as" and ?vs = "alist_abs x M"
  let ?M3 = "store_room nv ?k index x M" and ?x = "x\<lparr>l_vec := nv\<rparr>"
  note ok = alist_okD [OF assms(2)] and r = store_room_ok [OF assms(2,4,5)]
  have E: "\<forall>p\<in>E. p < nv \<or> nv + (?n + ?k) \<le> p" "nv \<noteq> 0" using assms(4) by (auto simp: resized_block_def free_block_def)
  have E': "\<forall>p\<in>E. p < nv + index \<or> nv + index + ?k \<le> p" using E(1) assms(5) by auto
  have "counted (\<lambda>s. nrefs E (gptr (gm M)) s + vrefs ?vs s) (gm ?M3)" using ok(4) r(6) by simp
  from put_elems_spec [OF this args_atoms_ok [OF assms(3,1) E' r(5)]] obtain M4 where
    M4: "put_elems (nv + index) as ?M3 = Some (M4, int (vptrs (map (see M) as)))"
      "counted (\<lambda>s. nrefs E (gptr (gm M)) s + vrefs ?vs s + vrefs (map (see M) as) s) (gm M4)"
      "vals (nv + index) ?k M4 = map (see M) as" "own (nv + index) ?k M4" "same_owners (gm ?M3) (gm M4)"
      "\<And>q. q < nv + index \<or> nv + index + ?k \<le> q \<Longrightarrow> gptr (gm M4) q = gptr (gm ?M3) q \<and> latom M4 q = latom ?M3 q"
    unfolding map_see_cong [OF assms(3) r(5)] by blast
  have n: "?n + ?k = index + (?k + (?n - index))" using assms(5) by simp
  have a: "vals nv index M4 = take index ?vs" "vals (nv + index + ?k) (?n - index) M4 = drop index ?vs"
    using r(1,2) M4(6) by (simp_all add: vals_cong [of _ _ M4 ?M3])
  have o: "own nv index M4" "own (nv + index + ?k) (?n - index) M4"
    using r(3,4) M4(6) by (simp_all add: own_cong [of _ _ M4 ?M3])
  let ?x' = "\<lparr>l_n = ?n + ?k, l_npointer = l_npointer x + int (vptrs (map (see M) as)), l_vec = nv\<rparr>"
  let ?vs' = "take index ?vs @ map (see M) as @ drop index ?vs"
  have v: "alist_abs ?x' M4 = ?vs'"
    by (simp add: alist_abs_def n vals_add a M4(3) add.assoc [symmetric] del: add.assoc)
  have refs: "vrefs ?vs' s = vrefs ?vs s + vrefs (map (see M) as) s" "vptrs ?vs' = vptrs ?vs + vptrs (map (see M) as)" for s
    using vrefs_simps(2) [of "take index ?vs" "drop index ?vs" s] vptrs_simps(2) [of "take index ?vs" "drop index ?vs"] by simp_all
  have g: "\<forall>p\<in>E. gptr (gm M4) p = gptr (gm M) p" using M4(6) E' r(5) by auto
  then have nr: "nrefs E (gptr (gm M4)) = nrefs E (gptr (gm M))" by (intro nrefs_cong) simp
  have "alist_ok E ?x' M4"
    unfolding alist_ok_def v
    using M4(2,4) o ok(2,5) E(1) args_no_null [OF assms(3)]
    by (simp add: n own_add refs nr add.assoc del: vrefs_simps vptrs_simps)
  moreover have "list_store_doinsert nv as index x M = Some (?x', M4, [])"
    using E(2) M4(1) by (simp add: list_store_doinsert_def store_room_def alist_copyin_def Let_def)
  ultimately show ?thesis
    using v g same_owners_trans [OF r(7) M4(5)] by (intro op_okI)
qed

lemma vals_sub: "i + k \<le> n \<Longrightarrow> vals (v + i) k M = take k (drop i (vals v n M))"
  using vals_add [of v i "n - i" M] vals_add [of "v + i" k "n - i - k" M] by simp

lemma own_sub: "own v n M \<Longrightarrow> i + k \<le> n \<Longrightarrow> own (v + i) k M"
  using own_add [of v i "n - i" M] own_add [of "v + i" k "n - i - k" M] by simp

lemma alist_toatoms_see:
  assumes "own (l_vec x) (l_n x) M" "onset + count \<le> l_n x"
  shows "\<exists>as. alist_toatoms x onset count M = Some as \<and> map (see M) as = take count (drop onset (alist_abs x M)) \<and>
    length as = count \<and> (\<forall>q. A_POINTER q \<in> set as \<longrightarrow> l_vec x \<le> q \<and> q < l_vec x + l_n x \<and> V_ptr (gptr (gm M) q) \<in> set (alist_abs x M))"
proof -
  let ?as = "map (\<lambda>i. latom M (l_vec x + onset + i)) [0..<count]"
  have o: "own (l_vec x + onset) count M" by (rule own_sub [OF assms])
  have "map (see M) ?as = vals (l_vec x + onset) count M" using map_see_own [OF o] by (simp add: comp_def)
  moreover have "l_vec x \<le> q \<and> q < l_vec x + l_n x \<and> V_ptr (gptr (gm M) q) \<in> set (alist_abs x M)"
    if "A_POINTER q \<in> set ?as" for q
  proof -
    from that obtain i where i: "i < count" "latom M (l_vec x + onset + i) = A_POINTER q" by auto
    then have "q = l_vec x + onset + i" using o by (auto simp: own_def)
    moreover from this have "elem_val M q = V_ptr (gptr (gm M) q)" using i by (simp add: elem_val_def)
    moreover have "elem_val M q \<in> set (alist_abs x M)" using calculation(1) i(1) assms(2) by (auto simp: alist_abs_def vals_def)
    ultimately show ?thesis using i(1) assms(2) by auto
  qed
  ultimately show ?thesis using assms(2) by (simp add: alist_toatoms_def vals_sub alist_abs_def)
qed

lemma vrefs_pos: "V_ptr g \<in> set vs \<Longrightarrow> 0 < vrefs vs (gp_stub g)"
proof (induction vs)
  case (Cons v vs)
  then show ?case by (cases v) auto
qed simp

text \<open>Sending from a stored list: what is sent is what was stored, and the copy leaves no trace.\<close>

lemma with_atoms_ok:
  assumes "finite E" "alist_ok E x M" "onset + count \<le> l_n x" "l_npointer x \<noteq> 0 \<Longrightarrow> free_block E x nv count"
    "\<And>M1 as. \<forall>p\<in>E. gptr (gm M1) p = gptr (gm M) p \<Longrightarrow> map (see M1) as = take count (drop onset (alist_abs x M)) \<Longrightarrow> f M1 as = outs"
  shows "op_ok E M (with_atoms nv x onset count M (\<lambda>as M1. Some (x, M1, f M1 as))) (alist_abs x M) outs"
proof -
  let ?vs = "alist_abs x M"
  note ok = alist_okD [OF assms(2)]
  obtain as where as: "alist_toatoms x onset count M = Some as" "map (see M) as = take count (drop onset ?vs)" "length as = count"
    "\<And>q. A_POINTER q \<in> set as \<Longrightarrow> l_vec x \<le> q \<and> q < l_vec x + l_n x \<and> V_ptr (gptr (gm M) q) \<in> set ?vs"
    using alist_toatoms_see [OF ok(1) assms(3)] by blast
  show ?thesis
  proof (cases "l_npointer x = 0")
    case True
    then have "with_atoms nv x onset count M (\<lambda>as M1. Some (x, M1, f M1 as)) = Some (x, M, outs)"
      using as(1,2) assms(5) by (simp add: with_atoms_def)
    then show ?thesis using assms(2) by (auto intro: op_okI)
  next
    case False
    then have nv: "nv \<noteq> 0" "\<forall>p\<in>E. p < nv \<or> nv + count \<le> p" "nv + count \<le> l_vec x \<or> l_vec x + l_n x \<le> nv"
      using assms(4) by (simp_all add: free_block_def)
    let ?Z = "zero_elems nv count M" and ?R = "\<lambda>s. nrefs E (gptr (gm M)) s + vrefs ?vs s"
    have zx: "latom ?Z p = latom M p \<and> gptr (gm ?Z) p = gptr (gm M) p" if "l_vec x \<le> p" "p < l_vec x + l_n x" for p
      using that nv(3) by (intro zero_outside) auto
    have seeZ: "map (see ?Z) as = map (see M) as" using as(4) zx by (auto simp: see_def split: atom.splits)
    have "atoms_ok ?R nv (length as) as ?Z"
      unfolding atoms_ok_def
    proof (intro allI impI)
      fix q assume "A_POINTER q \<in> set as"
      from as(4) [OF this] have q: "l_vec x \<le> q" "q < l_vec x + l_n x" "V_ptr (gptr (gm M) q) \<in> set ?vs" by auto
      from vrefs_pos [OF q(3)] ok(5) have "gp_stub (gptr (gm M) q) \<noteq> 0" by (cases "gp_stub (gptr (gm M) q) = 0") auto
      then show "\<not> (nv \<le> q \<and> q < nv + length as) \<and> gp_stub (gptr (gm ?Z) q) \<noteq> 0 \<and> 0 < ?R (gp_stub (gptr (gm ?Z) q))"
        using vrefs_pos [OF q(3)] zx [OF q(1,2)] nv(3) q(1,2) as(3) by auto
    qed
    moreover have "counted ?R (gm ?Z)" using ok(4) by simp
    ultimately obtain M1 where M1: "put_elems nv as ?Z = Some (M1, int (vptrs (map (see M) as)))"
      "counted (\<lambda>s. ?R s + vrefs (map (see M) as) s) (gm M1)" "vals nv count M1 = map (see M) as" "own nv count M1"
      "same_owners (gm ?Z) (gm M1)"
      "\<And>q. q < nv \<or> nv + count \<le> q \<Longrightarrow> gptr (gm M1) q = gptr (gm ?Z) q \<and> latom M1 q = latom ?Z q"
      using put_elems_spec [of ?R ?Z nv as] unfolding seeZ as(3) by blast
    let ?y = "\<lparr>l_n = count, l_npointer = int (vptrs (map (see M) as)), l_vec = nv\<rparr>"
    have y: "own (l_vec ?y) (l_n ?y) M1" "0 + count \<le> l_n ?y" "alist_abs ?y M1 = map (see M) as"
      using M1(3,4) by (simp_all add: alist_abs_def)
    obtain as' where "alist_toatoms ?y 0 count M1 = Some as'" "map (see M1) as' = take count (drop 0 (map (see M) as))"
      using alist_toatoms_see [OF y(1,2)] unfolding y(3) by blast
    then have as': "alist_toatoms ?y 0 count M1 = Some as'" "map (see M1) as' = map (see M) as" by (simp_all add: as(3))
    have "counted (\<lambda>s. ?R s + vrefs (vals nv count M1) s) (gm M1)" using M1(2,3) by simp
    from unset_elems_spec [OF M1(4) this] obtain M3 where M3: "unset_elems nv count M1 = Some M3" "counted ?R (gm M3)" "latom M3 = latom M1"
      "\<And>q. q < nv \<or> nv + count \<le> q \<Longrightarrow> gptr (gm M3) q = gptr (gm M1) q" "same_owners (gm M1) (gm M3)"
      by blast
    have g1: "\<forall>p\<in>E. gptr (gm M1) p = gptr (gm M) p" using M1(6) nv(2) zero_outside by auto
    have w: "with_atoms nv x onset count M (\<lambda>as M1. Some (x, M1, f M1 as)) = Some (x, M3, f M1 as')"
      using False nv(1) as(1) M1(1) as'(1) M3(1) by (simp add: with_atoms_def alist_clone_def alist_clear_def as(3))
    have "f M1 as' = outs" using assms(5) [OF g1] as'(2) as(2) by simp
    have g3: "\<forall>p\<in>E. gptr (gm M3) p = gptr (gm M) p" using g1 M3(4) nv(2) by auto
    have same: "latom M3 p = latom M p \<and> gptr (gm M3) p = gptr (gm M) p" if "l_vec x \<le> p" "p < l_vec x + l_n x" for p
      using that zx [OF that] M1(6) [of p] M3(3,4) nv(3) by auto
    have abs: "alist_abs x M3 = ?vs" unfolding alist_abs_def by (rule vals_cong) (rule same)
    have "own (l_vec x) (l_n x) M3" using ok(1) own_cong [of "l_vec x" "l_n x" M3 M] same by simp
    moreover have "nrefs E (gptr (gm M3)) = nrefs E (gptr (gm M))" using g3 by (intro nrefs_cong) simp
    ultimately have "alist_ok E x M3" using ok M3(2) by (simp add: alist_ok_def abs)
    then show ?thesis
      using w \<open>f M1 as' = outs\<close> abs g3 same_owners_trans [OF same_owners_trans [OF gm_layout(2) M1(5)] M3(5)] by (intro op_okI) simp_all
  qed
qed

text \<open>The right inlet: a new list is stored.\<close>

lemma alist_list_ok:
  assumes "finite E" "alist_ok E x M" "args_ok E as M" "nv \<noteq> 0" "\<forall>p\<in>E. p < nv \<or> nv + length as \<le> p"
  shows "op_ok E M (map_option (\<lambda>(x', M'). (x', M', [])) (alist_list nv as x M)) (map (see M) as) []"
proof -
  obtain M1 where M1: "alist_clear x M = Some M1" "counted (nrefs E (gptr (gm M1))) (gm M1)"
    "\<And>p. p < l_vec x \<or> l_vec x + l_n x \<le> p \<Longrightarrow> gptr (gm M1) p = gptr (gm M) p" "same_owners (gm M) (gm M1)"
    using alist_clear_ok [OF assms(2)] by blast
  have g1: "\<forall>p\<in>E. gptr (gm M1) p = gptr (gm M) p" using M1(3) alist_okD(3) [OF assms(2)] by auto
  have "args_ok E as M1" using assms(3) g1 by (auto simp: args_ok_def)
  from fill_ok [OF assms(1) _ this assms(5), of "\<lambda>s. 0"] M1(2) obtain M2 where
    M2: "put_elems nv as (zero_elems nv (length as) M1) = Some (M2, int (vptrs (map (see M) as)))"
      "vals nv (length as) M2 = map (see M) as" "own nv (length as) M2"
      "counted (\<lambda>s. nrefs E (gptr (gm M2)) s + vrefs (map (see M) as) s) (gm M2)" "same_owners (gm M1) (gm M2)"
      "\<And>q. q < nv \<or> nv + length as \<le> q \<Longrightarrow> gptr (gm M2) q = gptr (gm M1) q"
    unfolding map_see_cong [OF assms(3) g1] by auto
  let ?x = "\<lparr>l_n = length as, l_npointer = int (vptrs (map (see M) as)), l_vec = nv\<rparr>"
  have "alist_ok E ?x M2" using M2(2-4) assms(5) args_no_null [OF assms(3)] by (simp add: alist_ok_def alist_abs_def)
  moreover have "alist_abs ?x M2 = map (see M) as" using M2(2) by (simp add: alist_abs_def)
  moreover have "\<forall>p\<in>E. gptr (gm M2) p = gptr (gm M) p" using g1 M2(6) assms(5) by auto
  ultimately show ?thesis
    using M1(1) M2(1) assms(4) same_owners_trans [OF M1(4) M2(5)] by (intro op_okI [where x' = ?x]) (simp_all add: alist_list_def)
qed

lemma vals_split3:
  assumes "i + k \<le> n"
  shows "vals v n M = vals v i M @ vals (v + i) k M @ vals (v + i + k) (n - i - k) M"
    "own v n M \<longleftrightarrow> own v i M \<and> own (v + i) k M \<and> own (v + i + k) (n - i - k) M"
proof -
  have n: "n = i + (k + (n - i - k))" using assms by simp
  show "vals v n M = vals v i M @ vals (v + i) k M @ vals (v + i + k) (n - i - k) M"
    by (subst n) (simp only: vals_add add.assoc)
  show "own v n M \<longleftrightarrow> own v i M \<and> own (v + i) k M \<and> own (v + i + k) (n - i - k) M"
    by (subst n) (simp only: own_add add.assoc)
qed

text \<open>Elements overwritten; the pointers they held must not have been counted.\<close>

lemma copyin_ok:
  assumes "finite E" "alist_ok E x M" "args_ok E as M" "i + length as \<le> l_n x"
    "vptrs (take (length as) (drop i (alist_abs x M))) = 0"
  shows "op_ok E M (map_option (\<lambda>(x', M'). (x', M', [])) (alist_copyin x as i M))
    (take i (alist_abs x M) @ map (see M) as @ drop (i + length as) (alist_abs x M)) []"
proof -
  let ?n = "l_n x" and ?v = "l_vec x" and ?k = "length as" and ?vs = "alist_abs x M"
  note ok = alist_okD [OF assms(2)] and s = vals_split3 [OF assms(4), of ?v]
  have vs: "take i ?vs = vals ?v i M" "take ?k (drop i ?vs) = vals (?v + i) ?k M" "drop (i + ?k) ?vs = vals (?v + i + ?k) (?n - i - ?k) M"
    unfolding alist_abs_def s(1) by (simp_all add: add.commute flip: drop_drop)
  have E: "\<forall>p\<in>E. p < ?v + i \<or> ?v + i + ?k \<le> p" using ok(3) assms(4) by auto
  from put_elems_spec [OF ok(4) args_atoms_ok [OF assms(3,1) E]] obtain M' where
    M': "put_elems (?v + i) as M = Some (M', int (vptrs (map (see M) as)))"
      "counted (\<lambda>s. nrefs E (gptr (gm M)) s + vrefs ?vs s + vrefs (map (see M) as) s) (gm M')"
      "vals (?v + i) ?k M' = map (see M) as" "own (?v + i) ?k M'" "same_owners (gm M) (gm M')"
      "\<And>q. q < ?v + i \<or> ?v + i + ?k \<le> q \<Longrightarrow> gptr (gm M') q = gptr (gm M) q \<and> latom M' q = latom M q"
    by blast
  have out: "vals ?v i M' = vals ?v i M" "vals (?v + i + ?k) (?n - i - ?k) M' = vals (?v + i + ?k) (?n - i - ?k) M"
    by (rule vals_cong; use M'(6) in auto)+
  have o: "own ?v i M'" "own (?v + i + ?k) (?n - i - ?k) M'"
    using M'(6) ok(1) s(2) [of M] by (simp_all add: own_cong [of _ _ M' M])
  let ?x' = "x\<lparr>l_npointer := l_npointer x + int (vptrs (map (see M) as))\<rparr>"
  let ?vs' = "take i ?vs @ map (see M) as @ drop (i + ?k) ?vs"
  have abs: "alist_abs ?x' M' = ?vs'" unfolding vs by (simp add: alist_abs_def s(1) M'(3) out [unfolded diff_diff_left])
  have split: "?vs = take i ?vs @ take ?k (drop i ?vs) @ drop (i + ?k) ?vs" by (metis append_take_drop_id drop_drop add.commute)
  have r0: "vrefs (take ?k (drop i ?vs)) t = 0" for t
    using assms(5) by (auto simp: vrefs_def vptrs_def filter_empty_conv split: val.splits)
  have refs: "vrefs ?vs' t = vrefs ?vs t + vrefs (map (see M) as) t" for t
    using arg_cong [OF split, of "\<lambda>w. vrefs w t"] r0 [of t] by simp
  have ptrs: "vptrs ?vs' = vptrs ?vs + vptrs (map (see M) as)"
    using arg_cong [OF split, of vptrs] assms(5) by simp
  have g: "\<forall>p\<in>E. gptr (gm M') p = gptr (gm M) p" using M'(6) E by auto
  then have nr: "nrefs E (gptr (gm M')) = nrefs E (gptr (gm M))" by (intro nrefs_cong) simp
  have "own (l_vec ?x') (l_n ?x') M'" using o M'(4) s(2) [of M'] by simp
  then have "alist_ok E ?x' M'"
    unfolding alist_ok_def abs using M'(2) ok(2,3,5) args_no_null [OF assms(3)]
    by (simp add: refs ptrs nr add.assoc del: vrefs_simps vptrs_simps)
  moreover have "map_option (\<lambda>(x', M'). (x', M', [])) (alist_copyin x as i M) = Some (?x', M', [])"
    using M'(1) by (simp add: alist_copyin_def)
  ultimately show ?thesis using abs g M'(5) by (intro op_okI)
qed

text \<open>Elements deleted: their references go, the others close up.\<close>

lemma delete_ok:
  assumes "finite E" "alist_ok E x M" "resized_block E x nv (l_n x - nat n)" "int_of_float f1 = int i" "i < l_n x"
    "n = (if int_of_float f2 = 0 then 1
          else if int_of_float f2 < 0 \<or> int (l_n x) - int i < int_of_float f2 then int (l_n x) - int i else int_of_float f2)"
  shows "op_ok E M (list_store_delete nv f1 f2 x M) (take i (alist_abs x M) @ drop (i + nat n) (alist_abs x M)) []"
proof -
  define k where "k = nat n"
  define rest where "rest = l_n x - i - k"
  let ?n = "l_n x" and ?v = "l_vec x" and ?vs = "alist_abs x M"
  have k: "i + k \<le> ?n" using assms(5,6) unfolding k_def by (auto split: if_splits)
  note ok = alist_okD [OF assms(2)] and s = vals_split3 [OF k, of ?v]
  have vs: "take i ?vs = vals ?v i M" "take k (drop i ?vs) = vals (?v + i) k M" "drop (i + k) ?vs = vals (?v + i + k) rest M"
    unfolding alist_abs_def s(1) rest_def by (simp_all add: add.commute flip: drop_drop)
  define new where "new = take i ?vs @ drop (i + k) ?vs"
  have split: "?vs = take i ?vs @ take k (drop i ?vs) @ drop (i + k) ?vs" by (metis append_take_drop_id drop_drop add.commute)
  have refs: "vrefs ?vs t = vrefs new t + vrefs (vals (?v + i) k M) t" for t
    using arg_cong [OF split, of "\<lambda>w. vrefs w t"] by (simp add: new_def vs(2))
  have ptrs: "vptrs ?vs = vptrs new + vptrs (vals (?v + i) k M)"
    using arg_cong [OF split, of vptrs] by (simp add: new_def vs(2))
  have E: "\<forall>p\<in>E. p < nv \<or> nv + (?n - k) \<le> p" "nv \<noteq> 0" using assms(3) by (auto simp: resized_block_def free_block_def k_def)
  obtain M1 where M1: "(if l_npointer x \<noteq> 0 then unset_count (?v + i) k M else Some (M, 0)) = Some (M1, int (vptrs (vals (?v + i) k M)))"
    "counted (\<lambda>t. nrefs E (gptr (gm M)) t + vrefs new t) (gm M1)" "latom M1 = latom M" "same_owners (gm M) (gm M1)"
    "\<And>q. q < ?v + i \<or> ?v + i + k \<le> q \<Longrightarrow> gptr (gm M1) q = gptr (gm M) q"
  proof (cases "l_npointer x = 0")
    case True
    then have z: "vptrs (vals (?v + i) k M) = 0" using ok(2) ptrs by simp
    then have "vrefs (vals (?v + i) k M) t = 0" for t
      by (auto simp: vrefs_def vptrs_def filter_empty_conv split: val.splits)
    then show ?thesis using that [of M] True z ok(4) refs by simp
  next
    case False
    have o: "own (?v + i) k M" using ok(1) s(2) [of M] by simp
    have "counted (\<lambda>t. nrefs E (gptr (gm M)) t + vrefs new t + vrefs (vals (?v + i) k M) t) (gm M)"
      using ok(4) by (simp add: refs add.assoc)
    from unset_elems_spec [OF o this] unset_count_eq [OF o] False that show ?thesis by auto
  qed
  define M2 where "M2 = move_elems (?v + i) (?v + i + k) rest M1"
  define M3 where "M3 = resize_elems nv ?v ?n (?n - k) M2"
  have a1: "vals ?v i M1 = take i ?vs" "vals (?v + i + k) rest M1 = drop (i + k) ?vs"
    unfolding vs using M1(3,5) by (simp_all add: vals_cong [of _ _ M1 M])
  have nk: "?n - k = i + rest" using k unfolding rest_def by simp
  have v2: "vals ?v (?n - k) M2 = new"
    unfolding nk vals_add M2_def new_def using a1 by (simp add: vals_move vals_move_outside)
  have v3: "vals nv (?n - k) M3 = new" unfolding M3_def using v2 vals_resize [of "?n - k" ?n "?n - k"] by simp
  have g3: "gptr (gm M3) p = gptr (gm M) p" if "p \<in> E" for p
  proof -
    have p: "p < ?v \<or> ?v + ?n \<le> p" "p < nv \<or> nv + (?n - k) \<le> p" using that ok(3) E(1) by auto
    then have "gptr (gm M3) p = gptr (gm M2) p" unfolding M3_def by (intro resize_outside) auto
    moreover have "p < ?v + i \<or> ?v + i + rest \<le> p" "p < ?v + i \<or> ?v + i + k \<le> p" using p(1) k unfolding rest_def by auto
    ultimately show ?thesis using M1(5) unfolding M2_def by simp
  qed
  let ?x1 = "\<lparr>l_n = ?n, l_npointer = l_npointer x - int (vptrs (vals (?v + i) k M)), l_vec = nv\<rparr>"
  let ?x' = "\<lparr>l_n = ?n - k, l_npointer = l_npointer x - int (vptrs (vals (?v + i) k M)), l_vec = nv\<rparr>"
  define M4 where "M4 = (if l_npointer ?x1 \<noteq> 0 then
      (if nv \<noteq> ?v then alist_restore_gpointers ?x1 0 (?n - k) M3 else alist_restore_gpointers ?x1 i rest M3) else M3)"
  have np: "l_npointer ?x1 = int (vptrs new)" using ok(2) ptrs by simp
  have v4: "vals nv (?n - k) M4 = new" 
  proof -
    have "vals nv (?n - k) M4 = vals nv (?n - k) M3" unfolding M4_def by (simp add: vals_restore)
    with v3 show ?thesis by simp
  qed
  have gm4: "gm M4 = gm M3" unfolding M4_def by simp
  have o4: "own nv (?n - k) M4"
  proof (cases "vptrs new = 0")
    case True
    then show ?thesis using own_vptrs0 [of nv "?n - k" M4] v4 by simp
  next
    case False
    show ?thesis
    proof (cases "nv = ?v")
      case True
      have "own ?v i M" using ok(1) s(2) [of M] by simp
      then have "own ?v i M1" using M1(3) own_cong [of ?v i M1 M] by simp
      then have "own ?v i M2" unfolding M2_def by (simp add: own_move_outside)
      moreover have "M3 = M2" unfolding M3_def by (simp add: True resize_elems_def)
      ultimately have "own ?v i M3" by simp
      then have "own ?v i M4" unfolding M4_def using own_restore_keeps by simp
      moreover have "own (?v + i) rest M4" using True False np own_restore [of ?x1 i rest M3] unfolding M4_def by simp
      ultimately show ?thesis unfolding True nk own_add by simp
    next
      case F: False
      then show ?thesis using False np own_restore [of ?x1 0 "?n - k" M3] unfolding M4_def by simp
    qed
  qed
  have "nrefs E (gptr (gm M4)) = nrefs E (gptr (gm M))" unfolding gm4 using g3 by (intro nrefs_cong) simp
  moreover have "counted (\<lambda>t. nrefs E (gptr (gm M)) t + vrefs new t) (gm M4)"
    unfolding gm4 M3_def M2_def using M1(2) by simp
  moreover have "alist_abs ?x' M4 = new" using v4 by (simp add: alist_abs_def)
  moreover have "vrefs new 0 = 0" using refs [of 0] ok(5) by simp
  ultimately have "alist_ok E ?x' M4" using o4 np E(1) by (simp add: alist_ok_def)
  moreover have "list_store_delete nv f1 f2 x M = Some (?x', M4, [])"
    using assms(4,5) E(2) M1(1)
    unfolding list_store_delete_def Let_def assms(4) assms(6) [symmetric] nat_int k_def [symmetric] rest_def [symmetric]
    by (simp add: M4_def M3_def M2_def)
  moreover have "same_owners (gm M) (gm M4)"
    unfolding gm4 M3_def M2_def
    by (rule same_owners_trans [OF M1(4) same_owners_trans [OF gm_layout(1) resize_layout(1)]])
  ultimately show ?thesis
    using \<open>alist_abs ?x' M4 = new\<close> g3 unfolding k_def [symmetric] new_def [symmetric]
    by (intro op_okI [where x' = ?x' and M' = M4]) (simp_all add: gm4)
qed

lemma alist_anything_eq: "alist_anything nv s argv x M = alist_list nv (A_SYMBOL s # argv) x M"
  by (cases "alist_clear x M") (simp_all add: alist_anything_def alist_list_def Let_def option.map_comp comp_def split_def)

section \<open>Sequences of messages to a list store\<close>

text \<open>
  The messages a list store understands, with the allocator's answers, and what they do. \<open>S_list\<close> is a list at the
  left inlet, \<open>S_store\<close> one at the right inlet.
\<close>

datatype sop =
    S_list nat "atom list"
  | S_store nat "atom list"
  | S_send nat symbol
  | S_insert nat "atom list"
  | S_append nat "atom list"
  | S_prepend nat "atom list"
  | S_delete nat t_float t_float
  | S_get nat t_float t_float
  | S_set "atom list"

fun sop_do :: "(symbol \<Rightarrow> bool) \<Rightarrow> sop \<Rightarrow> alist \<Rightarrow> amem \<Rightarrow> alist lres" where
  "sop_do th (S_list nv argv) x M = list_store_list nv argv x M"
| "sop_do th (S_store nv argv) x M = map_option (\<lambda>(x', M'). (x', M', [])) (alist_list nv argv x M)"
| "sop_do th (S_send nv s) x M = list_store_send th nv s x M"
| "sop_do th (S_insert nv argv) x M = list_store_insert nv argv x M"
| "sop_do th (S_append nv argv) x M = list_store_append nv argv x M"
| "sop_do th (S_prepend nv argv) x M = list_store_prepend nv argv x M"
| "sop_do th (S_delete nv f1 f2) x M = list_store_delete nv f1 f2 x M"
| "sop_do th (S_get nv f1 f2) x M = list_store_get nv f1 f2 x M"
| "sop_do th (S_set argv) x M = list_store_set argv x M"

text \<open>What they mean for a list of values; \<open>see\<close> reads the arguments.\<close>

definition first_index :: "atom list \<Rightarrow> int" where
  "first_index argv = int_of_float (atom_getfloat (hd argv))"

definition delete_count :: "int \<Rightarrow> int \<Rightarrow> int" where
  "delete_count n most = (if n = 0 then 1 else if n < 0 \<or> most < n then most else n)"

fun sop_spec :: "(symbol \<Rightarrow> bool) \<Rightarrow> (atom \<Rightarrow> val) \<Rightarrow> sop \<Rightarrow> val list \<Rightarrow> val list \<times> lout list" where
  "sop_spec th rd (S_list nv argv) vs = (vs, [L_list 0 (map rd argv @ vs)])"
| "sop_spec th rd (S_store nv argv) vs = (map rd argv, [])"
| "sop_spec th rd (S_send nv s) vs = (vs, [if th s then L_send s vs else L_error ''no such object''])"
| "sop_spec th rd (S_insert nv argv) vs =
     (if length argv < 2 then (vs, [])
      else if first_index argv < 0 then (vs, [L_error ''index out of range''])
      else (take (nat (first_index argv)) vs @ map rd (tl argv) @ drop (nat (first_index argv)) vs, []))"
| "sop_spec th rd (S_append nv argv) vs = (vs @ map rd argv, [])"
| "sop_spec th rd (S_prepend nv argv) vs = (map rd argv @ vs, [])"
| "sop_spec th rd (S_delete nv f1 f2) vs =
     (let i = int_of_float f1 in
      if i < 0 \<or> int (length vs) \<le> i then (vs, [L_error ''index out of range''])
      else (take (nat i) vs @ drop (nat i + nat (delete_count (int_of_float f2) (int (length vs) - i))) vs, []))"
| "sop_spec th rd (S_get nv f1 f2) vs =
     (let i = int_of_float f1; n = int_of_float f2; m = (if n = 0 then 1 else if n < 0 then int (length vs) - i else n) in
      (vs, [if i < 0 \<or> n < 0 \<and> m \<le> 0 \<or> int (length vs) < i + m then L_bang 1
            else L_list 0 (take (nat m) (drop (nat i) vs))]))"
| "sop_spec th rd (S_set argv) vs =
     (if length argv < 2 then (vs, [])
      else let i = first_index argv; ws = take (length vs - nat i) (tl argv) in
        if i < 0 \<or> int (length vs) \<le> i then (vs, [L_error ''index out of range''])
        else (take (nat i) vs @ map rd ws @ drop (nat i + length ws) vs, []))"

text \<open>
  What is asked of the allocator and the senders: blocks are free, pointers in messages are in use elsewhere, the
  sum in \<open>get\<close> fits into 32 bits, and \<open>set\<close> overwrites no pointer.
\<close>

fun sop_legal :: "nat set \<Rightarrow> sop \<Rightarrow> alist \<Rightarrow> amem \<Rightarrow> bool" where
  "sop_legal E (S_list nv argv) x M \<longleftrightarrow> args_ok E argv M \<and> free_block E x nv (l_n x)"
| "sop_legal E (S_store nv argv) x M \<longleftrightarrow> args_ok E argv M \<and> nv \<noteq> 0 \<and> (\<forall>p\<in>E. p < nv \<or> nv + length argv \<le> p)"
| "sop_legal E (S_send nv s) x M \<longleftrightarrow> free_block E x nv (l_n x)"
| "sop_legal E (S_insert nv argv) x M \<longleftrightarrow> args_ok E argv M \<and> resized_block E x nv (l_n x + (length argv - 1))"
| "sop_legal E (S_append nv argv) x M \<longleftrightarrow> args_ok E argv M \<and> resized_block E x nv (l_n x + length argv)"
| "sop_legal E (S_prepend nv argv) x M \<longleftrightarrow> args_ok E argv M \<and> resized_block E x nv (l_n x + length argv)"
| "sop_legal E (S_delete nv f1 f2) x M \<longleftrightarrow>
     resized_block E x nv (l_n x - nat (delete_count (int_of_float f2) (int (l_n x) - int_of_float f1)))"
| "sop_legal E (S_get nv f1 f2) x M \<longleftrightarrow>
     l_n x < 2 ^ 31 \<and> int_of_float f1 + int_of_float f2 < 2 ^ 31 - 1 \<and> free_block E x nv (l_n x)"
| "sop_legal E (S_set argv) x M \<longleftrightarrow> args_ok E argv M \<and>
     vptrs (take (length argv - 1) (drop (nat (first_index argv)) (alist_abs x M))) = 0"

lemma unchanged_ok: "alist_ok E x M \<Longrightarrow> op_ok E M (Some (x, M, outs)) (alist_abs x M) outs"
  by (rule op_okI) auto

lemma free_block_le: "free_block E x nv n \<Longrightarrow> m \<le> n \<Longrightarrow> free_block E x nv m"
  unfolding free_block_def by fastforce

lemma args_ok_sub: "args_ok E as M \<Longrightarrow> set bs \<subseteq> set as \<Longrightarrow> args_ok E bs M"
  by (auto simp: args_ok_def)

lemma insert_ok:
  assumes "finite E" "alist_ok E x M" "args_ok E (a # b # rest) M" "resized_block E x nv (l_n x + length (b # rest))"
  shows "op_ok E M (list_store_insert nv (a # b # rest) x M) (fst (sop_spec th (see M) (S_insert nv (a # b # rest)) (alist_abs x M)))
    (snd (sop_spec th (see M) (S_insert nv (a # b # rest)) (alist_abs x M)))"
proof (cases "int_of_float (atom_getfloat a) < 0")
  case True
  then show ?thesis using unchanged_ok [OF assms(2)] by (simp add: list_store_insert_def first_index_def)
next
  case False
  let ?i = "nat (int_of_float (atom_getfloat a))"
  let ?j = "if l_n x < ?i then l_n x else ?i"
  have j: "?j \<le> l_n x" by simp
  have "args_ok E (b # rest) M" using assms(3) by (rule args_ok_sub) auto
  from doinsert_ok [OF assms(1,2) this assms(4) j] show ?thesis
    using False by (simp add: list_store_insert_def first_index_def zless_nat_eq_int_zless split: if_splits)
qed

lemma get_ok:
  assumes "finite E" "alist_ok E x M" "free_block E x nv (l_n x)" "l_n x < 2 ^ 31" "int_of_float f1 + int_of_float f2 < 2 ^ 31 - 1"
  shows "op_ok E M (list_store_get nv f1 f2 x M) (fst (sop_spec th (see M) (S_get nv f1 f2) (alist_abs x M)))
    (snd (sop_spec th (see M) (S_get nv f1 f2) (alist_abs x M)))"
proof -
  let ?i = "int_of_float f1" and ?n = "int_of_float f2"
  have range: "- (2 ^ 31) \<le> int_of_float f \<and> int_of_float f < 2 ^ 31" for f
    by (cases f) (auto simp: int_of_float_def Let_def)
  have cast: "int_cast m = m" if "- (2 ^ 31) \<le> m" "m < 2 ^ 31" for m
    using that by (simp add: int_cast_def)
  show ?thesis
  proof (cases "?i < 0")
    case True
    then show ?thesis using unchanged_ok [OF assms(2)]
      by (simp add: list_store_get_def Let_def)
  next
    case False
    define m where "m = (if ?n = 0 then 1 else if ?n < 0 then int (l_n x) - ?i else ?n)"
    have m: "(if ?n = 0 then 1 else if ?n < 0 then int_cast (int (l_n x) - ?i) else ?n) = m"
      using cast [of "int (l_n x) - ?i"] False range [of f1] assms(4) by (simp add: m_def)
    have s: "int_cast (?i + m) = ?i + m"
      using False range [of f1] range [of f2] assms(4,5) by (intro cast) (auto simp: m_def)
    have spec: "sop_spec th (see M) (S_get nv f1 f2) (alist_abs x M) =
      (alist_abs x M, [if ?n < 0 \<and> m \<le> 0 \<or> int (l_n x) < ?i + m then L_bang 1
        else L_list 0 (take (nat m) (drop (nat ?i) (alist_abs x M)))])"
      using False by (simp add: Let_def m_def)
    show ?thesis
    proof (cases "?n < 0 \<and> m \<le> 0 \<or> int (l_n x) < ?i + m")
      case True
      then show ?thesis unfolding spec using unchanged_ok [OF assms(2)] False
        by (auto simp: list_store_get_def Let_def m s)
    next
      case F: False
      then have "0 \<le> m" by (auto simp: m_def split: if_splits)
      with F False have le: "nat ?i + nat m \<le> l_n x" by linarith
      have "op_ok E M (with_atoms nv x (nat ?i) (nat m) M (\<lambda>as M1. Some (x, M1, [L_list 0 (map (see M1) as)]))) (alist_abs x M)
          [L_list 0 (take (nat m) (drop (nat ?i) (alist_abs x M)))]"
        by (rule with_atoms_ok [OF assms(1,2) le]) (use free_block_le [OF assms(3)] le in auto)
      then show ?thesis unfolding spec using F False by (auto simp: list_store_get_def Let_def m s)
    qed
  qed
qed

lemma set_ok:
  assumes "finite E" "alist_ok E x M" "args_ok E (a # b # rest) M"
    "vptrs (take (length (b # rest)) (drop (nat (first_index (a # b # rest))) (alist_abs x M))) = 0"
  shows "op_ok E M (list_store_set (a # b # rest) x M) (fst (sop_spec th (see M) (S_set (a # b # rest)) (alist_abs x M)))
    (snd (sop_spec th (see M) (S_set (a # b # rest)) (alist_abs x M)))"
proof (cases "first_index (a # b # rest) < 0 \<or> int (l_n x) \<le> first_index (a # b # rest)")
  case True
  then show ?thesis using unchanged_ok [OF assms(2)] by (auto simp: list_store_set_def first_index_def Let_def)
next
  case False
  let ?i = "nat (first_index (a # b # rest))"
  let ?as = "take (l_n x - ?i) (b # rest)"
  have len: "(if l_n x - ?i < length (b # rest) then l_n x - ?i else length (b # rest)) = length ?as" by simp
  have t: "take (length ?as) (b # rest) = ?as" by (simp add: min_def)
  have "args_ok E ?as M" using assms(3) by (rule args_ok_sub) (auto dest: in_set_takeD)
  moreover have "?i + length ?as \<le> l_n x" using False by auto
  moreover have "vptrs (take (length ?as) (drop ?i (alist_abs x M))) = 0"
  proof -
    have "take (length (b # rest)) (drop ?i (alist_abs x M)) = take (length ?as) (drop ?i (alist_abs x M))"
      by (auto simp: min_def)
    with assms(4) show ?thesis by simp
  qed
  ultimately have "op_ok E M (map_option (\<lambda>(x', M'). (x', M', [])) (alist_copyin x ?as ?i M))
    (take ?i (alist_abs x M) @ map (see M) ?as @ drop (?i + length ?as) (alist_abs x M)) []"
    by (rule copyin_ok [OF assms(1,2)])
  moreover have "list_store_set (a # b # rest) x M = map_option (\<lambda>(x', M'). (x', M', [])) (alist_copyin x ?as ?i M)"
    using False by (simp add: list_store_set_def Let_def len t first_index_def del: take_Suc_Cons length_Cons length_take)
  ultimately show ?thesis using False by (simp add: Let_def)
qed

lemma sop_ok:
  assumes "finite E" "alist_ok E x M" "sop_legal E op x M"
  shows "op_ok E M (sop_do th op x M) (fst (sop_spec th (see M) op (alist_abs x M))) (snd (sop_spec th (see M) op (alist_abs x M)))"
proof (cases op)
  case (S_list nv argv)
  have a: "args_ok E argv M" "free_block E x nv (l_n x)" using S_list assms(3) by simp_all
  have "op_ok E M (with_atoms nv x 0 (l_n x) M (\<lambda>as M1. Some (x, M1, [L_list 0 (map (see M1) (argv @ as))]))) (alist_abs x M)
      [L_list 0 (map (see M) argv @ alist_abs x M)]"
  proof (rule with_atoms_ok [OF assms(1,2)])
    fix M1 as assume g: "\<forall>p\<in>E. gptr (gm M1) p = gptr (gm M) p" and v: "map (see M1) as = take (l_n x) (drop 0 (alist_abs x M))"
    show "[L_list 0 (map (see M1) (argv @ as))] = [L_list 0 (map (see M) argv @ alist_abs x M)]"
      by (simp only: map_append map_see_cong [OF a(1) g] v) simp
  qed (use a(2) in simp_all)
  then show ?thesis using S_list by (simp add: list_store_list_def)
next
  case (S_store nv argv)
  then show ?thesis using alist_list_ok [OF assms(1,2)] assms(3) by simp
next
  case (S_send nv s)
  show ?thesis
  proof (cases "th s")
    case True
    have "op_ok E M (with_atoms nv x 0 (l_n x) M (\<lambda>as M1. Some (x, M1, [L_send s (map (see M1) as)]))) (alist_abs x M)
        [L_send s (alist_abs x M)]"
      by (rule with_atoms_ok [OF assms(1,2)]) (use S_send assms(3) in auto)
    then show ?thesis using S_send True by (simp add: list_store_send_def)
  next
    case False
    then show ?thesis using S_send unchanged_ok [OF assms(2)] by (simp add: list_store_send_def)
  qed
next
  case (S_insert nv argv)
  show ?thesis
  proof (cases "\<exists>a b rest. argv = a # b # rest")
    case True
    then obtain a b rest where argv: "argv = a # b # rest" by blast
    from assms(3) S_insert argv have "args_ok E (a # b # rest) M" "resized_block E x nv (l_n x + length (b # rest))" by simp_all
    from insert_ok [OF assms(1,2) this] show ?thesis unfolding S_insert argv sop_do.simps .
  next
    case False
    then have "list_store_insert nv argv x M = Some (x, M, [])" "length argv < 2"
      by (auto simp: list_store_insert_def split: list.splits) (metis One_nat_def length_Cons lessI list.size(3) neq_Nil_conv numeral_2_eq_2 zero_less_Suc)
    then show ?thesis using S_insert unchanged_ok [OF assms(2)] by simp
  qed
next
  case (S_append nv argv)
  then show ?thesis using doinsert_ok [OF assms(1,2), of argv nv "l_n x"] assms(3) by (simp add: list_store_append_def)
next
  case (S_prepend nv argv)
  then show ?thesis using doinsert_ok [OF assms(1,2), of argv nv 0] assms(3) by (simp add: list_store_prepend_def)
next
  case (S_delete nv f1 f2)
  show ?thesis
  proof (cases "int_of_float f1 < 0 \<or> int (l_n x) \<le> int_of_float f1")
    case True
    then show ?thesis using S_delete unchanged_ok [OF assms(2)] by (auto simp: list_store_delete_def Let_def)
  next
    case False
    define i where "i = nat (int_of_float f1)"
    have i: "int_of_float f1 = int i" "i < l_n x" using False by (auto simp: i_def)
    from delete_ok [OF assms(1,2) _ i, of nv "delete_count (int_of_float f2) (int (l_n x) - int i)" f2] assms(3) S_delete i
    show ?thesis by (simp add: delete_count_def Let_def)
  qed
next
  case (S_get nv f1 f2)
  then show ?thesis using get_ok [OF assms(1,2)] assms(3) by simp
next
  case (S_set argv)
  show ?thesis
  proof (cases "\<exists>a b rest. argv = a # b # rest")
    case True
    then obtain a b rest where argv: "argv = a # b # rest" by blast
    from assms(3) S_set argv have "args_ok E (a # b # rest) M"
      "vptrs (take (length (b # rest)) (drop (nat (first_index (a # b # rest))) (alist_abs x M))) = 0" by simp_all
    from set_ok [OF assms(1,2) this] show ?thesis unfolding S_set argv sop_do.simps .
  next
    case False
    then have "list_store_set argv x M = Some (x, M, [])" "length argv < 2"
      by (auto simp: list_store_set_def split: list.splits) (metis One_nat_def length_Cons lessI list.size(3) neq_Nil_conv numeral_2_eq_2 zero_less_Suc)
    then show ?thesis using S_set unchanged_ok [OF assms(2)] by simp
  qed
qed

fun store_legal :: "nat set \<Rightarrow> (symbol \<Rightarrow> bool) \<Rightarrow> sop list \<Rightarrow> alist \<Rightarrow> amem \<Rightarrow> bool" where
  "store_legal E th [] x M \<longleftrightarrow> True"
| "store_legal E th (op # ops) x M \<longleftrightarrow> sop_legal E op x M \<and>
     (case sop_do th op x M of None \<Rightarrow> True | Some (x', M', outs) \<Rightarrow> store_legal E th ops x' M')"

fun store_do :: "(symbol \<Rightarrow> bool) \<Rightarrow> sop list \<Rightarrow> alist \<Rightarrow> amem \<Rightarrow> alist lres" where
  "store_do th [] x M = Some (x, M, [])"
| "store_do th (op # ops) x M =
     Option.bind (sop_do th op x M) (\<lambda>(x1, M1, outs). map_option (\<lambda>(x2, M2, outs'). (x2, M2, outs @ outs')) (store_do th ops x1 M1))"

fun store_spec :: "(symbol \<Rightarrow> bool) \<Rightarrow> (atom \<Rightarrow> val) \<Rightarrow> sop list \<Rightarrow> val list \<Rightarrow> val list \<times> lout list" where
  "store_spec th rd [] vs = (vs, [])"
| "store_spec th rd (op # ops) vs =
     (let (vs1, outs) = sop_spec th rd op vs; (vs2, outs') = store_spec th rd ops vs1 in (vs2, outs @ outs'))"

lemma sop_spec_cong:
  assumes "sop_legal E op x M" "\<forall>p\<in>E. gptr (gm M) p = gptr (gm M0) p"
  shows "sop_spec th (see M) op vs = sop_spec th (see M0) op vs"
proof -
  have "map (see M) as = map (see M0) as" if "args_ok E as M" for as
    by (rule map_see_cong [OF that, symmetric]) (use assms(2) in simp)
  moreover have "args_ok E (tl as) M" "args_ok E (take n (tl as)) M" if "args_ok E as M" for as n
  proof -
    have "set (tl as) \<subseteq> set as" by (cases as) auto
    then show "args_ok E (tl as) M" "args_ok E (take n (tl as)) M"
      using args_ok_sub [OF that] set_take_subset [of n "tl as"] by blast+
  qed
  ultimately show ?thesis using assms(1) by (cases op) (auto simp: Let_def)
qed

lemma store_refines:
  assumes "finite E" "alist_ok E x M" "store_legal E th ops x M" "\<forall>p\<in>E. gptr (gm M) p = gptr (gm M0) p"
  shows "\<exists>x' M' outs. store_do th ops x M = Some (x', M', outs) \<and> alist_ok E x' M' \<and>
    store_spec th (see M0) ops (alist_abs x M) = (alist_abs x' M', outs) \<and> same_owners (gm M) (gm M')"
  using assms(2-4)
proof (induction ops arbitrary: x M)
  case (Cons op ops)
  have l: "sop_legal E op x M" using Cons.prems(2) by simp
  obtain x1 M1 where M1: "sop_do th op x M = Some (x1, M1, snd (sop_spec th (see M) op (alist_abs x M)))" "alist_ok E x1 M1"
    "alist_abs x1 M1 = fst (sop_spec th (see M) op (alist_abs x M))" "\<forall>p\<in>E. gptr (gm M1) p = gptr (gm M) p"
    "same_owners (gm M) (gm M1)"
    using sop_ok [OF assms(1) Cons.prems(1) l, of th] unfolding op_ok_def by blast
  have "store_legal E th ops x1 M1" using Cons.prems(2) M1(1) by simp
  from Cons.IH [OF M1(2) this] M1(4) Cons.prems(3) obtain x' M' outs where
    "store_do th ops x1 M1 = Some (x', M', outs)" "alist_ok E x' M'"
    "store_spec th (see M0) ops (alist_abs x1 M1) = (alist_abs x' M', outs)" "same_owners (gm M1) (gm M')"
    by auto
  then show ?case using M1(1,3) same_owners_trans [OF M1(5)] sop_spec_cong [OF l Cons.prems(3)]
    by (auto simp: split_def Let_def)
qed simp


definition demo_amem :: amem where
  "demo_amem = \<lparr>gm = demo_mem, latom = (\<lambda>p. A_NULL)\<rparr>"

lemma demo_ok: "alist_ok {9} alist_init demo_amem"
  using reaches_inv [OF demo_reaches]
  by (simp add: alist_ok_def alist_init_def alist_abs_def own_def gmem_inv_def demo_amem_def)

lemma demo_store:
  "\<exists>M1. alist_list 100 [A_POINTER 9, A_FLOAT (FFin 1)] alist_init demo_amem = Some (\<lparr>l_n = 2, l_npointer = 1, l_vec = 100\<rparr>, M1)"
  by (simp add: demo_amem_def demo_mem_eq alist_init_def alist_list_def alist_clear_def put_elem_def gpointer_copy_def
      stub_ref_def zero_elems_def Let_def)

lemma demo_append:
  "\<exists>M2. list_store_append 200 [A_SYMBOL s] \<lparr>l_n = 2, l_npointer = 1, l_vec = 100\<rparr> M1 = Some (\<lparr>l_n = 3, l_npointer = 1, l_vec = 200\<rparr>, M2, [])"
  by (simp add: list_store_append_def list_store_doinsert_def alist_copyin_def Let_def)

lemma demo_legal:
  "store_legal {9} th [S_store 100 [A_POINTER 9, A_FLOAT (FFin 1)], S_append 200 [A_SYMBOL ''a''], S_delete 300 (FFin 1) (FFin 1)]
     alist_init demo_amem"
proof -
  obtain M1 where 1: "alist_list 100 [A_POINTER 9, A_FLOAT (FFin 1)] alist_init demo_amem = Some (\<lparr>l_n = 2, l_npointer = 1, l_vec = 100\<rparr>, M1)"
    using demo_store by blast
  obtain M2 where 2: "list_store_append 200 [A_SYMBOL ''a''] \<lparr>l_n = 2, l_npointer = 1, l_vec = 100\<rparr> M1 =
    Some (\<lparr>l_n = 3, l_npointer = 1, l_vec = 200\<rparr>, M2, [])"
    using demo_append by blast
  have "sop_legal {9} (S_store 100 [A_POINTER 9, A_FLOAT (FFin 1)]) alist_init demo_amem"
    by (simp add: args_ok_def demo_amem_def demo_mem_eq)
  moreover have "sop_legal {9} (S_append 200 [A_SYMBOL ''a'']) \<lparr>l_n = 2, l_npointer = 1, l_vec = 100\<rparr> M1"
    by (simp add: args_ok_def resized_block_def free_block_def)
  moreover have "sop_legal {9} (S_delete 300 (FFin 1) (FFin 1)) \<lparr>l_n = 3, l_npointer = 1, l_vec = 200\<rparr> M2"
    by (simp add: resized_block_def free_block_def delete_count_def int_of_float_def)
  ultimately show ?thesis using 1 2 by (simp del: sop_legal.simps split: option.split)
qed


section \<open>Further facts\<close>

text \<open>\<open>list fromsymbol\<close> and \<open>list tosymbol\<close> are inverse to each other.\<close>

lemma int_of_float_nat: "n < 2 ^ 31 \<Longrightarrow> int_of_float (FFin (of_nat n)) = int n"
  by (simp add: int_of_float_def Let_def)

lemma code_bound: "code c < 256"
  using of_char_mod_256 [of c] by (metis code_def mod_less_divisor zero_less_numeral)

lemma tosymbol_fromsymbol:
  assumes "NUL \<notin> set s"
  shows "list_fromsymbol_symbol s = [L_list 0 (map V_atom as)] \<Longrightarrow> list_tosymbol_list as = [L_symbol 0 s]"
proof -
  let ?f = "\<lambda>c. A_FLOAT (FFin (of_nat (code c)))"
  assume "list_fromsymbol_symbol s = [L_list 0 (map V_atom as)]"
  then have "map V_atom as = map V_atom (map ?f s)" by (simp add: list_fromsymbol_symbol_def comp_def)
  moreover have "inj V_atom" by (simp add: inj_def)
  ultimately have as: "as = map ?f s" by (metis inj_mapD map_injective inj_on_map_eq_map map_map list.inj_map_strong val.inject(1))
  have "char_of (nat (int_of_float (atom_getfloatarg i as) mod 256)) = s ! i" if "i < length s" for i
  proof -
    have "atom_getfloatarg i as = FFin (of_nat (code (s ! i)))" using that by (simp add: as atom_getfloatarg_def)
    moreover have "code (s ! i) < 2 ^ 31" using code_bound [of "s ! i"] by simp
    ultimately have "int_of_float (atom_getfloatarg i as) = int (code (s ! i))" using int_of_float_nat by simp
    then show ?thesis using code_bound [of "s ! i"] by (simp add: code_def)
  qed
  then have "map (\<lambda>i. char_of (nat (int_of_float (atom_getfloatarg i as) mod 256))) [0..<length as] = s"
    by (intro nth_equalityI) (simp_all add: as)
  then show ?thesis using assms by (simp add: list_tosymbol_list_def)
qed

text \<open>The two halves of a split list make up the list.\<close>

lemma split_joins:
  "nat (int_of_float f) \<le> length argv \<Longrightarrow>
   \<exists>us ws. list_split_list f argv M = [L_list 1 ws, L_list 0 us] \<and> us @ ws = map (see M) argv \<and> length us = nat (int_of_float f)"
  by (auto simp: list_split_list_def Let_def simp flip: map_append)

text \<open>
  \<open>set\<close> writes over an element without releasing the pointer it held: the stub keeps counting it, and so does
  the list.
\<close>

lemma set_keeps_count:
  assumes "0 < l_n x"
  shows "\<exists>M'. list_store_set [A_FLOAT (FFin 0), A_FLOAT f] x M = Some (x, M', []) \<and> gm M' = gm M \<and> latom M' (l_vec x) = A_FLOAT f"
  using assms by (simp add: list_store_set_def alist_copyin_def atom_getfloat_def int_of_float_def Let_def)

text \<open>The sum of the two numbers of \<open>get\<close> may wrap around and pass the range check.\<close>

lemma get_wraps:
  assumes "l_npointer x = 0" "l_n x < 1000"
  shows "list_store_get nv (FFin 2147483520) (FFin 2147483520) x M = None"
  using assms by (simp add: list_store_get_def int_of_float_def int_cast_def with_atoms_def alist_toatoms_def Let_def)

end
